(* ===== verification/Prelude.thy ===== *)
theory Prelude
  imports Complex_Main "HOL-Library.AList" "HOL-Library.List_Lexorder" "HOL-Library.Char_ord"
begin

text \<open>
  Shared vocabulary of the development: the Python containers of the source as HOL lists
  (an insertion-ordered \<open>dict\<close> is an association list, a \<open>set\<close> a duplicate-free list),
  the errors the source raises, and the generic lemmas about them that the component
  theories use.
\<close>

section \<open>Errors\<close>

text \<open>
  The exceptions the modelled code raises. \<open>BaseError\<close> is what \<open>build_error\<close> produces:
  it carries the name of the \<open>StatusCode\<close> member. The built-in exceptions keep their
  Python names. Error messages are not modelled.
\<close>

datatype py_error =
    BaseError string
  | KeyError
  | ValueError
  | TypeError
  | IndexError
  | AttributeError
  | RecursionError
  | RuntimeError
  | TimeoutError
  | UnboundLocalError

type_synonym 'a res = "py_error + 'a"

text \<open>The result of an operation that returns a set, up to the order of its elements.\<close>

fun res_set :: "'a list res \<Rightarrow> 'a set res" where
  "res_set (Inl e) = Inl e"
| "res_set (Inr xs) = Inr (set xs)"

section \<open>Dictionaries\<close>

text \<open>
  A Python \<open>dict\<close> keeps insertion order: assigning to a present key keeps its position, a
  new key goes last. \<open>AList.update\<close> does exactly that.
\<close>

type_synonym ('k, 'v) pydict = "('k \<times> 'v) list"

abbreviation dget :: "('k, 'v) pydict \<Rightarrow> 'k \<Rightarrow> 'v option" where
  "dget d k \<equiv> map_of d k"

abbreviation dset :: "'k \<Rightarrow> 'v \<Rightarrow> ('k, 'v) pydict \<Rightarrow> ('k, 'v) pydict" where
  "dset k v d \<equiv> AList.update k v d"

abbreviation ddel :: "'k \<Rightarrow> ('k, 'v) pydict \<Rightarrow> ('k, 'v) pydict" where
  "ddel k d \<equiv> AList.delete k d"

abbreviation dkeys :: "('k, 'v) pydict \<Rightarrow> 'k list" where
  "dkeys d \<equiv> map fst d"

abbreviation dwf :: "('k, 'v) pydict \<Rightarrow> bool" where
  "dwf d \<equiv> distinct (map fst d)"

text \<open>\<open>d.get(k, default)\<close>, which is also how a \<open>defaultdict\<close> reads.\<close>

definition dget_default :: "'v \<Rightarrow> ('k, 'v) pydict \<Rightarrow> 'k \<Rightarrow> 'v" where
  "dget_default v0 d k = (case dget d k of None \<Rightarrow> v0 | Some v \<Rightarrow> v)"

named_theorems dict_simps

lemma dget_dset [simp, dict_simps]:
  "dget (dset k v d) k' = (if k' = k then Some v else dget d k')"
  by (simp add: update_conv')

lemma dget_ddel [simp, dict_simps]:
  "dget (ddel k d) k' = (if k' = k then None else dget d k')"
  by (simp add: delete_conv')

lemma dwf_dset [simp, intro]: "dwf d \<Longrightarrow> dwf (dset k v d)"
  by (rule distinct_update)

lemma dwf_ddel [simp, intro]: "dwf d \<Longrightarrow> dwf (ddel k d)"
  by (rule distinct_delete)

lemma dkeys_dset [simp, dict_simps]: "fst ` set (dset k v d) = insert k (fst ` set d)"
  by (simp add: dom_update)

lemma dkeys_ddel [simp, dict_simps]: "fst ` set (ddel k d) = fst ` set d - {k}"
  by (induction d) (auto simp: AList.delete_eq)

lemma dget_in_keys: "dget d k = Some v \<Longrightarrow> k \<in> fst ` set d"
  by (metis domI dom_map_of_conv_image_fst)

lemma dget_None_iff [dict_simps]: "dget d k = None \<longleftrightarrow> k \<notin> fst ` set d"
  by (simp add: map_of_eq_None_iff)

lemma in_keys_dget: "k \<in> fst ` set d \<Longrightarrow> \<exists>v. dget d k = Some v"
  by (metis map_of_eq_None_iff not_None_eq)

lemma in_keys_iff: "k \<in> fst ` set d \<longleftrightarrow> dget d k \<noteq> None"
  by (simp add: dget_None_iff)

lemma dget_fold_ddel: "dget (fold ddel ks m) k = (if k \<in> set ks then None else dget m k)"
  by (induction ks arbitrary: m) auto

lemma dwf_fold_ddel: "dwf m \<Longrightarrow> dwf (fold ddel ks m)"
  by (induction ks arbitrary: m) auto

lemma dwf_mem_dget: "dwf d \<Longrightarrow> (k, v) \<in> set d \<longleftrightarrow> dget d k = Some v"
  by simp

text \<open>A lookup stays a lookup: these rules would turn it into membership of the item list.\<close>

declare map_of_eq_Some_iff [simp del] Some_eq_map_of_iff [simp del]

lemma dset_new: "k \<notin> fst ` set d \<Longrightarrow> dset k v d = d @ [(k, v)]"
  by (induction d) auto

lemma dget_default_dset [simp]:
  "dget_default v0 (dset k v m) k' = (if k' = k then v else dget_default v0 m k')"
  by (simp add: dget_default_def)

lemma dget_default_ddel [simp]:
  "dget_default v0 (ddel k m) k' = (if k' = k then v0 else dget_default v0 m k')"
  by (simp add: dget_default_def)

lemma dget_default_Some [simp]: "dget m k = Some v \<Longrightarrow> dget_default v0 m k = v"
  by (simp add: dget_default_def)

lemma dget_default_None [simp]: "dget m k = None \<Longrightarrow> dget_default v0 m k = v0"
  by (simp add: dget_default_def)

section \<open>Sets\<close>

text \<open>
  A Python \<open>set\<close> is a duplicate-free list. Python leaves the iteration order of a set
  unspecified; where the order of an iteration can be observed the model takes it as a
  parameter constrained by \<open>set_order\<close> below.
\<close>

definition sadd :: "'a \<Rightarrow> 'a list \<Rightarrow> 'a list" where
  "sadd x xs = (if x \<in> set xs then xs else xs @ [x])"

definition sdiscard :: "'a \<Rightarrow> 'a list \<Rightarrow> 'a list" where
  "sdiscard x xs = filter (\<lambda>y. y \<noteq> x) xs"

definition sunion :: "'a list \<Rightarrow> 'a list \<Rightarrow> 'a list" where
  "sunion xs ys = fold sadd ys xs"

definition sinter :: "'a list \<Rightarrow> 'a list \<Rightarrow> 'a list" where
  "sinter xs ys = filter (\<lambda>x. x \<in> set ys) xs"

definition sdiff :: "'a list \<Rightarrow> 'a list \<Rightarrow> 'a list" where
  "sdiff xs ys = filter (\<lambda>x. x \<notin> set ys) xs"

definition pyset :: "'a list \<Rightarrow> 'a list" where
  "pyset xs = sunion [] xs"

text \<open>An iteration order: a function that lists the elements of a set, each once.\<close>

definition set_order :: "('a list \<Rightarrow> 'a list) \<Rightarrow> bool" where
  "set_order f \<longleftrightarrow> (\<forall>xs. distinct xs \<longrightarrow> distinct (f xs) \<and> set (f xs) = set xs)"

named_theorems pyset_simps

lemma set_sadd [simp, pyset_simps]: "set (sadd x xs) = insert x (set xs)"
  by (auto simp: sadd_def)

lemma distinct_sadd [simp]: "distinct xs \<Longrightarrow> distinct (sadd x xs)"
  by (auto simp: sadd_def)

lemma set_sdiscard [simp, pyset_simps]: "set (sdiscard x xs) = set xs - {x}"
  by (auto simp: sdiscard_def)

lemma distinct_sdiscard [simp]: "distinct xs \<Longrightarrow> distinct (sdiscard x xs)"
  by (simp add: sdiscard_def)

lemma set_fold_sadd: "set (fold sadd ys xs) = set xs \<union> set ys"
  by (induction ys arbitrary: xs) auto

lemma distinct_fold_sadd: "distinct xs \<Longrightarrow> distinct (fold sadd ys xs)"
  by (induction ys arbitrary: xs) auto

lemma set_sunion [simp, pyset_simps]: "set (sunion xs ys) = set xs \<union> set ys"
  by (simp add: sunion_def set_fold_sadd)

lemma distinct_sunion [simp]: "distinct xs \<Longrightarrow> distinct (sunion xs ys)"
  by (simp add: sunion_def distinct_fold_sadd)

lemma set_sinter [simp, pyset_simps]: "set (sinter xs ys) = set xs \<inter> set ys"
  by (auto simp: sinter_def)

lemma distinct_sinter [simp]: "distinct xs \<Longrightarrow> distinct (sinter xs ys)"
  by (simp add: sinter_def)

lemma set_sdiff [simp, pyset_simps]: "set (sdiff xs ys) = set xs - set ys"
  by (auto simp: sdiff_def)

lemma distinct_sdiff [simp]: "distinct xs \<Longrightarrow> distinct (sdiff xs ys)"
  by (simp add: sdiff_def)

lemma set_pyset [simp, pyset_simps]: "set (pyset xs) = set xs"
  by (simp add: pyset_def)

lemma distinct_pyset [simp]: "distinct (pyset xs)"
  by (simp add: pyset_def)

lemma set_orderD:
  assumes "set_order f" and "distinct xs"
  shows "distinct (f xs)" and "set (f xs) = set xs"
  using assms by (simp_all add: set_order_def)

lemma set_order_id [simp]: "set_order (\<lambda>xs. xs)"
  by (simp add: set_order_def)

lemma set_order_rev [simp]: "set_order rev"
  by (simp add: set_order_def)

lemma sdiscard_eq_Nil: "sdiscard x xs = [] \<longleftrightarrow> set xs \<subseteq> {x}"
  by (auto simp: sdiscard_def filter_empty_conv)

section \<open>Strings\<close>

text \<open>\<open>s.startswith(p)\<close>.\<close>

definition startswith :: "string \<Rightarrow> string \<Rightarrow> bool" where
  "startswith s p \<longleftrightarrow> take (length p) s = p"

text \<open>\<open>sep.join(parts)\<close> and \<open>s.split(c)\<close> for a one-character separator.\<close>

fun join :: "string \<Rightarrow> string list \<Rightarrow> string" where
  "join sep [] = []"
| "join sep [p] = p"
| "join sep (p # q # ps) = p @ sep @ join sep (q # ps)"

fun split_on :: "char \<Rightarrow> string \<Rightarrow> string list" where
  "split_on c [] = [[]]"
| "split_on c (x # xs) =
     (if x = c then [] # split_on c xs
      else (case split_on c xs of [] \<Rightarrow> [[x]] | p # ps \<Rightarrow> (x # p) # ps))"

lemma startswith_append [simp]: "startswith (p @ s) p"
  by (simp add: startswith_def)

lemma startswith_iff: "startswith s p \<longleftrightarrow> (\<exists>t. s = p @ t)"
  by (metis append_eq_conv_conj append_take_drop_id startswith_def)

lemma split_on_not_Nil [simp]: "split_on c s \<noteq> []"
  by (cases s) (auto split: list.splits)

lemma split_on_no_sep: "c \<notin> set s \<Longrightarrow> split_on c s = [s]"
  by (induction s) auto

lemma split_on_append: "c \<notin> set p \<Longrightarrow> split_on c (p @ c # s) = p # split_on c s"
  by (induction p) auto

lemma split_on_join:
  "ps \<noteq> [] \<Longrightarrow> (\<And>p. p \<in> set ps \<Longrightarrow> c \<notin> set p) \<Longrightarrow> split_on c (join [c] ps) = ps"
proof (induction "[c]" ps rule: join.induct)
  case 1
  then show ?case by simp
next
  case (2 p)
  then show ?case by (simp add: split_on_no_sep)
next
  case (3 p q ps)
  then show ?case by (simp add: split_on_append)
qed

section \<open>Folds\<close>

lemma fold_invariant_list:
  "P s \<Longrightarrow> (\<And>x s. x \<in> set xs \<Longrightarrow> P s \<Longrightarrow> P (f x s)) \<Longrightarrow> P (fold f xs s)"
  by (induction xs arbitrary: s) auto

section \<open>Strings\<close>

text \<open>\<open>str.strip\<close> on the characters of the model.\<close>

definition is_space :: "char \<Rightarrow> bool" where
  "is_space c \<longleftrightarrow> (let n = of_char c :: nat in n \<in> {9, 10, 11, 12, 13, 28, 29, 30, 31, 32, 133, 160})"

definition strip :: "string \<Rightarrow> string" where
  "strip s = rev (dropWhile is_space (rev (dropWhile is_space s)))"

end
