(* ===== verification/Tag_Manager.thy ===== *)
theory Tag_Manager
  imports Prelude
begin

text \<open>
  The resource tag index \<open>TagMgr\<close> of \<open>core/runner/resources_manager/tag_manager.py\<close>: two
  dictionaries, resource to tags and tag to resources, that every operation has to keep
  inverse to each other, and the \<open>GLOBAL\<close> tag, which excludes every other tag. The lists
  that stand for Python sets are duplicate-free; no theorem depends on their order.
\<close>

section \<open>State and data\<close>

type_synonym tag = string

definition GLOBAL :: tag where
  "GLOBAL = ''__global__''"

datatype tag_match_strategy = MatchALL | MatchANY

datatype tag_update_strategy = MERGE | REPLACE

datatype tag_arg = OneTag tag | TagList "tag list"

record tag_mgr =
  resource_tags :: "(string, tag list) pydict"
  tag_to_resource :: "(tag, string list) pydict"

definition tag_mgr_init :: tag_mgr where
  "tag_mgr_init = \<lparr>resource_tags = [], tag_to_resource = [(GLOBAL, [])]\<rparr>"

text \<open>The \<open>StatusCode\<close> members the component raises.\<close>

definition tag_remove_resource_tag_error :: py_error where
  "tag_remove_resource_tag_error = BaseError ''RESOURCE_TAG_REMOVE_RESOURCE_TAG_ERROR''"

definition tag_replace_error :: py_error where
  "tag_replace_error = BaseError ''RESOURCE_TAG_REPLACE_RESOURCE_TAG_ERROR''"

definition tag_remove_tag_error :: py_error where
  "tag_remove_tag_error = BaseError ''RESOURCE_TAG_REMOVE_TAG_ERROR''"

definition tag_find_error :: py_error where
  "tag_find_error = BaseError ''RESOURCE_TAG_FIND_RESOURCE_ERROR''"

section \<open>Private operations\<close>

fun normalize_tags :: "tag_arg \<Rightarrow> tag list" where
  "normalize_tags (TagList ts) = pyset ts"
| "normalize_tags (OneTag t) = [t]"

definition is_builtin_tag :: "tag \<Rightarrow> bool" where
  "is_builtin_tag t \<longleftrightarrow> t = GLOBAL"

text \<open>
  The two loop bodies that the private operations share: dropping a resource from a tag's
  entry (and the entry itself once it is empty, unless it is \<open>GLOBAL\<close>), and adding it.
\<close>

definition unlink :: "string \<Rightarrow> tag \<Rightarrow> (tag, string list) pydict \<Rightarrow> (tag, string list) pydict" where
  "unlink rid t m =
     (case dget m t of
        None \<Rightarrow> m
      | Some rs \<Rightarrow>
          (let rs' = sdiscard rid rs
           in if rs' = [] \<and> t \<noteq> GLOBAL then ddel t m else dset t rs' m))"

definition link :: "string \<Rightarrow> tag \<Rightarrow> (tag, string list) pydict \<Rightarrow> (tag, string list) pydict" where
  "link rid t m = dset t (sadd rid (dget_default [] m t)) m"

definition set_global_resource :: "string \<Rightarrow> tag_mgr \<Rightarrow> tag list \<times> tag_mgr" where
  "set_global_resource rid s =
     (let old_tags = dget_default [] (resource_tags s) rid;
          t2r = fold (unlink rid) old_tags (tag_to_resource s)
      in (old_tags,
          s\<lparr>resource_tags := dset rid [GLOBAL] (resource_tags s),
            tag_to_resource := link rid GLOBAL t2r\<rparr>))"

definition add_resource_tags :: "string \<Rightarrow> tag list \<Rightarrow> tag_mgr \<Rightarrow> tag list \<times> tag_mgr" where
  "add_resource_tags rid tags_to_add s =
     (case dget (resource_tags s) rid of
        None \<Rightarrow> ([], s)
      | Some current_tags \<Rightarrow>
          if GLOBAL \<in> set current_tags then ([GLOBAL], s)
          else (let new_tags = sunion current_tags tags_to_add
                in (new_tags,
                    s\<lparr>resource_tags := dset rid new_tags (resource_tags s),
                      tag_to_resource := fold (link rid) tags_to_add (tag_to_resource s)\<rparr>)))"

definition remove_resource_priv :: "string \<Rightarrow> tag_mgr \<Rightarrow> tag list \<times> tag_mgr" where
  "remove_resource_priv rid s =
     (case dget (resource_tags s) rid of
        None \<Rightarrow> ([], s)
      | Some tags \<Rightarrow>
          (tags,
           s\<lparr>resource_tags := ddel rid (resource_tags s),
             tag_to_resource := fold (unlink rid) tags (tag_to_resource s)\<rparr>))"

text \<open>
  \<open>_remove_resource_tags\<close>: the loop runs over the tags to remove and mutates the stored tag
  set as it goes; the resource is dropped once it has no tag left.
\<close>

definition remove_resource_tags_step ::
  "string \<Rightarrow> tag \<Rightarrow> tag list \<times> (tag, string list) pydict \<Rightarrow> tag list \<times> (tag, string list) pydict"
where
  "remove_resource_tags_step rid t = (\<lambda>(current, m).
     if t \<in> set current then (sdiscard t current, unlink rid t m) else (current, m))"

definition remove_resource_tags_priv ::
  "string \<Rightarrow> tag list \<Rightarrow> tag_mgr \<Rightarrow> tag list \<times> tag_mgr" where
  "remove_resource_tags_priv rid tags_to_remove s =
     (case dget (resource_tags s) rid of
        None \<Rightarrow> ([], s)
      | Some current_tags \<Rightarrow>
          (let (left, t2r) = fold (remove_resource_tags_step rid) tags_to_remove
                               (current_tags, tag_to_resource s);
               rt = dset rid left (resource_tags s)
           in (left,
               s\<lparr>resource_tags := (if left = [] then ddel rid rt else rt),
                 tag_to_resource := t2r\<rparr>)))"

definition replace_resource_tags :: "string \<Rightarrow> tag list \<Rightarrow> tag_mgr \<Rightarrow> tag list \<times> tag_mgr" where
  "replace_resource_tags rid new_tags s =
     (case dget (resource_tags s) rid of
        None \<Rightarrow> ([], s)
      | Some old_tags \<Rightarrow>
          (let t2r = fold (unlink rid) old_tags (tag_to_resource s)
           in (new_tags,
               s\<lparr>resource_tags := dset rid new_tags (resource_tags s),
                 tag_to_resource := fold (link rid) new_tags t2r\<rparr>)))"

definition untag_resource :: "tag \<Rightarrow> string \<Rightarrow> (string, tag list) pydict \<Rightarrow> (string, tag list) pydict"
where
  "untag_resource t rid m =
     (case dget m rid of
        None \<Rightarrow> m
      | Some ts \<Rightarrow>
          (let ts' = sdiscard t ts in if ts' = [] then ddel rid m else dset rid ts' m))"

definition remove_tag_priv :: "tag \<Rightarrow> tag_mgr \<Rightarrow> string list \<times> tag_mgr" where
  "remove_tag_priv t s =
     (case dget (tag_to_resource s) t of
        None \<Rightarrow> ([], s)
      | Some affected \<Rightarrow>
          (affected,
           s\<lparr>resource_tags := fold (untag_resource t) affected (resource_tags s),
             tag_to_resource := ddel t (tag_to_resource s)\<rparr>))"

definition find_resources_with_all_tags :: "tag list \<Rightarrow> bool \<Rightarrow> tag_mgr \<Rightarrow> string list res" where
  "find_resources_with_all_tags required skip s =
     (case required of
        [] \<Rightarrow> Inr []
      | first_tag # _ \<Rightarrow>
          if (\<exists>t \<in> set required. dget (tag_to_resource s) t = None \<and> \<not> is_builtin_tag t \<and> \<not> skip)
          then Inl tag_find_error
          else Inr (fold (\<lambda>t found. sinter found (dget_default [] (tag_to_resource s) t)) required
                      (dget_default [] (tag_to_resource s) first_tag)))"

section \<open>Public operations\<close>

definition has_tag :: "tag \<Rightarrow> tag_mgr \<Rightarrow> bool" where
  "has_tag t s \<longleftrightarrow> dget (tag_to_resource s) t \<noteq> None"

definition list_tags :: "tag_mgr \<Rightarrow> tag list" where
  "list_tags s = map fst (filter (\<lambda>(t, rs). rs \<noteq> []) (tag_to_resource s))"

definition has_resource :: "string \<Rightarrow> tag_mgr \<Rightarrow> bool" where
  "has_resource rid s \<longleftrightarrow> dget (resource_tags s) rid \<noteq> None"

definition tag_resource :: "string \<Rightarrow> tag_arg \<Rightarrow> tag_mgr \<Rightarrow> tag list \<times> tag_mgr" where
  "tag_resource rid tags s =
     (let tags_to_add = normalize_tags tags;
          s1 = (if dget (resource_tags s) rid = None
                then s\<lparr>resource_tags := dset rid [] (resource_tags s)\<rparr> else s)
      in if GLOBAL \<in> set tags_to_add then ([GLOBAL], snd (set_global_resource rid s1))
         else add_resource_tags rid tags_to_add s1)"

definition remove_resource :: "string \<Rightarrow> tag_mgr \<Rightarrow> tag list \<times> tag_mgr" where
  "remove_resource rid s =
     (if dget (resource_tags s) rid = None then ([], s) else remove_resource_priv rid s)"

definition remove_resource_tags ::
  "string \<Rightarrow> tag_arg \<Rightarrow> bool \<Rightarrow> tag_mgr \<Rightarrow> tag list res \<times> tag_mgr" where
  "remove_resource_tags rid tags skip s =
     (let tags_to_remove = normalize_tags tags
      in case dget (resource_tags s) rid of
           None \<Rightarrow> (Inl tag_remove_resource_tag_error, s)
         | Some current_tags \<Rightarrow>
             if \<not> skip \<and> sdiff tags_to_remove current_tags \<noteq> []
             then (Inl tag_remove_resource_tag_error, s)
             else (let (left, s') = remove_resource_tags_priv rid tags_to_remove s
                   in (Inr left, s')))"

definition update_resource_tags ::
  "string \<Rightarrow> tag_arg \<Rightarrow> tag_update_strategy \<Rightarrow> tag_mgr \<Rightarrow> tag list res \<times> tag_mgr" where
  "update_resource_tags rid tags strategy s =
     (let new_tags = normalize_tags tags
      in if dget (resource_tags s) rid = None then (Inl tag_replace_error, s)
         else if GLOBAL \<in> set new_tags then (Inr [GLOBAL], snd (set_global_resource rid s))
         else (case strategy of
                 REPLACE \<Rightarrow> (let (r, s') = replace_resource_tags rid new_tags s in (Inr r, s'))
               | MERGE \<Rightarrow> (let (r, s') = add_resource_tags rid new_tags s in (Inr r, s'))))"

definition remove_tag :: "tag \<Rightarrow> bool \<Rightarrow> tag_mgr \<Rightarrow> string list res \<times> tag_mgr" where
  "remove_tag t skip s =
     (if dget (tag_to_resource s) t = None
      then (if skip then (Inr [], s) else (Inl tag_remove_tag_error, s))
      else (let (r, s') = remove_tag_priv t s in (Inr r, s')))"

definition get_tag_resources :: "tag \<Rightarrow> tag_mgr \<Rightarrow> string list" where
  "get_tag_resources t s = dget_default [] (tag_to_resource s) t"

text \<open>The \<open>ANY\<close> loop: a missing or empty entry of a non-builtin tag raises unless skipped.\<close>

fun find_any :: "tag list \<Rightarrow> bool \<Rightarrow> tag_mgr \<Rightarrow> string list \<Rightarrow> string list res" where
  "find_any [] skip s found = Inr found"
| "find_any (t # ts) skip s found =
     (case dget_default [] (tag_to_resource s) t of
        [] \<Rightarrow> if \<not> is_builtin_tag t \<and> \<not> skip then Inl tag_find_error
              else find_any ts skip s found
      | r # rs \<Rightarrow> find_any ts skip s (sunion found (r # rs)))"

definition find_resources_by_tags ::
  "tag_arg \<Rightarrow> tag_match_strategy \<Rightarrow> bool \<Rightarrow> tag_mgr \<Rightarrow> string list res" where
  "find_resources_by_tags tags strategy skip s =
     (let tags_to_search = normalize_tags tags
      in case strategy of
           MatchANY \<Rightarrow> find_any tags_to_search skip s []
         | MatchALL \<Rightarrow> find_resources_with_all_tags tags_to_search skip s)"

definition has_resource_tag :: "string \<Rightarrow> tag \<Rightarrow> tag_mgr \<Rightarrow> bool" where
  "has_resource_tag rid t s \<longleftrightarrow> t \<in> set (dget_default [] (resource_tags s) rid)"

definition get_resources_tags :: "string \<Rightarrow> tag_mgr \<Rightarrow> tag list" where
  "get_resources_tags rid s = dget_default [] (resource_tags s) rid"

section \<open>The two indexes as relations\<close>

definition entries :: "('a, 'b list) pydict \<Rightarrow> 'a \<Rightarrow> 'b set" where
  "entries m k = set (dget_default [] m k)"

lemma entries_None [simp]: "dget m k = None \<Longrightarrow> entries m k = {}"
  by (simp add: entries_def dget_default_def)

lemma entries_Some [simp]: "dget m k = Some xs \<Longrightarrow> entries m k = set xs"
  by (simp add: entries_def dget_default_def)

lemma entries_dset [simp]:
  "entries (dset k xs m) k' = (if k' = k then set xs else entries m k')"
  by (simp add: entries_def dget_default_def)

lemma entries_ddel [simp]: "entries (ddel k m) k' = (if k' = k then {} else entries m k')"
  by (simp add: entries_def dget_default_def)

text \<open>The tag index is well formed: unique keys, duplicate-free entries, none empty but \<open>GLOBAL\<close>'s.\<close>

definition t2r_ok :: "(tag, string list) pydict \<Rightarrow> bool" where
  "t2r_ok m \<longleftrightarrow> dwf m \<and>
     (\<forall>t. distinct (dget_default [] m t)) \<and> (\<forall>t. t \<noteq> GLOBAL \<longrightarrow> dget m t \<noteq> Some [])"

definition rt_ok :: "(string, tag list) pydict \<Rightarrow> bool" where
  "rt_ok m \<longleftrightarrow> dwf m \<and> (\<forall>r. distinct (dget_default [] m r))"

lemma t2r_okI:
  assumes "dwf m" and "\<And>t. distinct (dget_default [] m t)"
    and "\<And>t. t \<noteq> GLOBAL \<Longrightarrow> dget m t \<noteq> Some []"
  shows "t2r_ok m"
  using assms by (auto simp: t2r_ok_def)

lemma t2r_okD:
  assumes "t2r_ok m"
  shows "dwf m" and "distinct (dget_default [] m t)" and "t \<noteq> GLOBAL \<Longrightarrow> dget m t \<noteq> Some []"
  using assms unfolding t2r_ok_def by blast+

lemma rt_okI:
  assumes "dwf m" and "\<And>r. distinct (dget_default [] m r)"
  shows "rt_ok m"
  using assms by (auto simp: rt_ok_def)

lemma rt_okD:
  assumes "rt_ok m" shows "dwf m" and "distinct (dget_default [] m r)"
  using assms unfolding rt_ok_def by blast+

lemma rt_ok_get: "rt_ok m \<Longrightarrow> dget m r = Some ts \<Longrightarrow> distinct ts"
  using rt_okD(2)[of m r] by simp

lemma entries_unlink [simp]:
  "entries (unlink rid t m) t' = (if t' = t then entries m t - {rid} else entries m t')"
  by (cases "dget m t") (auto simp: unlink_def Let_def sdiscard_eq_Nil)

lemma entries_link [simp]:
  "entries (link rid t m) t' = (if t' = t then insert rid (entries m t) else entries m t')"
  by (simp add: link_def) (simp add: entries_def)

lemma t2r_ok_unlink [simp]: "t2r_ok m \<Longrightarrow> t2r_ok (unlink rid t m)"
proof (cases "dget m t")
  case (Some rs)
  assume "t2r_ok m"
  note O = t2r_okD[OF this]
  show ?thesis
    unfolding unlink_def Some option.case Let_def
    using O Some O(2)[of t] by (intro t2r_okI) (auto simp: sdiscard_eq_Nil split: if_splits)
qed (simp add: unlink_def)

lemma t2r_ok_link [simp]: "t2r_ok m \<Longrightarrow> t2r_ok (link rid t m)"
proof -
  assume "t2r_ok m"
  note O = t2r_okD[OF this]
  have "sadd rid (dget_default [] m t) \<noteq> []"
    by (simp add: sadd_def) (metis list.distinct(1) list.set_cases)
  then show ?thesis
    unfolding link_def using O by (intro t2r_okI) (auto split: if_splits)
qed

lemma t2r_ok_ddel [simp]: "t2r_ok m \<Longrightarrow> t2r_ok (ddel t m)"
  by (rule t2r_okI) (simp_all add: t2r_okD)

lemma t2r_ok_fold_unlink [simp]: "t2r_ok m \<Longrightarrow> t2r_ok (fold (unlink rid) ts m)"
  by (induction ts arbitrary: m) auto

lemma t2r_ok_fold_link [simp]: "t2r_ok m \<Longrightarrow> t2r_ok (fold (link rid) ts m)"
  by (induction ts arbitrary: m) auto

lemma entries_fold_unlink [simp]:
  "entries (fold (unlink rid) ts m) t = (if t \<in> set ts then entries m t - {rid} else entries m t)"
  by (induction ts arbitrary: m) auto

lemma entries_fold_link [simp]:
  "entries (fold (link rid) ts m) t = (if t \<in> set ts then insert rid (entries m t) else entries m t)"
  by (induction ts arbitrary: m) auto

lemma rt_ok_dset [simp]: "rt_ok m \<Longrightarrow> distinct ts \<Longrightarrow> rt_ok (dset r ts m)"
  by (rule rt_okI) (simp_all add: rt_okD)

lemma rt_ok_ddel [simp]: "rt_ok m \<Longrightarrow> rt_ok (ddel r m)"
  by (rule rt_okI) (simp_all add: rt_okD)

lemma rt_ok_untag [simp]: "rt_ok m \<Longrightarrow> rt_ok (untag_resource t r m)"
proof (cases "dget m r")
  case (Some ts)
  assume "rt_ok m"
  then show ?thesis
    using rt_ok_get[OF _ Some] by (simp add: untag_resource_def Some Let_def)
qed (simp add: untag_resource_def)

lemma rt_ok_fold_untag [simp]: "rt_ok m \<Longrightarrow> rt_ok (fold (untag_resource t) rs m)"
  by (induction rs arbitrary: m) auto

lemma entries_untag [simp]:
  "entries (untag_resource t r m) r' = (if r' = r then entries m r - {t} else entries m r')"
  by (cases "dget m r") (auto simp: untag_resource_def Let_def sdiscard_eq_Nil)

lemma entries_fold_untag [simp]:
  "entries (fold (untag_resource t) rs m) r =
     (if r \<in> set rs then entries m r - {t} else entries m r)"
  by (induction rs arbitrary: m) auto

lemma remove_resource_tags_step_simp [simp]:
  "remove_resource_tags_step rid t (cur, m) =
     (if t \<in> set cur then (sdiscard t cur, unlink rid t m) else (cur, m))"
  by (simp add: remove_resource_tags_step_def)

lemma remove_resource_tags_fold:
  assumes "fold (remove_resource_tags_step rid) ts (cur, m) = (left, m')"
  shows "set left = set cur - set ts"
    and "distinct cur \<Longrightarrow> distinct left"
    and "t2r_ok m \<Longrightarrow> t2r_ok m'"
    and "entries m' t = (if t \<in> set ts \<inter> set cur then entries m t - {rid} else entries m t)"
proof -
  have "set left = set cur - set ts \<and> (distinct cur \<longrightarrow> distinct left) \<and>
      (t2r_ok m \<longrightarrow> t2r_ok m') \<and>
      entries m' t = (if t \<in> set ts \<inter> set cur then entries m t - {rid} else entries m t)"
    using assms
  proof (induction ts arbitrary: cur m)
    case Nil
    then show ?case by simp
  next
    case (Cons a ts)
    show ?case
    proof (cases "a \<in> set cur")
      case True
      with Cons.prems have "fold (remove_resource_tags_step rid) ts (sdiscard a cur, unlink rid a m)
          = (left, m')"
        by simp
      from Cons.IH[OF this] True show ?thesis by auto
    next
      case False
      with Cons.prems have "fold (remove_resource_tags_step rid) ts (cur, m) = (left, m')"
        by simp
      from Cons.IH[OF this] False show ?thesis by auto
    qed
  qed
  then show "set left = set cur - set ts"
    and "distinct cur \<Longrightarrow> distinct left"
    and "t2r_ok m \<Longrightarrow> t2r_ok m'"
    and "entries m' t = (if t \<in> set ts \<inter> set cur then entries m t - {rid} else entries m t)"
    by blast+
qed

section \<open>The invariant\<close>

text \<open>
  Both dictionaries are well formed, they are inverse to each other, and a \<open>GLOBAL\<close>
  resource carries no other tag.
\<close>

definition tag_inv :: "tag_mgr \<Rightarrow> bool" where
  "tag_inv s \<longleftrightarrow> rt_ok (resource_tags s) \<and> t2r_ok (tag_to_resource s) \<and>
     (\<forall>r t. r \<in> entries (tag_to_resource s) t \<longleftrightarrow> t \<in> entries (resource_tags s) r) \<and>
     (\<forall>r t. GLOBAL \<in> entries (resource_tags s) r \<longrightarrow> t \<in> entries (resource_tags s) r \<longrightarrow> t = GLOBAL)"

lemma tag_invD:
  assumes "tag_inv s"
  shows "rt_ok (resource_tags s)" and "t2r_ok (tag_to_resource s)"
    and "r \<in> entries (tag_to_resource s) t \<longleftrightarrow> t \<in> entries (resource_tags s) r"
    and "GLOBAL \<in> entries (resource_tags s) r \<Longrightarrow> t \<in> entries (resource_tags s) r \<Longrightarrow> t = GLOBAL"
  using assms by (auto simp: tag_inv_def)

lemma tag_invI:
  assumes "rt_ok rt" and "t2r_ok m"
    and "\<And>r t. r \<in> entries m t \<longleftrightarrow> t \<in> entries rt r"
    and "\<And>r t. GLOBAL \<in> entries rt r \<Longrightarrow> t \<in> entries rt r \<Longrightarrow> t = GLOBAL"
  shows "tag_inv (s\<lparr>resource_tags := rt, tag_to_resource := m\<rparr>)"
  using assms by (auto simp: tag_inv_def)

lemma tag_inv_init: "tag_inv tag_mgr_init"
  by (simp add: tag_inv_def tag_mgr_init_def rt_ok_def t2r_ok_def entries_def dget_default_def)

lemma distinct_normalize_tags [simp]: "distinct (normalize_tags a)"
  by (cases a) auto

lemma entries_dget_default [simp]: "set (dget_default [] m k) = entries m k"
  by (simp add: entries_def)

lemma set_global_resource_tags [simp]:
  "resource_tags (snd (set_global_resource r s)) = dset r [GLOBAL] (resource_tags s)"
  by (simp add: set_global_resource_def Let_def)

lemma set_global_inv:
  assumes "tag_inv s" shows "tag_inv (snd (set_global_resource rid s))"
proof -
  note I = tag_invD[OF assms]
  show ?thesis
    unfolding set_global_resource_def Let_def snd_conv
  proof (rule tag_invI)
    fix r t
    assume "GLOBAL \<in> entries (dset rid [GLOBAL] (resource_tags s)) r"
      and "t \<in> entries (dset rid [GLOBAL] (resource_tags s)) r"
    then show "t = GLOBAL" using I(4)[of r t] by (auto split: if_splits)
  qed (auto simp: I(1,2,3))
qed

lemma add_resource_tags_inv:
  assumes "tag_inv s" and "distinct ts" and "GLOBAL \<notin> set ts"
  shows "tag_inv (snd (add_resource_tags rid ts s))"
proof (cases "dget (resource_tags s) rid")
  case None
  with assms show ?thesis by (simp add: add_resource_tags_def)
next
  case (Some cur)
  note I = tag_invD[OF assms(1)]
  show ?thesis
  proof (cases "GLOBAL \<in> set cur")
    case True
    with Some assms show ?thesis by (simp add: add_resource_tags_def)
  next
    case False
    have "tag_inv (s\<lparr>resource_tags := dset rid (sunion cur ts) (resource_tags s),
        tag_to_resource := fold (link rid) ts (tag_to_resource s)\<rparr>)"
    proof (rule tag_invI)
      fix r t
      assume "GLOBAL \<in> entries (dset rid (sunion cur ts) (resource_tags s)) r"
        and "t \<in> entries (dset rid (sunion cur ts) (resource_tags s)) r"
      then show "t = GLOBAL" using I(4)[of r t] False assms(3) by (auto split: if_splits)
    qed (use Some assms(2) rt_ok_get[OF I(1) Some] in \<open>auto simp: I(1,2,3)\<close>)
    with Some False show ?thesis by (simp add: add_resource_tags_def Let_def)
  qed
qed

lemma remove_resource_priv_inv:
  assumes "tag_inv s" shows "tag_inv (snd (remove_resource_priv rid s))"
proof (cases "dget (resource_tags s) rid")
  case None
  with assms show ?thesis by (simp add: remove_resource_priv_def)
next
  case (Some cur)
  note I = tag_invD[OF assms]
  have "tag_inv (s\<lparr>resource_tags := ddel rid (resource_tags s),
      tag_to_resource := fold (unlink rid) cur (tag_to_resource s)\<rparr>)"
  proof (rule tag_invI)
    fix r t
    assume "GLOBAL \<in> entries (ddel rid (resource_tags s)) r"
      and "t \<in> entries (ddel rid (resource_tags s)) r"
    then show "t = GLOBAL" using I(4)[of r t] by (auto split: if_splits)
  qed (use Some in \<open>auto simp: I(1,2,3)\<close>)
  with Some show ?thesis by (simp add: remove_resource_priv_def)
qed

lemma remove_resource_tags_priv_inv:
  assumes "tag_inv s" shows "tag_inv (snd (remove_resource_tags_priv rid ts s))"
proof (cases "dget (resource_tags s) rid")
  case None
  with assms show ?thesis by (simp add: remove_resource_tags_priv_def)
next
  case (Some cur)
  obtain left m' where f: "fold (remove_resource_tags_step rid) ts (cur, tag_to_resource s) = (left, m')"
    by fastforce
  note F = remove_resource_tags_fold[OF f]
  note I = tag_invD[OF assms]
  have d: "distinct left" using F(2) rt_ok_get[OF I(1) Some] by simp
  have E: "entries m' t = (if t \<in> set ts \<inter> set cur then entries (tag_to_resource s) t - {rid}
      else entries (tag_to_resource s) t)" for t
    by (rule F(4))
  let ?rt = "if left = [] then ddel rid (dset rid left (resource_tags s))
    else dset rid left (resource_tags s)"
  have R: "entries ?rt r = (if r = rid then set cur - set ts else entries (resource_tags s) r)" for r
    using F(1) by auto
  have "tag_inv (s\<lparr>resource_tags := ?rt, tag_to_resource := m'\<rparr>)"
  proof (rule tag_invI)
    show "rt_ok ?rt" using I(1) d by simp
    show "t2r_ok m'" using F(3) I(2) by simp
    show "r \<in> entries m' t \<longleftrightarrow> t \<in> entries ?rt r" for r t
      unfolding R using Some by (auto simp: E I(3))
    show "t = GLOBAL" if "GLOBAL \<in> entries ?rt r" "t \<in> entries ?rt r" for r t
      using that I(4)[of r t] Some unfolding R by (auto split: if_splits)
  qed
  with Some show ?thesis by (simp add: remove_resource_tags_priv_def f Let_def)
qed

lemma replace_resource_tags_inv:
  assumes "tag_inv s" and "distinct ts" and "GLOBAL \<notin> set ts"
  shows "tag_inv (snd (replace_resource_tags rid ts s))"
proof (cases "dget (resource_tags s) rid")
  case None
  with assms show ?thesis by (simp add: replace_resource_tags_def)
next
  case (Some cur)
  note I = tag_invD[OF assms(1)]
  have "tag_inv (s\<lparr>resource_tags := dset rid ts (resource_tags s),
      tag_to_resource := fold (link rid) ts (fold (unlink rid) cur (tag_to_resource s))\<rparr>)"
  proof (rule tag_invI)
    fix r t
    assume "GLOBAL \<in> entries (dset rid ts (resource_tags s)) r"
      and "t \<in> entries (dset rid ts (resource_tags s)) r"
    then show "t = GLOBAL" using I(4)[of r t] assms(3) by (auto split: if_splits)
  qed (use Some assms(2) in \<open>auto simp: I(1,2,3)\<close>)
  with Some show ?thesis by (simp add: replace_resource_tags_def)
qed

lemma remove_tag_priv_inv:
  assumes "tag_inv s" shows "tag_inv (snd (remove_tag_priv t s))"
proof (cases "dget (tag_to_resource s) t")
  case None
  with assms show ?thesis by (simp add: remove_tag_priv_def)
next
  case (Some rs)
  note I = tag_invD[OF assms]
  have rs: "r \<in> set rs \<longleftrightarrow> t \<in> entries (resource_tags s) r" for r
    using I(3)[of r t] Some by simp
  have "tag_inv (s\<lparr>resource_tags := fold (untag_resource t) rs (resource_tags s),
      tag_to_resource := ddel t (tag_to_resource s)\<rparr>)"
  proof (rule tag_invI)
    fix r t'
    assume "GLOBAL \<in> entries (fold (untag_resource t) rs (resource_tags s)) r"
      and "t' \<in> entries (fold (untag_resource t) rs (resource_tags s)) r"
    then show "t' = GLOBAL" using I(4)[of r t'] by (auto split: if_splits)
  qed (auto simp: I(1,2,3) rs)
  with Some show ?thesis by (simp add: remove_tag_priv_def)
qed

section \<open>Runs of public operations\<close>

datatype tag_op =
    OpTag string tag_arg
  | OpRemoveResource string
  | OpRemoveTags string tag_arg bool
  | OpUpdate string tag_arg tag_update_strategy
  | OpRemoveTag tag bool

fun apply_tag_op :: "tag_op \<Rightarrow> tag_mgr \<Rightarrow> tag_mgr" where
  "apply_tag_op (OpTag r a) s = snd (tag_resource r a s)"
| "apply_tag_op (OpRemoveResource r) s = snd (remove_resource r s)"
| "apply_tag_op (OpRemoveTags r a skip) s = snd (remove_resource_tags r a skip s)"
| "apply_tag_op (OpUpdate r a st) s = snd (update_resource_tags r a st s)"
| "apply_tag_op (OpRemoveTag t skip) s = snd (remove_tag t skip s)"

definition run_tag_ops :: "tag_op list \<Rightarrow> tag_mgr" where
  "run_tag_ops ops = fold apply_tag_op ops tag_mgr_init"

lemma tag_inv_setdefault:
  assumes "tag_inv s" and "dget (resource_tags s) rid = None"
  shows "tag_inv (s\<lparr>resource_tags := dset rid [] (resource_tags s)\<rparr>)"
proof -
  note I = tag_invD[OF assms(1)]
  have "tag_inv (s\<lparr>resource_tags := dset rid [] (resource_tags s),
      tag_to_resource := tag_to_resource s\<rparr>)"
  proof (rule tag_invI)
    fix r t
    assume "GLOBAL \<in> entries (dset rid [] (resource_tags s)) r"
      and "t \<in> entries (dset rid [] (resource_tags s)) r"
    then show "t = GLOBAL" using I(4)[of r t] by (auto split: if_splits)
  qed (use assms(2) in \<open>auto simp: I(1,2,3)\<close>)
  then show ?thesis by simp
qed

lemma apply_tag_op_inv:
  assumes "tag_inv s" shows "tag_inv (apply_tag_op op s)"
proof (cases op)
  case (OpTag r a)
  then show ?thesis
    using assms tag_inv_setdefault[OF assms, of r]
    by (simp add: tag_resource_def Let_def set_global_inv add_resource_tags_inv)
next
  case (OpRemoveResource r)
  then show ?thesis using assms by (simp add: remove_resource_def remove_resource_priv_inv)
next
  case (OpRemoveTags r a skip)
  then show ?thesis
    using assms remove_resource_tags_priv_inv[OF assms, of r "normalize_tags a"]
    by (simp add: remove_resource_tags_def Let_def case_prod_unfold split: option.splits)
next
  case (OpUpdate r a st)
  then show ?thesis
    using assms add_resource_tags_inv[OF assms, of "normalize_tags a" r]
      replace_resource_tags_inv[OF assms, of "normalize_tags a" r]
    by (simp add: update_resource_tags_def Let_def set_global_inv case_prod_unfold
        split: tag_update_strategy.splits)
next
  case (OpRemoveTag t skip)
  then show ?thesis
    using assms remove_tag_priv_inv[OF assms, of t]
    by (simp add: remove_tag_def Let_def case_prod_unfold)
qed

lemma run_tag_ops_inv: "tag_inv (run_tag_ops ops)"
  unfolding run_tag_ops_def
  by (rule fold_invariant_list) (simp_all add: tag_inv_init apply_tag_op_inv)

lemma has_resource_tag_entries: "has_resource_tag r t s \<longleftrightarrow> t \<in> entries (resource_tags s) r"
  by (simp add: has_resource_tag_def)

lemma get_tag_resources_entries: "set (get_tag_resources t s) = entries (tag_to_resource s) t"
  by (simp add: get_tag_resources_def)

section \<open>The abstract tag assignment\<close>

text \<open>
  What the component promises: a partial map from resource ids to tag sets. The second
  dictionary is an index of it, so every operation has a specification on that map alone.
\<close>

definition abs_tags :: "tag_mgr \<Rightarrow> string \<Rightarrow> tag set option" where
  "abs_tags s r = map_option set (dget (resource_tags s) r)"

definition spec_add :: "tag set \<Rightarrow> tag set \<Rightarrow> tag set" where
  "spec_add T X = (if GLOBAL \<in> T \<or> GLOBAL \<in> X then {GLOBAL} else X \<union> T)"

definition spec_left :: "tag set \<Rightarrow> tag set option" where
  "spec_left X = (if X = {} then None else Some X)"

fun spec_tag_op :: "tag_op \<Rightarrow> (string \<Rightarrow> tag set option) \<Rightarrow> string \<Rightarrow> tag set option" where
  "spec_tag_op (OpTag r a) A =
     A(r \<mapsto> spec_add (set (normalize_tags a)) (case A r of None \<Rightarrow> {} | Some X \<Rightarrow> X))"
| "spec_tag_op (OpRemoveResource r) A = A(r := None)"
| "spec_tag_op (OpRemoveTags r a skip) A =
     (case A r of
        None \<Rightarrow> A
      | Some X \<Rightarrow> if \<not> skip \<and> \<not> set (normalize_tags a) \<subseteq> X then A
                  else A(r := spec_left (X - set (normalize_tags a))))"
| "spec_tag_op (OpUpdate r a st) A =
     (case A r of
        None \<Rightarrow> A
      | Some X \<Rightarrow>
          (case st of
             REPLACE \<Rightarrow> A(r \<mapsto> spec_add (set (normalize_tags a)) {})
           | MERGE \<Rightarrow> A(r \<mapsto> spec_add (set (normalize_tags a)) X)))"
| "spec_tag_op (OpRemoveTag t skip) A =
     (\<lambda>r. case A r of None \<Rightarrow> None | Some X \<Rightarrow> if t \<in> X then spec_left (X - {t}) else Some X)"

lemma global_entry:
  assumes "tag_inv s" and "dget (resource_tags s) r = Some X" and "GLOBAL \<in> set X"
  shows "set X = {GLOBAL}"
  using tag_invD(4)[OF assms(1), of r] assms(2,3) by auto

lemma abs_set_global:
  "abs_tags (snd (set_global_resource r s)) = (abs_tags s)(r \<mapsto> {GLOBAL})"
  by (rule ext) (simp add: abs_tags_def set_global_resource_def Let_def)

lemma abs_add:
  assumes "tag_inv s" and "dget (resource_tags s) r = Some X" and "GLOBAL \<notin> set ts"
  shows "abs_tags (snd (add_resource_tags r ts s)) = (abs_tags s)(r \<mapsto> spec_add (set ts) (set X))"
  using assms global_entry[OF assms(1,2)]
  by (auto simp: abs_tags_def add_resource_tags_def spec_add_def Let_def fun_eq_iff)

lemma abs_fold_untag:
  assumes "distinct rs"
  shows "map_option set (dget (fold (untag_resource t) rs m) r) =
    (if r \<in> set rs
     then (case dget m r of None \<Rightarrow> None | Some ts \<Rightarrow> spec_left (set ts - {t}))
     else map_option set (dget m r))"
  using assms
proof (induction rs arbitrary: m)
  case Nil
  then show ?case by simp
next
  case (Cons a rs)
  have step: "map_option set (dget (untag_resource t a m) r') =
      (if r' = a then (case dget m a of None \<Rightarrow> None | Some ts \<Rightarrow> spec_left (set ts - {t}))
       else map_option set (dget m r'))" for r'
    by (cases "dget m a") (auto simp: untag_resource_def Let_def spec_left_def sdiscard_eq_Nil)
  show ?case
    using Cons step[of r]
    by (cases "r = a") (auto split: option.splits simp: spec_left_def)
qed

lemma tag_op_refines_cases:
  assumes "tag_inv s"
  shows "abs_tags (apply_tag_op op s) = spec_tag_op op (abs_tags s)"
proof (cases op)
  case (OpTag r a)
  show ?thesis
  proof (cases "dget (resource_tags s) r")
    case None
    note I = tag_inv_setdefault[OF assms None]
    show ?thesis
      using OpTag None abs_add[OF I, of r "[]" "normalize_tags a"]
      by (auto simp: tag_resource_def Let_def abs_set_global spec_add_def abs_tags_def fun_eq_iff)
  next
    case (Some X)
    show ?thesis
      using OpTag Some abs_add[OF assms Some, of "normalize_tags a"]
      by (auto simp: tag_resource_def Let_def abs_set_global spec_add_def abs_tags_def fun_eq_iff)
  qed
next
  case (OpRemoveResource r)
  then show ?thesis
    by (cases "dget (resource_tags s) r")
      (auto simp: remove_resource_def remove_resource_priv_def abs_tags_def fun_eq_iff)
next
  case (OpRemoveTags r a skip)
  show ?thesis
  proof (cases "dget (resource_tags s) r")
    case None
    with OpRemoveTags show ?thesis
      by (simp add: remove_resource_tags_def abs_tags_def)
  next
    case (Some X)
    let ?T = "normalize_tags a"
    obtain left m' where f: "fold (remove_resource_tags_step r) ?T (X, tag_to_resource s) = (left, m')"
      by fastforce
    have L: "set left = set X - set ?T" by (rule remove_resource_tags_fold(1)[OF f])
    have D: "sdiff ?T X = [] \<longleftrightarrow> set ?T \<subseteq> set X"
      by (auto simp: sdiff_def filter_empty_conv)
    have A: "abs_tags s r = Some (set X)" by (simp add: abs_tags_def Some)
    have P: "abs_tags (snd (remove_resource_tags_priv r ?T s))
        = (abs_tags s)(r := spec_left (set X - set ?T))"
      by (rule ext)
        (simp add: remove_resource_tags_priv_def Some f abs_tags_def spec_left_def L[symmetric])
    show ?thesis
      unfolding OpRemoveTags
      by (simp add: remove_resource_tags_def Some A D P Let_def case_prod_unfold)
  qed
next
  case (OpUpdate r a st)
  show ?thesis
  proof (cases "dget (resource_tags s) r")
    case None
    with OpUpdate show ?thesis by (simp add: update_resource_tags_def abs_tags_def Let_def)
  next
    case (Some X)
    show ?thesis
    proof (cases "GLOBAL \<in> set (normalize_tags a)")
      case True
      then show ?thesis
        using OpUpdate Some
        by (auto simp: update_resource_tags_def Let_def abs_set_global spec_add_def
            fun_eq_iff abs_tags_def split: tag_update_strategy.splits)
    next
      case False
      then show ?thesis
        using OpUpdate Some abs_add[OF assms Some False]
        by (cases st) (simp_all add: update_resource_tags_def Let_def replace_resource_tags_def
            spec_add_def abs_tags_def fun_eq_iff case_prod_unfold)
    qed
  qed
next
  case (OpRemoveTag t skip)
  note I = tag_invD[OF assms]
  show ?thesis
  proof (cases "dget (tag_to_resource s) t")
    case None
    have "t \<notin> entries (resource_tags s) r" for r
      using I(3)[of r t] None by simp
    then have "t \<notin> set X" if "dget (resource_tags s) r = Some X" for r X
      using that by (metis entries_Some)
    with None OpRemoveTag show ?thesis
      by (auto simp: remove_tag_def abs_tags_def fun_eq_iff split: option.splits)
  next
    case (Some rs)
    have d: "distinct rs" using t2r_okD(2)[OF I(2), of t] Some by simp
    have rs: "r \<in> set rs \<longleftrightarrow> t \<in> entries (resource_tags s) r" for r
      using I(3)[of r t] Some by simp
    have "abs_tags (apply_tag_op op s) r = spec_tag_op op (abs_tags s) r" for r
      using OpRemoveTag Some rs[of r] abs_fold_untag[OF d, of t "resource_tags s" r]
      by (cases "dget (resource_tags s) r")
        (auto simp: remove_tag_def remove_tag_priv_def abs_tags_def)
    then show ?thesis by (rule ext)
  qed
qed

section \<open>Lookup by tags\<close>

lemma t2r_known:
  assumes "tag_inv s"
  shows "t \<in> insert GLOBAL (set (list_tags s)) \<longleftrightarrow> dget (tag_to_resource s) t \<noteq> None \<or> t = GLOBAL"
    and "t \<in> insert GLOBAL (set (list_tags s)) \<longleftrightarrow> dget_default [] (tag_to_resource s) t \<noteq> [] \<or> t = GLOBAL"
    and "t \<in> set (list_tags s) \<longleftrightarrow> dget_default [] (tag_to_resource s) t \<noteq> []"
proof -
  note O = t2r_okD[OF tag_invD(2)[OF assms]]
  have M: "t \<in> set (list_tags s) \<longleftrightarrow> (\<exists>rs. dget (tag_to_resource s) t = Some rs \<and> rs \<noteq> [])"
    unfolding dwf_mem_dget[OF O(1), symmetric] list_tags_def by (auto simp: image_iff)
  show "t \<in> insert GLOBAL (set (list_tags s)) \<longleftrightarrow> dget (tag_to_resource s) t \<noteq> None \<or> t = GLOBAL"
    using O(3)[of t] by (cases "dget (tag_to_resource s) t") (auto simp: M)
  show "t \<in> insert GLOBAL (set (list_tags s)) \<longleftrightarrow> dget_default [] (tag_to_resource s) t \<noteq> [] \<or> t = GLOBAL"
    by (cases "dget (tag_to_resource s) t") (auto simp: M)
  show "t \<in> set (list_tags s) \<longleftrightarrow> dget_default [] (tag_to_resource s) t \<noteq> []"
    by (cases "dget (tag_to_resource s) t") (auto simp: M)
qed

lemma fold_sinter: "set (fold (\<lambda>t found. sinter found (f t)) ts X) = set X \<inter> {r. \<forall>t \<in> set ts. r \<in> set (f t)}"
  by (induction ts arbitrary: X) auto

lemma find_any_spec:
  assumes "tag_inv s"
  shows "res_set (find_any ts skip s found) =
    (if \<not> skip \<and> \<not> set ts \<subseteq> insert GLOBAL (set (list_tags s)) then Inl tag_find_error
     else Inr (set found \<union> {r. set ts \<inter> entries (resource_tags s) r \<noteq> {}}))"
proof (induction ts arbitrary: found)
  case Nil
  then show ?case by simp
next
  case (Cons t ts)
  note I = tag_invD(3)[OF assms, of _ t]
  note K = t2r_known(2)[OF assms, of t]
  have E: "set (dget_default [] (tag_to_resource s) t) = {r. t \<in> entries (resource_tags s) r}"
    using I by auto
  show ?case
  proof (cases "dget_default [] (tag_to_resource s) t")
    case Nil
    with E have "t \<notin> entries (resource_tags s) r" for r by auto
    then have S: "set (t # ts) \<inter> entries (resource_tags s) r = set ts \<inter> entries (resource_tags s) r" for r
      by auto
    show ?thesis
      unfolding S using Nil K Cons.IH[of found]
      by (cases "t = GLOBAL"; cases skip) (simp_all add: is_builtin_tag_def)
  next
    case (Cons r rs)
    then have "insert r (set rs) = {r. t \<in> entries (resource_tags s) r}" using E by simp
    with Cons K show ?thesis
      by (auto simp: Cons.IH)
  qed
qed

lemma find_all_spec:
  assumes "tag_inv s"
  shows "res_set (find_resources_with_all_tags ts skip s) =
    (if \<not> skip \<and> \<not> set ts \<subseteq> insert GLOBAL (set (list_tags s)) then Inl tag_find_error
     else Inr (if ts = [] then {} else {r. set ts \<subseteq> entries (resource_tags s) r}))"
proof (cases ts)
  case Nil
  then show ?thesis by (simp add: find_resources_with_all_tags_def)
next
  case (Cons a as)
  have E: "(\<exists>t \<in> set ts. dget (tag_to_resource s) t = None \<and> \<not> is_builtin_tag t \<and> \<not> skip) \<longleftrightarrow>
      \<not> skip \<and> \<not> set ts \<subseteq> insert GLOBAL (set (list_tags s))"
    unfolding is_builtin_tag_def subset_iff t2r_known(1)[OF assms] by auto
  have D: "r \<in> entries (tag_to_resource s) t \<longleftrightarrow> t \<in> entries (resource_tags s) r" for r t
    using tag_invD(3)[OF assms, of r t] .
  have "find_resources_with_all_tags ts skip s =
      (if \<not> skip \<and> \<not> set ts \<subseteq> insert GLOBAL (set (list_tags s)) then Inl tag_find_error
       else Inr (fold (\<lambda>t found. sinter found (dget_default [] (tag_to_resource s) t)) ts
                  (dget_default [] (tag_to_resource s) a)))"
    unfolding E[symmetric] by (simp add: find_resources_with_all_tags_def Cons)
  moreover have "set (fold (\<lambda>t found. sinter found (dget_default [] (tag_to_resource s) t)) ts
      (dget_default [] (tag_to_resource s) a)) = {r. set ts \<subseteq> entries (resource_tags s) r}"
    unfolding fold_sinter Cons using D by (auto simp: subset_iff)
  ultimately show ?thesis by (simp add: Cons)
qed

section \<open>Properties\<close>

text \<open>C1: every run of the public operations from the empty manager, errors and skips included,
  leaves the tag assignment that the specification on the abstract map computes: the second
  dictionary never influences it.\<close>

theorem tag_runs_refine:
  "abs_tags (run_tag_ops ops) = fold spec_tag_op ops (\<lambda>_. None)"
proof -
  have "abs_tags (fold apply_tag_op ops s) = fold spec_tag_op ops (abs_tags s)" if "tag_inv s" for s
    using that
  proof (induction ops arbitrary: s)
    case (Cons op ops)
    show ?case
      using Cons.IH[OF apply_tag_op_inv[OF Cons.prems, of op]]
        tag_op_refines_cases[OF Cons.prems, of op] by simp
  qed simp
  moreover have "abs_tags tag_mgr_init = (\<lambda>_. None)"
    by (rule ext) (simp add: abs_tags_def tag_mgr_init_def)
  ultimately show ?thesis
    using tag_inv_init by (simp add: run_tag_ops_def)
qed

text \<open>C2: after every run the two dictionaries are inverse to each other, a tag is listed exactly
  when some resource carries it, and a resource tagged \<open>GLOBAL\<close> carries no other tag.\<close>

theorem tag_indexes_inverse:
  "let s = run_tag_ops ops in
     (r \<in> set (get_tag_resources t s) \<longleftrightarrow> has_resource_tag r t s) \<and>
     (t \<in> set (list_tags s) \<longleftrightarrow> (\<exists>r'. has_resource_tag r' t s)) \<and>
     \<not> (has_resource_tag r GLOBAL s \<and> has_resource_tag r t s \<and> t \<noteq> GLOBAL)"
proof -
  let ?s = "run_tag_ops ops"
  have I: "tag_inv ?s" by (rule run_tag_ops_inv)
  have L: "t \<in> set (list_tags ?s) \<longleftrightarrow> entries (tag_to_resource ?s) t \<noteq> {}"
    using t2r_known(3)[OF I, of t] by (simp flip: entries_dget_default)
  show ?thesis
    unfolding Let_def has_resource_tag_entries get_tag_resources_entries L
    using tag_invD(3,4)[OF I] by blast
qed

text \<open>A lookup by tags raises exactly when skipping is off and a tag is neither built in nor
  carried by a resource; otherwise \<open>ALL\<close> finds the resources that carry every tag (none for the
  empty request) and \<open>ANY\<close> those that carry at least one.\<close>

theorem find_resources_by_tags_spec:
  "let s = run_tag_ops ops; T = set (normalize_tags a) in
     res_set (find_resources_by_tags a st skip s) =
     (if \<not> skip \<and> \<not> T \<subseteq> insert GLOBAL (set (list_tags s)) then Inl tag_find_error
      else Inr (case st of
        MatchANY \<Rightarrow> {r. T \<inter> set (get_resources_tags r s) \<noteq> {}}
      | MatchALL \<Rightarrow> (if T = {} then {} else {r. T \<subseteq> set (get_resources_tags r s)})))"
proof -
  have I: "tag_inv (run_tag_ops ops)" by (rule run_tag_ops_inv)
  show ?thesis
    unfolding find_resources_by_tags_def Let_def
    by (cases st) (simp_all add: find_all_spec[OF I] find_any_spec[OF I] get_resources_tags_def)
qed

end
