(* ===== verification/KV_Store.thy ===== *)
theory KV_Store
  imports Prelude
begin

text \<open>
  The key-value store interface \<open>BaseKVStore\<close> (\<open>core/foundation/store/base_kv_store.py\<close>) and its
  in-memory implementation \<open>InMemoryKVStore\<close> (\<open>core/foundation/store/kv/in_memory_kv_store.py\<close>).
  Stored texts are abstract values; an entry carries an optional expiry time. The operations run
  under one \<open>asyncio.Lock\<close>, so each is one atomic step; \<open>time.time()\<close> is the clock field of the
  state.
\<close>

section \<open>The in-memory store\<close>

record 'v mem_kv =
  kv_entries :: "(string, 'v \<times> rat option) pydict"
  kv_now :: rat

definition expired :: "rat option \<Rightarrow> rat \<Rightarrow> bool" where
  "expired e now = (case e of None \<Rightarrow> False | Some t \<Rightarrow> t \<le> now)"

definition get_without_lock :: "string \<Rightarrow> 'v mem_kv \<Rightarrow> 'v option" where
  "get_without_lock k s =
     (case dget (kv_entries s) k of
        None \<Rightarrow> None
      | Some (v, e) \<Rightarrow> if expired e (kv_now s) then None else Some v)"

definition mem_set :: "string \<Rightarrow> 'v \<Rightarrow> 'v mem_kv \<Rightarrow> 'v mem_kv" where
  "mem_set k v s = s\<lparr>kv_entries := dset k (v, None) (kv_entries s)\<rparr>"

definition mem_get :: "string \<Rightarrow> 'v mem_kv \<Rightarrow> 'v option" where
  "mem_get k s = get_without_lock k s"

definition mem_delete :: "string \<Rightarrow> 'v mem_kv \<Rightarrow> 'v mem_kv" where
  "mem_delete k s =
     (if dget (kv_entries s) k \<noteq> None then s\<lparr>kv_entries := ddel k (kv_entries s)\<rparr> else s)"

definition mem_exclusive_set ::
  "string \<Rightarrow> 'v \<Rightarrow> rat option \<Rightarrow> 'v mem_kv \<Rightarrow> bool \<times> 'v mem_kv" where
  "mem_exclusive_set k v expiry s =
     (let current_time = kv_now s;
          insert_it = (True, s\<lparr>kv_entries :=
            dset k (v, map_option (\<lambda>x. current_time + x) expiry) (kv_entries s)\<rparr>)
      in case dget (kv_entries s) k of
           None \<Rightarrow> insert_it
         | Some (_, e) \<Rightarrow> if expired e current_time then insert_it else (False, s))"

definition mem_exists :: "string \<Rightarrow> 'v mem_kv \<Rightarrow> bool" where
  "mem_exists k s \<longleftrightarrow> mem_get k s \<noteq> None"

definition mem_get_by_prefix :: "string \<Rightarrow> 'v mem_kv \<Rightarrow> (string, 'v option) pydict" where
  "mem_get_by_prefix p s =
     map (\<lambda>k. (k, get_without_lock k s)) (filter (\<lambda>k. startswith k p) (dkeys (kv_entries s)))"

text \<open>\<open>for i in range(0, len(xs), n): xs[i:i + n]\<close> for a positive \<open>n\<close>.\<close>

function batches :: "nat \<Rightarrow> 'a list \<Rightarrow> 'a list list" where
  "batches n xs = (if n = 0 \<or> xs = [] then [] else take n xs # batches n (drop n xs))"
  by pat_completeness auto
termination
  by (relation "measure (\<lambda>(n, xs). length xs)") auto

declare batches.simps [simp del]

fun in_batches :: "int option \<Rightarrow> 'a list \<Rightarrow> 'a list list" where
  "in_batches None xs = [xs]"
| "in_batches (Some n) xs = (if n \<le> 0 then [xs] else batches (nat n) xs)"

definition mem_delete_by_prefix :: "string \<Rightarrow> int option \<Rightarrow> 'v mem_kv \<Rightarrow> 'v mem_kv" where
  "mem_delete_by_prefix p batch_size s =
     (let to_del = filter (\<lambda>k. startswith k p) (dkeys (kv_entries s))
      in s\<lparr>kv_entries := fold (\<lambda>batch m. fold ddel batch m) (in_batches batch_size to_del)
             (kv_entries s)\<rparr>)"

definition mem_mget :: "string list \<Rightarrow> 'v mem_kv \<Rightarrow> 'v option list" where
  "mem_mget keys s = map (\<lambda>k. get_without_lock k s) keys"

definition delete_counted ::
  "string \<Rightarrow> nat \<times> (string, 'e) pydict \<Rightarrow> nat \<times> (string, 'e) pydict" where
  "delete_counted k = (\<lambda>(deleted, m). if dget m k \<noteq> None then (deleted + 1, ddel k m) else (deleted, m))"

definition mem_batch_delete :: "string list \<Rightarrow> int option \<Rightarrow> 'v mem_kv \<Rightarrow> nat \<times> 'v mem_kv" where
  "mem_batch_delete keys batch_size s =
     (if keys = [] then (0, s)
      else (let (deleted, m) = fold (\<lambda>batch acc. fold delete_counted batch acc)
                  (in_batches batch_size keys) (0, kv_entries s)
            in (deleted, s\<lparr>kv_entries := m\<rparr>)))"

section \<open>Pipelines\<close>

datatype 'v pipe_op = PipeSet string 'v | PipeGet string | PipeExists string

datatype 'v pipe_result = ResNone | ResValue "'v option" | ResBool bool

fun pipe_step :: "'v pipe_op \<Rightarrow> 'v mem_kv \<Rightarrow> 'v pipe_result \<times> 'v mem_kv" where
  "pipe_step (PipeSet k v) s = (ResNone, s\<lparr>kv_entries := dset k (v, None) (kv_entries s)\<rparr>)"
| "pipe_step (PipeGet k) s = (ResValue (get_without_lock k s), s)"
| "pipe_step (PipeExists k) s = (ResBool (get_without_lock k s \<noteq> None), s)"

fun pipe_execute :: "'v pipe_op list \<Rightarrow> 'v mem_kv \<Rightarrow> 'v pipe_result list \<times> 'v mem_kv" where
  "pipe_execute [] s = ([], s)"
| "pipe_execute (op # ops) s =
     (let (r, s1) = pipe_step op s; (rs, s2) = pipe_execute ops s1 in (r # rs, s2))"

section \<open>Batches\<close>

lemma concat_batches: "n \<noteq> 0 \<Longrightarrow> concat (batches n xs) = xs"
proof (induction n xs rule: batches.induct)
  case (1 n xs)
  then show ?case by (subst batches.simps) simp
qed

lemma concat_in_batches: "concat (in_batches b xs) = xs"
  by (cases b) (auto simp: concat_batches)

lemma fold_batches: "fold (\<lambda>batch m. fold f batch m) (in_batches b xs) m = fold f xs m"
proof -
  have "fold (\<lambda>batch m. fold f batch m) xss m = fold f (concat xss) m" for xss 
    by (induction xss arbitrary: m) auto
  then show ?thesis by (simp add: concat_in_batches)
qed

lemma fold_delete_counted:
  "fold delete_counted ks (n, m) = (n + card (set ks \<inter> fst ` set m), fold ddel ks m)"
proof (induction ks arbitrary: n m)
  case (Cons k ks)
  show ?case
  proof (cases "dget m k")
    case None
    then have k: "k \<notin> fst ` set m" by (simp add: dget_None_iff)
    then have "ddel k m = m" by (metis delete_id)
    with None k Cons show ?thesis by (simp add: delete_counted_def Int_insert_left)
  next
    case (Some v)
    then have k: "k \<in> fst ` set m" by (simp add: in_keys_iff)
    have "insert k (set ks) \<inter> fst ` set m = insert k (set ks \<inter> (fst ` set m - {k}))"
      using k by auto
    with Some Cons show ?thesis by (simp add: delete_counted_def)
  qed
qed simp

section \<open>The interface the clients use\<close>

record ('v, 's) kv_ops =
  op_set :: "string \<Rightarrow> 'v \<Rightarrow> 's \<Rightarrow> 's"
  op_get :: "string \<Rightarrow> 's \<Rightarrow> 'v option"
  op_by_prefix :: "string \<Rightarrow> 's \<Rightarrow> (string, 'v option) pydict"
  op_batch_delete :: "string list \<Rightarrow> 's \<Rightarrow> 's"

locale kv_store =
  fixes K :: "('v, 's) kv_ops" and kinv :: "'s \<Rightarrow> bool"
  assumes kinv_set: "kinv s \<Longrightarrow> kinv (op_set K k v s)"
    and kinv_batch_delete: "kinv s \<Longrightarrow> kinv (op_batch_delete K ks s)"
    and get_set: "kinv s \<Longrightarrow> op_get K k' (op_set K k v s) = (if k' = k then Some v else op_get K k' s)"
    and get_batch_delete:
      "kinv s \<Longrightarrow> op_get K k (op_batch_delete K ks s) = (if k \<in> set ks then None else op_get K k s)"
    and by_prefix_dwf: "kinv s \<Longrightarrow> dwf (op_by_prefix K p s)"
    and by_prefix:
      "kinv s \<Longrightarrow> dget (op_by_prefix K p s) k =
         (if startswith k p then map_option Some (op_get K k s) else None)"

definition mem_kv_ops :: "('v, 'v mem_kv) kv_ops" where
  "mem_kv_ops = \<lparr>op_set = mem_set, op_get = mem_get, op_by_prefix = mem_get_by_prefix,
     op_batch_delete = (\<lambda>ks s. snd (mem_batch_delete ks None s))\<rparr>"

text \<open>No entry was written with an expiry, which only \<open>exclusive_set\<close> does.\<close>

definition mem_inv :: "'v mem_kv \<Rightarrow> bool" where
  "mem_inv s \<longleftrightarrow> dwf (kv_entries s) \<and> list_all (\<lambda>(k, v, e). e = None) (kv_entries s)"

lemma mem_invD:
  assumes "mem_inv s"
  shows "dwf (kv_entries s)" and "dget (kv_entries s) k = Some x \<Longrightarrow> snd x = None"
  using assms by (auto simp: mem_inv_def list_all_iff dest!: map_of_SomeD)

lemma mem_invI:
  assumes "dwf (kv_entries s)" and "\<And>k x. dget (kv_entries s) k = Some x \<Longrightarrow> snd x = None"
  shows "mem_inv s"
proof -
  have "snd (snd x) = None" if "x \<in> set (kv_entries s)" for x
    using assms(2)[of "fst x" "snd x"] that dwf_mem_dget[OF assms(1), of "fst x" "snd x"] by simp
  then show ?thesis using assms(1) by (auto simp: mem_inv_def list_all_iff)
qed

lemma mem_batch_delete_entries:
  "kv_entries (snd (mem_batch_delete ks b s)) = fold ddel ks (kv_entries s)"
  "kv_now (snd (mem_batch_delete ks b s)) = kv_now s"
  by (simp_all add: mem_batch_delete_def fold_batches fold_delete_counted)

lemma mem_get_inv: "mem_inv s \<Longrightarrow> get_without_lock k s = map_option fst (dget (kv_entries s) k)"
proof (cases "dget (kv_entries s) k")
  case (Some x)
  assume "mem_inv s"
  then have "snd x = None" using Some by (rule mem_invD(2))
  with Some show ?thesis by (cases x) (simp add: get_without_lock_def expired_def)
qed (simp add: get_without_lock_def)

lemma map_of_keyed: "map_of (map (\<lambda>k. (k, f k)) ks) k = (if k \<in> set ks then Some (f k) else None)"
  by (induction ks) auto

interpretation mem: kv_store mem_kv_ops mem_inv
proof
  fix s :: "'v mem_kv" and k k' :: string and v :: 'v and ks p
  assume I: "mem_inv s"
  note W = mem_invD(1)[OF I]
  have M: "kv_entries (mem_set k v s) = dset k (v, None) (kv_entries s)"
    by (simp add: mem_set_def)
  have D: "kv_entries (snd (mem_batch_delete ks None s)) = fold ddel ks (kv_entries s)"
    by (rule mem_batch_delete_entries)
  have IS: "mem_inv (mem_set k v s)"
    by (rule mem_invI) (auto simp: M W mem_invD(2)[OF I] split: if_splits)
  have ID: "mem_inv (snd (mem_batch_delete ks None s))"
    by (rule mem_invI)
      (simp_all add: D dwf_fold_ddel[OF W] dget_fold_ddel mem_invD(2)[OF I] split: if_splits)
  show "mem_inv (op_set mem_kv_ops k v s)" using IS by (simp add: mem_kv_ops_def)
  show "mem_inv (op_batch_delete mem_kv_ops ks s)" using ID by (simp add: mem_kv_ops_def)
  show "op_get mem_kv_ops k' (op_set mem_kv_ops k v s) =
      (if k' = k then Some v else op_get mem_kv_ops k' s)"
    by (simp add: mem_kv_ops_def mem_get_def mem_get_inv[OF I] mem_get_inv[OF IS] M)
  show "op_get mem_kv_ops k (op_batch_delete mem_kv_ops ks s) =
      (if k \<in> set ks then None else op_get mem_kv_ops k s)"
    by (simp add: mem_kv_ops_def mem_get_def mem_get_inv[OF I] mem_get_inv[OF ID] D dget_fold_ddel)
  show "dwf (op_by_prefix mem_kv_ops p s)"
    using W by (simp add: mem_kv_ops_def mem_get_by_prefix_def comp_def)
  show "dget (op_by_prefix mem_kv_ops p s) k =
      (if startswith k p then map_option Some (op_get mem_kv_ops k s) else None)"
    by (cases "dget (kv_entries s) k")
      (simp_all add: mem_kv_ops_def mem_get_by_prefix_def map_of_keyed mem_get_def mem_get_inv[OF I]
        in_keys_iff)
qed

section \<open>Properties\<close>

text \<open>\<open>exclusive_set\<close> is a lock: it succeeds exactly when \<open>get\<close> sees no value, a failed call
  leaves the store alone, and after a successful one every reader sees the new value until its
  expiry time and no value from then on, while the other keys read as before.\<close>

theorem exclusive_set_lock:
  "fst (mem_exclusive_set k v expiry s) = (mem_get k s = None) \<and>
   (snd (mem_exclusive_set k v expiry s) = s \<or> fst (mem_exclusive_set k v expiry s)) \<and>
   mem_get k' (snd (mem_exclusive_set k v expiry s)\<lparr>kv_now := t\<rparr>) =
     (if fst (mem_exclusive_set k v expiry s) \<and> k' = k
      then (case expiry of
              None \<Rightarrow> Some v
            | Some d \<Rightarrow> if kv_now s + d \<le> t then None else Some v)
      else mem_get k' (s\<lparr>kv_now := t\<rparr>))"
proof -
  let ?r = "mem_exclusive_set k v expiry s"
  let ?e = "map_option (\<lambda>x. kv_now s + x) expiry"
  have get: "mem_get k' (u\<lparr>kv_now := t\<rparr>) = (case dget (kv_entries u) k' of
      None \<Rightarrow> None | Some (v, e) \<Rightarrow> if expired e t then None else Some v)" for u :: "'v mem_kv"
    by (cases "dget (kv_entries u) k'") (auto simp: mem_get_def get_without_lock_def)
  have ok: "fst ?r \<longleftrightarrow> mem_get k s = None"
    by (cases "dget (kv_entries s) k")
      (auto simp: mem_exclusive_set_def Let_def mem_get_def get_without_lock_def split: if_splits)
  have st: "snd ?r = (if fst ?r then s\<lparr>kv_entries := dset k (v, ?e) (kv_entries s)\<rparr> else s)"
    by (cases "dget (kv_entries s) k")
      (auto simp: mem_exclusive_set_def Let_def)
  show ?thesis
  proof (intro conjI)
    show "fst ?r = (mem_get k s = None)" by (rule ok)
    show "snd ?r = s \<or> fst ?r" by (simp add: st)
    show "mem_get k' (snd ?r\<lparr>kv_now := t\<rparr>) =
        (if fst ?r \<and> k' = k then (case expiry of
            None \<Rightarrow> Some v | Some d \<Rightarrow> if kv_now s + d \<le> t then None else Some v)
         else mem_get k' (s\<lparr>kv_now := t\<rparr>))"
      unfolding get st by (cases expiry) (simp_all add: expired_def)
  qed
qed

text \<open>Deleting by prefix or by key list removes exactly the requested keys and reports how many
  of them were present, whatever the batch size, \<open>None\<close>, zero and negative sizes included.\<close>

theorem batch_deletes_exact:
  "mem_get k (mem_delete_by_prefix p b s) = (if startswith k p then None else mem_get k s) \<and>
   mem_get k (snd (mem_batch_delete ks b s)) = (if k \<in> set ks then None else mem_get k s) \<and>
   fst (mem_batch_delete ks b s) = card (set ks \<inter> fst ` set (kv_entries s))"
proof (intro conjI)
  show "mem_get k (mem_delete_by_prefix p b s) = (if startswith k p then None else mem_get k s)"
    by (cases "dget (kv_entries s) k")
      (simp_all add: mem_get_def get_without_lock_def mem_delete_by_prefix_def fold_batches
        dget_fold_ddel in_keys_iff)
  show "mem_get k (snd (mem_batch_delete ks b s)) = (if k \<in> set ks then None else mem_get k s)"
    by (cases "dget (kv_entries s) k")
      (auto simp: mem_get_def get_without_lock_def mem_batch_delete_entries dget_fold_ddel)
  show "fst (mem_batch_delete ks b s) = card (set ks \<inter> fst ` set (kv_entries s))"
    by (simp add: mem_batch_delete_def fold_batches fold_delete_counted)
qed

end
