(* ===== verification/Pyval.thy ===== *)
theory Pyval
  imports Prelude
begin

text \<open>
  Python values as the session code stores them: JSON-like data with tuples and opaque
  objects. A \<open>float\<close> is the rational it denotes (infinities and NaN are left out); an opaque
  object carries an identity. \<open>py_eq\<close> is Python's \<open>==\<close> on them: numbers of every kind compare by
  value, dictionaries regardless of the order of their items.
\<close>

datatype pyval =
    PNone
  | PBool bool
  | PInt int
  | PFloat rat
  | PStr string
  | PList "pyval list"
  | PTuple "pyval list"
  | PDict "(string \<times> pyval) list"
  | PObj nat

type_synonym pdict = "(string, pyval) pydict"

fun num_of :: "pyval \<Rightarrow> rat option" where
  "num_of (PBool b) = Some (if b then 1 else 0)"
| "num_of (PInt i) = Some (of_int i)"
| "num_of (PFloat q) = Some q"
| "num_of _ = None"

function (sequential) py_eq :: "pyval \<Rightarrow> pyval \<Rightarrow> bool"
  and py_eq_list :: "pyval list \<Rightarrow> pyval list \<Rightarrow> bool"
  and py_dict_sub :: "(string \<times> pyval) list \<Rightarrow> (string \<times> pyval) list \<Rightarrow> bool"
where
  "py_eq PNone b = (b = PNone)"
| "py_eq (PStr s) b = (b = PStr s)"
| "py_eq (PObj i) b = (b = PObj i)"
| "py_eq (PBool x) b = (num_of b = Some (if x then 1 else 0))"
| "py_eq (PInt x) b = (num_of b = Some (of_int x))"
| "py_eq (PFloat q) b = (num_of b = Some q)"
| "py_eq (PList xs) b = (case b of PList ys \<Rightarrow> py_eq_list xs ys | _ \<Rightarrow> False)"
| "py_eq (PTuple xs) b = (case b of PTuple ys \<Rightarrow> py_eq_list xs ys | _ \<Rightarrow> False)"
| "py_eq (PDict d) b =
     (case b of PDict e \<Rightarrow> length d = length e \<and> py_dict_sub d e | _ \<Rightarrow> False)"
| "py_eq_list [] ys = (ys = [])"
| "py_eq_list (x # xs) ys = (case ys of [] \<Rightarrow> False | y # ys' \<Rightarrow> py_eq x y \<and> py_eq_list xs ys')"
| "py_dict_sub [] e = True"
| "py_dict_sub ((k, v) # d) e =
     (case dget e k of None \<Rightarrow> False | Some w \<Rightarrow> py_eq v w \<and> py_dict_sub d e)"
  by pat_completeness auto
termination
  by (relation "measure (\<lambda>a. case a of Inl (v, _) \<Rightarrow> size v
      | Inr (Inl (vs, _)) \<Rightarrow> size_list size vs
      | Inr (Inr (d, _)) \<Rightarrow> size_list (\<lambda>(_, v). size v) d)")
    (auto simp: split_beta' intro!: le_imp_less_Suc size_list_pointwise)

lemma py_eq_list_iff: "py_eq_list xs ys \<longleftrightarrow> list_all2 py_eq xs ys"
  by (induction xs arbitrary: ys) (auto split: list.splits simp: list_all2_Cons1)

lemma py_dict_sub_iff:
  "py_dict_sub d e \<longleftrightarrow> (\<forall>k v. (k, v) \<in> set d \<longrightarrow> (\<exists>w. dget e k = Some w \<and> py_eq v w))"
proof (induction d)
  case (Cons p d)
  obtain k v where "p = (k, v)" by force
  with Cons show ?case by (cases "dget e k") auto
qed simp

text \<open>Well-formed values: every dictionary has distinct keys, all of which satisfy \<open>P\<close>.\<close>

fun pv_ok :: "(string \<Rightarrow> bool) \<Rightarrow> pyval \<Rightarrow> bool" where
  "pv_ok P (PList xs) = list_all (pv_ok P) xs"
| "pv_ok P (PTuple xs) = list_all (pv_ok P) xs"
| "pv_ok P (PDict d) = (distinct (map fst d) \<and> list_all (\<lambda>p. P (fst p) \<and> pv_ok P (snd p)) d)"
| "pv_ok P _ = True"

abbreviation pd_ok :: "(string \<Rightarrow> bool) \<Rightarrow> pdict \<Rightarrow> bool" where
  "pd_ok P d \<equiv> pv_ok P (PDict d)"

lemma pv_ok_dict:
  "pv_ok P (PDict d) \<longleftrightarrow> dwf d \<and> (\<forall>k v. dget d k = Some v \<longrightarrow> P k \<and> pv_ok P v)"
proof (cases "dwf d")
  case True
  show ?thesis by (auto simp: list_all_iff dwf_mem_dget[OF True, symmetric])
qed simp

lemma pd_ok_values: "pd_ok P d \<Longrightarrow> v \<in> snd ` set d \<Longrightarrow> pv_ok P v"
  by (auto simp: list_all_iff)

declare pv_ok.simps(3) [simp del]

lemma pd_okD:
  assumes "pd_ok P d"
  shows "dwf d" and "dget d k = Some v \<Longrightarrow> P k" and "dget d k = Some v \<Longrightarrow> pv_ok P v"
  using assms by (auto simp: pv_ok_dict)

lemma pd_okI:
  assumes "dwf d" and "\<And>k v. dget d k = Some v \<Longrightarrow> P k \<and> pv_ok P v"
  shows "pd_ok P d"
  using assms by (auto simp: pv_ok_dict)

lemma pd_ok_Nil [simp]: "pd_ok P []"
  by (rule pd_okI) auto

lemma pd_ok_dset [simp]: "pd_ok P d \<Longrightarrow> P k \<Longrightarrow> pv_ok P v \<Longrightarrow> pd_ok P (dset k v d)"
  by (rule pd_okI) (auto dest: pd_okD split: if_splits)

lemma pd_ok_ddel [simp]: "pd_ok P d \<Longrightarrow> pd_ok P (ddel k d)"
  by (rule pd_okI) (auto dest: pd_okD split: if_splits)

text \<open>On well-formed values \<open>==\<close> compares dictionaries key by key.\<close>

lemma py_eq_dict:
  assumes "dwf d" and "dwf e"
  shows "py_eq (PDict d) (PDict e) \<longleftrightarrow> (\<forall>k. rel_option py_eq (dget d k) (dget e k))"
proof
  assume E: "py_eq (PDict d) (PDict e)"
  then have L: "length d = length e" and S: "dget d k = Some v \<Longrightarrow> \<exists>w. dget e k = Some w \<and> py_eq v w" for k v
    by (auto simp: py_dict_sub_iff dest!: map_of_SomeD)
  have "set (dkeys d) \<subseteq> set (dkeys e)"
    using S by (metis dget_in_keys in_keys_dget list.set_map subsetI)
  then have K: "set (dkeys d) = set (dkeys e)"
    using L assms by (metis card_subset_eq distinct_card finite_set length_map)
  show "\<forall>k. rel_option py_eq (dget d k) (dget e k)"
  proof
    fix k
    show "rel_option py_eq (dget d k) (dget e k)"
    proof (cases "dget d k")
      case None
      then have "dget e k = None" using K by (simp add: dget_None_iff)
      with None show ?thesis by simp
    next
      case (Some v)
      with S[OF Some] show ?thesis by auto
    qed
  qed
next
  assume R: "\<forall>k. rel_option py_eq (dget d k) (dget e k)"
  then have "k \<in> fst ` set d \<longleftrightarrow> k \<in> fst ` set e" for k
    by (metis dget_None_iff option.rel_distinct(1) option.rel_distinct(2) option.exhaust)
  then have "length d = length e"
    using assms by (metis distinct_card length_map list.set_map subsetI subset_antisym)
  moreover have "py_dict_sub d e"
    unfolding py_dict_sub_iff dwf_mem_dget[OF assms(1)]
  proof (intro allI impI)
    fix k v
    assume "dget d k = Some v"
    moreover have "rel_option py_eq (dget d k) (dget e k)" using R by blast
    ultimately show "\<exists>w. dget e k = Some w \<and> py_eq v w"
      by (cases "dget e k") auto
  qed
  ultimately show "py_eq (PDict d) (PDict e)" by simp
qed

declare py_eq.simps(9) [simp del]

lemma py_eq_refl: "pv_ok P v \<Longrightarrow> py_eq v v"
proof (induction v)
  case (PList xs)
  then show ?case by (auto simp: py_eq_list_iff list_all_iff intro!: list.rel_refl_strong)
next
  case (PTuple xs)
  then show ?case by (auto simp: py_eq_list_iff list_all_iff intro!: list.rel_refl_strong)
next
  case (PDict d)
  have "py_eq v v" if "dget d k = Some v" for k v
    using PDict.IH[of "(k, v)" v] pd_okD(3)[OF PDict.prems that] map_of_SomeD[OF that] by auto
  then show ?case
    unfolding py_eq_dict[OF pd_okD(1)[OF PDict.prems] pd_okD(1)[OF PDict.prems]]
    by (metis option.rel_refl_strong option.set_cases)
qed auto

lemma py_eq_dictD: "py_eq (PDict d) b \<Longrightarrow> \<exists>e. b = PDict e"
  by (cases b) (auto simp: py_eq.simps(9))

lemma py_eq_list_num: "num_of v = Some q \<Longrightarrow> py_eq v b \<longleftrightarrow> num_of b = Some q"
  by (cases v) auto

lemma py_eq_dict_right: "py_eq v (PDict e) \<Longrightarrow> \<exists>d. v = PDict d"
  by (cases v) auto

lemma py_eq_num: "py_eq a b \<Longrightarrow> num_of a = num_of b"
proof (cases "num_of a")
  case None
  assume "py_eq a b"
  with None show ?thesis
    by (cases a; cases b) (auto simp: py_eq.simps(9))
next
  case (Some q)
  assume "py_eq a b"
  with Some show ?thesis by (simp add: py_eq_list_num)
qed

lemma list_all2_trans_on:
  assumes "list_all2 R xs ys" and "list_all2 R ys zs"
    and "\<And>x y z. x \<in> set xs \<Longrightarrow> y \<in> set ys \<Longrightarrow> z \<in> set zs \<Longrightarrow> R x y \<Longrightarrow> R y z \<Longrightarrow> R x z"
  shows "list_all2 R xs zs"
proof (rule list_all2_all_nthI)
  show "length xs = length zs" using assms(1,2) by (simp add: list_all2_lengthD)
  show "R (xs ! i) (zs ! i)" if "i < length xs" for i
    by (rule assms(3)[of _ "ys ! i"]) (use assms(1,2) that in \<open>auto simp: list_all2_conv_all_nth\<close>)
qed

lemma py_eq_trans:
  "py_eq a b \<Longrightarrow> py_eq b c \<Longrightarrow> pv_ok P a \<Longrightarrow> pv_ok P b \<Longrightarrow> pv_ok P c \<Longrightarrow> py_eq a c"
proof (induction a arbitrary: b c)
  case (PList xs)
  then obtain ys zs where "b = PList ys" "c = PList zs"
    by (auto split: pyval.splits)
  with PList show ?case
    by (auto simp: py_eq_list_iff list_all_iff intro: list_all2_trans_on)
next
  case (PTuple xs)
  then obtain ys zs where "b = PTuple ys" "c = PTuple zs"
    by (auto split: pyval.splits)
  with PTuple show ?case
    by (auto simp: py_eq_list_iff list_all_iff intro: list_all2_trans_on)
next
  case (PDict d)
  obtain e where e: "b = PDict e" using py_eq_dictD[OF PDict.prems(1)] by blast
  obtain f where f: "c = PDict f" using py_eq_dictD PDict.prems(2) e by blast
  note ok = PDict.prems(3) PDict.prems(4)[unfolded e] PDict.prems(5)[unfolded f]
  note w = pd_okD(1)[OF ok(1)] pd_okD(1)[OF ok(2)] pd_okD(1)[OF ok(3)]
  have 1: "rel_option py_eq (dget d k) (dget e k)" for k
    using PDict.prems(1) unfolding e py_eq_dict[OF w(1,2)] by blast
  have 2: "rel_option py_eq (dget e k) (dget f k)" for k
    using PDict.prems(2) unfolding e f py_eq_dict[OF w(2,3)] by blast
  have "rel_option py_eq (dget d k) (dget f k)" for k
  proof (cases "dget d k")
    case None
    with 1[of k] 2[of k] show ?thesis by (auto simp: rel_option_iff split: option.splits)
  next
    case (Some v)
    from 1[of k] Some obtain v' where v': "dget e k = Some v'" "py_eq v v'"
      by (cases "dget e k") auto
    from 2[of k] v' obtain v'' where v'': "dget f k = Some v''" "py_eq v' v''"
      by (cases "dget f k") auto
    have "py_eq v v''"
      using PDict.IH[of "(k, v)" v, OF map_of_SomeD[OF Some] _ v'(2) v''(2)]
        pd_okD(3)[OF ok(1) Some] pd_okD(3)[OF ok(2) v'(1)] pd_okD(3)[OF ok(3) v''(1)] by simp
    with Some v'' show ?thesis by simp
  qed
  then show ?case unfolding f py_eq_dict[OF w(1,3)] by blast
qed (auto simp: py_eq_num)

lemma list_all2_sym_on:
  assumes "list_all2 R xs ys" and "\<And>x y. x \<in> set xs \<Longrightarrow> y \<in> set ys \<Longrightarrow> R x y \<Longrightarrow> R y x"
  shows "list_all2 R ys xs"
proof (rule list_all2_all_nthI)
  show "length ys = length xs" using assms(1) by (simp add: list_all2_lengthD)
  show "R (ys ! i) (xs ! i)" if "i < length ys" for i
    by (rule assms(2)) (use assms(1) that in \<open>auto simp: list_all2_conv_all_nth\<close>)
qed

lemma py_eq_sym: "py_eq a b \<Longrightarrow> pv_ok P a \<Longrightarrow> pv_ok P b \<Longrightarrow> py_eq b a"
proof (induction a arbitrary: b)
  case (PList xs)
  then obtain ys where "b = PList ys" by (auto split: pyval.splits)
  with PList show ?case by (auto simp: py_eq_list_iff list_all_iff intro: list_all2_sym_on)
next
  case (PTuple xs)
  then obtain ys where "b = PTuple ys" by (auto split: pyval.splits)
  with PTuple show ?case by (auto simp: py_eq_list_iff list_all_iff intro: list_all2_sym_on)
next
  case (PDict d)
  obtain e where e: "b = PDict e" using py_eq_dictD[OF PDict.prems(1)] by blast
  note ok = PDict.prems(2) PDict.prems(3)[unfolded e]
  note w = pd_okD(1)[OF ok(1)] pd_okD(1)[OF ok(2)]
  have "rel_option py_eq (dget e k) (dget d k)" for k
  proof -
    have 1: "rel_option py_eq (dget d k) (dget e k)"
      using PDict.prems(1) unfolding e py_eq_dict[OF w(1,2)] by blast
    show ?thesis
    proof (cases "dget d k")
      case None
      with 1 show ?thesis by (cases "dget e k") auto
    next
      case (Some v)
      with 1 obtain v' where v': "dget e k = Some v'" "py_eq v v'" by (cases "dget e k") auto
      then show ?thesis
        using PDict.IH[of "(k, v)" v, OF map_of_SomeD[OF Some] _ v'(2)]
          pd_okD(3)[OF ok(1) Some] pd_okD(3)[OF ok(2) v'(1)] Some by simp
    qed
  qed
  then show ?case unfolding e py_eq_dict[OF w(2,1)] by blast
qed (metis num_of.simps py_eq_list_num py_eq_num py_eq.simps(1,2,3))+

end
