(* ===== verification/VCS_Delta.thy ===== *)
theory VCS_Delta
  imports Pyval
begin

text \<open>
  The delta algorithms of session version control, \<open>core/session/vcs/delta.py\<close>, with the
  delta records of \<open>models.py\<close>: message sequences are diffed into appended tails or resets, the
  state dictionary into a flat map of dotted paths and a list of removed paths.
\<close>

section \<open>Records\<close>

datatype delta_kind = Append | Reset

record message_delta =
  md_context_id :: string
  md_kind :: delta_kind
  md_messages :: "pyval list"
  md_offload :: "pdict option"

record state_delta =
  sd_set :: pdict
  sd_removed :: "string list"

text \<open>
  An encoded context: \<open>encode_context_state\<close> always writes a \<open>messages\<close> list;
  \<open>offload_messages\<close> may be absent (or \<open>None\<close>).
\<close>

record ctx_entry =
  messages :: "pyval list"
  offload_messages :: "pdict option"

type_synonym ctx_map = "(string, ctx_entry) pydict"

section \<open>The context track\<close>

definition is_prefix :: "pyval list \<Rightarrow> pyval list \<Rightarrow> bool" where
  "is_prefix old new \<longleftrightarrow> length old \<le> length new \<and> py_eq_list (take (length old) new) old"

fun offload_eq :: "pdict option \<Rightarrow> pdict option \<Rightarrow> bool" where
  "offload_eq None None = True"
| "offload_eq (Some d) (Some e) = py_eq (PDict d) (PDict e)"
| "offload_eq _ _ = False"

definition reset_delta :: "string \<Rightarrow> ctx_entry \<Rightarrow> message_delta" where
  "reset_delta cid c = \<lparr>md_context_id = cid, md_kind = Reset, md_messages = messages c,
     md_offload = offload_messages c\<rparr>"

definition append_delta :: "string \<Rightarrow> pyval list \<Rightarrow> message_delta" where
  "append_delta cid tail = \<lparr>md_context_id = cid, md_kind = Append, md_messages = tail,
     md_offload = None\<rparr>"

fun diff_one_context :: "ctx_map \<Rightarrow> string \<times> ctx_entry \<Rightarrow> message_delta list" where
  "diff_one_context old (cid, new_ctx) =
     (case dget old cid of
        None \<Rightarrow> [reset_delta cid new_ctx]
      | Some old_ctx \<Rightarrow>
          (let offload_changed = \<not> offload_eq (offload_messages old_ctx) (offload_messages new_ctx)
           in if \<not> offload_changed \<and> is_prefix (messages old_ctx) (messages new_ctx)
              then (let tail = drop (length (messages old_ctx)) (messages new_ctx)
                    in if tail \<noteq> [] then [append_delta cid tail] else [])
              else [reset_delta cid new_ctx]))"

definition diff_context :: "ctx_map \<Rightarrow> ctx_map \<Rightarrow> message_delta list" where
  "diff_context old new = concat (map (diff_one_context old) new)"

definition apply_one_context :: "message_delta \<Rightarrow> ctx_map \<Rightarrow> ctx_map" where
  "apply_one_context d m =
     (case md_kind d of
        Reset \<Rightarrow> dset (md_context_id d)
          \<lparr>messages = md_messages d,
           offload_messages = Some (case md_offload d of None \<Rightarrow> [] | Some e \<Rightarrow> e)\<rparr> m
      | Append \<Rightarrow>
          (let entry = dget_default \<lparr>messages = [], offload_messages = Some []\<rparr> m (md_context_id d)
           in dset (md_context_id d) (entry\<lparr>messages := messages entry @ md_messages d\<rparr>) m))"

definition apply_context :: "ctx_map \<Rightarrow> message_delta list \<Rightarrow> ctx_map" where
  "apply_context ctx deltas = fold apply_one_context deltas ctx"

section \<open>The state track\<close>

definition sub_path :: "string \<Rightarrow> string \<Rightarrow> string" where
  "sub_path pre key = (if pre \<noteq> [] then pre @ ''.'' @ key else key)"

function (sequential) diff_into ::
    "pdict \<Rightarrow> pdict \<Rightarrow> string \<Rightarrow> pdict \<times> string list \<Rightarrow> pdict \<times> string list"
  and diff_items ::
    "pdict \<Rightarrow> pdict \<Rightarrow> string \<Rightarrow> pdict \<times> string list \<Rightarrow> pdict \<times> string list"
  and diff_value ::
    "pyval \<Rightarrow> pyval \<Rightarrow> string \<Rightarrow> pdict \<times> string list \<Rightarrow> pdict \<times> string list"
where
  "diff_into old new pre acc =
     (let (set_flat, removed) = diff_items old new pre acc
      in (set_flat,
          removed @ map (sub_path pre) (filter (\<lambda>k. dget new k = None) (dkeys old))))"
| "diff_items old [] pre acc = acc"
| "diff_items old ((key, new_value) # rest) pre acc =
     diff_items old rest pre
       (case dget old key of
          None \<Rightarrow> (dset (sub_path pre key) new_value (fst acc), snd acc)
        | Some old_value \<Rightarrow> diff_value old_value new_value (sub_path pre key) acc)"
| "diff_value (PDict o') (PDict n') path acc = diff_into o' n' path acc"
| "diff_value old_value new_value path acc =
     (if py_eq old_value new_value then acc else (dset path new_value (fst acc), snd acc))"
  by pat_completeness auto
termination
  by (relation "measure (\<lambda>a. case a of
        Inl (_, new, _, _) \<Rightarrow> 2 * size_list (\<lambda>(_, v). size v) new + 1
      | Inr (Inl (_, new, _, _)) \<Rightarrow> 2 * size_list (\<lambda>(_, v). size v) new
      | Inr (Inr (_, v, _, _)) \<Rightarrow> 2 * size v)")
    (auto simp: split_beta' less_Suc_eq_le intro!: size_list_pointwise)

definition diff_state :: "pdict \<Rightarrow> pdict \<Rightarrow> state_delta" where
  "diff_state old new =
     (let (set_flat, removed) = diff_into old new [] ([], [])
      in \<lparr>sd_set = set_flat, sd_removed = removed\<rparr>)"

definition as_dict :: "pyval option \<Rightarrow> pdict" where
  "as_dict v = (case v of Some (PDict c) \<Rightarrow> c | _ \<Rightarrow> [])"

text \<open>The key lists come from \<open>split\<close>, so they are never empty.\<close>

fun set_path :: "pdict \<Rightarrow> string list \<Rightarrow> pyval \<Rightarrow> pdict" where
  "set_path node [] value = node"
| "set_path node [key] value = dset key value node"
| "set_path node (key # k2 # ks) value =
     dset key (PDict (set_path (as_dict (dget node key)) (k2 # ks) value)) node"

fun del_path :: "pdict \<Rightarrow> string list \<Rightarrow> pdict" where
  "del_path node [] = node"
| "del_path node [key] = ddel key node"
| "del_path node (key # k2 # ks) =
     (case dget node key of
        Some (PDict c) \<Rightarrow> dset key (PDict (del_path c (k2 # ks))) node
      | _ \<Rightarrow> node)"

definition apply_state :: "pdict \<Rightarrow> state_delta \<Rightarrow> pdict" where
  "apply_state state d =
     fold (\<lambda>path r. del_path r (split_on CHR ''.'' path)) (sd_removed d)
       (fold (\<lambda>(path, value) r. set_path r (split_on CHR ''.'' path) value) (sd_set d) state)"

section \<open>Deltas as key lists\<close>

text \<open>
  The same deltas with the paths as key lists: \<open>dpaths\<close> what is set, \<open>rpaths\<close> what is removed.
\<close>

definition prepend :: "string \<Rightarrow> (string list \<times> 'a) list \<Rightarrow> (string list \<times> 'a) list" where
  "prepend k = map (\<lambda>(p, v). (k # p, v))"

function (sequential) dpaths :: "pdict \<Rightarrow> pdict \<Rightarrow> (string list \<times> pyval) list"
  and dvalue :: "pyval option \<Rightarrow> pyval \<Rightarrow> (string list \<times> pyval) list"
where
  "dpaths old [] = []"
| "dpaths old ((k, v) # rest) = prepend k (dvalue (dget old k) v) @ dpaths old rest"
| "dvalue None v = [([], v)]"
| "dvalue (Some (PDict o')) (PDict n') = dpaths o' n'"
| "dvalue (Some ov) nv = (if py_eq ov nv then [] else [([], nv)])"
  by pat_completeness auto
termination
  by (relation "measure (\<lambda>a. case a of
        Inl (_, new) \<Rightarrow> size_list (\<lambda>(_, v). size v) new
      | Inr (_, v) \<Rightarrow> size v)")
    (auto simp: split_beta' less_Suc_eq_le intro!: size_list_pointwise)

function (sequential) rpaths :: "pdict \<Rightarrow> pdict \<Rightarrow> (string list \<times> unit) list"
  and ritems :: "pdict \<Rightarrow> pdict \<Rightarrow> (string list \<times> unit) list"
  and rvalue :: "pyval option \<Rightarrow> pyval \<Rightarrow> (string list \<times> unit) list"
where
  "rpaths old new = ritems old new @ map (\<lambda>k. ([k], ())) (filter (\<lambda>k. dget new k = None) (dkeys old))"
| "ritems old [] = []"
| "ritems old ((k, v) # rest) = prepend k (rvalue (dget old k) v) @ ritems old rest"
| "rvalue (Some (PDict o')) (PDict n') = rpaths o' n'"
| "rvalue _ _ = []"
  by pat_completeness auto
termination
  by (relation "measure (\<lambda>a. case a of
        Inl (_, new) \<Rightarrow> 2 * size_list (\<lambda>(_, v). size v) new + 1
      | Inr (Inl (_, new)) \<Rightarrow> 2 * size_list (\<lambda>(_, v). size v) new
      | Inr (Inr (_, v)) \<Rightarrow> 2 * size v)")
    (auto simp: split_beta' less_Suc_eq_le intro!: size_list_pointwise)


section \<open>Operations below one key\<close>

definition ops_at :: "string \<Rightarrow> (string list \<times> 'a) list \<Rightarrow> (string list \<times> 'a) list" where
  "ops_at k ops = concat (map (\<lambda>(p, v). case p of [] \<Rightarrow> [] | k' # q \<Rightarrow> if k' = k then [(q, v)] else []) ops)"

lemma ops_at_simps [simp]:
  "ops_at k [] = []"
  "ops_at k (xs @ ys) = ops_at k xs @ ops_at k ys"
  "ops_at k ((k' # q, v) # xs) = (if k' = k then [(q, v)] else []) @ ops_at k xs"
  by (simp_all add: ops_at_def)

lemma ops_at_prepend [simp]: "ops_at k (prepend k' xs) = (if k' = k then xs else [])"
  by (induction xs) (auto simp: prepend_def split: if_splits)

lemma prepend_paths [simp]: "[] \<notin> fst ` set (prepend k xs)"
  by (auto simp: prepend_def)

text \<open>
  An update that walks down a key list acts on one entry of the dictionary: \<open>step\<close> is the update
  of a dictionary, \<open>eff\<close> its effect on the entry of the first key.
\<close>

locale keyed_update =
  fixes step :: "string list \<Rightarrow> 'a \<Rightarrow> pdict \<Rightarrow> pdict"
    and eff :: "string list \<Rightarrow> 'a \<Rightarrow> pyval option \<Rightarrow> pyval option"
  assumes lookup: "dget (step (k # p) v R) k' = (if k' = k then eff p v (dget R k) else dget R k')"
    and at_dict: "eff (k # p) v (Some (PDict r)) = Some (PDict (step (k # p) v r))"
begin

lemma fold_lookup:
  assumes "[] \<notin> fst ` set ops"
  shows "dget (fold (\<lambda>(p, v). step p v) ops R) k = fold (\<lambda>(p, v). eff p v) (ops_at k ops) (dget R k)"
  using assms
proof (induction ops arbitrary: R)
  case (Cons x ops)
  obtain k' q v where x: "x = (k' # q, v)"
    using Cons.prems by (cases x; cases "fst x") auto
  with Cons show ?case by (simp add: lookup)
qed simp

lemma fold_at_dict:
  assumes "[] \<notin> fst ` set ops"
  shows "fold (\<lambda>(p, v). eff p v) ops (Some (PDict r)) = Some (PDict (fold (\<lambda>(p, v). step p v) ops r))"
  using assms
proof (induction ops arbitrary: r)
  case (Cons x ops)
  obtain k' q v where x: "x = (k' # q, v)"
    using Cons.prems by (cases x; cases "fst x") auto
  with Cons show ?case by (simp add: at_dict)
qed simp

end

fun set_at :: "string list \<Rightarrow> pyval \<Rightarrow> pyval option \<Rightarrow> pyval option" where
  "set_at [] v e = Some v"
| "set_at (k # ks) v e = Some (PDict (set_path (as_dict e) (k # ks) v))"

fun del_at :: "string list \<Rightarrow> unit \<Rightarrow> pyval option \<Rightarrow> pyval option" where
  "del_at [] u e = None"
| "del_at (k # ks) u e =
     (case e of Some (PDict c) \<Rightarrow> Some (PDict (del_path c (k # ks))) | _ \<Rightarrow> e)"

interpretation sets: keyed_update "\<lambda>p v r. set_path r p v" set_at
proof
  show "dget (set_path R (k # p) v) k' = (if k' = k then set_at p v (dget R k) else dget R k')"
    for k p v R k'
    by (cases p) auto
qed (simp add: as_dict_def)

interpretation dels: keyed_update "\<lambda>p u r. del_path r p" del_at
proof
  show "dget (del_path R (k # p)) k' = (if k' = k then del_at p v (dget R k) else dget R k')"
    for k p v R k'
    by (cases p) (auto split: option.splits pyval.splits)
qed simp

section \<open>The structured deltas\<close>

abbreviation wf_pv :: "pyval \<Rightarrow> bool" where
  "wf_pv \<equiv> pv_ok (\<lambda>_. True)"

lemma dvalue_leaf:
  assumes "\<And>o' n'. ov = PDict o' \<Longrightarrow> nv \<noteq> PDict n'"
  shows "dvalue (Some ov) nv = (if py_eq ov nv then [] else [([], nv)])"
    and "rvalue (Some ov) nv = []"
  using assms by (cases ov; cases nv; simp)+

lemma dpaths_ops_at:
  "dwf new \<Longrightarrow> ops_at k (dpaths old new) =
     (case dget new k of None \<Rightarrow> [] | Some v \<Rightarrow> dvalue (dget old k) v)"
proof (induction new)
  case (Cons x new)
  then show ?case
    by (cases x) (auto simp: dget_None_iff[symmetric] split: option.splits)
qed simp

lemma ritems_ops_at:
  "dwf new \<Longrightarrow> ops_at k (ritems old new) =
     (case dget new k of None \<Rightarrow> [] | Some v \<Rightarrow> rvalue (dget old k) v)"
proof (induction new)
  case (Cons x new)
  then show ?case
    by (cases x) (auto simp: dget_None_iff[symmetric] split: option.splits)
qed simp

lemma ops_at_removed:
  "distinct ks \<Longrightarrow> ops_at k (map (\<lambda>k. ([k], ())) ks) = (if k \<in> set ks then [([], ())] else [])"
  by (induction ks) auto

lemma rpaths_ops_at:
  assumes "dwf new" and "dwf old"
  shows "ops_at k (rpaths old new) =
     (case dget new k of
        None \<Rightarrow> (if dget old k = None then [] else [([], ())])
      | Some v \<Rightarrow> rvalue (dget old k) v)"
  using assms
  by (cases "dget new k"; cases "dget old k") (simp_all add: ritems_ops_at ops_at_removed in_keys_iff)

lemma dpaths_nonempty [simp]: "[] \<notin> fst ` set (dpaths old new)"
  by (induction new) (auto simp: prepend_def)

lemma ritems_nonempty [simp]: "[] \<notin> fst ` set (ritems old new)"
  by (induction new) (auto simp: prepend_def)

lemma rpaths_nonempty [simp]: "[] \<notin> fst ` set (rpaths old new)"
  by (simp add: image_Un) (auto simp: image_image)

declare rpaths.simps [simp del]

lemma wf_as_dict: "(\<And>v. e = Some v \<Longrightarrow> wf_pv v) \<Longrightarrow> wf_pv (PDict (as_dict e))"
  by (auto simp: as_dict_def split: option.splits pyval.splits)

lemma wf_set_path: "wf_pv (PDict r) \<Longrightarrow> wf_pv v \<Longrightarrow> wf_pv (PDict (set_path r p v))"
  by (induction r p v rule: set_path.induct) (auto intro!: pd_ok_dset wf_as_dict dest: pd_okD)

lemma wf_del_path: "wf_pv (PDict r) \<Longrightarrow> wf_pv (PDict (del_path r p))"
  by (induction r p rule: del_path.induct)
    (auto intro!: pd_ok_dset dest: pd_okD split: option.splits pyval.splits)

lemma wf_dpaths:
  "(\<And>v. v \<in> snd ` set new \<Longrightarrow> wf_pv v) \<Longrightarrow> x \<in> set (dpaths old new) \<Longrightarrow> wf_pv (snd x)"
  "wf_pv v \<Longrightarrow> y \<in> set (dvalue ov v) \<Longrightarrow> wf_pv (snd y)"
proof (induction old new and ov v arbitrary: x and y rule: dpaths_dvalue.induct)
  case (4 o' n')
  then show ?case using pd_ok_values[OF 4(2)] by auto
qed (auto simp: prepend_def split: if_splits)

lemma wf_fold_set:
  "wf_pv (PDict r) \<Longrightarrow> \<forall>x \<in> set ops. wf_pv (snd x) \<Longrightarrow>
   wf_pv (PDict (fold (\<lambda>(p, v) r. set_path r p v) ops r))"
  by (induction ops arbitrary: r) (auto simp: wf_set_path)

lemma wf_fold_del:
  "wf_pv (PDict r) \<Longrightarrow> wf_pv (PDict (fold (\<lambda>(p, u) r. del_path r p) ops r))"
  by (induction ops arbitrary: r) (auto simp: wf_del_path)

text \<open>
  Applying the structured delta of \<open>old\<close> and \<open>new\<close> to anything equal to \<open>old\<close> gives
  something equal to \<open>new\<close>.
\<close>

definition patch :: "pdict \<Rightarrow> pdict \<Rightarrow> pdict \<Rightarrow> pdict" where
  "patch old new R = fold (\<lambda>(p, u) r. del_path r p) (rpaths old new)
     (fold (\<lambda>(p, v) r. set_path r p v) (dpaths old new) R)"

lemma patch_lookup:
  "dget (patch old new R) k =
     fold (\<lambda>(p, u). del_at p u) (ops_at k (rpaths old new))
       (fold (\<lambda>(p, v). set_at p v) (ops_at k (dpaths old new)) (dget R k))"
  by (simp add: patch_def sets.fold_lookup dels.fold_lookup)

lemma patch_at_dict:
  "fold (\<lambda>(p, u). del_at p u) (rpaths old new)
     (fold (\<lambda>(p, v). set_at p v) (dpaths old new) (Some (PDict r))) = Some (PDict (patch old new r))"
  by (simp add: patch_def sets.fold_at_dict dels.fold_at_dict)

lemma wf_patch:
  assumes "wf_pv (PDict R)" and "wf_pv (PDict new)"
  shows "wf_pv (PDict (patch old new R))"
  unfolding patch_def
  by (intro wf_fold_del wf_fold_set assms(1) ballI)
    (rule wf_dpaths(1), rule pd_ok_values[OF assms(2)])

lemma patch_entry:
  assumes "wf_pv (PDict old)" and "wf_pv (PDict new)"
  shows "dget (patch old new R) k =
    (case dget new k of
       None \<Rightarrow> (if dget old k = None then dget R k else None)
     | Some nv \<Rightarrow> fold (\<lambda>(p, u). del_at p u) (rvalue (dget old k) nv)
         (fold (\<lambda>(p, v). set_at p v) (dvalue (dget old k) nv) (dget R k)))"
  using pd_okD(1)[OF assms(1)] pd_okD(1)[OF assms(2)]
  by (auto simp: patch_lookup dpaths_ops_at rpaths_ops_at split: option.splits)

lemma size_dict_value: "dget d k = Some v \<Longrightarrow> size v < size (PDict d)"
  by (induction d) (auto split: if_splits)

theorem patch_eq:
  "py_eq (PDict R) (PDict old) \<Longrightarrow> wf_pv (PDict R) \<Longrightarrow> wf_pv (PDict old) \<Longrightarrow> wf_pv (PDict new) \<Longrightarrow>
   py_eq (PDict (patch old new R)) (PDict new)"
proof (induction "PDict new" arbitrary: new R old rule: measure_induct_rule[of size])
  case less
  note prem = less.prems
  note wf = pd_okD(1)[OF wf_patch[OF prem(2,4), of old]] pd_okD(1)[OF prem(4)]
  have E: "rel_option py_eq (dget R k) (dget old k)" for k
    using prem(1) py_eq_dict[OF pd_okD(1)[OF prem(2)] pd_okD(1)[OF prem(3)]] by blast
  have "rel_option py_eq (dget (patch old new R) k) (dget new k)" for k
  proof (cases "dget new k")
    case None
    with E[of k] show ?thesis by (auto simp: patch_entry[OF prem(3,4)])
  next
    case (Some nv)
    note nv = pd_okD(3)[OF prem(4) Some]
    show ?thesis
    proof (cases "dget old k")
      case None
      with Some show ?thesis by (auto simp: patch_entry[OF prem(3,4)] intro: py_eq_refl[OF nv])
    next
      case (Some ov)
      note ov = pd_okD(3)[OF prem(3) Some]
      obtain rv where rv: "dget R k = Some rv" "py_eq rv ov"
        using E[of k] Some by (cases "dget R k") auto
      note rvw = pd_okD(3)[OF prem(2) rv(1)]
      show ?thesis
      proof (cases "\<exists>o' n'. ov = PDict o' \<and> nv = PDict n'")
        case True
        then obtain o' n' where on: "ov = PDict o'" "nv = PDict n'" by blast
        obtain r' where r': "rv = PDict r'" using py_eq_dict_right rv(2) on(1) by blast
        have "py_eq (PDict (patch o' n' r')) (PDict n')"
          using less.hyps[OF _ rv(2)[unfolded on r'] rvw[unfolded r'] ov[unfolded on] nv[unfolded on]]
            size_dict_value[OF \<open>dget new k = Some nv\<close>] on(2) by simp
        then show ?thesis
          using \<open>dget new k = Some nv\<close> Some rv on r'
          by (simp add: patch_entry[OF prem(3,4)] patch_at_dict)
      next
        case False
        then have "\<And>o' n'. ov = PDict o' \<Longrightarrow> nv \<noteq> PDict n'" by blast
        note L = dvalue_leaf[OF this]
        show ?thesis
          using \<open>dget new k = Some nv\<close> Some rv py_eq_refl[OF nv] py_eq_trans[OF rv(2) _ rvw ov nv]
          by (simp add: patch_entry[OF prem(3,4)] L)
      qed
    qed
  qed
  then show ?case unfolding py_eq_dict[OF wf] by blast
qed

section \<open>Dotted paths\<close>

definition dotless :: "string \<Rightarrow> bool" where
  "dotless k \<longleftrightarrow> k \<noteq> [] \<and> CHR ''.'' \<notin> set k"

fun path_ok :: "pyval \<Rightarrow> bool" where
  "path_ok (PDict d) = list_all (\<lambda>p. dotless (fst p) \<and> path_ok (snd p)) d"
| "path_ok _ = True"

abbreviation dotted :: "string list \<Rightarrow> string" where
  "dotted ps \<equiv> join ''.'' ps"

lemma split_dotted: "ps \<noteq> [] \<Longrightarrow> list_all dotless ps \<Longrightarrow> split_on CHR ''.'' (dotted ps) = ps"
  by (rule split_on_join) (auto simp: dotless_def list_all_iff)

lemma dotted_inject:
  "dotted ps = dotted qs \<Longrightarrow> ps \<noteq> [] \<Longrightarrow> qs \<noteq> [] \<Longrightarrow> list_all dotless ps \<Longrightarrow> list_all dotless qs \<Longrightarrow> ps = qs"
  by (metis split_dotted)

lemma join_snoc: "ps \<noteq> [] \<Longrightarrow> join sep (ps @ [k]) = join sep ps @ sep @ k"
  by (induction sep ps rule: join.induct) auto

lemma join_Nil_iff: "list_all dotless ps \<Longrightarrow> dotted ps = [] \<longleftrightarrow> ps = []"
  by (cases ps; cases "tl ps") (auto simp: dotless_def)

lemma sub_path_dotted: "list_all dotless ps \<Longrightarrow> sub_path (dotted ps) k = dotted (ps @ [k])"
  by (cases "ps = []") (auto simp: sub_path_def join_Nil_iff join_snoc)

text \<open>
  The flat map holds no path below \<open>ps\<close> yet: what makes each assignment of \<open>diff_into\<close> a new key.
\<close>

definition fresh_below :: "string list \<Rightarrow> pdict \<Rightarrow> bool" where
  "fresh_below ps sf \<longleftrightarrow>
     (\<forall>x \<in> fst ` set sf. \<exists>q. q \<noteq> [] \<and> list_all dotless q \<and> x = dotted q \<and> take (length ps) q \<noteq> ps)"

definition dotted_sets :: "string list \<Rightarrow> (string list \<times> pyval) list \<Rightarrow> pdict" where
  "dotted_sets ps xs = map (\<lambda>(p, v). (dotted (ps @ p), v)) xs"

definition dotted_dels :: "string list \<Rightarrow> (string list \<times> unit) list \<Rightarrow> string list" where
  "dotted_dels ps xs = map (\<lambda>(p, u). dotted (ps @ p)) xs"

lemma dotted_sets_simps [simp]:
  "dotted_sets ps [] = []"
  "dotted_sets ps (xs @ ys) = dotted_sets ps xs @ dotted_sets ps ys"
  "dotted_sets ps (prepend k xs) = dotted_sets (ps @ [k]) xs"
  by (auto simp: dotted_sets_def prepend_def)

lemma dotted_dels_simps [simp]:
  "dotted_dels ps [] = []"
  "dotted_dels ps (xs @ ys) = dotted_dels ps xs @ dotted_dels ps ys"
  "dotted_dels ps (prepend k xs) = dotted_dels (ps @ [k]) xs"
  by (auto simp: dotted_dels_def prepend_def)

lemma fresh_below_snoc: "fresh_below ps sf \<Longrightarrow> fresh_below (ps @ [k]) sf"
proof -
  assume F: "fresh_below ps sf"
  have "take (length (ps @ [k])) q \<noteq> ps @ [k]" if "take (length ps) q \<noteq> ps" for q
    using that by (metis append_eq_conv_conj append_take_drop_id append_eq_append_conv2 append_assoc)
  with F show ?thesis by (fastforce simp: fresh_below_def)
qed

lemma fresh_below_new:
  assumes "fresh_below ps sf" and "ps \<noteq> []" and "list_all dotless ps"
  shows "dset (dotted ps) v sf = sf @ [(dotted ps, v)]"
proof (rule dset_new, rule notI)
  assume "dotted ps \<in> fst ` set sf"
  with assms(1) obtain q where "q \<noteq> []" "list_all dotless q" "dotted ps = dotted q" "take (length ps) q \<noteq> ps"
    unfolding fresh_below_def by blast
  with dotted_inject[of ps q] assms(2,3) show False by simp
qed

lemma fresh_below_append:
  assumes "fresh_below (ps @ [k]) sf" and "k' \<noteq> k" and "list_all dotless (ps @ [k'])"
    and "\<forall>x \<in> set xs. list_all dotless (fst x)"
  shows "fresh_below (ps @ [k]) (sf @ dotted_sets (ps @ [k']) xs)"
proof -
  have "\<exists>q. q \<noteq> [] \<and> list_all dotless q \<and> y = dotted q \<and> take (length (ps @ [k])) q \<noteq> ps @ [k]"
    if y: "y \<in> fst ` set (dotted_sets (ps @ [k']) xs)" for y
  proof -
    obtain p v where "(p, v) \<in> set xs" "y = dotted (ps @ [k'] @ p)"
      using y by (auto simp: dotted_sets_def)
    then show ?thesis
      using assms(2,3,4) by (intro exI[of _ "ps @ [k'] @ p"]) auto
  qed
  with assms(1) show ?thesis by (auto simp: fresh_below_def)
qed

lemma dpaths_dotless:
  "\<forall>p \<in> set new. dotless (fst p) \<and> path_ok (snd p) \<Longrightarrow> x \<in> set (dpaths old new) \<Longrightarrow> list_all dotless (fst x)"
  "path_ok v \<Longrightarrow> y \<in> set (dvalue ov v) \<Longrightarrow> list_all dotless (fst y)"
proof (induction old new and ov v arbitrary: x and y rule: dpaths_dvalue.induct)
  case (4 o' n')
  then show ?case by (auto simp: list_all_iff)
qed (auto simp: prepend_def split: if_splits)

lemma rpaths_dotless:
  "path_ok (PDict old) \<Longrightarrow> path_ok (PDict new) \<Longrightarrow> x \<in> set (rpaths old new) \<Longrightarrow> list_all dotless (fst x)"
  "path_ok (PDict old) \<Longrightarrow> path_ok (PDict new) \<Longrightarrow> y \<in> set (ritems old new) \<Longrightarrow> list_all dotless (fst y)"
  "\<forall>w. ov = Some w \<longrightarrow> path_ok w \<Longrightarrow> path_ok v \<Longrightarrow> z \<in> set (rvalue ov v) \<Longrightarrow> list_all dotless (fst z)"
proof (induction old new and old new and ov v arbitrary: x and y and z rule: rpaths_ritems_rvalue.induct)
  case (1 old new)
  then show ?case by (cases x) (auto simp: rpaths.simps list_all_iff)
next
  case (3 old k v rest)
  have "\<forall>w. dget old k = Some w \<longrightarrow> path_ok w"
    using 3(3) by (auto simp: list_all_iff dest!: map_of_SomeD)
  with 3 show ?case by (cases y) (auto simp: prepend_def)
qed auto

text \<open>The code's flat delta is the structured one with its key lists joined by dots.\<close>

lemma diff_into_dotted:
  "\<lbrakk>pre = dotted ps; list_all dotless ps; path_ok (PDict old); path_ok (PDict new); wf_pv (PDict new);
    \<forall>k \<in> fst ` set new. fresh_below (ps @ [k]) (fst acc)\<rbrakk> \<Longrightarrow>
   diff_into old new pre acc =
     (fst acc @ dotted_sets ps (dpaths old new), snd acc @ dotted_dels ps (rpaths old new))"
  "\<lbrakk>pre = dotted ps; list_all dotless ps; path_ok (PDict old); path_ok (PDict items); wf_pv (PDict items);
    \<forall>k \<in> fst ` set items. fresh_below (ps @ [k]) (fst acc)\<rbrakk> \<Longrightarrow>
   diff_items old items pre acc =
     (fst acc @ dotted_sets ps (dpaths old items), snd acc @ dotted_dels ps (ritems old items))"
  "\<lbrakk>path = dotted ps; ps \<noteq> []; list_all dotless ps; path_ok ov; path_ok nv; wf_pv nv;
    fresh_below ps (fst acc)\<rbrakk> \<Longrightarrow>
   diff_value ov nv path acc =
     (fst acc @ dotted_sets ps (dvalue (Some ov) nv), snd acc @ dotted_dels ps (rvalue (Some ov) nv))"
proof (induction old new pre acc and old items pre acc and ov nv path acc
    arbitrary: ps and ps and ps rule: diff_into_diff_items_diff_value.induct)
  case (1 old new pre acc)
  have "map (sub_path pre) ks = dotted_dels ps (map (\<lambda>k. ([k], ())) ks)" for ks
    unfolding dotted_dels_def 1(2) by (simp add: sub_path_dotted[OF 1(3)] comp_def)
  with 1 show ?case by (simp add: rpaths.simps)
next
  case (2 old pre acc)
  then show ?case by (cases acc) simp
next
  case (3 old key nv rest pre acc)
  have k: "dotless key" and v: "path_ok nv" and r: "path_ok (PDict rest)"
    and w: "wf_pv nv" "wf_pv (PDict rest)" and new: "key \<notin> fst ` set rest"
    using 3(6,7) by (auto simp: pv_ok.simps(3))
  have dl: "list_all dotless (ps @ [key])" using 3(4) k by simp
  have sp: "sub_path pre key = dotted (ps @ [key])"
    using 3(3,4) by (simp add: sub_path_dotted)
  have fr: "fresh_below (ps @ [key]) (fst acc)" using 3(8) by simp
  define acc' where "acc' = (case dget old key of
      None \<Rightarrow> (dset (sub_path pre key) nv (fst acc), snd acc)
    | Some ov \<Rightarrow> diff_value ov nv (sub_path pre key) acc)"
  have acc': "acc' = (fst acc @ dotted_sets (ps @ [key]) (dvalue (dget old key) nv),
      snd acc @ dotted_dels (ps @ [key]) (rvalue (dget old key) nv))"
  proof (cases "dget old key")
    case None
    then show ?thesis
      using fresh_below_new[OF fr _ dl, of nv]
      by (cases nv) (simp_all add: acc'_def sp dotted_sets_def)
  next
    case (Some ov)
    then have "path_ok ov" using 3(5) by (auto simp: list_all_iff dest!: map_of_SomeD)
    then show ?thesis
      using 3(1)[OF Some sp _ dl _ v w(1) fr] Some by (simp add: acc'_def)
  qed
  have "\<forall>x \<in> set (dvalue (dget old key) nv). list_all dotless (fst x)"
    using dpaths_dotless(2)[OF v] by blast
  then have F: "\<forall>k \<in> fst ` set rest. fresh_below (ps @ [k]) (fst acc')"
    using 3(4,8) new k by (auto simp: acc' intro!: fresh_below_append)
  show ?case
    using 3(2)[OF 3(3,4,5) r w(2) F[unfolded acc'_def]]
    unfolding diff_items.simps acc'_def[symmetric] by (simp add: acc')
next
  case (4 o' n' path acc)
  have "\<forall>k \<in> fst ` set n'. fresh_below (ps @ [k]) (fst acc)"
    using fresh_below_snoc[OF 4(8)] by blast
  then show ?case using 4 by simp
qed (auto simp: fresh_below_new dotted_sets_def)

lemma diff_state_dotted:
  assumes "path_ok (PDict old)" and "path_ok (PDict new)" and "wf_pv (PDict new)"
  shows "diff_state old new =
    \<lparr>sd_set = dotted_sets [] (dpaths old new), sd_removed = dotted_dels [] (rpaths old new)\<rparr>"
  using diff_into_dotted(1)[of "[]" "[]" old new "([], [])"] assms
  by (simp add: diff_state_def fresh_below_def)

lemma apply_state_patch:
  assumes "path_ok (PDict old)" and "path_ok (PDict new)" and "wf_pv (PDict new)"
  shows "apply_state R (diff_state old new) = patch old new R"
proof -
  have S: "fold (\<lambda>(path, value) r. set_path r (split_on CHR ''.'' path) value) (dotted_sets [] xs) r
      = fold (\<lambda>(p, v) r. set_path r p v) xs r"
    if "[] \<notin> fst ` set xs" "\<forall>x \<in> set xs. list_all dotless (fst x)" for xs r
    using that by (induction xs arbitrary: r) (auto simp: dotted_sets_def split_dotted)
  have D: "fold (\<lambda>path r. del_path r (split_on CHR ''.'' path)) (dotted_dels [] xs) r
      = fold (\<lambda>(p, u) r. del_path r p) xs r"
    if "[] \<notin> fst ` set xs" "\<forall>x \<in> set xs. list_all dotless (fst x)" for xs r
    using that by (induction xs arbitrary: r) (auto simp: dotted_dels_def split_dotted)
  have ds: "\<forall>x \<in> set (dpaths old new). list_all dotless (fst x)"
    using dpaths_dotless(1)[of new _ old] assms(2) by (auto simp: list_all_iff)
  have rs: "\<forall>x \<in> set (rpaths old new). list_all dotless (fst x)"
    using rpaths_dotless(1)[OF assms(1,2)] by blast
  show ?thesis
    unfolding apply_state_def diff_state_dotted[OF assms] patch_def
    by (simp add: S[OF dpaths_nonempty ds] D[OF rpaths_nonempty rs])
qed

lemma path_ok_lookup:
  "path_ok (PDict d) \<Longrightarrow> dget d k = Some v \<Longrightarrow> dotless k \<and> path_ok v"
  by (auto simp: list_all_iff dest!: map_of_SomeD)

lemma path_okI:
  assumes "dwf d" and "\<And>k v. dget d k = Some v \<Longrightarrow> dotless k \<and> path_ok v"
  shows "path_ok (PDict d)"
proof -
  have "dotless (fst x) \<and> path_ok (snd x)" if "x \<in> set d" for x
    using assms(2)[of "fst x" "snd x"] that dwf_mem_dget[OF assms(1), of "fst x" "snd x"] by simp
  then show ?thesis by (simp add: list_all_iff)
qed

lemma path_ok_py_eq: "py_eq a b \<Longrightarrow> path_ok b \<Longrightarrow> wf_pv a \<Longrightarrow> wf_pv b \<Longrightarrow> path_ok a"
proof (induction a arbitrary: b)
  case (PDict d)
  obtain e where b: "b = PDict e" using py_eq_dictD[OF PDict.prems(1)] by blast
  note w = PDict.prems(3) PDict.prems(4)[unfolded b]
  show ?case
  proof (rule path_okI[OF pd_okD(1)[OF w(1)]])
    fix k v
    assume v: "dget d k = Some v"
    have "rel_option py_eq (dget d k) (dget e k)"
      using PDict.prems(1) unfolding b py_eq_dict[OF pd_okD(1)[OF w(1)] pd_okD(1)[OF w(2)]] by blast
    with v obtain u where u: "dget e k = Some u" "py_eq v u" by (cases "dget e k") auto
    have "dotless k \<and> path_ok u" using path_ok_lookup[OF PDict.prems(2)[unfolded b] u(1)] .
    then show "dotless k \<and> path_ok v"
      using PDict.IH[of "(k, v)" v, OF map_of_SomeD[OF v] _ u(2)] pd_okD(3)[OF w(1) v]
        pd_okD(3)[OF w(2) u(1)] by simp
  qed
qed auto

lemma apply_diff_state:
  assumes "py_eq (PDict base) (PDict old)"
    and "wf_pv (PDict base)" and "wf_pv (PDict old)" and "wf_pv (PDict new)"
    and "path_ok (PDict old)" and "path_ok (PDict new)"
  shows "py_eq (PDict (apply_state base (diff_state old new))) (PDict new)"
    and "wf_pv (PDict (apply_state base (diff_state old new)))"
  using patch_eq[OF assms(1-4)] wf_patch[OF assms(2,4)] apply_state_patch[OF assms(5,6,4)]
  by simp_all

section \<open>Context deltas\<close>

abbreviation offload_of :: "ctx_entry \<Rightarrow> pdict" where
  "offload_of c \<equiv> (case offload_messages c of None \<Rightarrow> [] | Some e \<Rightarrow> e)"

definition ctx_ok :: "ctx_map \<Rightarrow> bool" where
  "ctx_ok m \<longleftrightarrow> dwf m \<and>
     (\<forall>cid c. dget m cid = Some c \<longrightarrow> list_all wf_pv (messages c) \<and> wf_pv (PDict (offload_of c)))"

definition ctx_eq :: "ctx_entry \<Rightarrow> ctx_entry \<Rightarrow> bool" where
  "ctx_eq c d \<longleftrightarrow> py_eq (PList (messages c)) (PList (messages d)) \<and>
     py_eq (PDict (offload_of c)) (PDict (offload_of d))"

text \<open>\<open>covers R S\<close>: \<open>R\<close> has every context of \<open>S\<close>, with equal messages and offload.\<close>

definition covers :: "ctx_map \<Rightarrow> ctx_map \<Rightarrow> bool" where
  "covers R S \<longleftrightarrow> (\<forall>cid c. dget S cid = Some c \<longrightarrow> (\<exists>r. dget R cid = Some r \<and> ctx_eq r c))"

lemma ctx_okD:
  assumes "ctx_ok m"
  shows "dwf m" and "dget m cid = Some c \<Longrightarrow> wf_pv (PList (messages c))"
    and "dget m cid = Some c \<Longrightarrow> wf_pv (PDict (offload_of c))"
  using assms by (auto simp: ctx_ok_def)

lemma ctx_okI:
  assumes "dwf m"
    and "\<And>cid c. dget m cid = Some c \<Longrightarrow> wf_pv (PList (messages c)) \<and> wf_pv (PDict (offload_of c))"
  shows "ctx_ok m"
  using assms by (auto simp: ctx_ok_def)

lemma ctx_ok_dset:
  "ctx_ok m \<Longrightarrow> wf_pv (PList (messages c)) \<Longrightarrow> wf_pv (PDict (offload_of c)) \<Longrightarrow> ctx_ok (dset cid c m)"
  by (rule ctx_okI) (auto dest: ctx_okD split: if_splits)

lemma covers_refl: "ctx_ok m \<Longrightarrow> covers m m"
  unfolding covers_def ctx_eq_def by (blast intro: py_eq_refl ctx_okD(2,3))

lemma ctx_eq_trans:
  assumes "ctx_eq a b" and "ctx_eq b c"
    and "wf_pv (PList (messages a))" "wf_pv (PList (messages b))" "wf_pv (PList (messages c))"
    and "wf_pv (PDict (offload_of a))" "wf_pv (PDict (offload_of b))" "wf_pv (PDict (offload_of c))"
  shows "ctx_eq a c"
  using assms py_eq_trans unfolding ctx_eq_def by blast

lemma covers_trans:
  assumes "covers A B" and "covers B C" and "ctx_ok A" and "ctx_ok B" and "ctx_ok C"
  shows "covers A C"
  unfolding covers_def
proof (intro allI impI)
  fix cid c
  assume c: "dget C cid = Some c"
  then obtain b where b: "dget B cid = Some b" "ctx_eq b c" using assms(2) by (auto simp: covers_def)
  then obtain a where a: "dget A cid = Some a" "ctx_eq a b" using assms(1) by (auto simp: covers_def)
  show "\<exists>r. dget A cid = Some r \<and> ctx_eq r c"
    using a ctx_eq_trans[OF a(2) b(2) ctx_okD(2)[OF assms(3) a(1)] ctx_okD(2)[OF assms(4) b(1)]
      ctx_okD(2)[OF assms(5) c] ctx_okD(3)[OF assms(3) a(1)] ctx_okD(3)[OF assms(4) b(1)]
      ctx_okD(3)[OF assms(5) c]] by blast
qed

definition delta_effect :: "message_delta \<Rightarrow> ctx_entry option \<Rightarrow> ctx_entry" where
  "delta_effect d e =
     (case md_kind d of
        Reset \<Rightarrow> \<lparr>messages = md_messages d,
           offload_messages = Some (case md_offload d of None \<Rightarrow> [] | Some e \<Rightarrow> e)\<rparr>
      | Append \<Rightarrow>
          (let entry = (case e of None \<Rightarrow> \<lparr>messages = [], offload_messages = Some []\<rparr> | Some c \<Rightarrow> c)
           in entry\<lparr>messages := messages entry @ md_messages d\<rparr>))"

lemma apply_one_context_eq:
  "apply_one_context d m = dset (md_context_id d) (delta_effect d (dget m (md_context_id d))) m"
  by (simp add: apply_one_context_def delta_effect_def dget_default_def Let_def split: delta_kind.split)

lemma diff_one_context_cases:
  "diff_one_context old (cid, c) = [] \<or>
   (\<exists>d. diff_one_context old (cid, c) = [d] \<and> md_context_id d = cid)"
  by (auto simp: Let_def reset_delta_def append_delta_def split: option.splits)

definition ctx_patch :: "ctx_map \<Rightarrow> string \<Rightarrow> ctx_entry \<Rightarrow> ctx_entry option \<Rightarrow> ctx_entry option" where
  "ctx_patch old cid c e = (case diff_one_context old (cid, c) of [] \<Rightarrow> e | d # _ \<Rightarrow> Some (delta_effect d e))"

lemma apply_diff_one:
  "dget (fold apply_one_context (diff_one_context old (cid, c)) m) cid' =
     (if cid' = cid then ctx_patch old cid c (dget m cid) else dget m cid')"
  using diff_one_context_cases[of old cid c]
  by (auto simp: ctx_patch_def apply_one_context_eq simp del: diff_one_context.simps)

lemma apply_diff_lookup:
  "dwf new \<Longrightarrow> dget (apply_context m (diff_context old new)) cid =
     (case dget new cid of None \<Rightarrow> dget m cid | Some c \<Rightarrow> ctx_patch old cid c (dget m cid))"
  unfolding apply_context_def diff_context_def
proof (induction new arbitrary: m)
  case (Cons x new)
  obtain cid0 c where x: "x = (cid0, c)" by force
  have none: "dget new cid0 = None" using Cons.prems x by (simp add: dget_None_iff)
  show ?case
    using Cons x none by (auto simp: apply_diff_one simp del: diff_one_context.simps split: option.splits)
qed simp

lemma dwf_apply_context: "dwf m \<Longrightarrow> dwf (apply_context m ds)"
  unfolding apply_context_def by (induction ds arbitrary: m) (auto simp: apply_one_context_eq)

lemma py_eq_append:
  "py_eq_list xs ys \<Longrightarrow> py_eq_list us vs \<Longrightarrow> py_eq_list (xs @ us) (ys @ vs)"
  by (simp add: py_eq_list_iff list_all2_appendI)

text \<open>What one context's delta does to anything equal to the old context.\<close>

lemma ctx_patch_new:
  assumes "wf_pv (PList (messages c))" and "wf_pv (PDict (offload_of c))"
    and old: "\<And>p. dget old cid = Some p \<Longrightarrow> wf_pv (PList (messages p)) \<and> wf_pv (PDict (offload_of p)) \<and>
      (\<exists>r. e = Some r \<and> ctx_eq r p \<and> wf_pv (PList (messages r)) \<and> wf_pv (PDict (offload_of r)))"
  shows "\<exists>r. ctx_patch old cid c e = Some r \<and> ctx_eq r c \<and>
    wf_pv (PList (messages r)) \<and> wf_pv (PDict (offload_of r))"
proof -
  have reset: "ctx_eq (delta_effect (reset_delta cid c) e) c \<and>
      wf_pv (PList (messages (delta_effect (reset_delta cid c) e))) \<and>
      wf_pv (PDict (offload_of (delta_effect (reset_delta cid c) e)))"
    unfolding ctx_eq_def delta_effect_def reset_delta_def
    using assms(1,2) py_eq_refl[OF assms(1)] py_eq_refl[OF assms(2)] by simp
  show ?thesis
  proof (cases "dget old cid")
    case None
    then show ?thesis using reset by (simp add: ctx_patch_def)
  next
    case (Some p)
    obtain r where r: "e = Some r" "ctx_eq r p" "wf_pv (PList (messages r))" "wf_pv (PDict (offload_of r))"
      and p: "wf_pv (PList (messages p))" "wf_pv (PDict (offload_of p))"
      using old[OF Some] by blast
    let ?n = "length (messages p)"
    show ?thesis
    proof (cases "offload_eq (offload_messages p) (offload_messages c) \<and> is_prefix (messages p) (messages c)")
      case False
      then show ?thesis using reset Some by (auto simp: ctx_patch_def Let_def)
    next
      case True
      have "ctx_patch old cid c e = Some (r\<lparr>messages := messages r @ drop ?n (messages c)\<rparr>)"
        using True Some r(1) by (simp add: ctx_patch_def Let_def delta_effect_def append_delta_def)
      moreover have "py_eq (PDict (offload_of p)) (PDict (offload_of c))"
        using True py_eq_refl[OF assms(2)]
        by (cases "offload_messages p"; cases "offload_messages c") auto
      then have "py_eq (PDict (offload_of r)) (PDict (offload_of c))"
        using r(2) py_eq_trans[OF _ _ r(4) p(2) assms(2)] unfolding ctx_eq_def by blast
      moreover have tw: "wf_pv (PList (take ?n (messages c)))" "wf_pv (PList (drop ?n (messages c)))"
        using assms(1) by (auto simp: list_all_iff dest: in_set_takeD in_set_dropD)
      have "py_eq (PList (take ?n (messages c))) (PList (messages p))"
        using True by (simp add: is_prefix_def)
      then have "py_eq (PList (messages r)) (PList (take ?n (messages c)))"
        using r(2) py_eq_trans[OF _ py_eq_sym[OF _ tw(1) p(1)] r(3) p(1) tw(1)]
        unfolding ctx_eq_def by blast
      then have "py_eq_list (messages r @ drop ?n (messages c)) (messages c)"
        using py_eq_append[of "messages r" "take ?n (messages c)" "drop ?n (messages c)" "drop ?n (messages c)"]
          py_eq_refl[OF tw(2)] by simp
      ultimately show ?thesis
        using r(3,4) tw(2) by (simp add: ctx_eq_def)
    qed
  qed
qed

lemma apply_diff_context:
  assumes "covers base old" and "ctx_ok base" and "ctx_ok old" and "ctx_ok new"
  shows "covers (apply_context base (diff_context old new)) new"
    and "ctx_ok (apply_context base (diff_context old new))"
proof -
  have P: "\<exists>r. ctx_patch old cid c (dget base cid) = Some r \<and> ctx_eq r c \<and>
      wf_pv (PList (messages r)) \<and> wf_pv (PDict (offload_of r))" if "dget new cid = Some c" for cid c
  proof (rule ctx_patch_new)
    show "wf_pv (PList (messages c))" "wf_pv (PDict (offload_of c))"
      using ctx_okD(2,3)[OF assms(4) that] by blast+
    fix p
    assume p: "dget old cid = Some p"
    with assms(1) obtain r where r: "dget base cid = Some r" "ctx_eq r p" by (auto simp: covers_def)
    show "wf_pv (PList (messages p)) \<and> wf_pv (PDict (offload_of p)) \<and>
      (\<exists>r. dget base cid = Some r \<and> ctx_eq r p \<and> wf_pv (PList (messages r)) \<and> wf_pv (PDict (offload_of r)))"
      using r ctx_okD(2,3)[OF assms(3) p] ctx_okD(2,3)[OF assms(2) r(1)] by blast
  qed
  note L = apply_diff_lookup[OF ctx_okD(1)[OF assms(4)], of base old]
  show "covers (apply_context base (diff_context old new)) new"
    using P by (auto simp: covers_def L)
  show "ctx_ok (apply_context base (diff_context old new))"
  proof (rule ctx_okI)
    show "dwf (apply_context base (diff_context old new))"
      by (rule dwf_apply_context[OF ctx_okD(1)[OF assms(2)]])
    show "wf_pv (PList (messages c)) \<and> wf_pv (PDict (offload_of c))"
      if "dget (apply_context base (diff_context old new)) cid = Some c" for cid c
    proof (cases "dget new cid")
      case None
      with that show ?thesis using ctx_okD(2,3)[OF assms(2), of cid c] by (simp add: L)
    next
      case (Some n)
      with that P[OF Some] show ?thesis by (auto simp: L)
    qed
  qed
qed

section \<open>Properties\<close>



text \<open>The message deltas between two context maps, applied to a map that covers the old one,
  give a map that covers the new one: every context of the new map is there with equal messages
  and offloaded messages, whether the delta was an appended tail or a reset.\<close>

theorem context_delta_roundtrip:
  assumes "covers base old" and "ctx_ok base" and "ctx_ok old" and "ctx_ok new"
  shows "covers (apply_context base (diff_context old new)) new"
  by (rule apply_diff_context(1)[OF assms])

definition ctx_witness :: "pyval list \<Rightarrow> pdict \<Rightarrow> ctx_entry" where
  "ctx_witness ms off = \<lparr>messages = ms, offload_messages = Some off\<rparr>"

lemma context_delta_roundtrip_witness:
  "covers (apply_context [(''c1'', ctx_witness [PStr ''hi''] [])]
      (diff_context [(''c1'', ctx_witness [PStr ''hi''] [])]
         [(''c1'', ctx_witness [PStr ''hi'', PStr ''yo''] []), (''c2'', ctx_witness [] [(''h'', PList [])])]))
     [(''c1'', ctx_witness [PStr ''hi'', PStr ''yo''] []), (''c2'', ctx_witness [] [(''h'', PList [])])]"
proof -
  have "ctx_ok [(''c1'', ctx_witness [PStr ''hi''] [])]"
    by (auto simp: ctx_ok_def ctx_witness_def pv_ok_dict split: if_splits)
  moreover have "ctx_ok [(''c1'', ctx_witness [PStr ''hi'', PStr ''yo''] []), (''c2'', ctx_witness [] [(''h'', PList [])])]"
    by (auto simp: ctx_ok_def ctx_witness_def pv_ok_dict split: if_splits)
  ultimately show ?thesis
    using context_delta_roundtrip[OF covers_refl] by blast
qed

text \<open>Two boundaries of these theorems, as the code has them: a context that disappears is never
  removed by a delta, and a key with a dot comes back as a nested dictionary.\<close>

lemma removed_context_kept: "apply_context old (diff_context old []) = old"
  by (simp add: apply_context_def diff_context_def)

lemma dotted_key_broken:
  "apply_state [] (diff_state [] [(''a.b'', PInt 1)]) = [(''a'', PDict [(''b'', PInt 1)])]"
  by code_simp

end
