(* ===== verification/Decimal.thy ===== *)
theory Decimal
  imports Prelude
begin

text \<open>
  Decimal numerals as Python writes and reads them: \<open>str(n)\<close>, the zero-padded \<open>f"{n:0wd}"\<close>,
  \<open>s.isdigit()\<close> and \<open>int(s)\<close>. The point is that padding to a fixed width makes the
  lexical order of keys the numeric order.
\<close>

definition digit_char :: "nat \<Rightarrow> char" where
  "digit_char d = char_of (48 + d)"

definition digit_val :: "char \<Rightarrow> nat" where
  "digit_val c = of_char c - 48"

function nat_str :: "nat \<Rightarrow> string" where
  "nat_str n = (if n < 10 then [digit_char n] else nat_str (n div 10) @ [digit_char (n mod 10)])"
  by pat_completeness auto
termination
  by (relation "measure id") auto

declare nat_str.simps [simp del]

definition zero_pad :: "nat \<Rightarrow> nat \<Rightarrow> string" where
  "zero_pad w n = replicate (w - length (nat_str n)) (digit_char 0) @ nat_str n"

text \<open>\<open>str.isdigit\<close> on the 8-bit characters also accepts the superscripts, which \<open>int\<close> rejects.\<close>

definition is_decimal :: "char \<Rightarrow> bool" where
  "is_decimal c \<longleftrightarrow> 48 \<le> (of_char c :: nat) \<and> (of_char c :: nat) \<le> 57"

definition is_digit :: "char \<Rightarrow> bool" where
  "is_digit c \<longleftrightarrow> is_decimal c \<or> (of_char c :: nat) \<in> {178, 179, 185}"

definition isdigit :: "string \<Rightarrow> bool" where
  "isdigit s \<longleftrightarrow> s \<noteq> [] \<and> list_all is_digit s"

definition digits_val :: "string \<Rightarrow> nat" where
  "digits_val s = fold (\<lambda>c n. n * 10 + digit_val c) s 0"

definition int_of_str :: "string \<Rightarrow> nat res" where
  "int_of_str s = (if s \<noteq> [] \<and> list_all is_decimal s then Inr (digits_val s) else Inl ValueError)"

section \<open>Reading what was written\<close>

lemma of_char_digit: "d < 10 \<Longrightarrow> of_char (digit_char d) = 48 + d"
  by (simp add: digit_char_def)

lemma digit_val_char [simp]: "d < 10 \<Longrightarrow> digit_val (digit_char d) = d"
  by (simp add: digit_val_def of_char_digit)

lemma is_decimal_digit [simp]: "d < 10 \<Longrightarrow> is_decimal (digit_char d)"
  by (simp add: is_decimal_def of_char_digit)

lemma digits_val_snoc [simp]: "digits_val (s @ [c]) = digits_val s * 10 + digit_val c"
  by (simp add: digits_val_def)

lemma nat_str_props: "nat_str n \<noteq> [] \<and> list_all is_decimal (nat_str n) \<and> digits_val (nat_str n) = n"
proof (induction n rule: nat_str.induct)
  case (1 n)
  show ?case
  proof (cases "n < 10")
    case True
    then show ?thesis by (simp add: nat_str.simps[of n] digits_val_def)
  next
    case False
    with 1 show ?thesis by (simp add: nat_str.simps[of n])
  qed
qed

lemma int_of_nat_str [simp]: "int_of_str (nat_str n) = Inr n"
  using nat_str_props[of n] by (simp add: int_of_str_def)

lemma isdigit_nat_str [simp]: "isdigit (nat_str n)"
  using nat_str_props[of n] by (auto simp: isdigit_def is_digit_def list_all_iff)

section \<open>Fixed width\<close>

fun fixed_width :: "nat \<Rightarrow> nat \<Rightarrow> string" where
  "fixed_width 0 n = []"
| "fixed_width (Suc w) n = fixed_width w (n div 10) @ [digit_char (n mod 10)]"

lemma length_fixed_width [simp]: "length (fixed_width w n) = w"
  by (induction w arbitrary: n) auto

lemma fixed_width_0: "fixed_width w 0 = replicate w (digit_char 0)"
  by (induction w) (auto simp: replicate_append_same)

lemma fixed_width_pad: "n < 10 ^ w \<Longrightarrow> 0 < w \<Longrightarrow> zero_pad w n = fixed_width w n"
proof (induction w arbitrary: n)
  case (Suc w)
  show ?case
  proof (cases "n < 10")
    case True
    then show ?thesis
      by (simp add: zero_pad_def nat_str.simps[of n] fixed_width_0)
  next
    case False
    then have w: "0 < w" using Suc.prems by (cases w) auto
    have "n div 10 < 10 ^ w" using Suc.prems by (simp add: less_mult_imp_div_less mult.commute)
    from Suc.IH[OF this w] False show ?thesis
      by (simp add: zero_pad_def nat_str.simps[of n])
  qed
qed simp

lemma snoc_less:
  fixes xs ys :: "'a::linorder list"
  assumes "length xs = length ys"
  shows "xs @ [a] < ys @ [b] \<longleftrightarrow> xs < ys \<or> (xs = ys \<and> a < b)"
  using assms
proof (induction xs arbitrary: ys)
  case (Cons x xs)
  then show ?case by (cases ys) auto
qed auto

lemma digit_char_less: "a < 10 \<Longrightarrow> b < 10 \<Longrightarrow> digit_char a < digit_char b \<longleftrightarrow> a < b"
  by (simp add: less_char_def of_char_digit)

lemma div_mod_less:
  fixes m n :: nat
  shows "m div 10 < n div 10 \<or> (m div 10 = n div 10 \<and> m mod 10 < n mod 10) \<longleftrightarrow> m < n"
proof -
  have less: "10 * a + b < 10 * c + d \<longleftrightarrow> a < c \<or> (a = c \<and> b < d)"
    if "b < 10" "d < 10" for a b c d :: nat
    using that by auto
  have "m < n \<longleftrightarrow> 10 * (m div 10) + m mod 10 < 10 * (n div 10) + n mod 10" by simp
  then show ?thesis unfolding less[OF mod_less_divisor mod_less_divisor, simplified] by simp
qed

lemma fixed_width_less:
  "m < 10 ^ w \<Longrightarrow> n < 10 ^ w \<Longrightarrow> fixed_width w m < fixed_width w n \<longleftrightarrow> m < n"
proof (induction w arbitrary: m n)
  case (Suc w)
  have d: "m div 10 < 10 ^ w" "n div 10 < 10 ^ w"
    using Suc.prems by (simp_all add: less_mult_imp_div_less mult.commute)
  have "fixed_width w (m div 10) = fixed_width w (n div 10) \<longleftrightarrow> m div 10 = n div 10"
    using Suc.IH[OF d] Suc.IH[OF d(2,1)] by (metis nat_neq_iff order_less_irrefl)
  then have "fixed_width (Suc w) m < fixed_width (Suc w) n \<longleftrightarrow>
      m div 10 < n div 10 \<or> (m div 10 = n div 10 \<and> m mod 10 < n mod 10)"
    using Suc.IH[OF d] by (simp add: snoc_less digit_char_less)
  also have "\<dots> \<longleftrightarrow> m < n"
    by (rule div_mod_less)
  finally show ?case .
qed simp

lemma zero_pad_less:
  assumes "m < 10 ^ w" and "n < 10 ^ w" and "0 < w"
  shows "zero_pad w m < zero_pad w n \<longleftrightarrow> m < n"
  using fixed_width_less[OF assms(1,2)] fixed_width_pad assms by simp

lemma zero_pad_inject:
  assumes "m < 10 ^ w" and "n < 10 ^ w" and "0 < w"
  shows "zero_pad w m = zero_pad w n \<longleftrightarrow> m = n"
  using zero_pad_less[OF assms] zero_pad_less[OF assms(2,1,3)] by (metis nat_neq_iff order_less_irrefl)

end
