(* ===== verification/VCS_Backend.thy ===== *)
theory VCS_Backend
  imports VCS_Delta KV_Store Decimal
begin

text \<open>
  The storage side of session version control: the records of
  \<open>core/session/vcs/models.py\<close>, the \<open>VersioningBackend\<close> protocol of \<open>backend.py\<close> as a locale
  over an abstract history, and its two implementations, \<open>KvBackend\<close> (\<open>kv_backend.py\<close>) over any
  key-value store and \<open>JsonlBackend\<close> (\<open>jsonl_backend.py\<close>) over files. The JSON texts pydantic
  writes are abstract: a \<open>codec\<close> turns records into texts and back.
\<close>

section \<open>Records\<close>

record log_entry =
  le_event_id :: nat
  le_context :: "message_delta list"
  le_state :: state_delta
  le_ts :: rat
  le_crc :: int

record commit =
  cm_commit_id :: string
  cm_parent_id :: "string option"
  cm_event_id_high :: nat
  cm_snapshot_id :: "string option"
  cm_message :: string
  cm_ts :: rat

record snapshot =
  sn_snapshot_id :: string
  sn_event_id_high :: nat
  sn_context :: ctx_map
  sn_state :: pdict
  sn_ts :: rat

record head =
  hd_event_id :: nat
  hd_commit_id :: "string option"
  hd_forked_from :: "(string \<times> string) option"

definition head0 :: head where
  "head0 = \<lparr>hd_event_id = 0, hd_commit_id = None, hd_forked_from = None\<rparr>"

section \<open>Texts\<close>

text \<open>
  \<open>model_dump_json\<close> and \<open>model_validate_json\<close> of pydantic (\<open>None\<close> for a \<open>ValidationError\<close>), and
  the crc32 of the canonical JSON of an entry's payload.
\<close>

record 'v codec =
  dump_log :: "log_entry \<Rightarrow> 'v"
  load_log :: "'v \<Rightarrow> log_entry option"
  payload_crc :: "nat \<times> message_delta list \<times> state_delta \<times> rat \<Rightarrow> int"
  dump_snapshot :: "snapshot \<Rightarrow> 'v"
  load_snapshot :: "'v \<Rightarrow> snapshot option"
  dump_commit :: "commit \<Rightarrow> 'v"
  load_commit :: "'v \<Rightarrow> commit option"
  dump_head :: "head \<Rightarrow> 'v"
  load_head :: "'v \<Rightarrow> head option"

text \<open>Documented behaviour of pydantic: validating the dump of a model gives the model back.\<close>

definition codec_ok :: "'v codec \<Rightarrow> bool" where
  "codec_ok c \<longleftrightarrow> (\<forall>e. load_log c (dump_log c e) = Some e) \<and>
     (\<forall>s. load_snapshot c (dump_snapshot c s) = Some s) \<and>
     (\<forall>m. load_commit c (dump_commit c m) = Some m) \<and>
     (\<forall>h. load_head c (dump_head c h) = Some h)"

definition compute_crc :: "'v codec \<Rightarrow> log_entry \<Rightarrow> int" where
  "compute_crc c e = payload_crc c (le_event_id e, le_context e, le_state e, le_ts e)"

definition encode_log_entry :: "'v codec \<Rightarrow> log_entry \<Rightarrow> 'v" where
  "encode_log_entry c e = dump_log c (e\<lparr>le_crc := compute_crc c e\<rparr>)"

definition decode_log_entry :: "'v codec \<Rightarrow> 'v \<Rightarrow> log_entry option" where
  "decode_log_entry c v =
     (case load_log c v of
        None \<Rightarrow> None
      | Some e \<Rightarrow> if le_crc e \<noteq> compute_crc c e then None else Some e)"

text \<open>\<open>X.model_validate_json\<close> raises a \<open>ValueError\<close> subclass; a stored \<open>None\<close> does too.\<close>

definition validate :: "('v \<Rightarrow> 'm option) \<Rightarrow> 'v option \<Rightarrow> 'm res" where
  "validate load v =
     (case v of None \<Rightarrow> Inl ValueError
      | Some t \<Rightarrow> (case load t of None \<Rightarrow> Inl ValueError | Some m \<Rightarrow> Inr m))"

fun validate_all :: "('v \<Rightarrow> 'm option) \<Rightarrow> 'v option list \<Rightarrow> 'm list res" where
  "validate_all load [] = Inr []"
| "validate_all load (v # vs) =
     (case validate load v of
        Inl e \<Rightarrow> Inl e
      | Inr m \<Rightarrow> (case validate_all load vs of Inl e \<Rightarrow> Inl e | Inr ms \<Rightarrow> Inr (m # ms)))"

text \<open>The keys \<open>truncate\<close> collects: those whose record lies beyond \<open>n\<close>.\<close>

fun keys_beyond :: "('v \<Rightarrow> 'm option) \<Rightarrow> ('m \<Rightarrow> nat) \<Rightarrow> nat \<Rightarrow> (string, 'v option) pydict \<Rightarrow> string list res" where
  "keys_beyond load ev n [] = Inr []"
| "keys_beyond load ev n ((k, v) # items) =
     (case validate load v of
        Inl e \<Rightarrow> Inl e
      | Inr m \<Rightarrow> (case keys_beyond load ev n items of
                    Inl e \<Rightarrow> Inl e
                  | Inr ks \<Rightarrow> Inr (if n < ev m then k # ks else ks)))"

text \<open>Python's \<open>max(xs, key=f)\<close>: the first of the greatest.\<close>

fun max_by :: "('a \<Rightarrow> nat) \<Rightarrow> 'a \<Rightarrow> 'a list \<Rightarrow> 'a" where
  "max_by f x [] = x"
| "max_by f x (y # ys) = max_by f (if f x < f y then y else x) ys"

definition newest_snapshot :: "nat option \<Rightarrow> snapshot list \<Rightarrow> snapshot option" where
  "newest_snapshot at_event_id snaps =
     (case filter (\<lambda>s. case at_event_id of None \<Rightarrow> True | Some n \<Rightarrow> sn_event_id_high s \<le> n) snaps of
        [] \<Rightarrow> None
      | s # ss \<Rightarrow> Some (max_by sn_event_id_high s ss))"

section \<open>The protocol\<close>

record 'b backend =
  b_append_log :: "log_entry \<Rightarrow> 'b \<Rightarrow> 'b"
  b_read_log :: "nat \<Rightarrow> 'b \<Rightarrow> log_entry list"
  b_put_snapshot :: "snapshot \<Rightarrow> 'b \<Rightarrow> 'b"
  b_get_snapshot :: "string \<Rightarrow> 'b \<Rightarrow> snapshot option res"
  b_latest_snapshot :: "nat option \<Rightarrow> 'b \<Rightarrow> snapshot option res"
  b_put_commit :: "commit \<Rightarrow> 'b \<Rightarrow> 'b"
  b_get_commit :: "string \<Rightarrow> 'b \<Rightarrow> commit option res"
  b_list_commits :: "'b \<Rightarrow> commit list res"
  b_put_head :: "head \<Rightarrow> 'b \<Rightarrow> 'b"
  b_get_head :: "'b \<Rightarrow> head option res"
  b_truncate :: "nat \<Rightarrow> 'b \<Rightarrow> unit res \<times> 'b"

section \<open>The key-value backend\<close>

definition VCS_BASE :: "string \<Rightarrow> string" where
  "VCS_BASE sid = sid @ '':'' @ ''vcs''"

definition EVENT_ID_WIDTH :: nat where
  "EVENT_ID_WIDTH = 20"

definition log_prefix :: "string \<Rightarrow> string" where
  "log_prefix sid = VCS_BASE sid @ '':log:''"

definition log_key :: "string \<Rightarrow> nat \<Rightarrow> string" where
  "log_key sid i = VCS_BASE sid @ '':log:'' @ zero_pad EVENT_ID_WIDTH i"

definition snap_prefix :: "string \<Rightarrow> string" where
  "snap_prefix sid = VCS_BASE sid @ '':snap:''"

definition commit_prefix :: "string \<Rightarrow> string" where
  "commit_prefix sid = VCS_BASE sid @ '':commit:''"

definition head_key :: "string \<Rightarrow> string" where
  "head_key sid = VCS_BASE sid @ '':head''"

definition kv_append_log :: "('v, 's) kv_ops \<Rightarrow> 'v codec \<Rightarrow> string \<Rightarrow> log_entry \<Rightarrow> 's \<Rightarrow> 's" where
  "kv_append_log K c sid e s = op_set K (log_key sid (le_event_id e)) (encode_log_entry c e) s"

text \<open>The read loop stops at the first entry that does not decode.\<close>

fun read_entries :: "'v codec \<Rightarrow> nat \<Rightarrow> 'v option list \<Rightarrow> log_entry list" where
  "read_entries c since [] = []"
| "read_entries c since (v # vs) =
     (case v of
        None \<Rightarrow> []
      | Some t \<Rightarrow>
          (case decode_log_entry c t of
             None \<Rightarrow> []
           | Some e \<Rightarrow> if since < le_event_id e then e # read_entries c since vs
                        else read_entries c since vs))"

definition kv_read_log :: "('v, 's) kv_ops \<Rightarrow> 'v codec \<Rightarrow> string \<Rightarrow> nat \<Rightarrow> 's \<Rightarrow> log_entry list" where
  "kv_read_log K c sid since s =
     (let items = op_by_prefix K (log_prefix sid) s
      in read_entries c since (map (\<lambda>k. dget_default None items k) (sort (dkeys items))))"

definition kv_put_snapshot :: "('v, 's) kv_ops \<Rightarrow> 'v codec \<Rightarrow> string \<Rightarrow> snapshot \<Rightarrow> 's \<Rightarrow> 's" where
  "kv_put_snapshot K c sid sn s =
     op_set K (snap_prefix sid @ sn_snapshot_id sn) (dump_snapshot c sn) s"

definition kv_get_snapshot ::
  "('v, 's) kv_ops \<Rightarrow> 'v codec \<Rightarrow> string \<Rightarrow> string \<Rightarrow> 's \<Rightarrow> snapshot option res" where
  "kv_get_snapshot K c sid i s =
     (case op_get K (snap_prefix sid @ i) s of
        None \<Rightarrow> Inr None
      | Some v \<Rightarrow> map_sum id Some (validate (load_snapshot c) (Some v)))"

definition kv_latest_snapshot ::
  "('v, 's) kv_ops \<Rightarrow> 'v codec \<Rightarrow> string \<Rightarrow> nat option \<Rightarrow> 's \<Rightarrow> snapshot option res" where
  "kv_latest_snapshot K c sid at_event s =
     (case validate_all (load_snapshot c) (map snd (op_by_prefix K (snap_prefix sid) s)) of
        Inl e \<Rightarrow> Inl e
      | Inr snaps \<Rightarrow> Inr (newest_snapshot at_event snaps))"

definition kv_put_commit :: "('v, 's) kv_ops \<Rightarrow> 'v codec \<Rightarrow> string \<Rightarrow> commit \<Rightarrow> 's \<Rightarrow> 's" where
  "kv_put_commit K c sid m s = op_set K (commit_prefix sid @ cm_commit_id m) (dump_commit c m) s"

definition kv_get_commit ::
  "('v, 's) kv_ops \<Rightarrow> 'v codec \<Rightarrow> string \<Rightarrow> string \<Rightarrow> 's \<Rightarrow> commit option res" where
  "kv_get_commit K c sid i s =
     (case op_get K (commit_prefix sid @ i) s of
        None \<Rightarrow> Inr None
      | Some v \<Rightarrow> map_sum id Some (validate (load_commit c) (Some v)))"

definition kv_list_commits :: "('v, 's) kv_ops \<Rightarrow> 'v codec \<Rightarrow> string \<Rightarrow> 's \<Rightarrow> commit list res" where
  "kv_list_commits K c sid s =
     validate_all (load_commit c) (map snd (op_by_prefix K (commit_prefix sid) s))"

definition kv_put_head :: "('v, 's) kv_ops \<Rightarrow> 'v codec \<Rightarrow> string \<Rightarrow> head \<Rightarrow> 's \<Rightarrow> 's" where
  "kv_put_head K c sid h s = op_set K (head_key sid) (dump_head c h) s"

definition kv_get_head :: "('v, 's) kv_ops \<Rightarrow> 'v codec \<Rightarrow> string \<Rightarrow> 's \<Rightarrow> head option res" where
  "kv_get_head K c sid s =
     (case op_get K (head_key sid) s of
        None \<Rightarrow> Inr None
      | Some v \<Rightarrow> map_sum id Some (validate (load_head c) (Some v)))"

definition kv_truncate :: "('v, 's) kv_ops \<Rightarrow> 'v codec \<Rightarrow> string \<Rightarrow> nat \<Rightarrow> 's \<Rightarrow> unit res \<times> 's" where
  "kv_truncate K c sid after s =
     (let log_del = map fst (filter (\<lambda>(k, v). case v of
            None \<Rightarrow> False
          | Some t \<Rightarrow> (case decode_log_entry c t of
                         None \<Rightarrow> False | Some e \<Rightarrow> after < le_event_id e))
          (op_by_prefix K (log_prefix sid) s))
      in case keys_beyond (load_snapshot c) sn_event_id_high after
                (op_by_prefix K (snap_prefix sid) s) of
           Inl e \<Rightarrow> (Inl e, s)
         | Inr snap_del \<Rightarrow>
             (case keys_beyond (load_commit c) cm_event_id_high after
                     (op_by_prefix K (commit_prefix sid) s) of
                Inl e \<Rightarrow> (Inl e, s)
              | Inr commit_del \<Rightarrow>
                  (let to_delete = log_del @ snap_del @ commit_del
                   in (Inr (), if to_delete \<noteq> [] then op_batch_delete K to_delete s else s))))"

definition kv_backend :: "('v, 's) kv_ops \<Rightarrow> 'v codec \<Rightarrow> string \<Rightarrow> 's backend" where
  "kv_backend K c sid =
     \<lparr>b_append_log = kv_append_log K c sid, b_read_log = kv_read_log K c sid,
      b_put_snapshot = kv_put_snapshot K c sid, b_get_snapshot = kv_get_snapshot K c sid,
      b_latest_snapshot = kv_latest_snapshot K c sid, b_put_commit = kv_put_commit K c sid,
      b_get_commit = kv_get_commit K c sid, b_list_commits = kv_list_commits K c sid,
      b_put_head = kv_put_head K c sid, b_get_head = kv_get_head K c sid,
      b_truncate = kv_truncate K c sid\<rparr>"

section \<open>The file backend\<close>

text \<open>
  One session directory: the lines of \<open>log.jsonl\<close> (\<open>None\<close> for a blank line), the snapshot and
  commit files by name, and \<open>HEAD\<close>. A file replaced through a temporary file is one step.
\<close>

record 'v jsonl =
  jl_log :: "'v option list option"
  jl_snapshots :: "(string, 'v) pydict"
  jl_commits :: "(string, 'v) pydict"
  jl_head :: "'v option"

definition json_name :: "string \<Rightarrow> string" where
  "json_name i = i @ ''.json''"

definition jl_append_log :: "'v codec \<Rightarrow> log_entry \<Rightarrow> 'v jsonl \<Rightarrow> 'v jsonl" where
  "jl_append_log c e b =
     b\<lparr>jl_log := Some ((case jl_log b of None \<Rightarrow> [] | Some ls \<Rightarrow> ls) @ [Some (encode_log_entry c e)])\<rparr>"

fun read_lines :: "'v codec \<Rightarrow> nat \<Rightarrow> 'v option list \<Rightarrow> log_entry list" where
  "read_lines c since [] = []"
| "read_lines c since (None # ls) = read_lines c since ls"
| "read_lines c since (Some t # ls) =
     (case decode_log_entry c t of
        None \<Rightarrow> []
      | Some e \<Rightarrow> if since < le_event_id e then e # read_lines c since ls else read_lines c since ls)"

definition jl_read_log :: "'v codec \<Rightarrow> nat \<Rightarrow> 'v jsonl \<Rightarrow> log_entry list" where
  "jl_read_log c since b =
     (case jl_log b of None \<Rightarrow> [] | Some ls \<Rightarrow> read_lines c since ls)"

definition load_dir :: "('v \<Rightarrow> 'm option) \<Rightarrow> (string, 'v) pydict \<Rightarrow> 'm list res" where
  "load_dir load files = validate_all load (map (\<lambda>k. dget files k) (sort (dkeys files)))"

definition jl_put_snapshot :: "'v codec \<Rightarrow> snapshot \<Rightarrow> 'v jsonl \<Rightarrow> 'v jsonl" where
  "jl_put_snapshot c sn b =
     b\<lparr>jl_snapshots := dset (json_name (sn_snapshot_id sn)) (dump_snapshot c sn) (jl_snapshots b)\<rparr>"

definition jl_get_snapshot :: "'v codec \<Rightarrow> string \<Rightarrow> 'v jsonl \<Rightarrow> snapshot option res" where
  "jl_get_snapshot c i b =
     (case dget (jl_snapshots b) (json_name i) of
        None \<Rightarrow> Inr None
      | Some v \<Rightarrow> map_sum id Some (validate (load_snapshot c) (Some v)))"

definition jl_latest_snapshot :: "'v codec \<Rightarrow> nat option \<Rightarrow> 'v jsonl \<Rightarrow> snapshot option res" where
  "jl_latest_snapshot c at_event b =
     (case load_dir (load_snapshot c) (jl_snapshots b) of
        Inl e \<Rightarrow> Inl e
      | Inr snaps \<Rightarrow> Inr (newest_snapshot at_event snaps))"

definition jl_put_commit :: "'v codec \<Rightarrow> commit \<Rightarrow> 'v jsonl \<Rightarrow> 'v jsonl" where
  "jl_put_commit c m b =
     b\<lparr>jl_commits := dset (json_name (cm_commit_id m)) (dump_commit c m) (jl_commits b)\<rparr>"

definition jl_get_commit :: "'v codec \<Rightarrow> string \<Rightarrow> 'v jsonl \<Rightarrow> commit option res" where
  "jl_get_commit c i b =
     (case dget (jl_commits b) (json_name i) of
        None \<Rightarrow> Inr None
      | Some v \<Rightarrow> map_sum id Some (validate (load_commit c) (Some v)))"

definition jl_list_commits :: "'v codec \<Rightarrow> 'v jsonl \<Rightarrow> commit list res" where
  "jl_list_commits c b = load_dir (load_commit c) (jl_commits b)"

definition jl_put_head :: "'v codec \<Rightarrow> head \<Rightarrow> 'v jsonl \<Rightarrow> 'v jsonl" where
  "jl_put_head c h b = b\<lparr>jl_head := Some (dump_head c h)\<rparr>"

definition jl_get_head :: "'v codec \<Rightarrow> 'v jsonl \<Rightarrow> head option res" where
  "jl_get_head c b =
     (case jl_head b of
        None \<Rightarrow> Inr None
      | Some v \<Rightarrow> map_sum id Some (validate (load_head c) (Some v)))"

fun kept_lines :: "'v codec \<Rightarrow> nat \<Rightarrow> 'v option list \<Rightarrow> 'v option list" where
  "kept_lines c after [] = []"
| "kept_lines c after (None # ls) = kept_lines c after ls"
| "kept_lines c after (Some t # ls) =
     (case decode_log_entry c t of
        None \<Rightarrow> []
      | Some e \<Rightarrow> if le_event_id e \<le> after then Some t # kept_lines c after ls
                   else kept_lines c after ls)"

text \<open>The files removed are named after the id inside the record, not after the file it came from.\<close>

definition drop_beyond ::
  "('m \<Rightarrow> string) \<Rightarrow> ('m \<Rightarrow> nat) \<Rightarrow> nat \<Rightarrow> 'm list \<Rightarrow> (string, 'v) pydict \<Rightarrow> (string, 'v) pydict" where
  "drop_beyond name ev after ms files =
     fold (\<lambda>m fs. if after < ev m then ddel (json_name (name m)) fs else fs) ms files"

definition jl_truncate :: "'v codec \<Rightarrow> nat \<Rightarrow> 'v jsonl \<Rightarrow> unit res \<times> 'v jsonl" where
  "jl_truncate c after b =
     (let b1 = b\<lparr>jl_log := map_option (kept_lines c after) (jl_log b)\<rparr>
      in case load_dir (load_snapshot c) (jl_snapshots b1) of
           Inl e \<Rightarrow> (Inl e, b1)
         | Inr snaps \<Rightarrow>
             (let b2 = b1\<lparr>jl_snapshots :=
                    drop_beyond sn_snapshot_id sn_event_id_high after snaps (jl_snapshots b1)\<rparr>
              in case load_dir (load_commit c) (jl_commits b2) of
                   Inl e \<Rightarrow> (Inl e, b2)
                 | Inr cms \<Rightarrow>
                     (Inr (), b2\<lparr>jl_commits :=
                        drop_beyond cm_commit_id cm_event_id_high after cms (jl_commits b2)\<rparr>)))"

definition jl_backend :: "'v codec \<Rightarrow> 'v jsonl backend" where
  "jl_backend c =
     \<lparr>b_append_log = jl_append_log c, b_read_log = jl_read_log c,
      b_put_snapshot = jl_put_snapshot c, b_get_snapshot = jl_get_snapshot c,
      b_latest_snapshot = jl_latest_snapshot c, b_put_commit = jl_put_commit c,
      b_get_commit = jl_get_commit c, b_list_commits = jl_list_commits c,
      b_put_head = jl_put_head c, b_get_head = jl_get_head c, b_truncate = jl_truncate c\<rparr>"

section \<open>The contract of a backend\<close>

text \<open>
  What every backend stores, abstractly: the deltas of each event, snapshots and commits by id,
  and the head.
\<close>

record history =
  hy_log :: "nat \<Rightarrow> (message_delta list \<times> state_delta) option"
  hy_snaps :: "string \<Rightarrow> snapshot option"
  hy_commits :: "string \<Rightarrow> commit option"
  hy_head :: "head option"

definition keep_upto :: "('m \<Rightarrow> nat) \<Rightarrow> nat \<Rightarrow> ('k \<Rightarrow> 'm option) \<Rightarrow> 'k \<Rightarrow> 'm option" where
  "keep_upto ev n f k = (case f k of None \<Rightarrow> None | Some m \<Rightarrow> if ev m \<le> n then Some m else None)"

definition log_item :: "log_entry \<Rightarrow> nat \<times> message_delta list \<times> state_delta" where
  "log_item e = (le_event_id e, le_context e, le_state e)"

definition is_newest :: "snapshot set \<Rightarrow> nat option \<Rightarrow> snapshot option \<Rightarrow> bool" where
  "is_newest S at_event r \<longleftrightarrow>
     (let C = {s \<in> S. \<forall>n. at_event = Some n \<longrightarrow> sn_event_id_high s \<le> n}
      in case r of None \<Rightarrow> C = {}
         | Some s \<Rightarrow> s \<in> C \<and> (\<forall>s' \<in> C. sn_event_id_high s' \<le> sn_event_id_high s))"

locale versioning_backend =
  fixes B :: "'b backend" and binv :: "'b \<Rightarrow> bool" and hist :: "'b \<Rightarrow> history" and id_ok :: "nat \<Rightarrow> bool"
  assumes append_log:
      "binv b \<Longrightarrow> id_ok (le_event_id e) \<Longrightarrow> (\<And>i. hy_log (hist b) i \<noteq> None \<Longrightarrow> i < le_event_id e) \<Longrightarrow>
       binv (b_append_log B e b) \<and>
       hist (b_append_log B e b) = (hist b)\<lparr>hy_log := (hy_log (hist b))(le_event_id e \<mapsto> (le_context e, le_state e))\<rparr>"
    and read_log:
      "binv b \<Longrightarrow> sorted_wrt (<) (map le_event_id (b_read_log B n b)) \<and>
       log_item ` set (b_read_log B n b) = {(i, c, d). n < i \<and> hy_log (hist b) i = Some (c, d)}"
    and put_snapshot:
      "binv b \<Longrightarrow> binv (b_put_snapshot B sn b) \<and>
       hist (b_put_snapshot B sn b) = (hist b)\<lparr>hy_snaps := (hy_snaps (hist b))(sn_snapshot_id sn \<mapsto> sn)\<rparr>"
    and get_snapshot: "binv b \<Longrightarrow> b_get_snapshot B i b = Inr (hy_snaps (hist b) i)"
    and latest_snapshot:
      "binv b \<Longrightarrow> \<exists>r. b_latest_snapshot B at_event b = Inr r \<and> is_newest (ran (hy_snaps (hist b))) at_event r"
    and put_commit:
      "binv b \<Longrightarrow> binv (b_put_commit B m b) \<and>
       hist (b_put_commit B m b) = (hist b)\<lparr>hy_commits := (hy_commits (hist b))(cm_commit_id m \<mapsto> m)\<rparr>"
    and get_commit: "binv b \<Longrightarrow> b_get_commit B i b = Inr (hy_commits (hist b) i)"
    and list_commits:
      "binv b \<Longrightarrow> \<exists>cms. b_list_commits B b = Inr cms \<and> set cms = ran (hy_commits (hist b))"
    and put_head:
      "binv b \<Longrightarrow> binv (b_put_head B h b) \<and> hist (b_put_head B h b) = (hist b)\<lparr>hy_head := Some h\<rparr>"
    and get_head: "binv b \<Longrightarrow> b_get_head B b = Inr (hy_head (hist b))"
    and truncate:
      "binv b \<Longrightarrow> fst (b_truncate B n b) = Inr () \<and> binv (snd (b_truncate B n b)) \<and>
       hist (snd (b_truncate B n b)) = (hist b)
         \<lparr>hy_log := (hy_log (hist b)) |` {..n},
          hy_snaps := keep_upto sn_event_id_high n (hy_snaps (hist b)),
          hy_commits := keep_upto cm_event_id_high n (hy_commits (hist b))\<rparr>"

section \<open>Namespaces of a key-value store\<close>

text \<open>The records of one kind live under one key prefix, each under a key made from itself.\<close>

definition ns_get ::
  "('v, 's) kv_ops \<Rightarrow> string \<Rightarrow> ('v \<Rightarrow> 'm option) \<Rightarrow> 's \<Rightarrow> string \<Rightarrow> 'm option" where
  "ns_get K p load s i = (case op_get K (p @ i) s of None \<Rightarrow> None | Some v \<Rightarrow> load v)"

definition ns_ok ::
  "('v, 's) kv_ops \<Rightarrow> ('m \<Rightarrow> bool) \<Rightarrow> ('m \<Rightarrow> string) \<Rightarrow> string \<Rightarrow> ('v \<Rightarrow> 'm option) \<Rightarrow> 's \<Rightarrow> bool" where
  "ns_ok K P key p load s \<longleftrightarrow>
     (\<forall>i v. op_get K (p @ i) s = Some v \<longrightarrow> (\<exists>m. load v = Some m \<and> key m = i \<and> P m))"

lemma validate_all_ok:
  "\<forall>v \<in> set vs. \<exists>m. validate load v = Inr m \<Longrightarrow>
   validate_all load vs = Inr (map (\<lambda>v. projr (validate load v)) vs)"
  by (induction vs) auto

lemma keys_beyond_ok:
  "\<forall>x \<in> set items. \<exists>m. validate load (snd x) = Inr m \<Longrightarrow>
   keys_beyond load ev n items =
     Inr (map fst (filter (\<lambda>x. n < ev (projr (validate load (snd x)))) items))"
  by (induction items) auto

lemma max_by_props:
  "max_by f x ys \<in> insert x (set ys) \<and> (\<forall>y \<in> insert x (set ys). f y \<le> f (max_by f x ys))"
proof (induction ys arbitrary: x)
  case (Cons y ys)
  from Cons.IH[of "if f x < f y then y else x"] show ?case by (auto split: if_splits)
qed simp

lemma newest_snapshot_is_newest: "is_newest (set snaps) at_event (newest_snapshot at_event snaps)"
proof -
  define cand where "cand s \<longleftrightarrow> (case at_event of None \<Rightarrow> True | Some n \<Rightarrow> sn_event_id_high s \<le> n)"
    for s :: snapshot
  have C: "{s \<in> set snaps. \<forall>n. at_event = Some n \<longrightarrow> sn_event_id_high s \<le> n} = set (filter cand snaps)"
    by (auto simp: cand_def split: option.splits)
  have N: "newest_snapshot at_event snaps =
      (case filter cand snaps of [] \<Rightarrow> None | s # ss \<Rightarrow> Some (max_by sn_event_id_high s ss))"
    by (simp add: newest_snapshot_def cand_def[abs_def])
  show ?thesis
  proof (cases "filter cand snaps")
    case Nil
    then show ?thesis unfolding is_newest_def C N Let_def by simp
  next
    case (Cons s ss)
    then show ?thesis
      unfolding is_newest_def C N Let_def using max_by_props[of sn_event_id_high s ss] by simp
  qed
qed

context kv_store
begin

lemma ns_set_same:
  assumes "kinv s" and "ns_ok K P key p load s" and "load v = Some m" and "key m = i" and "P m"
  shows "ns_ok K P key p load (op_set K (p @ i) v s)"
    and "ns_get K p load (op_set K (p @ i) v s) = (ns_get K p load s)(i \<mapsto> m)"
  using assms by (auto simp: ns_ok_def ns_get_def get_set fun_eq_iff)

lemma ns_set_other:
  assumes "kinv s" and "\<And>i. p @ i \<noteq> k"
  shows "ns_ok K P key p load (op_set K k v s) = ns_ok K P key p load s"
    and "ns_get K p load (op_set K k v s) = ns_get K p load s"
  using assms by (auto simp: ns_ok_def ns_get_def get_set fun_eq_iff)

lemma ns_delete:
  assumes "kinv s"
  shows "ns_ok K P key p load s \<Longrightarrow> ns_ok K P key p load (op_batch_delete K ks s)"
    and "ns_get K p load (op_batch_delete K ks s) i = (if p @ i \<in> set ks then None else ns_get K p load s i)"
  using assms by (auto simp: ns_ok_def ns_get_def get_batch_delete split: if_splits)

lemma ns_items:
  assumes "kinv s"
  shows "(k, v) \<in> set (op_by_prefix K p s) \<longleftrightarrow> (\<exists>i t. k = p @ i \<and> v = Some t \<and> op_get K k s = Some t)"
  unfolding dwf_mem_dget[OF by_prefix_dwf[OF assms]] by_prefix[OF assms] startswith_iff
  by (auto split: if_splits)

lemma ns_validate:
  assumes "kinv s" and "ns_ok K P key p load s" and "x \<in> set (op_by_prefix K p s)"
  obtains i m where "fst x = p @ i" "validate load (snd x) = Inr m" "ns_get K p load s i = Some m"
proof -
  obtain i t where "fst x = p @ i" "snd x = Some t" "op_get K (p @ i) s = Some t"
    using ns_items[OF assms(1), of "fst x" "snd x" p] assms(3) by auto
  moreover obtain m where "load t = Some m"
    using assms(2) \<open>op_get K (p @ i) s = Some t\<close> unfolding ns_ok_def by blast
  ultimately show ?thesis
    by (intro that[of i m]) (simp_all add: validate_def ns_get_def)
qed

lemma ns_mem:
  assumes "kinv s" and "ns_get K p load s i = Some m"
  obtains v where "(p @ i, v) \<in> set (op_by_prefix K p s)" "validate load v = Inr m"
  using assms(2) ns_items[OF assms(1)] that
  by (fastforce simp: ns_get_def validate_def split: option.splits)

lemma ns_validate_all:
  assumes "kinv s" and "ns_ok K P key p load s"
  shows "\<exists>ms. validate_all load (map snd (op_by_prefix K p s)) = Inr ms \<and> set ms = ran (ns_get K p load s)"
proof -
  let ?items = "op_by_prefix K p s"
  have "\<forall>v \<in> set (map snd ?items). \<exists>m. validate load v = Inr m"
    by (auto elim!: ns_validate[OF assms])
  from validate_all_ok[OF this]
  have "validate_all load (map snd ?items) = Inr (map (\<lambda>x. projr (validate load (snd x))) ?items)"
    by (simp add: comp_def)
  moreover have "(\<lambda>x. projr (validate load (snd x))) ` set ?items = ran (ns_get K p load s)"
  proof (intro set_eqI iffI)
    fix m
    assume "m \<in> (\<lambda>x. projr (validate load (snd x))) ` set ?items"
    then obtain x where "x \<in> set ?items" "m = projr (validate load (snd x))" by blast
    then show "m \<in> ran (ns_get K p load s)"
      by (elim ns_validate[OF assms]) (auto intro: ranI)
  next
    fix m
    assume "m \<in> ran (ns_get K p load s)"
    then obtain i where "ns_get K p load s i = Some m" by (auto simp: ran_def)
    then show "m \<in> (\<lambda>x. projr (validate load (snd x))) ` set ?items"
      by (elim ns_mem[OF assms(1)]) force
  qed
  ultimately show ?thesis by simp
qed

lemma ns_keys_beyond:
  assumes "kinv s" and "ns_ok K P key p load s"
  shows "\<exists>ks. keys_beyond load ev n (op_by_prefix K p s) = Inr ks \<and>
    (\<forall>k. k \<in> set ks \<longleftrightarrow> (\<exists>i m. k = p @ i \<and> ns_get K p load s i = Some m \<and> n < ev m))"
proof -
  let ?items = "op_by_prefix K p s"
  let ?sel = "\<lambda>x. n < ev (projr (validate load (snd x)))"
  have "\<forall>x \<in> set ?items. \<exists>m. validate load (snd x) = Inr m"
    by (auto elim!: ns_validate[OF assms])
  note R = keys_beyond_ok[OF this, of ev n]
  have "k \<in> set (map fst (filter ?sel ?items)) \<longleftrightarrow>
      (\<exists>i m. k = p @ i \<and> ns_get K p load s i = Some m \<and> n < ev m)" for k
  proof
    assume "k \<in> set (map fst (filter ?sel ?items))"
    then obtain x where "x \<in> set ?items" "?sel x" "k = fst x" by auto
    then show "\<exists>i m. k = p @ i \<and> ns_get K p load s i = Some m \<and> n < ev m"
      by (elim ns_validate[OF assms]) auto
  next
    assume "\<exists>i m. k = p @ i \<and> ns_get K p load s i = Some m \<and> n < ev m"
    then obtain i m where "k = p @ i" "ns_get K p load s i = Some m" "n < ev m" by blast
    then show "k \<in> set (map fst (filter ?sel ?items))"
      by (elim ns_mem[OF assms(1)]) force
  qed
  with R show ?thesis by blast
qed

end

section \<open>The key-value backend keeps the contract\<close>

abbreviation event_id_ok :: "nat \<Rightarrow> bool" where
  "event_id_ok n \<equiv> n < 10 ^ EVENT_ID_WIDTH"

definition kv_inv :: "('v, 's) kv_ops \<Rightarrow> ('s \<Rightarrow> bool) \<Rightarrow> 'v codec \<Rightarrow> string \<Rightarrow> 's \<Rightarrow> bool" where
  "kv_inv K kinv c sid s \<longleftrightarrow> kinv s \<and>
     ns_ok K (\<lambda>e. event_id_ok (le_event_id e)) (\<lambda>e. zero_pad EVENT_ID_WIDTH (le_event_id e))
       (log_prefix sid) (decode_log_entry c) s \<and>
     ns_ok K (\<lambda>_. True) sn_snapshot_id (snap_prefix sid) (load_snapshot c) s \<and>
     ns_ok K (\<lambda>_. True) cm_commit_id (commit_prefix sid) (load_commit c) s \<and>
     ns_ok K (\<lambda>_. True) (\<lambda>_. []) (head_key sid) (load_head c) s"

definition kv_hist :: "('v, 's) kv_ops \<Rightarrow> 'v codec \<Rightarrow> string \<Rightarrow> 's \<Rightarrow> history" where
  "kv_hist K c sid s =
     \<lparr>hy_log = (\<lambda>i. if event_id_ok i
        then map_option (\<lambda>e. (le_context e, le_state e))
          (ns_get K (log_prefix sid) (decode_log_entry c) s (zero_pad EVENT_ID_WIDTH i))
        else None),
      hy_snaps = ns_get K (snap_prefix sid) (load_snapshot c) s,
      hy_commits = ns_get K (commit_prefix sid) (load_commit c) s,
      hy_head = ns_get K (head_key sid) (load_head c) s []\<rparr>"

lemmas vcs_keys = log_prefix_def snap_prefix_def commit_prefix_def head_key_def log_key_def

lemma key_disjoint:
  "log_prefix sid @ i \<noteq> snap_prefix sid @ j" "log_prefix sid @ i \<noteq> commit_prefix sid @ j"
  "log_prefix sid @ i \<noteq> head_key sid @ j" "snap_prefix sid @ i \<noteq> commit_prefix sid @ j"
  "snap_prefix sid @ i \<noteq> head_key sid @ j" "commit_prefix sid @ i \<noteq> head_key sid @ j"
  by (simp_all add: vcs_keys)

lemmas key_disjoint' = key_disjoint key_disjoint[symmetric]

lemma key_disjoint_head:
  "log_prefix sid @ i \<noteq> head_key sid" "snap_prefix sid @ i \<noteq> head_key sid"
  "commit_prefix sid @ i \<noteq> head_key sid"
  using key_disjoint[of sid i "[]"] by simp_all

lemma log_key_prefix: "log_key sid i = log_prefix sid @ zero_pad EVENT_ID_WIDTH i"
  by (simp add: vcs_keys)

lemma pad_inject [simp]:
  "event_id_ok i \<Longrightarrow> event_id_ok j \<Longrightarrow> zero_pad EVENT_ID_WIDTH i = zero_pad EVENT_ID_WIDTH j \<longleftrightarrow> i = j"
  using zero_pad_inject by (simp add: EVENT_ID_WIDTH_def)

lemma pad_less:
  "event_id_ok i \<Longrightarrow> event_id_ok j \<Longrightarrow> zero_pad EVENT_ID_WIDTH i < zero_pad EVENT_ID_WIDTH j \<longleftrightarrow> i < j"
  using zero_pad_less by (simp add: EVENT_ID_WIDTH_def)

lemma append_less_iff: "p @ xs < p @ ys \<longleftrightarrow> xs < (ys :: string)"
  by (induction p) auto

locale kv_versioning = kv_store K kinv for K :: "('v, 's) kv_ops" and kinv +
  fixes c :: "'v codec" and sid :: string
  assumes codec: "codec_ok c"
begin

lemma load_dump:
  "load_snapshot c (dump_snapshot c sn) = Some sn" "load_commit c (dump_commit c m) = Some m"
  "load_head c (dump_head c h) = Some h"
  "decode_log_entry c (encode_log_entry c e) = Some (e\<lparr>le_crc := compute_crc c e\<rparr>)"
  using codec by (auto simp: codec_ok_def decode_log_entry_def encode_log_entry_def compute_crc_def)

lemma kv_invD:
  assumes "kv_inv K kinv c sid s"
  shows "kinv s"
    and "ns_ok K (\<lambda>e. event_id_ok (le_event_id e)) (\<lambda>e. zero_pad EVENT_ID_WIDTH (le_event_id e))
      (log_prefix sid) (decode_log_entry c) s"
    and "ns_ok K (\<lambda>_. True) sn_snapshot_id (snap_prefix sid) (load_snapshot c) s"
    and "ns_ok K (\<lambda>_. True) cm_commit_id (commit_prefix sid) (load_commit c) s"
    and "ns_ok K (\<lambda>_. True) (\<lambda>_. []) (head_key sid) (load_head c) s"
  using assms by (auto simp: kv_inv_def)

lemma kv_append:
  assumes I: "kv_inv K kinv c sid s" and id: "event_id_ok (le_event_id e)"
  shows "kv_inv K kinv c sid (kv_append_log K c sid e s)"
    and "kv_hist K c sid (kv_append_log K c sid e s) =
      (kv_hist K c sid s)\<lparr>hy_log := (hy_log (kv_hist K c sid s))(le_event_id e \<mapsto> (le_context e, le_state e))\<rparr>"
proof -
  note D = kv_invD[OF I]
  let ?e = "e\<lparr>le_crc := compute_crc c e\<rparr>"
  have key: "zero_pad EVENT_ID_WIDTH (le_event_id ?e) = zero_pad EVENT_ID_WIDTH (le_event_id e)" by simp
  have P: "event_id_ok (le_event_id ?e)" using id by simp
  note S = ns_set_same[OF D(1,2) load_dump(4)[of e] key P]
  show "kv_inv K kinv c sid (kv_append_log K c sid e s)"
    unfolding kv_append_log_def log_key_prefix kv_inv_def
    using S(1) D by (simp add: kinv_set ns_set_other key_disjoint')
  show "kv_hist K c sid (kv_append_log K c sid e s) =
      (kv_hist K c sid s)\<lparr>hy_log := (hy_log (kv_hist K c sid s))(le_event_id e \<mapsto> (le_context e, le_state e))\<rparr>"
    unfolding kv_append_log_def log_key_prefix kv_hist_def
    using S(2) D(1) id by (auto simp: ns_set_other key_disjoint' fun_eq_iff)
qed

lemma kv_put_snap:
  assumes I: "kv_inv K kinv c sid s"
  shows "kv_inv K kinv c sid (kv_put_snapshot K c sid sn s)"
    and "kv_hist K c sid (kv_put_snapshot K c sid sn s) =
      (kv_hist K c sid s)\<lparr>hy_snaps := (hy_snaps (kv_hist K c sid s))(sn_snapshot_id sn \<mapsto> sn)\<rparr>"
proof -
  note D = kv_invD[OF I]
  note S = ns_set_same[OF D(1,3) load_dump(1)[of sn] refl TrueI]
  show "kv_inv K kinv c sid (kv_put_snapshot K c sid sn s)"
    unfolding kv_put_snapshot_def kv_inv_def
    using S(1) D by (simp add: kinv_set ns_set_other key_disjoint')
  show "kv_hist K c sid (kv_put_snapshot K c sid sn s) =
      (kv_hist K c sid s)\<lparr>hy_snaps := (hy_snaps (kv_hist K c sid s))(sn_snapshot_id sn \<mapsto> sn)\<rparr>"
    unfolding kv_put_snapshot_def kv_hist_def
    using S(2) D(1) by (auto simp: ns_set_other key_disjoint' fun_eq_iff)
qed

lemma kv_put_cm:
  assumes I: "kv_inv K kinv c sid s"
  shows "kv_inv K kinv c sid (kv_put_commit K c sid m s)"
    and "kv_hist K c sid (kv_put_commit K c sid m s) =
      (kv_hist K c sid s)\<lparr>hy_commits := (hy_commits (kv_hist K c sid s))(cm_commit_id m \<mapsto> m)\<rparr>"
proof -
  note D = kv_invD[OF I]
  note S = ns_set_same[OF D(1,4) load_dump(2)[of m] refl TrueI]
  show "kv_inv K kinv c sid (kv_put_commit K c sid m s)"
    unfolding kv_put_commit_def kv_inv_def
    using S(1) D by (simp add: kinv_set ns_set_other key_disjoint')
  show "kv_hist K c sid (kv_put_commit K c sid m s) =
      (kv_hist K c sid s)\<lparr>hy_commits := (hy_commits (kv_hist K c sid s))(cm_commit_id m \<mapsto> m)\<rparr>"
    unfolding kv_put_commit_def kv_hist_def
    using S(2) D(1) by (auto simp: ns_set_other key_disjoint' fun_eq_iff)
qed

lemma kv_put_hd:
  assumes I: "kv_inv K kinv c sid s"
  shows "kv_inv K kinv c sid (kv_put_head K c sid h s)"
    and "kv_hist K c sid (kv_put_head K c sid h s) = (kv_hist K c sid s)\<lparr>hy_head := Some h\<rparr>"
proof -
  note D = kv_invD[OF I]
  note S = ns_set_same[OF D(1,5) load_dump(3)[of h] refl TrueI, simplified]
  show "kv_inv K kinv c sid (kv_put_head K c sid h s)"
    unfolding kv_put_head_def kv_inv_def
    using S(1) D by (simp add: kinv_set ns_set_other key_disjoint_head)
  show "kv_hist K c sid (kv_put_head K c sid h s) = (kv_hist K c sid s)\<lparr>hy_head := Some h\<rparr>"
    unfolding kv_put_head_def kv_hist_def
    using S(2) D(1) by (auto simp: ns_set_other key_disjoint_head fun_eq_iff)
qed

lemma read_entries_ok:
  "\<forall>v \<in> set vs. \<exists>t e. v = Some t \<and> decode_log_entry c t = Some e \<Longrightarrow>
   read_entries c since vs =
     filter (\<lambda>e. since < le_event_id e) (map (\<lambda>v. the (decode_log_entry c (the v))) vs)"
  by (induction vs) auto

lemma kv_read:
  assumes I: "kv_inv K kinv c sid s"
  shows "sorted_wrt (<) (map le_event_id (kv_read_log K c sid n s))"
    and "log_item ` set (kv_read_log K c sid n s) =
      {(i, cx, d). n < i \<and> hy_log (kv_hist K c sid s) i = Some (cx, d)}"
proof -
  note D = kv_invD[OF I]
  define items where "items = op_by_prefix K (log_prefix sid) s"
  define ks where "ks = sort (dkeys items)"
  define ent where "ent k = the (decode_log_entry c (the (op_get K k s)))" for k
  have ks: "\<exists>t e. dget_default None items k = Some t \<and> op_get K k s = Some t \<and>
      decode_log_entry c t = Some e \<and> ent k = e \<and> event_id_ok (le_event_id e) \<and>
      k = log_prefix sid @ zero_pad EVENT_ID_WIDTH (le_event_id e)" if k: "k \<in> set ks" for k
  proof -
    obtain v where v: "dget items k = Some v"
      using k in_keys_dget[of k items] by (auto simp: ks_def)
    then have "(k, v) \<in> set items" by (rule map_of_SomeD)
    then obtain i t where "k = log_prefix sid @ i" "v = Some t" "op_get K k s = Some t"
      using ns_items[OF D(1)] by (auto simp: items_def)
    moreover from this obtain e where "decode_log_entry c t = Some e"
        "zero_pad EVENT_ID_WIDTH (le_event_id e) = i" "event_id_ok (le_event_id e)"
      using D(2) unfolding ns_ok_def by blast
    ultimately show ?thesis using v by (auto simp: ent_def)
  qed
  have mem: "k \<in> set ks" if "op_get K k s = Some t" "startswith k (log_prefix sid)" for k t
    using that by_prefix[OF D(1), of "log_prefix sid" k] dget_in_keys[of items k "Some t"]
    by (simp add: ks_def items_def)
  have vals: "map (\<lambda>v. the (decode_log_entry c (the v))) (map (dget_default None items) ks) = map ent ks"
  proof -
    have "the (decode_log_entry c (the (dget_default None items k))) = ent k" if "k \<in> set ks" for k
      using ks[OF that] by auto
    then show ?thesis by simp
  qed
  have read: "kv_read_log K c sid n s = filter (\<lambda>e. n < le_event_id e) (map ent ks)"
    unfolding kv_read_log_def items_def[symmetric] Let_def ks_def[symmetric] vals[symmetric]
    by (rule read_entries_ok) (use ks in fastforce)
  have "distinct ks" using by_prefix_dwf[OF D(1)] by (simp add: ks_def items_def)
  then have "sorted_wrt (<) ks" by (simp add: ks_def strict_sorted_iff)
  then have "sorted_wrt (\<lambda>k k'. le_event_id (ent k) < le_event_id (ent k')) ks"
  proof (rule sorted_wrt_mono_rel[rotated])
    fix k k'
    assume k: "k \<in> set ks" and k': "k' \<in> set ks" and lt: "k < k'"
    from ks[OF k] have 1: "k = log_prefix sid @ zero_pad EVENT_ID_WIDTH (le_event_id (ent k))"
        "event_id_ok (le_event_id (ent k))" by auto
    from ks[OF k'] have 2: "k' = log_prefix sid @ zero_pad EVENT_ID_WIDTH (le_event_id (ent k'))"
        "event_id_ok (le_event_id (ent k'))" by auto
    have "zero_pad EVENT_ID_WIDTH (le_event_id (ent k)) < zero_pad EVENT_ID_WIDTH (le_event_id (ent k'))"
      using lt by (subst (asm) 1(1), subst (asm) 2(1)) (simp add: append_less_iff)
    then show "le_event_id (ent k) < le_event_id (ent k')"
      by (simp only: pad_less[OF 1(2) 2(2)])
  qed
  then show "sorted_wrt (<) (map le_event_id (kv_read_log K c sid n s))"
    unfolding read sorted_wrt_map by (intro sorted_wrt_filter) (simp add: sorted_wrt_map)
  show "log_item ` set (kv_read_log K c sid n s) =
      {(i, cx, d). n < i \<and> hy_log (kv_hist K c sid s) i = Some (cx, d)}"
  proof (intro set_eqI iffI)
    fix x
    assume "x \<in> log_item ` set (kv_read_log K c sid n s)"
    then obtain k where "k \<in> set ks" "n < le_event_id (ent k)" "x = log_item (ent k)"
      unfolding read by auto
    with ks[of k] show "x \<in> {(i, cx, d). n < i \<and> hy_log (kv_hist K c sid s) i = Some (cx, d)}"
      by (auto simp: log_item_def kv_hist_def ns_get_def)
  next
    fix x
    assume "x \<in> {(i, cx, d). n < i \<and> hy_log (kv_hist K c sid s) i = Some (cx, d)}"
    then obtain i cx d where x: "x = (i, cx, d)" "n < i" "hy_log (kv_hist K c sid s) i = Some (cx, d)"
      by auto
    then obtain t e where e: "event_id_ok i" "op_get K (log_prefix sid @ zero_pad EVENT_ID_WIDTH i) s = Some t"
        "decode_log_entry c t = Some e" "cx = le_context e" "d = le_state e"
      by (auto simp: kv_hist_def ns_get_def split: if_splits option.splits)
    then have "zero_pad EVENT_ID_WIDTH (le_event_id e) = zero_pad EVENT_ID_WIDTH i"
        "event_id_ok (le_event_id e)"
      using D(2) unfolding ns_ok_def by fastforce+
    then have i: "le_event_id e = i" using e(1) by simp
    have k: "log_prefix sid @ zero_pad EVENT_ID_WIDTH i \<in> set ks"
      using mem[OF e(2)] by simp
    then have "e \<in> set (kv_read_log K c sid n s)"
      unfolding read using x(2) i e(2,3) by (auto simp: ent_def intro!: image_eqI)
    moreover have "log_item e = x" using x(1) i e by (simp add: log_item_def)
    ultimately show "x \<in> log_item ` set (kv_read_log K c sid n s)" by blast
  qed
qed

lemma kv_trunc:
  assumes I: "kv_inv K kinv c sid s"
  shows "fst (kv_truncate K c sid n s) = Inr ()" and "kv_inv K kinv c sid (snd (kv_truncate K c sid n s))"
    and "kv_hist K c sid (snd (kv_truncate K c sid n s)) = (kv_hist K c sid s)
       \<lparr>hy_log := (hy_log (kv_hist K c sid s)) |` {..n},
        hy_snaps := keep_upto sn_event_id_high n (hy_snaps (kv_hist K c sid s)),
        hy_commits := keep_upto cm_event_id_high n (hy_commits (kv_hist K c sid s))\<rparr>"
proof -
  note D = kv_invD[OF I]
  obtain sd where sd: "keys_beyond (load_snapshot c) sn_event_id_high n (op_by_prefix K (snap_prefix sid) s) = Inr sd"
    "\<And>k. k \<in> set sd \<longleftrightarrow> (\<exists>i m. k = snap_prefix sid @ i \<and> ns_get K (snap_prefix sid) (load_snapshot c) s i = Some m \<and> n < sn_event_id_high m)"
    using ns_keys_beyond[OF D(1,3)] by blast
  obtain cd where cd: "keys_beyond (load_commit c) cm_event_id_high n (op_by_prefix K (commit_prefix sid) s) = Inr cd"
    "\<And>k. k \<in> set cd \<longleftrightarrow> (\<exists>i m. k = commit_prefix sid @ i \<and> ns_get K (commit_prefix sid) (load_commit c) s i = Some m \<and> n < cm_event_id_high m)"
    using ns_keys_beyond[OF D(1,4)] by blast
  define ld where "ld = map fst (filter (\<lambda>(k, v). case v of None \<Rightarrow> False
      | Some t \<Rightarrow> (case decode_log_entry c t of None \<Rightarrow> False | Some e \<Rightarrow> n < le_event_id e))
      (op_by_prefix K (log_prefix sid) s))"
  have ld: "k \<in> set ld \<longleftrightarrow> (\<exists>i e. k = log_prefix sid @ i \<and>
      ns_get K (log_prefix sid) (decode_log_entry c) s i = Some e \<and> n < le_event_id e)" for k
  proof -
    have "k \<in> set ld \<longleftrightarrow> (\<exists>t e. (k, Some t) \<in> set (op_by_prefix K (log_prefix sid) s) \<and>
        decode_log_entry c t = Some e \<and> n < le_event_id e)"
      unfolding ld_def by (force split: option.splits)
    then show ?thesis
      unfolding ns_items[OF D(1)] by (auto simp: ns_get_def split: option.splits)
  qed
  have st: "snd (kv_truncate K c sid n s) =
      (if ld @ sd @ cd \<noteq> [] then op_batch_delete K (ld @ sd @ cd) s else s)"
    by (simp add: kv_truncate_def ld_def[symmetric] sd(1) cd(1) Let_def)
  have get: "ns_get K p load (snd (kv_truncate K c sid n s)) i =
      (if p @ i \<in> set (ld @ sd @ cd) then None else ns_get K p load s i)" for p i and load :: "'v \<Rightarrow> 'm option"
    unfolding st by (simp add: ns_delete(2)[OF D(1)])
  show "fst (kv_truncate K c sid n s) = Inr ()"
    by (simp add: kv_truncate_def sd(1) cd(1) Let_def)
  show "kv_inv K kinv c sid (snd (kv_truncate K c sid n s))"
    unfolding kv_inv_def st using D by (simp add: kinv_batch_delete ns_delete(1))
  have L: "le_event_id e = i" if "event_id_ok i"
      "ns_get K (log_prefix sid) (decode_log_entry c) s (zero_pad EVENT_ID_WIDTH i) = Some e" for e i
    using that D(2) by (fastforce simp: ns_ok_def ns_get_def split: option.splits)
  show "kv_hist K c sid (snd (kv_truncate K c sid n s)) = (kv_hist K c sid s)
       \<lparr>hy_log := (hy_log (kv_hist K c sid s)) |` {..n},
        hy_snaps := keep_upto sn_event_id_high n (hy_snaps (kv_hist K c sid s)),
        hy_commits := keep_upto cm_event_id_high n (hy_commits (kv_hist K c sid s))\<rparr>"
  proof -
    have "hy_log (kv_hist K c sid (snd (kv_truncate K c sid n s))) i =
        ((hy_log (kv_hist K c sid s)) |` {..n}) i" for i
      using L[of i] by (cases "ns_get K (log_prefix sid) (decode_log_entry c) s (zero_pad EVENT_ID_WIDTH i)")
        (auto simp: kv_hist_def get ld sd(2) cd(2) key_disjoint' restrict_map_def)
    moreover have "hy_snaps (kv_hist K c sid (snd (kv_truncate K c sid n s))) i =
        keep_upto sn_event_id_high n (hy_snaps (kv_hist K c sid s)) i" for i
      by (cases "ns_get K (snap_prefix sid) (load_snapshot c) s i")
        (auto simp: kv_hist_def get ld sd(2) cd(2) key_disjoint' keep_upto_def)
    moreover have "hy_commits (kv_hist K c sid (snd (kv_truncate K c sid n s))) i =
        keep_upto cm_event_id_high n (hy_commits (kv_hist K c sid s)) i" for i
      by (cases "ns_get K (commit_prefix sid) (load_commit c) s i")
        (auto simp: kv_hist_def get ld sd(2) cd(2) key_disjoint' keep_upto_def)
    moreover have "hy_head (kv_hist K c sid (snd (kv_truncate K c sid n s))) = hy_head (kv_hist K c sid s)"
      using key_disjoint_head[THEN not_sym]
      by (simp add: kv_hist_def get ld sd(2) cd(2))
    ultimately show ?thesis by (simp add: fun_eq_iff)
  qed
qed

lemma kv_newest:
  assumes I: "kv_inv K kinv c sid s"
  shows "\<exists>r. kv_latest_snapshot K c sid at_event s = Inr r \<and>
    is_newest (ran (hy_snaps (kv_hist K c sid s))) at_event r"
proof -
  obtain ms where "validate_all (load_snapshot c) (map snd (op_by_prefix K (snap_prefix sid) s)) = Inr ms"
      "set ms = ran (ns_get K (snap_prefix sid) (load_snapshot c) s)"
    using ns_validate_all[OF kv_invD(1,3)[OF I]] by blast
  then show ?thesis
    using newest_snapshot_is_newest[of ms at_event] by (auto simp: kv_latest_snapshot_def kv_hist_def)
qed

lemma kv_gets:
  assumes I: "kv_inv K kinv c sid s"
  shows "kv_get_snapshot K c sid i s = Inr (hy_snaps (kv_hist K c sid s) i)"
    and "kv_get_commit K c sid i s = Inr (hy_commits (kv_hist K c sid s) i)"
    and "kv_get_head K c sid s = Inr (hy_head (kv_hist K c sid s))"
proof -
  note D = kv_invD[OF I]
  have "op_get K (snap_prefix sid @ i) s = Some v \<Longrightarrow> \<exists>m. load_snapshot c v = Some m" for v
    using D(3) unfolding ns_ok_def by blast
  then show "kv_get_snapshot K c sid i s = Inr (hy_snaps (kv_hist K c sid s) i)"
    by (cases "op_get K (snap_prefix sid @ i) s")
      (auto simp: kv_get_snapshot_def kv_hist_def ns_get_def validate_def)
  have "op_get K (commit_prefix sid @ i) s = Some v \<Longrightarrow> \<exists>m. load_commit c v = Some m" for v
    using D(4) unfolding ns_ok_def by blast
  then show "kv_get_commit K c sid i s = Inr (hy_commits (kv_hist K c sid s) i)"
    by (cases "op_get K (commit_prefix sid @ i) s")
      (auto simp: kv_get_commit_def kv_hist_def ns_get_def validate_def)
  have "op_get K (head_key sid) s = Some v \<Longrightarrow> \<exists>h. load_head c v = Some h" for v
    using D(5) unfolding ns_ok_def by (metis append_Nil2)
  then show "kv_get_head K c sid s = Inr (hy_head (kv_hist K c sid s))"
    by (cases "op_get K (head_key sid) s")
      (auto simp: kv_get_head_def kv_hist_def ns_get_def validate_def)
qed

end

sublocale kv_versioning \<subseteq> kvb: versioning_backend
  "kv_backend K c sid" "kv_inv K kinv c sid" "kv_hist K c sid" event_id_ok
proof
  fix s
  assume I: "kv_inv K kinv c sid s"
  show "\<exists>cms. b_list_commits (kv_backend K c sid) s = Inr cms \<and> set cms = ran (hy_commits (kv_hist K c sid s))"
    using ns_validate_all[OF kv_invD(1,4)[OF I]]
    by (auto simp: kv_backend_def kv_list_commits_def kv_hist_def)
qed (simp_all add: kv_backend_def kv_append kv_read kv_put_snap kv_put_cm kv_put_hd kv_gets kv_newest kv_trunc)

context kv_versioning
begin

lemmas backend = kvb.versioning_backend_axioms

end

lemma kv_is_backend:
  assumes "kv_store K kinv" and "codec_ok c"
  shows "versioning_backend (kv_backend K c sid) (kv_inv K kinv c sid) (kv_hist K c sid) event_id_ok"
proof -
  have "kv_versioning K kinv c"
    by (rule kv_versioning.intro[OF assms(1) kv_versioning_axioms.intro[OF assms(2)]])
  then show ?thesis by (rule kv_versioning.backend)
qed

section \<open>The file backend keeps the contract\<close>

definition dir_ok :: "('m \<Rightarrow> string) \<Rightarrow> ('v \<Rightarrow> 'm option) \<Rightarrow> (string, 'v) pydict \<Rightarrow> bool" where
  "dir_ok key load files \<longleftrightarrow> dwf files \<and>
     (\<forall>k v. dget files k = Some v \<longrightarrow> (\<exists>m. load v = Some m \<and> k = json_name (key m)))"

definition dir_get :: "('v \<Rightarrow> 'm option) \<Rightarrow> (string, 'v) pydict \<Rightarrow> string \<Rightarrow> 'm option" where
  "dir_get load files i = (case dget files (json_name i) of None \<Rightarrow> None | Some v \<Rightarrow> load v)"

lemma json_name_inject [simp]: "json_name i = json_name j \<longleftrightarrow> i = j"
  by (simp add: json_name_def)

lemma dir_put:
  assumes "dir_ok key load files" and "load v = Some m"
  shows "dir_ok key load (dset (json_name (key m)) v files)"
    and "dir_get load (dset (json_name (key m)) v files) = (dir_get load files)(key m \<mapsto> m)"
  using assms by (auto simp: dir_ok_def dir_get_def fun_eq_iff)

lemma dir_validate:
  assumes "dir_ok key load files" and "k \<in> fst ` set files"
  obtains m where "validate load (dget files k) = Inr m" "k = json_name (key m)" "dir_get load files (key m) = Some m"
proof -
  obtain v where v: "dget files k = Some v" using in_keys_dget[OF assms(2)] by blast
  then obtain m where "load v = Some m" "k = json_name (key m)"
    using assms(1) unfolding dir_ok_def by blast
  with v show ?thesis by (intro that[of m]) (simp_all add: validate_def dir_get_def)
qed

lemma dir_load:
  assumes "dir_ok key load files"
  shows "\<exists>ms. load_dir load files = Inr ms \<and> set ms = ran (dir_get load files)"
proof -
  let ?vs = "map (dget files) (sort (dkeys files))"
  have "\<forall>v \<in> set ?vs. \<exists>m. validate load v = Inr m"
  proof
    fix v
    assume "v \<in> set ?vs"
    then obtain k where "k \<in> fst ` set files" "v = dget files k" by auto
    then show "\<exists>m. validate load v = Inr m" by (elim dir_validate[OF assms]) auto
  qed
  from validate_all_ok[OF this]
  have "load_dir load files = Inr (map (\<lambda>v. projr (validate load v)) ?vs)"
    by (simp add: load_dir_def)
  moreover have "(\<lambda>v. projr (validate load v)) ` set ?vs = ran (dir_get load files)"
  proof (intro set_eqI iffI)
    fix m
    assume "m \<in> (\<lambda>v. projr (validate load v)) ` set ?vs"
    then obtain k where k: "k \<in> fst ` set files" "m = projr (validate load (dget files k))" by auto
    from k(1) show "m \<in> ran (dir_get load files)"
      by (rule dir_validate[OF assms]) (use k(2) in \<open>auto intro: ranI\<close>)
  next
    fix m
    assume "m \<in> ran (dir_get load files)"
    then obtain i v where "dget files (json_name i) = Some v" "load v = Some m"
      by (auto simp: ran_def dir_get_def split: option.splits)
    then have "json_name i \<in> fst ` set files" "m = projr (validate load (dget files (json_name i)))"
      by (auto simp: in_keys_iff validate_def)
    then show "m \<in> (\<lambda>v. projr (validate load v)) ` set ?vs" by auto
  qed
  ultimately show ?thesis by (simp add: image_image)
qed

lemma dir_drop:
  assumes "dir_ok key load files" and "set ms = ran (dir_get load files)"
  shows "dir_ok key load (drop_beyond key ev n ms files)"
    and "dir_get load (drop_beyond key ev n ms files) = keep_upto ev n (dir_get load files)"
proof -
  have L: "dget (drop_beyond key ev n xs fs) k =
      (if \<exists>m \<in> set xs. n < ev m \<and> k = json_name (key m) then None else dget fs k)" for xs fs k
    unfolding drop_beyond_def by (induction xs arbitrary: fs) auto
  have W: "dwf fs \<Longrightarrow> dwf (drop_beyond key ev n xs fs)" for xs and fs :: "(string, 'b) pydict"
    unfolding drop_beyond_def by (induction xs arbitrary: fs) auto
  show "dir_ok key load (drop_beyond key ev n ms files)"
    using assms(1) W unfolding dir_ok_def by (auto simp: L split: if_splits)
  show "dir_get load (drop_beyond key ev n ms files) = keep_upto ev n (dir_get load files)"
  proof
    fix i
    show "dir_get load (drop_beyond key ev n ms files) i = keep_upto ev n (dir_get load files) i"
    proof (cases "dir_get load files i")
      case None
      then have N: "dget files (json_name i) = None"
        using assms(1) by (fastforce simp: dir_get_def dir_ok_def split: option.splits)
      show ?thesis by (simp add: None N keep_upto_def dir_get_def L)
    next
      case (Some m)
      then obtain v where v: "dget files (json_name i) = Some v" "load v = Some m"
        by (auto simp: dir_get_def split: option.splits)
      then have i: "key m = i" using assms(1) unfolding dir_ok_def by fastforce
      have "m' = m" if m': "m' \<in> set ms" "key m' = i" for m'
      proof -
        obtain j w where "dget files (json_name j) = Some w" "load w = Some m'"
          using m'(1) unfolding assms(2) by (auto simp: ran_def dir_get_def split: option.splits)
        moreover from this have "key m' = j" using assms(1) unfolding dir_ok_def by fastforce
        ultimately show ?thesis using m'(2) v by simp
      qed
      note uniq = this
      have "m \<in> set ms" using Some by (auto simp: assms(2) intro: ranI)
      then have "(\<exists>m' \<in> set ms. n < ev m' \<and> json_name i = json_name (key m')) \<longleftrightarrow> n < ev m"
        using i uniq unfolding json_name_inject by blast
      then show ?thesis using Some v by (simp add: dir_get_def L keep_upto_def)
    qed
  qed
qed

definition jl_lines :: "'v jsonl \<Rightarrow> 'v option list" where
  "jl_lines b = (case jl_log b of None \<Rightarrow> [] | Some ls \<Rightarrow> ls)"

definition line_entry :: "'v codec \<Rightarrow> 'v option \<Rightarrow> log_entry" where
  "line_entry c l = the (decode_log_entry c (the l))"

definition lines_ok :: "'v codec \<Rightarrow> 'v option list \<Rightarrow> bool" where
  "lines_ok c ls \<longleftrightarrow> (\<forall>l \<in> set ls. \<exists>t e. l = Some t \<and> decode_log_entry c t = Some e) \<and>
     sorted_wrt (<) (map (\<lambda>l. le_event_id (line_entry c l)) ls)"

definition jl_inv :: "'v codec \<Rightarrow> 'v jsonl \<Rightarrow> bool" where
  "jl_inv c b \<longleftrightarrow> lines_ok c (jl_lines b) \<and>
     dir_ok sn_snapshot_id (load_snapshot c) (jl_snapshots b) \<and>
     dir_ok cm_commit_id (load_commit c) (jl_commits b) \<and>
     (\<forall>v. jl_head b = Some v \<longrightarrow> (\<exists>h. load_head c v = Some h))"

definition lines_log :: "'v codec \<Rightarrow> 'v option list \<Rightarrow> nat \<Rightarrow> (message_delta list \<times> state_delta) option" where
  "lines_log c ls = map_of (map (\<lambda>l. log_item (line_entry c l)) ls)"

definition jl_hist :: "'v codec \<Rightarrow> 'v jsonl \<Rightarrow> history" where
  "jl_hist c b =
     \<lparr>hy_log = lines_log c (jl_lines b),
      hy_snaps = dir_get (load_snapshot c) (jl_snapshots b),
      hy_commits = dir_get (load_commit c) (jl_commits b),
      hy_head = (case jl_head b of None \<Rightarrow> None | Some v \<Rightarrow> load_head c v)\<rparr>"

lemma read_lines_ok:
  "lines_ok c ls \<Longrightarrow> read_lines c n ls = filter (\<lambda>e. n < le_event_id e) (map (line_entry c) ls)"
  by (induction ls) (auto simp: lines_ok_def line_entry_def)

lemma kept_lines_ok:
  "lines_ok c ls \<Longrightarrow> kept_lines c n ls = filter (\<lambda>l. le_event_id (line_entry c l) \<le> n) ls"
  by (induction ls) (auto simp: lines_ok_def line_entry_def)

lemma lines_ok_filter: "lines_ok c ls \<Longrightarrow> lines_ok c (filter P ls)"
  by (auto simp: lines_ok_def sorted_wrt_map intro: sorted_wrt_filter)

lemma lines_log_mem:
  assumes "lines_ok c ls"
  shows "lines_log c ls i = Some x \<longleftrightarrow> (\<exists>l \<in> set ls. log_item (line_entry c l) = (i, x))"
proof -
  have "sorted_wrt (<) (map (\<lambda>l. le_event_id (line_entry c l)) ls)"
    using assms by (simp add: lines_ok_def)
  then have "distinct (map (\<lambda>l. le_event_id (line_entry c l)) ls)"
    by (simp add: strict_sorted_iff)
  then have "dwf (map (\<lambda>l. log_item (line_entry c l)) ls)"
    by (simp add: comp_def log_item_def)
  from dwf_mem_dget[OF this, of i x]
  have "lines_log c ls i = Some x \<longleftrightarrow> (i, x) \<in> (\<lambda>l. log_item (line_entry c l)) ` set ls"
    unfolding lines_log_def by simp
  then show ?thesis by (auto simp: image_iff intro: sym)
qed

lemma lines_log_snoc:
  assumes "lines_ok c ls" and "decode_log_entry c t = Some e"
    and "\<And>i. lines_log c ls i \<noteq> None \<Longrightarrow> i < le_event_id e"
  shows "lines_ok c (ls @ [Some t])"
    and "lines_log c (ls @ [Some t]) = (lines_log c ls)(le_event_id e \<mapsto> (le_context e, le_state e))"
proof -
  have e: "line_entry c (Some t) = e" using assms(2) by (simp add: line_entry_def)
  have "le_event_id (line_entry c l) < le_event_id e" if "l \<in> set ls" for l
    using that assms(3)[of "le_event_id (line_entry c l)"] lines_log_mem[OF assms(1)]
    by (fastforce simp: log_item_def)
  with assms(1,2) show ok: "lines_ok c (ls @ [Some t])"
    by (auto simp: lines_ok_def sorted_wrt_append e)
  have "lines_log c ls (le_event_id e) = None" using assms(3) by (cases "lines_log c ls (le_event_id e)") auto
  then show "lines_log c (ls @ [Some t]) = (lines_log c ls)(le_event_id e \<mapsto> (le_context e, le_state e))"
    by (auto simp: lines_log_def e log_item_def map_add_def fun_eq_iff split: option.splits)
qed

lemma lines_log_filter:
  assumes "lines_ok c ls"
  shows "lines_log c (filter (\<lambda>l. le_event_id (line_entry c l) \<le> n) ls) = (lines_log c ls) |` {..n}"
proof
  fix i
  have "lines_log c (filter (\<lambda>l. le_event_id (line_entry c l) \<le> n) ls) i = Some x \<longleftrightarrow>
      ((lines_log c ls) |` {..n}) i = Some x" for x
    unfolding lines_log_mem[OF lines_ok_filter[OF assms]]
    by (auto simp: restrict_map_def lines_log_mem[OF assms] log_item_def)
  then show "lines_log c (filter (\<lambda>l. le_event_id (line_entry c l) \<le> n) ls) i = ((lines_log c ls) |` {..n}) i"
    by (metis not_None_eq)
qed

locale jsonl_versioning =
  fixes c :: "'v codec"
  assumes codec: "codec_ok c"
begin

lemma load_dump:
  "load_snapshot c (dump_snapshot c sn) = Some sn" "load_commit c (dump_commit c m) = Some m"
  "load_head c (dump_head c h) = Some h"
  "decode_log_entry c (encode_log_entry c e) = Some (e\<lparr>le_crc := compute_crc c e\<rparr>)"
  using codec by (auto simp: codec_ok_def decode_log_entry_def encode_log_entry_def compute_crc_def)

lemma jl_invD:
  assumes "jl_inv c b"
  shows "lines_ok c (jl_lines b)" and "dir_ok sn_snapshot_id (load_snapshot c) (jl_snapshots b)"
    and "dir_ok cm_commit_id (load_commit c) (jl_commits b)"
    and "jl_head b = Some v \<Longrightarrow> \<exists>h. load_head c v = Some h"
  using assms by (auto simp: jl_inv_def)

lemma jl_append:
  assumes I: "jl_inv c b" and "\<And>i. hy_log (jl_hist c b) i \<noteq> None \<Longrightarrow> i < le_event_id e"
  shows "jl_inv c (jl_append_log c e b) \<and> jl_hist c (jl_append_log c e b) =
    (jl_hist c b)\<lparr>hy_log := (hy_log (jl_hist c b))(le_event_id e \<mapsto> (le_context e, le_state e))\<rparr>"
proof -
  have L: "jl_lines (jl_append_log c e b) = jl_lines b @ [Some (encode_log_entry c e)]"
    by (simp add: jl_lines_def jl_append_log_def)
  have R: "jl_snapshots (jl_append_log c e b) = jl_snapshots b" "jl_commits (jl_append_log c e b) = jl_commits b"
      "jl_head (jl_append_log c e b) = jl_head b"
    by (simp_all add: jl_append_log_def)
  have "\<And>i. lines_log c (jl_lines b) i \<noteq> None \<Longrightarrow> i < le_event_id (e\<lparr>le_crc := compute_crc c e\<rparr>)"
    using assms(2) by (simp add: jl_hist_def)
  note S = lines_log_snoc[OF jl_invD(1)[OF I] load_dump(4) this]
  show ?thesis
    using S I by (simp add: jl_inv_def jl_hist_def L R)
qed

lemma jl_read:
  assumes I: "jl_inv c b"
  shows "sorted_wrt (<) (map le_event_id (jl_read_log c n b)) \<and>
    log_item ` set (jl_read_log c n b) = {(i, cx, d). n < i \<and> hy_log (jl_hist c b) i = Some (cx, d)}"
proof -
  note D = jl_invD(1)[OF I]
  have R: "jl_read_log c n b = filter (\<lambda>e. n < le_event_id e) (map (line_entry c) (jl_lines b))"
    using read_lines_ok[OF D, of n] by (cases "jl_log b") (simp_all add: jl_read_log_def jl_lines_def)
  have "sorted_wrt (<) (map le_event_id (jl_read_log c n b))"
    unfolding R sorted_wrt_map using D
    by (intro sorted_wrt_filter) (simp add: sorted_wrt_map lines_ok_def)
  moreover have "log_item ` set (jl_read_log c n b) =
      {(i, cx, d). n < i \<and> hy_log (jl_hist c b) i = Some (cx, d)}"
    unfolding R by (force simp: jl_hist_def lines_log_mem[OF D] log_item_def)
  ultimately show ?thesis by blast
qed

lemma jl_trunc:
  assumes I: "jl_inv c b"
  shows "fst (jl_truncate c n b) = Inr () \<and> jl_inv c (snd (jl_truncate c n b)) \<and>
    jl_hist c (snd (jl_truncate c n b)) = (jl_hist c b)
       \<lparr>hy_log := (hy_log (jl_hist c b)) |` {..n},
        hy_snaps := keep_upto sn_event_id_high n (hy_snaps (jl_hist c b)),
        hy_commits := keep_upto cm_event_id_high n (hy_commits (jl_hist c b))\<rparr>"
proof -
  note D = jl_invD[OF I]
  obtain sns where sns: "load_dir (load_snapshot c) (jl_snapshots b) = Inr sns"
      "set sns = ran (dir_get (load_snapshot c) (jl_snapshots b))"
    using dir_load[OF D(2)] by blast
  obtain cms where cms: "load_dir (load_commit c) (jl_commits b) = Inr cms"
      "set cms = ran (dir_get (load_commit c) (jl_commits b))"
    using dir_load[OF D(3)] by blast
  note S = dir_drop[OF D(2) sns(2), of sn_event_id_high n]
  note C = dir_drop[OF D(3) cms(2), of cm_event_id_high n]
  have st: "jl_truncate c n b = (Inr (), b\<lparr>jl_log := map_option (kept_lines c n) (jl_log b),
      jl_snapshots := drop_beyond sn_snapshot_id sn_event_id_high n sns (jl_snapshots b),
      jl_commits := drop_beyond cm_commit_id cm_event_id_high n cms (jl_commits b)\<rparr>)"
    by (simp add: jl_truncate_def Let_def sns(1) cms(1))
  have L: "jl_lines (snd (jl_truncate c n b)) =
      filter (\<lambda>l. le_event_id (line_entry c l) \<le> n) (jl_lines b)"
    using kept_lines_ok[OF D(1), of n] by (cases "jl_log b") (simp_all add: st jl_lines_def)
  show ?thesis
    using S C D(4) lines_ok_filter[OF D(1)] lines_log_filter[OF D(1), of n]
    by (simp add: jl_inv_def jl_hist_def L) (simp add: st)
qed

lemma jl_gets:
  assumes I: "jl_inv c b"
  shows "jl_get_snapshot c i b = Inr (hy_snaps (jl_hist c b) i)"
    and "jl_get_commit c i b = Inr (hy_commits (jl_hist c b) i)"
    and "jl_get_head c b = Inr (hy_head (jl_hist c b))"
proof -
  note D = jl_invD[OF I]
  have "dget (jl_snapshots b) (json_name i) = Some v \<Longrightarrow> \<exists>m. load_snapshot c v = Some m" for v
    using D(2) unfolding dir_ok_def by blast
  then show "jl_get_snapshot c i b = Inr (hy_snaps (jl_hist c b) i)"
    by (cases "dget (jl_snapshots b) (json_name i)")
      (auto simp: jl_get_snapshot_def jl_hist_def dir_get_def validate_def)
  have "dget (jl_commits b) (json_name i) = Some v \<Longrightarrow> \<exists>m. load_commit c v = Some m" for v
    using D(3) unfolding dir_ok_def by blast
  then show "jl_get_commit c i b = Inr (hy_commits (jl_hist c b) i)"
    by (cases "dget (jl_commits b) (json_name i)")
      (auto simp: jl_get_commit_def jl_hist_def dir_get_def validate_def)
  show "jl_get_head c b = Inr (hy_head (jl_hist c b))"
    using D(4) by (cases "jl_head b") (auto simp: jl_get_head_def jl_hist_def validate_def)
qed

lemma jl_puts:
  assumes I: "jl_inv c b"
  shows "jl_inv c (jl_put_snapshot c sn b) \<and> jl_hist c (jl_put_snapshot c sn b) =
      (jl_hist c b)\<lparr>hy_snaps := (hy_snaps (jl_hist c b))(sn_snapshot_id sn \<mapsto> sn)\<rparr>"
    and "jl_inv c (jl_put_commit c m b) \<and> jl_hist c (jl_put_commit c m b) =
      (jl_hist c b)\<lparr>hy_commits := (hy_commits (jl_hist c b))(cm_commit_id m \<mapsto> m)\<rparr>"
    and "jl_inv c (jl_put_head c h b) \<and> jl_hist c (jl_put_head c h b) = (jl_hist c b)\<lparr>hy_head := Some h\<rparr>"
  using jl_invD[OF I] dir_put[OF jl_invD(2)[OF I] load_dump(1)] dir_put[OF jl_invD(3)[OF I] load_dump(2)]
  by (simp_all add: jl_inv_def jl_hist_def jl_lines_def jl_put_snapshot_def jl_put_commit_def
      jl_put_head_def load_dump)

lemma jl_newest:
  assumes I: "jl_inv c b"
  shows "\<exists>r. jl_latest_snapshot c at_event b = Inr r \<and>
    is_newest (ran (hy_snaps (jl_hist c b))) at_event r"
proof -
  obtain ms where "load_dir (load_snapshot c) (jl_snapshots b) = Inr ms"
      "set ms = ran (dir_get (load_snapshot c) (jl_snapshots b))"
    using dir_load[OF jl_invD(2)[OF I]] by blast
  then show ?thesis
    using newest_snapshot_is_newest[of ms at_event] by (auto simp: jl_latest_snapshot_def jl_hist_def)
qed

end

sublocale jsonl_versioning \<subseteq> jlb: versioning_backend
  "jl_backend c" "jl_inv c" "jl_hist c" "\<lambda>_. True"
proof
  fix b
  assume I: "jl_inv c b"
  show "\<exists>cms. b_list_commits (jl_backend c) b = Inr cms \<and> set cms = ran (hy_commits (jl_hist c b))"
    using dir_load[OF jl_invD(3)[OF I]]
    by (auto simp: jl_backend_def jl_list_commits_def jl_hist_def)
next
  fix b and e :: log_entry
  assume "jl_inv c b" and "\<And>i. hy_log (jl_hist c b) i \<noteq> None \<Longrightarrow> i < le_event_id e"
  then show "jl_inv c (b_append_log (jl_backend c) e b) \<and>
      jl_hist c (b_append_log (jl_backend c) e b) =
        (jl_hist c b)\<lparr>hy_log := (hy_log (jl_hist c b))(le_event_id e \<mapsto> (le_context e, le_state e))\<rparr>"
    using jl_append[of b e] by (simp add: jl_backend_def)
qed (simp_all add: jl_backend_def jl_append jl_read jl_puts jl_gets jl_newest jl_trunc)

context jsonl_versioning
begin

lemmas backend = jlb.versioning_backend_axioms

end

lemma jl_is_backend:
  assumes "codec_ok c"
  shows "versioning_backend (jl_backend c) (jl_inv c) (jl_hist c) (\<lambda>_. True)"
  by (rule jsonl_versioning.backend[OF jsonl_versioning.intro[OF assms]])

section \<open>The instances\<close>

text \<open>
  A codec that satisfies \<open>codec_ok\<close>: the text of a record is the record, tagged by its kind, and
  the checksum a number derived from the payload.
\<close>

datatype record_text = LogText log_entry | SnapshotText snapshot | CommitText commit | HeadText head

definition record_codec :: "record_text codec" where
  "record_codec =
     \<lparr>dump_log = LogText, load_log = (\<lambda>t. case t of LogText e \<Rightarrow> Some e | _ \<Rightarrow> None),
      payload_crc = (\<lambda>(i, c, d, t). int i),
      dump_snapshot = SnapshotText, load_snapshot = (\<lambda>t. case t of SnapshotText s \<Rightarrow> Some s | _ \<Rightarrow> None),
      dump_commit = CommitText, load_commit = (\<lambda>t. case t of CommitText m \<Rightarrow> Some m | _ \<Rightarrow> None),
      dump_head = HeadText, load_head = (\<lambda>t. case t of HeadText h \<Rightarrow> Some h | _ \<Rightarrow> None)\<rparr>"

lemma record_codec_ok: "codec_ok record_codec"
  by (simp add: codec_ok_def record_codec_def)

interpretation mem_vcs: kv_versioning mem_kv_ops mem_inv record_codec sid for sid
  by unfold_locales (rule record_codec_ok)

interpretation jsonl_vcs: jsonl_versioning record_codec
  by unfold_locales (rule record_codec_ok)

end
