(* ===== verification/VCS_Manager.thy ===== *)
theory VCS_Manager
  imports VCS_Backend
begin

text \<open>
  \<open>VersioningManager\<close> of \<open>core/session/vcs/manager.py\<close>: per-session linear version control over
  a backend. The callbacks and factories of its constructor are the fields of \<open>vcs_env\<close>; the
  values of \<open>time.time\<close> and of the id factory are indexed by the number of calls so far. The live
  session is a state component of its own, read by the snapshot provider and overwritten by the
  applier.
\<close>

section \<open>State\<close>

record content =
  cn_context :: ctx_map
  cn_state :: pdict

definition empty_content :: content where
  "empty_content = \<lparr>cn_context = [], cn_state = []\<rparr>"

record ('l, 'f) vcs_env =
  ve_session_id :: string
  ve_provider :: "'l \<Rightarrow> content"
  ve_applier :: "content \<Rightarrow> 'l \<Rightarrow> 'l"
  ve_forker :: "(string \<Rightarrow> content \<Rightarrow> string \<times> string \<Rightarrow> 'f) option"
  ve_snapshot_every :: int
  ve_clock :: "nat \<Rightarrow> rat"
  ve_id :: "nat \<Rightarrow> string"

record ('l, 'b) vcs_state =
  vm_backend :: 'b
  vm_live :: 'l
  vm_head :: head
  vm_last :: content
  vm_appends :: nat
  vm_loaded :: bool
  vm_id_calls :: nat
  vm_clock_calls :: nat

definition vcs_init :: "'b \<Rightarrow> 'l \<Rightarrow> ('l, 'b) vcs_state" where
  "vcs_init b l =
     \<lparr>vm_backend = b, vm_live = l, vm_head = head0, vm_last = empty_content, vm_appends = 0,
      vm_loaded = False, vm_id_calls = 0, vm_clock_calls = 0\<rparr>"

text \<open>An action returns a value or raises; either way it leaves a state.\<close>

type_synonym ('l, 'b, 'a) vcs_act = "('l, 'b) vcs_state \<Rightarrow> 'a res \<times> ('l, 'b) vcs_state"

definition andthen ::
  "('l, 'b, 'a) vcs_act \<Rightarrow> ('a \<Rightarrow> ('l, 'b, 'c) vcs_act) \<Rightarrow> ('l, 'b, 'c) vcs_act" where
  "andthen m f st = (case m st of (Inl e, st') \<Rightarrow> (Inl e, st') | (Inr x, st') \<Rightarrow> f x st')"

section \<open>Restoring\<close>

definition snapshot_content :: "snapshot \<Rightarrow> content" where
  "snapshot_content s = \<lparr>cn_context = sn_context s, cn_state = sn_state s\<rparr>"

definition replay_step :: "message_delta list \<times> state_delta \<Rightarrow> content \<Rightarrow> content" where
  "replay_step d r =
     \<lparr>cn_context = apply_context (cn_context r) (fst d), cn_state = apply_state (cn_state r) (snd d)\<rparr>"

definition restore_at_event :: "'b backend \<Rightarrow> nat \<Rightarrow> 'b \<Rightarrow> content res" where
  "restore_at_event B target b =
     (case b_latest_snapshot B (Some target) b of
        Inl e \<Rightarrow> Inl e
      | Inr snap \<Rightarrow>
          (let (base, since) = (case snap of
                 Some s \<Rightarrow> (snapshot_content s, sn_event_id_high s)
               | None \<Rightarrow> (empty_content, 0))
           in Inr (fold (\<lambda>e. replay_step (le_context e, le_state e))
                     (takeWhile (\<lambda>e. le_event_id e \<le> target) (b_read_log B since b)) base)))"

definition ensure_loaded :: "'b backend \<Rightarrow> ('l, 'b, unit) vcs_act" where
  "ensure_loaded B st =
     (if vm_loaded st then (Inr (), st)
      else case b_get_head B (vm_backend st) of
             Inl e \<Rightarrow> (Inl e, st)
           | Inr None \<Rightarrow> (Inr (), st\<lparr>vm_loaded := True\<rparr>)
           | Inr (Some h) \<Rightarrow>
               (case restore_at_event B (hd_event_id h) (vm_backend st) of
                  Inl e \<Rightarrow> (Inl e, st\<lparr>vm_head := h\<rparr>)
                | Inr r \<Rightarrow> (Inr (), st\<lparr>vm_head := h, vm_last := r, vm_loaded := True\<rparr>)))"

section \<open>Recording\<close>

definition event_ref :: "nat \<Rightarrow> string" where
  "event_ref i = ''e'' @ nat_str i"

definition take_snapshot :: "('l, 'f) vcs_env \<Rightarrow> 'b backend \<Rightarrow> ('l, 'b, string) vcs_act" where
  "take_snapshot E B = andthen (ensure_loaded B) (\<lambda>_ st.
     let snap = \<lparr>sn_snapshot_id = ve_id E (vm_id_calls st),
                 sn_event_id_high = hd_event_id (vm_head st),
                 sn_context = cn_context (vm_last st), sn_state = cn_state (vm_last st),
                 sn_ts = ve_clock E (vm_clock_calls st)\<rparr>
     in (Inr (sn_snapshot_id snap),
         st\<lparr>vm_backend := b_put_snapshot B snap (vm_backend st), vm_appends := 0,
            vm_id_calls := vm_id_calls st + 1, vm_clock_calls := vm_clock_calls st + 1\<rparr>))"

definition append_entry :: "('l, 'f) vcs_env \<Rightarrow> ('l, 'b) vcs_state \<Rightarrow> content \<Rightarrow> log_entry" where
  "append_entry E st current =
     \<lparr>le_event_id = hd_event_id (vm_head st) + 1,
      le_context = diff_context (cn_context (vm_last st)) (cn_context current),
      le_state = diff_state (cn_state (vm_last st)) (cn_state current),
      le_ts = ve_clock E (vm_clock_calls st), le_crc = 0\<rparr>"

definition append_loaded :: "('l, 'f) vcs_env \<Rightarrow> 'b backend \<Rightarrow> ('l, 'b, string) vcs_act" where
  "append_loaded E B st =
     (let current = ve_provider E (vm_live st);
          entry = append_entry E st current
      in if le_context entry = [] \<and> sd_set (le_state entry) = [] \<and> sd_removed (le_state entry) = []
         then (Inr (event_ref (hd_event_id (vm_head st))), st)
         else (let h = (vm_head st)\<lparr>hd_event_id := le_event_id entry\<rparr>;
                   st1 = st\<lparr>vm_backend := b_put_head B h (b_append_log B entry (vm_backend st)),
                            vm_head := h, vm_last := current, vm_appends := vm_appends st + 1,
                            vm_clock_calls := vm_clock_calls st + 1\<rparr>
               in if 0 < ve_snapshot_every E \<and> ve_snapshot_every E \<le> int (vm_appends st1)
                  then andthen (take_snapshot E B)
                         (\<lambda>_ st2. (Inr (event_ref (le_event_id entry)), st2)) st1
                  else (Inr (event_ref (le_event_id entry)), st1)))"

definition vcs_append :: "('l, 'f) vcs_env \<Rightarrow> 'b backend \<Rightarrow> ('l, 'b, string) vcs_act" where
  "vcs_append E B = andthen (ensure_loaded B) (\<lambda>_. append_loaded E B)"

definition vcs_commit :: "('l, 'f) vcs_env \<Rightarrow> 'b backend \<Rightarrow> string \<Rightarrow> ('l, 'b, string) vcs_act" where
  "vcs_commit E B msg = andthen (ensure_loaded B) (\<lambda>_. andthen (vcs_append E B) (\<lambda>_ st.
     let commit_id = ve_id E (vm_id_calls st);
         m = \<lparr>cm_commit_id = commit_id, cm_parent_id = hd_commit_id (vm_head st),
              cm_event_id_high = hd_event_id (vm_head st), cm_snapshot_id = None,
              cm_message = msg, cm_ts = ve_clock E (vm_clock_calls st)\<rparr>;
         h = (vm_head st)\<lparr>hd_commit_id := Some commit_id\<rparr>
     in (Inr commit_id,
         st\<lparr>vm_backend := b_put_head B h (b_put_commit B m (vm_backend st)), vm_head := h,
            vm_id_calls := vm_id_calls st + 1, vm_clock_calls := vm_clock_calls st + 1\<rparr>)))"

section \<open>Going back\<close>

definition unknown_ref :: py_error where
  "unknown_ref = BaseError ''CONTEXT_EXECUTION_ERROR''"

definition resolve_event_id :: "'b backend \<Rightarrow> string \<Rightarrow> 'b \<Rightarrow> nat res" where
  "resolve_event_id B r b =
     (let suffix = drop (length ''e'') r
      in if startswith r ''e'' \<and> isdigit suffix then int_of_str suffix
         else case b_get_commit B r b of
                Inl e \<Rightarrow> Inl e
              | Inr (Some m) \<Rightarrow> Inr (cm_event_id_high m)
              | Inr None \<Rightarrow> Inl unknown_ref)"

definition restore_ref :: "'b backend \<Rightarrow> string \<Rightarrow> 'b \<Rightarrow> (nat \<times> content) res" where
  "restore_ref B r b =
     (case resolve_event_id B r b of
        Inl e \<Rightarrow> Inl e
      | Inr target \<Rightarrow>
          (case restore_at_event B target b of Inl e \<Rightarrow> Inl e | Inr c \<Rightarrow> Inr (target, c)))"

definition vcs_restore :: "'b backend \<Rightarrow> string \<Rightarrow> ('l, 'b, content) vcs_act" where
  "vcs_restore B r = andthen (ensure_loaded B) (\<lambda>_ st.
     (case restore_ref B r (vm_backend st) of
        Inl e \<Rightarrow> (Inl e, st) | Inr (_, c) \<Rightarrow> (Inr c, st)))"

definition latest_commit_id :: "'b backend \<Rightarrow> nat \<Rightarrow> 'b \<Rightarrow> string option res" where
  "latest_commit_id B target b =
     (case b_list_commits B b of
        Inl e \<Rightarrow> Inl e
      | Inr cms \<Rightarrow>
          Inr (case filter (\<lambda>m. cm_event_id_high m \<le> target) cms of
                 [] \<Rightarrow> None
               | m # ms \<Rightarrow> Some (cm_commit_id (max_by cm_event_id_high m ms))))"

definition vcs_rewind :: "('l, 'f) vcs_env \<Rightarrow> 'b backend \<Rightarrow> string \<Rightarrow> ('l, 'b, content) vcs_act" where
  "vcs_rewind E B r = andthen (ensure_loaded B) (\<lambda>_ st.
     (case restore_ref B r (vm_backend st) of
        Inl e \<Rightarrow> (Inl e, st)
      | Inr (target, restored) \<Rightarrow>
          (case b_truncate B target (vm_backend st) of
             (Inl e, b) \<Rightarrow> (Inl e, st\<lparr>vm_backend := b\<rparr>)
           | (Inr _, b) \<Rightarrow>
               (case latest_commit_id B target b of
                  Inl e \<Rightarrow> (Inl e, st\<lparr>vm_backend := b\<rparr>)
                | Inr cid \<Rightarrow>
                    (let h = \<lparr>hd_event_id = target, hd_commit_id = cid,
                              hd_forked_from = hd_forked_from (vm_head st)\<rparr>
                     in (Inr restored,
                         st\<lparr>vm_backend := b_put_head B h b, vm_head := h,
                            vm_live := ve_applier E restored (vm_live st),
                            vm_last := restored, vm_appends := 0\<rparr>))))))"

definition vcs_fork :: "('l, 'f) vcs_env \<Rightarrow> 'b backend \<Rightarrow> string option \<Rightarrow> ('l, 'b, 'f) vcs_act" where
  "vcs_fork E B r = andthen (ensure_loaded B) (\<lambda>_ st.
     (case ve_forker E of
        None \<Rightarrow> (Inl (BaseError ''CONTEXT_EXECUTION_ERROR''), st)
      | Some forker \<Rightarrow>
          (case (case r of
                   None \<Rightarrow> Inr (hd_event_id (vm_head st))
                 | Some rf \<Rightarrow> resolve_event_id B rf (vm_backend st)) of
             Inl e \<Rightarrow> (Inl e, st)
           | Inr target \<Rightarrow>
               (case restore_at_event B target (vm_backend st) of
                  Inl e \<Rightarrow> (Inl e, st)
                | Inr seed \<Rightarrow>
                    (let at_ref = (case r of None \<Rightarrow> event_ref target | Some rf \<Rightarrow> rf)
                     in (Inr (forker (ve_id E (vm_id_calls st)) seed (ve_session_id E, at_ref)),
                         st\<lparr>vm_id_calls := vm_id_calls st + 1\<rparr>))))))"

text \<open>The walk along \<open>parent_id\<close>: the limit is tested after a commit was added.\<close>

partial_function (option) history_walk ::
  "(string, commit) pydict \<Rightarrow> int option \<Rightarrow> string option \<Rightarrow> commit list \<Rightarrow> commit list option" where
  "history_walk by_id limit current ordered =
     (case current of
        None \<Rightarrow> Some ordered
      | Some i \<Rightarrow>
          (case dget by_id i of
             None \<Rightarrow> Some ordered
           | Some m \<Rightarrow>
               (if (case limit of None \<Rightarrow> False | Some l \<Rightarrow> l \<le> int (length ordered) + 1)
                then Some (ordered @ [m])
                else history_walk by_id limit (cm_parent_id m) (ordered @ [m]))))"

definition vcs_list_history ::
  "'b backend \<Rightarrow> int option \<Rightarrow> ('l, 'b, commit list option) vcs_act" where
  "vcs_list_history B limit = andthen (ensure_loaded B) (\<lambda>_ st.
     (case b_list_commits B (vm_backend st) of
        Inl e \<Rightarrow> (Inl e, st)
      | Inr cms \<Rightarrow>
          (let by_id = fold (\<lambda>m d. dset (cm_commit_id m) m d) cms []
           in (Inr (history_walk by_id limit (hd_commit_id (vm_head st)) []), st))))"

section \<open>Runs\<close>

text \<open>
  What happens to a session: its live state changes, the manager's operations are called, and the
  process is restarted with a new manager over the same backend.
\<close>

datatype 'l vcs_op = Edit 'l | OpAppend | OpCommit string | OpSnapshot | OpRewind string | Restart

definition vcs_restart :: "('l, 'b) vcs_state \<Rightarrow> ('l, 'b) vcs_state" where
  "vcs_restart st = st\<lparr>vm_head := head0, vm_last := empty_content, vm_appends := 0, vm_loaded := False\<rparr>"

fun vcs_step :: "('l, 'f) vcs_env \<Rightarrow> 'b backend \<Rightarrow> 'l vcs_op \<Rightarrow> ('l, 'b) vcs_state \<Rightarrow> ('l, 'b) vcs_state" where
  "vcs_step E B (Edit l) st = st\<lparr>vm_live := l\<rparr>"
| "vcs_step E B OpAppend st = snd (vcs_append E B st)"
| "vcs_step E B (OpCommit msg) st = snd (vcs_commit E B msg st)"
| "vcs_step E B OpSnapshot st = snd (take_snapshot E B st)"
| "vcs_step E B (OpRewind r) st = snd (vcs_rewind E B r st)"
| "vcs_step E B Restart st = vcs_restart st"

text \<open>
  The recorded history beside the run: the live snapshot at the last append or commit that
  ended at each event, constant beyond the head after a rewind past it.
\<close>

definition head_event :: "'b backend \<Rightarrow> ('l, 'b) vcs_state \<Rightarrow> nat" where
  "head_event B st =
     (if vm_loaded st then hd_event_id (vm_head st)
      else case b_get_head B (vm_backend st) of Inr (Some h) \<Rightarrow> hd_event_id h | _ \<Rightarrow> 0)"

fun record_step ::
  "('l, 'f) vcs_env \<Rightarrow> 'b backend \<Rightarrow> 'l vcs_op \<Rightarrow> ('l, 'b) vcs_state \<Rightarrow> (nat \<Rightarrow> content) \<Rightarrow> nat \<Rightarrow> content" where
  "record_step E B OpAppend st H = H(head_event B (vcs_step E B OpAppend st) := ve_provider E (vm_live st))"
| "record_step E B (OpCommit msg) st H =
     H(head_event B (vcs_step E B (OpCommit msg) st) := ve_provider E (vm_live st))"
| "record_step E B (OpRewind r) st H = (\<lambda>k. H (min k (head_event B st)))"
| "record_step E B op st H = H"

fun vcs_run ::
  "('l, 'f) vcs_env \<Rightarrow> 'b backend \<Rightarrow> 'l vcs_op list \<Rightarrow> ('l, 'b) vcs_state \<times> (nat \<Rightarrow> content) \<Rightarrow>
   ('l, 'b) vcs_state \<times> (nat \<Rightarrow> content)" where
  "vcs_run E B [] sH = sH"
| "vcs_run E B (op # ops) (st, H) = vcs_run E B ops (vcs_step E B op st, record_step E B op st H)"

section \<open>Contents\<close>

definition content_ok :: "content \<Rightarrow> bool" where
  "content_ok c \<longleftrightarrow> ctx_ok (cn_context c) \<and> wf_pv (PDict (cn_state c)) \<and> path_ok (PDict (cn_state c))"

text \<open>\<open>reflects R S\<close>: \<open>R\<close> has every context of \<open>S\<close> with equal messages, and an equal state.\<close>

definition reflects :: "content \<Rightarrow> content \<Rightarrow> bool" where
  "reflects R S \<longleftrightarrow> covers (cn_context R) (cn_context S) \<and> py_eq (PDict (cn_state R)) (PDict (cn_state S))"

definition content_delta :: "content \<Rightarrow> content \<Rightarrow> message_delta list \<times> state_delta" where
  "content_delta a b = (diff_context (cn_context a) (cn_context b), diff_state (cn_state a) (cn_state b))"

lemma reflects_refl: "content_ok c \<Longrightarrow> reflects c c"
  unfolding reflects_def content_ok_def by (blast intro: covers_refl py_eq_refl)

lemma reflects_trans: "reflects a b \<Longrightarrow> reflects b c \<Longrightarrow> content_ok a \<Longrightarrow> content_ok b \<Longrightarrow> content_ok c \<Longrightarrow> reflects a c"
  unfolding reflects_def content_ok_def by (blast intro: covers_trans py_eq_trans)

lemma replay_delta:
  assumes "reflects r a" and "content_ok r" and "content_ok a" and "content_ok b"
  shows "reflects (replay_step (content_delta a b) r) b" and "content_ok (replay_step (content_delta a b) r)"
proof -
  note C = assms(2-4)[unfolded content_ok_def]
  have sh: "covers (cn_context r) (cn_context a)" "py_eq (PDict (cn_state r)) (PDict (cn_state a))"
    using assms(1) by (auto simp: reflects_def)
  have c: "covers (apply_context (cn_context r) (diff_context (cn_context a) (cn_context b))) (cn_context b)"
      "ctx_ok (apply_context (cn_context r) (diff_context (cn_context a) (cn_context b)))"
    using apply_diff_context[OF sh(1)] C by blast+
  have s: "py_eq (PDict (apply_state (cn_state r) (diff_state (cn_state a) (cn_state b)))) (PDict (cn_state b))"
      "wf_pv (PDict (apply_state (cn_state r) (diff_state (cn_state a) (cn_state b))))"
    using apply_diff_state[OF sh(2)] C by blast+
  show "reflects (replay_step (content_delta a b) r) b"
    unfolding reflects_def replay_step_def content_delta_def using c s by simp
  have "path_ok (PDict (apply_state (cn_state r) (diff_state (cn_state a) (cn_state b))))"
    using path_ok_py_eq[OF s(1)] s(2) C by blast
  then show "content_ok (replay_step (content_delta a b) r)"
    unfolding content_ok_def replay_step_def content_delta_def using c(2) s(2)
    by (simp del: path_ok.simps)
qed

lemma replay_nothing: "replay_step ([], \<lparr>sd_set = [], sd_removed = []\<rparr>) r = r"
  by (simp add: replay_step_def apply_context_def apply_state_def)

lemma content_ok_empty: "content_ok empty_content"
  by (simp add: content_ok_def empty_content_def ctx_ok_def)

section \<open>Restoring from a history\<close>

definition log_slice ::
  "history \<Rightarrow> nat \<Rightarrow> nat \<Rightarrow> (nat \<times> message_delta list \<times> state_delta) list \<Rightarrow> bool" where
  "log_slice h since k xs \<longleftrightarrow> sorted_wrt (<) (map fst xs) \<and>
     set xs = {(i, c, d). since < i \<and> i \<le> k \<and> hy_log h i = Some (c, d)}"

definition replay_base :: "snapshot option \<Rightarrow> content \<times> nat" where
  "replay_base snap = (case snap of
     Some s \<Rightarrow> (snapshot_content s, sn_event_id_high s) | None \<Rightarrow> (empty_content, 0))"

definition restores :: "history \<Rightarrow> nat \<Rightarrow> content \<Rightarrow> bool" where
  "restores h k r \<longleftrightarrow>
     (\<exists>snap xs. is_newest (ran (hy_snaps h)) (Some k) snap \<and>
        log_slice h (snd (replay_base snap)) k xs \<and>
        r = fold (\<lambda>x. replay_step (snd x)) xs (fst (replay_base snap)))"

lemma sorted_fst_unique:
  fixes xs ys :: "(nat \<times> 'a) list"
  assumes "sorted_wrt (<) (map fst xs)" and "sorted_wrt (<) (map fst ys)" and "set xs = set ys"
  shows "xs = ys"
proof -
  have "map fst xs = map fst ys"
    using assms sorted_distinct_set_unique[of "map fst xs" "map fst ys"]
    by (simp add: strict_sorted_iff)
  moreover have "inj_on fst (set xs \<union> set ys)"
    using assms(1,3) by (simp add: strict_sorted_iff distinct_map)
  ultimately show ?thesis by (rule map_inj_on)
qed

lemma log_slice_unique: "log_slice h a k xs \<Longrightarrow> log_slice h a k ys \<Longrightarrow> xs = ys"
  unfolding log_slice_def by (elim conjE) (rule sorted_fst_unique, simp_all)

lemma log_slice_empty: "log_slice h a k xs \<Longrightarrow> k \<le> a \<Longrightarrow> xs = []"
proof -
  assume "log_slice h a k xs" "k \<le> a"
  then have "set xs = {}" by (auto simp: log_slice_def)
  then show "xs = []" by simp
qed

text \<open>Any two snapshots at one event agree; then what is restored is determined.\<close>

definition snaps_agree :: "history \<Rightarrow> bool" where
  "snaps_agree h \<longleftrightarrow> (\<forall>s \<in> ran (hy_snaps h). \<forall>t \<in> ran (hy_snaps h).
     sn_event_id_high s = sn_event_id_high t \<longrightarrow> snapshot_content s = snapshot_content t)"

lemma snaps_agreeD:
  "snaps_agree h \<Longrightarrow> s \<in> ran (hy_snaps h) \<Longrightarrow> t \<in> ran (hy_snaps h) \<Longrightarrow>
   sn_event_id_high s = sn_event_id_high t \<Longrightarrow> snapshot_content s = snapshot_content t"
  unfolding snaps_agree_def by blast

lemma is_newest_simps:
  "is_newest S (Some k) (Some s) \<longleftrightarrow>
     s \<in> S \<and> sn_event_id_high s \<le> k \<and>
     (\<forall>t \<in> S. sn_event_id_high t \<le> k \<longrightarrow> sn_event_id_high t \<le> sn_event_id_high s)"
  "is_newest S (Some k) None \<longleftrightarrow> (\<forall>t \<in> S. \<not> sn_event_id_high t \<le> k)"
  by (auto simp: is_newest_def Let_def)

lemma newest_base_unique:
  assumes "snaps_agree h" and "is_newest (ran (hy_snaps h)) (Some k) s" and "is_newest (ran (hy_snaps h)) (Some k) t"
  shows "replay_base s = replay_base t"
proof (cases "s = None \<or> t = None")
  case True
  then have "s = None \<and> t = None"
    using assms(2,3) by (metis is_newest_simps not_None_eq)
  then show ?thesis by simp
next
  case False
  then obtain s' t' where st: "s = Some s'" "t = Some t'" by auto
  note N = assms(2,3)[unfolded st is_newest_simps]
  then have "sn_event_id_high s' = sn_event_id_high t'" by (simp add: le_antisym)
  with snaps_agreeD[OF assms(1), of s' t'] N show ?thesis unfolding st by (simp add: replay_base_def)
qed

lemma restores_unique:
  assumes "snaps_agree h" and "restores h k r" and "restores h k r'"
  shows "r = r'"
proof -
  obtain s xs where s: "is_newest (ran (hy_snaps h)) (Some k) s" "log_slice h (snd (replay_base s)) k xs"
      "r = fold (\<lambda>x. replay_step (snd x)) xs (fst (replay_base s))"
    using assms(2) unfolding restores_def by blast
  obtain t ys where t: "is_newest (ran (hy_snaps h)) (Some k) t" "log_slice h (snd (replay_base t)) k ys"
      "r' = fold (\<lambda>x. replay_step (snd x)) ys (fst (replay_base t))"
    using assms(3) unfolding restores_def by blast
  have e: "replay_base s = replay_base t" by (rule newest_base_unique[OF assms(1) s(1) t(1)])
  with log_slice_unique[OF s(2)] t(2) have "xs = ys" by simp
  with s(3) t(3) e show ?thesis by simp
qed

text \<open>What is restored at \<open>k\<close> depends only on the log and the snapshots up to \<open>k\<close>.\<close>

lemma restores_cong:
  assumes "\<And>i. i \<le> k \<Longrightarrow> hy_log h' i = hy_log h i"
    and "{s \<in> ran (hy_snaps h'). sn_event_id_high s \<le> k} = {s \<in> ran (hy_snaps h). sn_event_id_high s \<le> k}"
  shows "restores h' k r \<longleftrightarrow> restores h k r"
proof -
  have "log_slice h' a k xs \<longleftrightarrow> log_slice h a k xs" for a xs
    using assms(1) unfolding log_slice_def by (auto simp: set_eq_iff)
  moreover have "is_newest (ran (hy_snaps h')) (Some k) s \<longleftrightarrow> is_newest (ran (hy_snaps h)) (Some k) s" for s
    using assms(2) unfolding is_newest_def by simp
  ultimately show ?thesis unfolding restores_def by simp
qed

lemma restores_beyond:
  assumes "n \<le> k" and "\<And>i. hy_log h i \<noteq> None \<Longrightarrow> i \<le> n"
    and "\<And>s. s \<in> ran (hy_snaps h) \<Longrightarrow> sn_event_id_high s \<le> n"
  shows "restores h k r \<longleftrightarrow> restores h n r"
proof -
  have "log_slice h a k xs \<longleftrightarrow> log_slice h a n xs" for a xs
  proof -
    have "i \<le> k \<and> hy_log h i = Some x \<longleftrightarrow> i \<le> n \<and> hy_log h i = Some x" for i x
      using assms(1) assms(2)[of i] by auto
    then show ?thesis unfolding log_slice_def by simp
  qed
  moreover have "{s \<in> ran (hy_snaps h). sn_event_id_high s \<le> k} = {s \<in> ran (hy_snaps h). sn_event_id_high s \<le> n}"
    using assms(1,3) by (auto intro: order_trans)
  then have "is_newest (ran (hy_snaps h)) (Some k) s \<longleftrightarrow> is_newest (ran (hy_snaps h)) (Some n) s" for s
    unfolding is_newest_def by simp
  ultimately show ?thesis unfolding restores_def by simp
qed

lemma restores_snoc:
  assumes r: "restores h' (Suc n) r'"
    and log: "hy_log h' = (hy_log h)(Suc n \<mapsto> x)" and sn: "hy_snaps h' = hy_snaps h"
    and le: "\<And>s. s \<in> ran (hy_snaps h) \<Longrightarrow> sn_event_id_high s \<le> n"
  shows "\<exists>r. restores h n r \<and> r' = replay_step x r"
proof -
  have eq: "{s \<in> ran (hy_snaps h). sn_event_id_high s \<le> Suc n} = {s \<in> ran (hy_snaps h). sn_event_id_high s \<le> n}"
    using le by (auto intro: le_SucI)
  obtain s xs where s: "is_newest (ran (hy_snaps h)) (Some n) s" "log_slice h' (snd (replay_base s)) (Suc n) xs"
      "r' = fold (\<lambda>x. replay_step (snd x)) xs (fst (replay_base s))"
    using r unfolding restores_def sn is_newest_def by (auto simp: eq)
  have since: "snd (replay_base s) \<le> n"
    using s(1) by (cases s) (auto simp: replay_base_def is_newest_def Let_def)
  let ?old = "{(i, c, d). snd (replay_base s) < i \<and> i \<le> n \<and> hy_log h i = Some (c, d)}"
  have set: "set xs = insert (Suc n, x) ?old"
  proof -
    have "{(i, c, d). snd (replay_base s) < i \<and> i \<le> Suc n \<and> hy_log h' i = Some (c, d)}
        = insert (Suc n, x) ?old"
      using since by (cases x) (auto simp: log le_Suc_eq)
    then show ?thesis using s(2) unfolding log_slice_def by simp
  qed
  have sorted: "sorted_wrt (<) (map fst xs)" using s(2) by (simp add: log_slice_def)
  define ys where "ys = filter (\<lambda>y. fst y \<le> n) xs"
  have ys: "sorted_wrt (<) (map fst ys)" "set ys = ?old"
    using sorted by (auto simp: ys_def set sorted_wrt_map intro: sorted_wrt_filter)
  then have "log_slice h (snd (replay_base s)) n ys" by (simp add: log_slice_def)
  note slice = this
  have "xs = ys @ [(Suc n, x)]"
  proof (rule sorted_fst_unique[OF sorted])
    show "sorted_wrt (<) (map fst (ys @ [(Suc n, x)]))"
      using ys by (auto simp: sorted_wrt_append)
    show "set xs = set (ys @ [(Suc n, x)])" using ys(2) set by simp
  qed
  then have "r' = replay_step x (fold (\<lambda>x. replay_step (snd x)) ys (fst (replay_base s)))"
    using s(3) by simp
  then show ?thesis using s(1) slice unfolding restores_def by blast
qed

section \<open>The invariant of a history\<close>

definition hist_inv :: "history \<Rightarrow> nat \<Rightarrow> (nat \<Rightarrow> content) \<Rightarrow> bool" where
  "hist_inv h n H \<longleftrightarrow>
     (\<forall>i. hy_log h i \<noteq> None \<longrightarrow> 0 < i \<and> i \<le> n) \<and>
     (\<forall>s \<in> ran (hy_snaps h). sn_event_id_high s \<le> n) \<and> snaps_agree h \<and>
     (\<forall>k \<le> n. \<forall>r. restores h k r \<longrightarrow> content_ok r \<and> reflects r (H k)) \<and>
     (\<forall>k. content_ok (H k))"

definition last_inv :: "history \<Rightarrow> nat \<Rightarrow> content \<Rightarrow> (nat \<Rightarrow> content) \<Rightarrow> bool" where
  "last_inv h n lst H \<longleftrightarrow> content_ok lst \<and> (\<forall>r. restores h n r \<longrightarrow> reflects r lst) \<and>
     reflects lst (H n) \<and> (\<forall>s \<in> ran (hy_snaps h). sn_event_id_high s = n \<longrightarrow> snapshot_content s = lst)"

lemma hist_invD:
  assumes "hist_inv h n H"
  shows "hy_log h i \<noteq> None \<Longrightarrow> 0 < i \<and> i \<le> n" and "s \<in> ran (hy_snaps h) \<Longrightarrow> sn_event_id_high s \<le> n"
    and "snaps_agree h" and "k \<le> n \<Longrightarrow> restores h k r \<Longrightarrow> content_ok r"
    and "k \<le> n \<Longrightarrow> restores h k r \<Longrightarrow> reflects r (H k)" and "content_ok (H k)"
  using assms unfolding hist_inv_def by blast+

lemma last_invD:
  assumes "last_inv h n lst H"
  shows "content_ok lst" and "restores h n r \<Longrightarrow> reflects r lst" and "reflects lst (H n)"
    and "s \<in> ran (hy_snaps h) \<Longrightarrow> sn_event_id_high s = n \<Longrightarrow> snapshot_content s = lst"
  using assms unfolding last_inv_def by blast+

lemma hist_inv_append:
  assumes I: "hist_inv h n H" and L: "last_inv h n lst H" and cur: "content_ok cur"
    and log: "hy_log h' = (hy_log h)(Suc n \<mapsto> content_delta lst cur)" and sn: "hy_snaps h' = hy_snaps h"
  shows "hist_inv h' (Suc n) (H(Suc n := cur))" and "last_inv h' (Suc n) cur (H(Suc n := cur))"
proof -
  note D = hist_invD[OF I]
  have new: "content_ok r \<and> reflects r cur" if r: "restores h' (Suc n) r" for r
  proof -
    obtain r0 where r0: "restores h n r0" "r = replay_step (content_delta lst cur) r0"
      using restores_snoc[OF r log sn D(2)] by blast
    then show ?thesis
      using replay_delta[OF last_invD(2)[OF L r0(1)] D(4)[OF le_refl r0(1)] last_invD(1)[OF L] cur]
      by simp
  qed
  have old: "restores h' k r \<longleftrightarrow> restores h k r" if "k \<le> n" for k r
    by (rule restores_cong) (use that in \<open>auto simp: log sn\<close>)
  have le: "sn_event_id_high s \<le> n" if "s \<in> ran (hy_snaps h)" for s by (rule D(2)[OF that])
  show "hist_inv h' (Suc n) (H(Suc n := cur))"
    unfolding hist_inv_def
  proof (intro conjI allI impI ballI)
    fix i
    assume i: "hy_log h' i \<noteq> None"
    show "0 < i" using i D(1)[of i] by (cases "i = Suc n") (auto simp: log)
    show "i \<le> Suc n" using i D(1)[of i] by (cases "i = Suc n") (auto simp: log)
  next
    show "sn_event_id_high s \<le> Suc n" if "s \<in> ran (hy_snaps h')" for s
      using le that by (simp add: sn le_SucI)
    show "snaps_agree h'" using D(3) unfolding snaps_agree_def sn .
  next
    fix k r
    assume k: "k \<le> Suc n" and r: "restores h' k r"
    have "content_ok r \<and> reflects r ((H(Suc n := cur)) k)"
    proof (cases "k = Suc n")
      case True
      then show ?thesis using new r by simp
    next
      case False
      then have kn: "k \<le> n" using k by simp
      then show ?thesis using old[OF kn] r D(4,5)[OF kn] False by simp
    qed
    then show "content_ok r" and "reflects r ((H(Suc n := cur)) k)" by simp_all
  next
    show "content_ok ((H(Suc n := cur)) k)" for k using D(6) cur by simp
  qed
  have "sn_event_id_high s \<noteq> Suc n" if "s \<in> ran (hy_snaps h)" for s using le[OF that] by simp
  then show "last_inv h' (Suc n) cur (H(Suc n := cur))"
    unfolding last_inv_def using new cur by (auto simp: sn intro: reflects_refl)
qed

lemma hist_inv_unchanged:
  assumes I: "hist_inv h n H" and L: "last_inv h n lst H" and cur: "content_ok cur"
    and no: "content_delta lst cur = ([], \<lparr>sd_set = [], sd_removed = []\<rparr>)"
  shows "hist_inv h n (H(n := cur))" and "last_inv h n lst (H(n := cur))"
proof -
  note D = hist_invD[OF I]
  have R: "reflects r cur" if "reflects r lst" "content_ok r" for r
    using replay_delta(1)[OF that last_invD(1)[OF L] cur] by (simp add: no replay_nothing)
  have "reflects r cur" if "restores h n r" for r
    using R[OF last_invD(2)[OF L that] D(4)[OF le_refl that]] .
  then show "hist_inv h n (H(n := cur))"
    using I cur unfolding hist_inv_def by simp
  show "last_inv h n lst (H(n := cur))"
    using L R[OF reflects_refl] unfolding last_inv_def by simp
qed

lemma restores_at_snapshot:
  assumes "s \<in> ran (hy_snaps h)" and "sn_event_id_high s = k"
  shows "restores h k (snapshot_content s)"
proof -
  have "is_newest (ran (hy_snaps h)) (Some k) (Some s)" using assms by (simp add: is_newest_simps)
  moreover have "log_slice h (snd (replay_base (Some s))) k []"
    using assms(2) by (auto simp: log_slice_def replay_base_def)
  ultimately show ?thesis
    unfolding restores_def by (intro exI[of _ "Some s"] exI[of _ "[]"]) (simp add: replay_base_def)
qed

lemma hist_inv_snapshot:
  assumes I: "hist_inv h n H" and L: "last_inv h n lst H"
    and log: "hy_log h' = hy_log h" and sn: "hy_snaps h' = (hy_snaps h)(i \<mapsto> s)" and new: "hy_snaps h i = None"
    and s: "snapshot_content s = lst" "sn_event_id_high s = n"
  shows "hist_inv h' n H" and "last_inv h' n lst H"
proof -
  note D = hist_invD[OF I]
  have ran: "ran (hy_snaps h') = insert s (ran (hy_snaps h))"
    unfolding sn using new by (rule ran_map_upd)
  have agree: "snaps_agree h'"
    unfolding snaps_agree_def ran
  proof (intro ballI impI)
    fix x y
    assume xy: "x \<in> insert s (ran (hy_snaps h))" "y \<in> insert s (ran (hy_snaps h))"
        "sn_event_id_high x = sn_event_id_high y"
    show "snapshot_content x = snapshot_content y"
    proof (cases "sn_event_id_high x = n")
      case True
      have "snapshot_content z = lst" if "z \<in> insert s (ran (hy_snaps h))" "sn_event_id_high z = n" for z
        using that last_invD(4)[OF L, of z] s(1) by (cases "z = s") simp_all
      with True xy show ?thesis by metis
    next
      case False
      then show ?thesis using xy s(2) snaps_agreeD[OF D(3), of x y] by (cases "x = s"; cases "y = s") simp_all
    qed
  qed
  have at_n: "r = lst" if "restores h' n r" for r
    using restores_unique[OF agree that restores_at_snapshot[of s h' n]] s by (simp add: ran)
  have old: "restores h' k r \<longleftrightarrow> restores h k r" if "k < n" for k r
    by (rule restores_cong) (use that s(2) in \<open>auto simp: log ran\<close>)
  show "hist_inv h' n H"
    unfolding hist_inv_def
  proof (intro conjI allI impI ballI)
    show "0 < i" "i \<le> n" if "hy_log h' i \<noteq> None" for i using D(1)[of i] that by (simp_all add: log)
    show "sn_event_id_high t \<le> n" if "t \<in> ran (hy_snaps h')" for t
      using that D(2) s(2) by (auto simp: ran)
    show "snaps_agree h'" by (rule agree)
    fix k r
    assume k: "k \<le> n" and r: "restores h' k r"
    show "content_ok r"
      using k r at_n[of r] old[of k r] D(4)[OF k] last_invD(1)[OF L] by (cases "k = n") auto
    show "reflects r (H k)"
      using k r at_n[of r] old[of k r] D(5)[OF k] last_invD(3)[OF L] by (cases "k = n") auto
  qed (rule D(6))
  show "last_inv h' n lst H"
    using last_invD[OF L] at_n s reflects_refl[OF last_invD(1)[OF L]]
    unfolding last_inv_def by (auto simp: ran)
qed

lemma ran_keep_upto: "ran (keep_upto ev n f) = {m \<in> ran f. ev m \<le> n}"
  by (auto simp: ran_def keep_upto_def split: option.splits if_splits)

lemma hist_inv_truncate:
  assumes I: "hist_inv h n H" and r: "restores h t r"
    and log: "hy_log h' = (hy_log h) |` {..t}" and sn: "hy_snaps h' = keep_upto sn_event_id_high t (hy_snaps h)"
  shows "hist_inv h' t (\<lambda>k. H (min k n))" and "last_inv h' t r (\<lambda>k. H (min k n))"
proof -
  note D = hist_invD[OF I]
  have ran: "ran (hy_snaps h') = {s \<in> ran (hy_snaps h). sn_event_id_high s \<le> t}"
    by (simp add: sn ran_keep_upto)
  have same: "restores h' k x \<longleftrightarrow> restores h (min k n) x" if "k \<le> t" for k x
  proof -
    have "restores h' k x \<longleftrightarrow> restores h k x"
      by (rule restores_cong) (use that in \<open>auto simp: log restrict_map_def ran\<close>)
    also have "\<dots> \<longleftrightarrow> restores h (min k n) x"
    proof (cases "k \<le> n")
      case False
      then have "n \<le> k" by simp
      from restores_beyond[OF this] D(1,2) False show ?thesis by (simp add: min_def)
    qed (simp add: min_def)
    finally show ?thesis .
  qed
  have agree: "snaps_agree h'" using D(3) unfolding snaps_agree_def ran by blast
  have at_t: "x = r" if "restores h' t x" for x
  proof -
    have "restores h t x"
      using that restores_cong[of t h' h x] by (auto simp: log restrict_map_def ran)
    then show ?thesis by (rule restores_unique[OF D(3) _ r])
  qed
  have r': "restores h' t r"
    using r restores_cong[of t h' h r] by (auto simp: log restrict_map_def ran)
  have rm: "restores h (min t n) r" using same[of t r] r' by simp
  have ok: "content_ok r" and ref: "reflects r (H (min t n))"
    using D(4,5)[OF _ rm] by simp_all
  show "hist_inv h' t (\<lambda>k. H (min k n))"
    unfolding hist_inv_def
  proof (intro conjI allI impI ballI)
    show "0 < i" "i \<le> t" if "hy_log h' i \<noteq> None" for i
      using D(1)[of i] that by (auto simp: log restrict_map_def split: if_splits)
    show "sn_event_id_high s \<le> t" if "s \<in> ran (hy_snaps h')" for s using that by (simp add: ran)
    show "snaps_agree h'" by (rule agree)
    fix k x
    assume "k \<le> t" "restores h' k x"
    then have x: "restores h (min k n) x" using same by simp
    show "content_ok x" by (rule D(4)[OF _ x]) simp
    show "reflects x (H (min k n))" by (rule D(5)[OF _ x]) simp
  qed (rule D(6))
  show "last_inv h' t r (\<lambda>k. H (min k n))"
    unfolding last_inv_def
  proof (intro conjI allI impI ballI)
    show "reflects x r" if "restores h' t x" for x using at_t[OF that] reflects_refl[OF ok] by simp
    show "snapshot_content s = r" if "s \<in> ran (hy_snaps h')" "sn_event_id_high s = t" for s
      by (rule at_t[OF restores_at_snapshot[OF that]])
  qed (use ok ref in simp_all)
qed

section \<open>The invariant of the manager\<close>

definition unsaved :: "history \<Rightarrow> head \<Rightarrow> content \<Rightarrow> bool" where
  "unsaved h hp lst \<longleftrightarrow> hy_head h = Some hp \<or> (hy_head h = None \<and> hp = head0 \<and> lst = empty_content)"

definition vcs_inv ::
  "('l, 'f) vcs_env \<Rightarrow> ('b \<Rightarrow> bool) \<Rightarrow> ('b \<Rightarrow> history) \<Rightarrow> ('l, 'b) vcs_state \<Rightarrow> (nat \<Rightarrow> content) \<Rightarrow> bool" where
  "vcs_inv E binv hist st H \<longleftrightarrow>
     binv (vm_backend st) \<and>
     (\<forall>j \<ge> vm_id_calls st. hy_snaps (hist (vm_backend st)) (ve_id E j) = None) \<and>
     (if vm_loaded st
      then hist_inv (hist (vm_backend st)) (hd_event_id (vm_head st)) H \<and>
           last_inv (hist (vm_backend st)) (hd_event_id (vm_head st)) (vm_last st) H \<and>
           unsaved (hist (vm_backend st)) (vm_head st) (vm_last st)
      else vm_head st = head0 \<and> vm_last st = empty_content \<and>
           (case hy_head (hist (vm_backend st)) of
              None \<Rightarrow> hist_inv (hist (vm_backend st)) 0 H \<and> last_inv (hist (vm_backend st)) 0 empty_content H
            | Some hp \<Rightarrow> hist_inv (hist (vm_backend st)) (hd_event_id hp) H))"

lemma vcs_inv_loaded:
  assumes "vcs_inv E binv hist st H" and "vm_loaded st"
  shows "binv (vm_backend st)" and "j \<ge> vm_id_calls st \<Longrightarrow> hy_snaps (hist (vm_backend st)) (ve_id E j) = None"
    and "hist_inv (hist (vm_backend st)) (hd_event_id (vm_head st)) H"
    and "last_inv (hist (vm_backend st)) (hd_event_id (vm_head st)) (vm_last st) H"
    and "unsaved (hist (vm_backend st)) (vm_head st) (vm_last st)"
  using assms by (auto simp: vcs_inv_def)

lemma takeWhile_sorted_filter:
  "sorted_wrt (<) (map f xs) \<Longrightarrow> takeWhile (\<lambda>e. f e \<le> (k::nat)) xs = filter (\<lambda>e. f e \<le> k) xs"
  by (induction xs) (auto simp: not_le filter_empty_conv eq_commute[of "[]"])

context versioning_backend
begin

lemma restore_spec:
  assumes "binv b"
  shows "\<exists>r. restore_at_event B k b = Inr r \<and> restores (hist b) k r"
proof -
  obtain snap where snap: "b_latest_snapshot B (Some k) b = Inr snap"
      "is_newest (ran (hy_snaps (hist b))) (Some k) snap"
    using latest_snapshot[OF assms] by blast
  define since where "since = snd (replay_base snap)"
  define es where "es = takeWhile (\<lambda>e. le_event_id e \<le> k) (b_read_log B since b)"
  have R: "sorted_wrt (<) (map le_event_id (b_read_log B since b))"
      "log_item ` set (b_read_log B since b) = {(i, c, d). since < i \<and> hy_log (hist b) i = Some (c, d)}"
    using read_log[OF assms, of since] by blast+
  have es: "es = filter (\<lambda>e. le_event_id e \<le> k) (b_read_log B since b)"
    unfolding es_def by (rule takeWhile_sorted_filter[OF R(1)])
  have "set (map log_item es) = {x \<in> log_item ` set (b_read_log B since b). fst x \<le> k}"
    unfolding es by (auto simp: log_item_def)
  then have "set (map log_item es) = {(i, c, d). since < i \<and> i \<le> k \<and> hy_log (hist b) i = Some (c, d)}"
    unfolding R(2) by auto
  moreover have "sorted_wrt (<) (map le_event_id es)"
    unfolding es using R(1) by (auto simp: sorted_wrt_map intro: sorted_wrt_filter)
  then have "sorted_wrt (<) (map fst (map log_item es))"
    by (simp add: comp_def log_item_def sorted_wrt_map)
  ultimately have slice: "log_slice (hist b) (snd (replay_base snap)) k (map log_item es)"
    unfolding log_slice_def since_def by blast
  have "restore_at_event B k b = Inr (fold (\<lambda>e. replay_step (le_context e, le_state e)) es (fst (replay_base snap)))"
    unfolding restore_at_event_def snap(1) es_def since_def replay_base_def
    by (cases snap) simp_all
  also have "fold (\<lambda>e. replay_step (le_context e, le_state e)) es (fst (replay_base snap)) =
      fold (\<lambda>x. replay_step (snd x)) (map log_item es) (fst (replay_base snap))"
    by (simp add: fold_map comp_def log_item_def)
  finally show ?thesis using snap(2) slice unfolding restores_def by blast
qed

lemma load_spec:
  assumes I: "vcs_inv E binv hist st H"
  shows "\<exists>st'. ensure_loaded B st = (Inr (), st') \<and> vm_loaded st' \<and> vcs_inv E binv hist st' H \<and>
    vm_backend st' = vm_backend st \<and> vm_live st' = vm_live st \<and> vm_id_calls st' = vm_id_calls st \<and>
    hd_event_id (vm_head st') = head_event B st"
proof (cases "vm_loaded st")
  case True
  with I show ?thesis by (simp add: ensure_loaded_def head_event_def)
next
  case False
  let ?h = "hist (vm_backend st)"
  have b: "binv (vm_backend st)" and fresh: "\<forall>j \<ge> vm_id_calls st. hy_snaps ?h (ve_id E j) = None"
    and init: "vm_head st = head0" "vm_last st = empty_content"
    using I False by (auto simp: vcs_inv_def)
  note G = get_head[OF b]
  show ?thesis
  proof (cases "hy_head ?h")
    case None
    then have "hist_inv ?h 0 H" "last_inv ?h 0 empty_content H"
      using I False by (auto simp: vcs_inv_def)
    then show ?thesis
      using False None b fresh init
      by (simp add: ensure_loaded_def G vcs_inv_def unsaved_def head_event_def)
        (simp add: head0_def)
  next
    case (Some hp)
    have HI: "hist_inv ?h (hd_event_id hp) H" using I False Some by (auto simp: vcs_inv_def)
    obtain r where r: "restore_at_event B (hd_event_id hp) (vm_backend st) = Inr r"
        "restores ?h (hd_event_id hp) r"
      using restore_spec[OF b] by blast
    note D = hist_invD[OF HI]
    have "last_inv ?h (hd_event_id hp) r H"
      unfolding last_inv_def
    proof (intro conjI allI impI ballI)
      show ok: "content_ok r" by (rule D(4)[OF le_refl r(2)])
      show "reflects r' r" if "restores ?h (hd_event_id hp) r'" for r'
        using restores_unique[OF D(3) that r(2)] reflects_refl[OF ok] by simp
      show "reflects r (H (hd_event_id hp))" by (rule D(5)[OF le_refl r(2)])
      show "snapshot_content s = r" if "s \<in> ran (hy_snaps ?h)" "sn_event_id_high s = hd_event_id hp" for s
        by (rule restores_unique[OF D(3) restores_at_snapshot[OF that] r(2)])
    qed
    then show ?thesis
      using False Some b fresh HI r(1)
      by (simp add: ensure_loaded_def G vcs_inv_def unsaved_def head_event_def)
  qed
qed

lemma snapshot_spec:
  assumes I: "vcs_inv E binv hist st H" and inj: "inj (ve_id E)"
  shows "\<exists>i st'. take_snapshot E B st = (Inr i, st') \<and> vm_loaded st' \<and> vcs_inv E binv hist st' H \<and>
    vm_live st' = vm_live st \<and> hd_event_id (vm_head st') = head_event B st"
proof -
  obtain s1 where s1: "ensure_loaded B st = (Inr (), s1)" "vm_loaded s1" "vcs_inv E binv hist s1 H"
      "vm_live s1 = vm_live st" "hd_event_id (vm_head s1) = head_event B st"
    using load_spec[OF I] by blast
  note L = vcs_inv_loaded[OF s1(3,2)]
  define sn where "sn = \<lparr>sn_snapshot_id = ve_id E (vm_id_calls s1),
    sn_event_id_high = hd_event_id (vm_head s1), sn_context = cn_context (vm_last s1),
    sn_state = cn_state (vm_last s1), sn_ts = ve_clock E (vm_clock_calls s1)\<rparr>"
  define s2 where "s2 = s1\<lparr>vm_backend := b_put_snapshot B sn (vm_backend s1), vm_appends := 0,
    vm_id_calls := vm_id_calls s1 + 1, vm_clock_calls := vm_clock_calls s1 + 1\<rparr>"
  have P: "binv (vm_backend s2)"
      "hist (vm_backend s2) = (hist (vm_backend s1))\<lparr>hy_snaps := (hy_snaps (hist (vm_backend s1)))(sn_snapshot_id sn \<mapsto> sn)\<rparr>"
    using put_snapshot[OF L(1), of sn] by (simp_all add: s2_def)
  have c: "snapshot_content sn = vm_last s1" "sn_event_id_high sn = hd_event_id (vm_head s1)"
    by (simp_all add: sn_def snapshot_content_def)
  have new: "hy_snaps (hist (vm_backend s1)) (sn_snapshot_id sn) = None"
    using L(2)[OF le_refl] by (simp add: sn_def)
  have J: "hist_inv (hist (vm_backend s2)) (hd_event_id (vm_head s1)) H"
      "last_inv (hist (vm_backend s2)) (hd_event_id (vm_head s1)) (vm_last s1) H"
    using hist_inv_snapshot[OF L(3,4) _ _ new c, of "hist (vm_backend s2)"] by (simp_all add: P(2))
  have "hy_snaps (hist (vm_backend s2)) (ve_id E j) = None" if "vm_id_calls s2 \<le> j" for j
    using that L(2)[of j] inj_eq[OF inj, of j "vm_id_calls s1"] by (simp add: P(2)) (simp add: s2_def sn_def)
  moreover have "unsaved (hist (vm_backend s2)) (vm_head s1) (vm_last s1)"
    using L(5) by (simp add: unsaved_def P(2))
  ultimately have "vcs_inv E binv hist s2 H"
    using P(1) J s1(2) by (simp add: vcs_inv_def) (simp add: s2_def)
  moreover have "take_snapshot E B st = (Inr (sn_snapshot_id sn), s2)"
    unfolding take_snapshot_def andthen_def s1(1) by (simp add: s2_def sn_def Let_def)
  ultimately show ?thesis using s1 by (auto simp: s2_def)
qed

lemma append_loaded_spec:
  assumes I: "vcs_inv E binv hist st H" and l: "vm_loaded st" and inj: "inj (ve_id E)"
    and cur: "content_ok (ve_provider E (vm_live st))" and idk: "id_ok (Suc (hd_event_id (vm_head st)))"
  shows "\<exists>st'. append_loaded E B st = (Inr (event_ref (hd_event_id (vm_head st'))), st') \<and> vm_loaded st' \<and>
    vcs_inv E binv hist st' (H(hd_event_id (vm_head st') := ve_provider E (vm_live st))) \<and>
    vm_live st' = vm_live st"
proof -
  note L = vcs_inv_loaded[OF I l]
  define cu where "cu = ve_provider E (vm_live st)"
  define en where "en = append_entry E st cu"
  let ?n = "hd_event_id (vm_head st)"
  have en: "(le_context en, le_state en) = content_delta (vm_last st) cu" "le_event_id en = Suc ?n"
    by (simp_all add: en_def append_entry_def content_delta_def)
  show ?thesis
  proof (cases "le_context en = [] \<and> sd_set (le_state en) = [] \<and> sd_removed (le_state en) = []")
    case True
    then have no: "content_delta (vm_last st) cu = ([], \<lparr>sd_set = [], sd_removed = []\<rparr>)"
      using en(1) by (cases "le_state en") auto
    note U = hist_inv_unchanged[OF L(3,4) cur[folded cu_def] no]
    have "vcs_inv E binv hist st (H(?n := cu))"
      using L U l by (simp add: vcs_inv_def)
    moreover have "append_loaded E B st = (Inr (event_ref ?n), st)"
      using True by (simp add: append_loaded_def Let_def en_def cu_def)
    ultimately show ?thesis using l by (auto simp: cu_def)
  next
    case False
    let ?h = "(vm_head st)\<lparr>hd_event_id := le_event_id en\<rparr>"
    define s1 where "s1 = st\<lparr>vm_backend := b_put_head B ?h (b_append_log B en (vm_backend st)),
      vm_head := ?h, vm_last := cu, vm_appends := vm_appends st + 1,
      vm_clock_calls := vm_clock_calls st + 1\<rparr>"
    have A: "binv (b_append_log B en (vm_backend st))"
        "hist (b_append_log B en (vm_backend st)) = (hist (vm_backend st))
          \<lparr>hy_log := (hy_log (hist (vm_backend st)))(Suc ?n \<mapsto> content_delta (vm_last st) cu)\<rparr>"
      using append_log[OF L(1), of en] idk hist_invD(1)[OF L(3)] unfolding en by (simp_all add: less_Suc_eq_le)
    have P: "binv (vm_backend s1)" "hist (vm_backend s1) = (hist (vm_backend st))
          \<lparr>hy_log := (hy_log (hist (vm_backend st)))(Suc ?n \<mapsto> content_delta (vm_last st) cu), hy_head := Some ?h\<rparr>"
      using put_head[OF A(1), of ?h] A(2) by (simp_all add: s1_def)
    have J: "hist_inv (hist (vm_backend s1)) (Suc ?n) (H(Suc ?n := cu))"
        "last_inv (hist (vm_backend s1)) (Suc ?n) cu (H(Suc ?n := cu))"
      using hist_inv_append[OF L(3,4) cur[folded cu_def], of "hist (vm_backend s1)"] by (simp_all add: P(2))
    have s1: "vm_loaded s1" "vm_live s1 = vm_live st" "hd_event_id (vm_head s1) = Suc ?n" "vm_last s1 = cu"
        "vm_id_calls s1 = vm_id_calls st" "vm_head s1 = ?h"
      using l by (simp_all add: s1_def en(2))
    have I1: "vcs_inv E binv hist s1 (H(Suc ?n := cu))"
      unfolding vcs_inv_def using P(1) J L(2) s1 by (simp add: P(2) unsaved_def)
    have step: "append_loaded E B st =
        (if 0 < ve_snapshot_every E \<and> ve_snapshot_every E \<le> int (vm_appends s1)
         then andthen (take_snapshot E B) (\<lambda>_ s2. (Inr (event_ref (Suc ?n)), s2)) s1
         else (Inr (event_ref (Suc ?n)), s1))"
      using False unfolding append_loaded_def Let_def cu_def[symmetric] en_def[symmetric]
      by (simp only: if_False s1_def en(2))
    show ?thesis
    proof (cases "0 < ve_snapshot_every E \<and> ve_snapshot_every E \<le> int (vm_appends s1)")
      case True
      obtain i s2 where s2: "take_snapshot E B s1 = (Inr i, s2)" "vm_loaded s2"
          "vcs_inv E binv hist s2 (H(Suc ?n := cu))" "vm_live s2 = vm_live s1"
          "hd_event_id (vm_head s2) = Suc ?n"
        using snapshot_spec[OF I1 inj] s1(1,3) by (auto simp: head_event_def)
      then show ?thesis
        unfolding step if_P[OF True] using s1(2) by (auto simp: andthen_def cu_def)
    next
      case False
      show ?thesis unfolding step if_not_P[OF False] using I1 s1 by (auto simp: cu_def)
    qed
  qed
qed

lemma append_spec:
  assumes I: "vcs_inv E binv hist st H" and inj: "inj (ve_id E)"
    and cur: "content_ok (ve_provider E (vm_live st))" and idk: "id_ok (Suc (head_event B st))"
  shows "\<exists>st'. vcs_append E B st = (Inr (event_ref (hd_event_id (vm_head st'))), st') \<and> vm_loaded st' \<and>
    vcs_inv E binv hist st' (H(hd_event_id (vm_head st') := ve_provider E (vm_live st))) \<and>
    vm_live st' = vm_live st"
proof -
  obtain s1 where s1: "ensure_loaded B st = (Inr (), s1)" "vm_loaded s1" "vcs_inv E binv hist s1 H"
      "vm_live s1 = vm_live st" "hd_event_id (vm_head s1) = head_event B st"
    using load_spec[OF I] by blast
  show ?thesis
    using append_loaded_spec[OF s1(3,2) inj, unfolded s1(4,5), OF cur idk]
    by (simp add: vcs_append_def andthen_def s1(1))
qed

lemma commit_spec:
  assumes I: "vcs_inv E binv hist st H" and inj: "inj (ve_id E)"
    and cur: "content_ok (ve_provider E (vm_live st))" and idk: "id_ok (Suc (head_event B st))"
  shows "\<exists>i st'. vcs_commit E B msg st = (Inr i, st') \<and> vm_loaded st' \<and>
    vcs_inv E binv hist st' (H(hd_event_id (vm_head st') := ve_provider E (vm_live st))) \<and>
    vm_live st' = vm_live st"
proof -
  obtain s1 where s1: "ensure_loaded B st = (Inr (), s1)" "vm_loaded s1" "vcs_inv E binv hist s1 H"
      "vm_live s1 = vm_live st" "hd_event_id (vm_head s1) = head_event B st"
    using load_spec[OF I] by blast
  have "head_event B s1 = head_event B st" using s1(2,5) by (simp add: head_event_def)
  then obtain s2 where s2: "vcs_append E B s1 = (Inr (event_ref (hd_event_id (vm_head s2))), s2)" "vm_loaded s2"
      "vcs_inv E binv hist s2 (H(hd_event_id (vm_head s2) := ve_provider E (vm_live st)))"
      "vm_live s2 = vm_live st"
    using append_spec[OF s1(3) inj] cur idk s1(4) by fastforce
  let ?H = "H(hd_event_id (vm_head s2) := ve_provider E (vm_live st))"
  note L = vcs_inv_loaded[OF s2(3,2)]
  let ?c = "ve_id E (vm_id_calls s2)"
  let ?h = "(vm_head s2)\<lparr>hd_commit_id := Some ?c\<rparr>"
  define m where "m = \<lparr>cm_commit_id = ?c, cm_parent_id = hd_commit_id (vm_head s2),
    cm_event_id_high = hd_event_id (vm_head s2), cm_snapshot_id = None, cm_message = msg,
    cm_ts = ve_clock E (vm_clock_calls s2)\<rparr>"
  define s3 where "s3 = s2\<lparr>vm_backend := b_put_head B ?h (b_put_commit B m (vm_backend s2)), vm_head := ?h,
    vm_id_calls := vm_id_calls s2 + 1, vm_clock_calls := vm_clock_calls s2 + 1\<rparr>"
  have C: "binv (b_put_commit B m (vm_backend s2))"
      "hist (b_put_commit B m (vm_backend s2)) =
        (hist (vm_backend s2))\<lparr>hy_commits := (hy_commits (hist (vm_backend s2)))(cm_commit_id m \<mapsto> m)\<rparr>"
    using put_commit[OF L(1), of m] by simp_all
  have P: "binv (vm_backend s3)" "hy_log (hist (vm_backend s3)) = hy_log (hist (vm_backend s2))"
      "hy_snaps (hist (vm_backend s3)) = hy_snaps (hist (vm_backend s2))"
      "hy_head (hist (vm_backend s3)) = Some ?h"
    using put_head[OF C(1), of ?h] C(2) by (simp_all add: s3_def)
  have R: "restores (hist (vm_backend s3)) k r \<longleftrightarrow> restores (hist (vm_backend s2)) k r" for k r
    by (rule restores_cong) (simp_all add: P)
  have "snaps_agree (hist (vm_backend s3)) = snaps_agree (hist (vm_backend s2))"
    unfolding snaps_agree_def P(3) ..
  then have "hist_inv (hist (vm_backend s3)) n ?H = hist_inv (hist (vm_backend s2)) n ?H"
      "last_inv (hist (vm_backend s3)) n c ?H = last_inv (hist (vm_backend s2)) n c ?H" for n c
    unfolding hist_inv_def last_inv_def P(2,3) R by blast+
  moreover have "vm_loaded s3" "vm_head s3 = ?h" "vm_last s3 = vm_last s2" "vm_id_calls s3 = Suc (vm_id_calls s2)"
      "vm_live s3 = vm_live s2"
    using s2(2) by (simp_all add: s3_def)
  ultimately have "vcs_inv E binv hist s3 ?H"
    unfolding vcs_inv_def using P L by (simp add: unsaved_def)
  moreover have "vcs_commit E B msg st = (Inr ?c, s3)"
    by (simp add: vcs_commit_def andthen_def s1(1) s2(1) s3_def m_def Let_def)
  ultimately show ?thesis
    using s2(4) \<open>vm_loaded s3\<close> \<open>vm_head s3 = ?h\<close> \<open>vm_live s3 = vm_live s2\<close> by auto
qed

lemma latest_commit_ok:
  assumes "binv b" shows "\<exists>c. latest_commit_id B t b = Inr c"
  using list_commits[OF assms] by (auto simp: latest_commit_id_def)

lemma inv_min:
  assumes "vcs_inv E binv hist st H" and "vm_loaded st"
  shows "vcs_inv E binv hist st (\<lambda>k. H (min k (head_event B st)))"
  using assms unfolding vcs_inv_def hist_inv_def last_inv_def head_event_def by simp

text \<open>A reference that does not resolve leaves the session alone; one that does rewinds it.\<close>

lemma rewind_spec:
  assumes I: "vcs_inv E binv hist st H"
  shows "\<exists>s1. ensure_loaded B st = (Inr (), s1) \<and> vm_backend s1 = vm_backend st \<and>
    (case resolve_event_id B r (vm_backend st) of
       Inl e \<Rightarrow> vcs_rewind E B r st = (Inl e, s1) \<and> vcs_inv E binv hist s1 (\<lambda>k. H (min k (head_event B st)))
     | Inr t \<Rightarrow> (\<exists>c s2. vcs_rewind E B r st = (Inr c, s2) \<and> restore_at_event B t (vm_backend st) = Inr c \<and>
         vm_loaded s2 \<and> hd_event_id (vm_head s2) = t \<and> vm_last s2 = c \<and>
         vm_live s2 = ve_applier E c (vm_live st) \<and>
         hy_log (hist (vm_backend s2)) = hy_log (hist (vm_backend st)) |` {..t} \<and>
         vcs_inv E binv hist s2 (\<lambda>k. H (min k (head_event B st)))))"
proof -
  obtain s1 where s1: "ensure_loaded B st = (Inr (), s1)" "vm_loaded s1" "vcs_inv E binv hist s1 H"
      "vm_backend s1 = vm_backend st" "vm_live s1 = vm_live st" "vm_id_calls s1 = vm_id_calls st"
      "hd_event_id (vm_head s1) = head_event B st"
    using load_spec[OF I] by blast
  note L = vcs_inv_loaded[OF s1(3,2)]
  show ?thesis
  proof (cases "resolve_event_id B r (vm_backend st)")
    case (Inl e)
    then have "vcs_rewind E B r st = (Inl e, s1)"
      by (simp add: vcs_rewind_def andthen_def s1(1,4) restore_ref_def)
    moreover have "head_event B s1 = head_event B st" using s1(2,7) by (simp add: head_event_def)
    ultimately show ?thesis using Inl s1(1,4) inv_min[OF s1(3,2)] by simp
  next
    case (Inr t)
    obtain c where c: "restore_at_event B t (vm_backend s1) = Inr c" "restores (hist (vm_backend s1)) t c"
      using restore_spec[OF L(1)] by blast
    define b2 where "b2 = snd (b_truncate B t (vm_backend s1))"
    have T: "b_truncate B t (vm_backend s1) = (Inr (), b2)" "binv b2"
        "hy_log (hist b2) = hy_log (hist (vm_backend s1)) |` {..t}"
        "hy_snaps (hist b2) = keep_upto sn_event_id_high t (hy_snaps (hist (vm_backend s1)))"
      using truncate[OF L(1), of t] by (simp_all add: b2_def prod_eq_iff)
    obtain cid where cid: "latest_commit_id B t b2 = Inr cid" using latest_commit_ok[OF T(2)] by blast
    define hp where "hp = \<lparr>hd_event_id = t, hd_commit_id = cid, hd_forked_from = hd_forked_from (vm_head s1)\<rparr>"
    define s2 where "s2 = s1\<lparr>vm_backend := b_put_head B hp b2, vm_head := hp,
      vm_live := ve_applier E c (vm_live s1), vm_last := c, vm_appends := 0\<rparr>"
    have run: "vcs_rewind E B r st = (Inr c, s2)"
      using Inr c(1) by (simp add: vcs_rewind_def andthen_def s1(1,4) restore_ref_def T(1)[unfolded s1(4)] cid Let_def
          s2_def hp_def)
    have P: "binv (vm_backend s2)" "hist (vm_backend s2) = (hist b2)\<lparr>hy_head := Some hp\<rparr>"
      using put_head[OF T(2), of hp] by (simp_all add: s2_def)
    have J: "hist_inv (hist (vm_backend s2)) t (\<lambda>k. H (min k (head_event B st)))"
        "last_inv (hist (vm_backend s2)) t c (\<lambda>k. H (min k (head_event B st)))"
      using hist_inv_truncate[OF L(3) c(2), of "hist (vm_backend s2)"] s1(7) by (simp_all add: P(2) T(3,4))
    have fresh: "hy_snaps (hist (vm_backend s2)) (ve_id E j) = None" if "vm_id_calls s1 \<le> j" for j
      using L(2)[OF that] by (simp add: P(2) T(4) keep_upto_def)
    have "vm_loaded s2" "vm_head s2 = hp" "vm_last s2 = c" "vm_id_calls s2 = vm_id_calls s1"
      using s1(2) by (simp_all add: s2_def)
    note f = this
    have "vcs_inv E binv hist s2 (\<lambda>k. H (min k (head_event B st)))"
      unfolding vcs_inv_def using P(1) J fresh f by (simp add: hp_def unsaved_def P(2))
    then show ?thesis
      using Inr run c(1) s1(1,4,5) f T(3) P(2) by (auto simp: hp_def s2_def)
  qed
qed

lemma restart_spec: "vcs_inv E binv hist st H \<Longrightarrow> vcs_inv E binv hist (vcs_restart st) H"
proof (cases "vm_loaded st")
  case True
  assume I: "vcs_inv E binv hist st H"
  note L = vcs_inv_loaded[OF I True]
  show ?thesis
  proof (cases "hy_head (hist (vm_backend st))")
    case None
    with L(5) have "vm_head st = head0" "vm_last st = empty_content" by (simp_all add: unsaved_def)
    with L None show ?thesis by (simp add: vcs_inv_def vcs_restart_def) (simp add: head0_def)
  next
    case (Some x)
    with L show ?thesis by (simp add: vcs_inv_def vcs_restart_def unsaved_def)
  qed
next
  case False
  assume "vcs_inv E binv hist st H"
  then show ?thesis using False by (simp add: vcs_inv_def vcs_restart_def split: option.splits)
qed

lemma step_spec:
  assumes I: "vcs_inv E binv hist st H" and inj: "inj (ve_id E)"
    and cur: "\<And>l. content_ok (ve_provider E l)" and idk: "id_ok (Suc (head_event B st))"
  shows "vcs_inv E binv hist (vcs_step E B op st) (record_step E B op st H)"
proof (cases op)
  case (Edit l)
  then show ?thesis using I by (simp add: vcs_inv_def split: option.splits)
next
  case OpAppend
  obtain st' where "vcs_append E B st = (Inr (event_ref (hd_event_id (vm_head st'))), st')" "vm_loaded st'"
      "vcs_inv E binv hist st' (H(hd_event_id (vm_head st') := ve_provider E (vm_live st)))"
    using append_spec[OF I inj cur idk] by blast
  then show ?thesis using OpAppend by (simp add: head_event_def)
next
  case (OpCommit msg)
  obtain i st' where "vcs_commit E B msg st = (Inr i, st')" "vm_loaded st'"
      "vcs_inv E binv hist st' (H(hd_event_id (vm_head st') := ve_provider E (vm_live st)))"
    using commit_spec[OF I inj cur idk] by blast
  then show ?thesis using OpCommit by (simp add: head_event_def)
next
  case OpSnapshot
  obtain i st' where "take_snapshot E B st = (Inr i, st')" "vcs_inv E binv hist st' H"
    using snapshot_spec[OF I inj] by blast
  then show ?thesis using OpSnapshot by simp
next
  case (OpRewind r)
  obtain s1 where s1: "case resolve_event_id B r (vm_backend st) of
       Inl e \<Rightarrow> vcs_rewind E B r st = (Inl e, s1) \<and>
         vcs_inv E binv hist s1 (\<lambda>k. H (min k (head_event B st)))
     | Inr t \<Rightarrow> (\<exists>c s2. vcs_rewind E B r st = (Inr c, s2) \<and>
         vcs_inv E binv hist s2 (\<lambda>k. H (min k (head_event B st))))"
    using rewind_spec[OF I, of r] by (fastforce split: sum.splits)
  then have "vcs_inv E binv hist (snd (vcs_rewind E B r st)) (\<lambda>k. H (min k (head_event B st)))"
    by (cases "resolve_event_id B r (vm_backend st)") auto
  then show ?thesis using OpRewind by simp
next
  case Restart
  then show ?thesis using restart_spec[OF I] by simp
qed

end

text \<open>Every event id the run may append next can be represented by the backend's keys.\<close>

fun ids_ok :: "('l, 'f) vcs_env \<Rightarrow> 'b backend \<Rightarrow> (nat \<Rightarrow> bool) \<Rightarrow> 'l vcs_op list \<Rightarrow> ('l, 'b) vcs_state \<Rightarrow> bool" where
  "ids_ok E B P [] st = True"
| "ids_ok E B P (op # ops) st = (P (Suc (head_event B st)) \<and> ids_ok E B P ops (vcs_step E B op st))"

context versioning_backend
begin

lemma run_spec:
  assumes "vcs_inv E binv hist st H" and "inj (ve_id E)" and "\<And>l. content_ok (ve_provider E l)"
    and "ids_ok E B id_ok ops st"
  shows "\<exists>st' H'. vcs_run E B ops (st, H) = (st', H') \<and> vcs_inv E binv hist st' H'"
  using assms(1,4)
proof (induction ops arbitrary: st H)
  case (Cons op ops)
  show ?case
    using Cons.IH[OF step_spec[OF Cons.prems(1) assms(2,3)]] Cons.prems(2) by simp
qed simp

lemma resolve_event_ref: "resolve_event_id B (event_ref k) b = Inr k"
  by (simp add: resolve_event_id_def event_ref_def startswith_def)

lemma restore_recorded:
  assumes I: "vcs_inv E binv hist st H" and k: "k \<le> head_event B st"
  shows "\<exists>c. fst (vcs_restore B (event_ref k) st) = Inr c \<and> reflects c (H k)"
proof -
  obtain s1 where s1: "ensure_loaded B st = (Inr (), s1)" "vm_loaded s1" "vcs_inv E binv hist s1 H"
      "vm_backend s1 = vm_backend st" "hd_event_id (vm_head s1) = head_event B st"
    using load_spec[OF I] by blast
  note L = vcs_inv_loaded[OF s1(3,2)]
  obtain c where c: "restore_at_event B k (vm_backend s1) = Inr c" "restores (hist (vm_backend s1)) k c"
    using restore_spec[OF L(1)] by blast
  have "fst (vcs_restore B (event_ref k) st) = Inr c"
    using c(1) by (simp add: vcs_restore_def andthen_def s1(1) restore_ref_def resolve_event_ref)
  moreover have "reflects c (H k)"
    using hist_invD(5)[OF L(3) _ c(2)] k s1(5) by simp
  ultimately show ?thesis by blast
qed

lemma init_inv:
  assumes "binv b" and "hist b = \<lparr>hy_log = (\<lambda>_. None), hy_snaps = (\<lambda>_. None), hy_commits = (\<lambda>_. None), hy_head = None\<rparr>"
  shows "vcs_inv E binv hist (vcs_init b l) (\<lambda>_. empty_content)"
proof -
  have R: "restores (hist b) 0 r \<Longrightarrow> r = empty_content" for r
    unfolding restores_def
    by (auto simp: assms(2) is_newest_def replay_base_def split: option.splits dest: log_slice_empty)
  then have RR: "restores (hist b) 0 r \<Longrightarrow> content_ok r \<and> reflects r empty_content" for r
    using content_ok_empty reflects_refl by blast
  have "hist_inv (hist b) 0 (\<lambda>_. empty_content)"
    unfolding hist_inv_def using RR content_ok_empty by (simp add: assms(2) snaps_agree_def)
  moreover have "last_inv (hist b) 0 empty_content (\<lambda>_. empty_content)"
    unfolding last_inv_def using RR content_ok_empty reflects_refl[OF content_ok_empty] by (simp add: assms(2))
  ultimately show ?thesis
    using assms by (simp add: vcs_inv_def vcs_init_def)
qed

end

section \<open>Properties\<close>

definition empty_kv :: "'v mem_kv" where
  "empty_kv = \<lparr>kv_entries = [], kv_now = 0\<rparr>"

definition empty_jsonl :: "'v jsonl" where
  "empty_jsonl = \<lparr>jl_log = None, jl_snapshots = [], jl_commits = [], jl_head = None\<rparr>"

lemma kv_vcs_run:
  assumes "codec_ok c" and "inj (ve_id E)" and "\<forall>l. content_ok (ve_provider E l)"
    and "ids_ok E (kv_backend mem_kv_ops c sid) event_id_ok ops (vcs_init empty_kv l)"
    and "vcs_run E (kv_backend mem_kv_ops c sid) ops (vcs_init empty_kv l, \<lambda>_. empty_content) = (st, H)"
  shows "vcs_inv E (kv_inv mem_kv_ops mem_inv c sid) (kv_hist mem_kv_ops c sid) st H"
proof -
  note K = kv_is_backend[OF mem.kv_store_axioms assms(1), of sid]
  have g: "op_get mem_kv_ops k (empty_kv :: 'a mem_kv) = None" for k
    by (simp add: mem_kv_ops_def empty_kv_def mem_get_def get_without_lock_def)
  have "vcs_inv E (kv_inv mem_kv_ops mem_inv c sid) (kv_hist mem_kv_ops c sid) (vcs_init empty_kv l) (\<lambda>_. empty_content)"
  proof (rule versioning_backend.init_inv[OF K])
    show "kv_inv mem_kv_ops mem_inv c sid empty_kv"
      by (simp add: kv_inv_def ns_ok_def g) (simp add: mem_inv_def empty_kv_def)
  qed (simp add: kv_hist_def ns_get_def g fun_eq_iff)
  from versioning_backend.run_spec[OF K this assms(2)]
  show ?thesis using assms(3,4,5) by fastforce
qed

lemma jsonl_vcs_run:
  assumes "codec_ok c" and "inj (ve_id E)" and "\<forall>l. content_ok (ve_provider E l)"
    and "vcs_run E (jl_backend c) ops (vcs_init empty_jsonl l, \<lambda>_. empty_content) = (st, H)"
  shows "vcs_inv E (jl_inv c) (jl_hist c) st H"
proof -
  note J = jl_is_backend[OF assms(1)]
  have "vcs_inv E (jl_inv c) (jl_hist c) (vcs_init empty_jsonl l) (\<lambda>_. empty_content)"
    by (rule versioning_backend.init_inv[OF J])
      (simp_all add: jl_inv_def jl_hist_def empty_jsonl_def jl_lines_def lines_ok_def dir_ok_def
        lines_log_def dir_get_def fun_eq_iff)
  moreover have "ids_ok E (jl_backend c) (\<lambda>_. True) ops s" for s
    by (induction ops arbitrary: s) auto
  ultimately show ?thesis
    using versioning_backend.run_spec[OF J _ assms(2)] assms(3,4) by fastforce
qed

lemma ids_ok_mono: "ids_ok E B P ops st \<Longrightarrow> (\<And>i. P i \<Longrightarrow> Q i) \<Longrightarrow> ids_ok E B Q ops st"
  by (induction ops arbitrary: st) auto


definition wit_env :: "(nat, content) vcs_env" where
  "wit_env = \<lparr>ve_session_id = ''s'',
     ve_provider = (\<lambda>n. \<lparr>cn_context = [(''c'', \<lparr>messages = [PStr ''m'', PInt (int n)], offload_messages = Some []\<rparr>)],
        cn_state = [(''n'', PInt (int n)), (''d'', PDict [(''x'', PNone)])]\<rparr>),
     ve_applier = (\<lambda>c l. length (cn_state c)), ve_forker = Some (\<lambda>i c p. c),
     ve_snapshot_every = 2, ve_clock = of_nat, ve_id = (\<lambda>n. replicate n CHR ''x'')\<rparr>"

lemma wit_env_ok: "inj (ve_id wit_env)" "\<forall>l. content_ok (ve_provider wit_env l)"
proof -
  have "n = m" if "replicate n CHR ''x'' = replicate m CHR ''x''" for n m
    using that by (metis length_replicate)
  then show "inj (ve_id wit_env)" by (auto simp: wit_env_def inj_def)
  show "\<forall>l. content_ok (ve_provider wit_env l)"
    by (auto simp: content_ok_def wit_env_def ctx_ok_def pv_ok_dict dotless_def split: if_splits)
qed




section \<open>Behaviours at the edges\<close>

text \<open>
  Of two commits at one event, a rewind to it (even by the second one's id) makes the first the
  head: \<open>max\<close> returns the first of the greatest, and the later commit drops out of the chain.
\<close>

lemma rewind_picks_oldest_commit:
  "let B = kv_backend mem_kv_ops record_codec ''s'';
       run = (\<lambda>ops. fst (vcs_run wit_env B ops (vcs_init empty_kv 0, \<lambda>_. empty_content)))
   in hd_commit_id (vm_head (run [OpCommit ''a'', OpCommit ''b''])) = Some ''x'' \<and>
      hd_commit_id (vm_head (run [OpCommit ''a'', OpCommit ''b'', OpRewind ''x''])) = Some []"
  by code_simp

text \<open>A limit of zero still lists one commit.\<close>

lemma history_limit_zero:
  assumes "dget by_id i = Some m"
  shows "history_walk by_id (Some 0) (Some i) [] = Some [m]"
  using assms by (subst history_walk.simps) simp

text \<open>A rewind to an event that was never recorded succeeds and moves the head there.\<close>

lemma rewind_beyond_head:
  "hd_event_id (vm_head (fst (vcs_run wit_env (jl_backend record_codec) [OpAppend, OpRewind ''e9'']
     (vcs_init empty_jsonl 0, \<lambda>_. empty_content)))) = 9"
  by code_simp

text \<open>
  A crash after \<open>append_log\<close> and before \<open>put_head\<close> leaves an entry beyond the head. The next append
  reuses its event id: the key-value backend overwrites the orphan, the file backend keeps both
  lines, and a restore replays the orphan too.
\<close>

definition crash_env :: "(nat, content) vcs_env" where
  "crash_env = wit_env\<lparr>ve_provider := \<lambda>n. \<lparr>cn_context = [], cn_state = [(replicate (n + 1) CHR ''k'', PInt (int n))]\<rparr>\<rparr>"

definition crashed_restore :: "'b backend \<Rightarrow> 'b \<Rightarrow> content res" where
  "crashed_restore B b =
     (let st1 = fst (vcs_run crash_env B [OpAppend] (vcs_init b 0, \<lambda>_. empty_content));
          orphan = append_entry crash_env st1 (ve_provider crash_env 1);
          st2 = fst (vcs_run crash_env B [Restart, Edit 2, OpAppend]
                  (st1\<lparr>vm_backend := b_append_log B orphan (vm_backend st1)\<rparr>, \<lambda>_. empty_content))
      in fst (vcs_restore B (event_ref 2) st2))"

lemma orphan_entry_replayed:
  "crashed_restore (jl_backend record_codec) empty_jsonl =
     Inr \<lparr>cn_context = [], cn_state = [(''kk'', PInt 1), (''kkk'', PInt 2)]\<rparr>"
  by code_simp

lemma orphan_entry_overwritten:
  "crashed_restore (kv_backend mem_kv_ops record_codec ''s'') empty_kv =
     Inr \<lparr>cn_context = [], cn_state = [(''kkk'', PInt 2)]\<rparr>"
  by code_simp

end
