(* ===== verification/Pregel_Channels.thy ===== *)
theory Pregel_Channels
  imports Prelude "HOL-Library.Multiset"
begin

text \<open>
  The messages and channels of the graph engine: \<open>core/graph/pregel/base.py\<close> and
  \<open>core/graph/pregel/channels.py\<close>. A channel is a value; the \<open>ChannelManager\<close> holds them in a list
  and its two indexes map keys and node names to positions, so that a channel reached through
  either index is the same object. Payloads are left out: every router sends \<open>None\<close>.
\<close>

section \<open>Messages and channels\<close>

datatype message =
    TriggerMessage (sender: string) (target: string)
  | BarrierMessage (sender: string) (target: string)

datatype channel =
    TriggerChannel (ch_name: string) (ch_messages: "message list")
  | BarrierChannel (ch_name: string) (expected_groups: "string list list") (received: "string list")

definition START :: string where
  "START = ''__start__''"

definition END_NODE :: string where
  "END_NODE = ''__end__''"

fun group_key :: "string list \<Rightarrow> string" where
  "group_key [s] = s"
| "group_key g = ''('' @ join ''|'' (sort g) @ '')''"

definition make_router_key :: "string \<Rightarrow> string list list \<Rightarrow> string" where
  "make_router_key name groups = ''barrier:'' @ join ''&'' (map group_key groups) @ ''->'' @ name"

fun ch_key :: "channel \<Rightarrow> string" where
  "ch_key (TriggerChannel n ms) = n"
| "ch_key (BarrierChannel n gs r) = make_router_key n gs"

fun ch_is_ready :: "channel \<Rightarrow> bool" where
  "ch_is_ready (TriggerChannel n ms) \<longleftrightarrow> 0 < length ms"
| "ch_is_ready (BarrierChannel n gs r) \<longleftrightarrow> r \<noteq> [] \<and> list_all (\<lambda>g. sinter g r \<noteq> []) gs"

text \<open>\<open>accept\<close> reports whether the channel changed.\<close>

fun ch_accept :: "message \<Rightarrow> channel \<Rightarrow> bool \<times> channel" where
  "ch_accept (TriggerMessage s t) (TriggerChannel n ms) = (True, TriggerChannel n (ms @ [TriggerMessage s t]))"
| "ch_accept (BarrierMessage s t) (BarrierChannel n gs r) =
     (if s \<notin> set r then (True, BarrierChannel n gs (sadd s r)) else (False, BarrierChannel n gs r))"
| "ch_accept _ ch = (False, ch)"

fun ch_consume :: "channel \<Rightarrow> channel" where
  "ch_consume (TriggerChannel n ms) = TriggerChannel n []"
| "ch_consume (BarrierChannel n gs r) = BarrierChannel n gs []"

datatype chan_snap = SnapMessages "message list" | SnapSenders "string list"

fun ch_snapshot :: "channel \<Rightarrow> chan_snap" where
  "ch_snapshot (TriggerChannel n ms) = SnapMessages ms"
| "ch_snapshot (BarrierChannel n gs r) = SnapSenders r"

text \<open>
  A saved graph state is restored into the graph that saved it, so a position holds the kind of
  snapshot its channel writes; the last equation is for the mixed cases this excludes.
\<close>

fun ch_restore :: "chan_snap \<Rightarrow> channel \<Rightarrow> channel" where
  "ch_restore (SnapMessages ms') (TriggerChannel n ms) = TriggerChannel n ms'"
| "ch_restore (SnapSenders r') (BarrierChannel n gs r) = BarrierChannel n gs (pyset r')"
| "ch_restore _ ch = ch"

fun snap_nonempty :: "chan_snap \<Rightarrow> bool" where
  "snap_nonempty (SnapMessages ms) \<longleftrightarrow> ms \<noteq> []"
| "snap_nonempty (SnapSenders r) \<longleftrightarrow> r \<noteq> []"

section \<open>The channel manager\<close>

record channel_mgr =
  cm_channels :: "channel list"
  cm_by_key :: "(string, nat) pydict"
  cm_by_node :: "(string, nat list) pydict"
  cm_ready :: "string list"
  cm_buffer :: "message list"

definition add_channel :: "nat \<times> channel \<Rightarrow> channel_mgr \<Rightarrow> channel_mgr" where
  "add_channel ich m =
     (let (i, ch) = ich
      in m\<lparr>cm_by_key := dset (ch_key ch) i (cm_by_key m),
           cm_by_node := dset (ch_name ch) (dget_default [] (cm_by_node m) (ch_name ch) @ [i]) (cm_by_node m),
           cm_ready := (if ch_is_ready ch then sadd (ch_name ch) (cm_ready m) else cm_ready m)\<rparr>)"

definition manager_init :: "channel list \<Rightarrow> channel_mgr" where
  "manager_init chs =
     fold add_channel (enumerate 0 chs)
       \<lparr>cm_channels = chs, cm_by_key = [], cm_by_node = [], cm_ready = [], cm_buffer = []\<rparr>"

definition buffer_message :: "message \<Rightarrow> channel_mgr \<Rightarrow> channel_mgr" where
  "buffer_message msg m = m\<lparr>cm_buffer := cm_buffer m @ [msg]\<rparr>"

definition mgr_is_empty :: "channel_mgr \<Rightarrow> bool" where
  "mgr_is_empty m \<longleftrightarrow> length (cm_buffer m) = 0"

definition node_channels :: "channel_mgr \<Rightarrow> string \<Rightarrow> nat list" where
  "node_channels m n = dget_default [] (cm_by_node m) n"

text \<open>
  The delivery loop of \<open>flush\<close>: it raises at the first message without a channel, with the
  messages before it already accepted.
\<close>

fun deliver ::
  "(string, nat) pydict \<Rightarrow> message list \<Rightarrow> channel list \<times> string list \<Rightarrow> unit res \<times> channel list \<times> string list"
where
  "deliver by_key [] acc = (Inr (), acc)"
| "deliver by_key (msg # msgs) (chs, updated) =
     (case dget by_key (target msg) of
        None \<Rightarrow> (Inl ValueError, chs, updated)
      | Some i \<Rightarrow>
          (let (changed, ch) = ch_accept msg (chs ! i)
           in deliver by_key msgs
                (chs[i := ch], if changed then sadd (ch_name ch) updated else updated)))"

definition mark_ready :: "channel list \<Rightarrow> (string, nat list) pydict \<Rightarrow> string \<Rightarrow> string list \<Rightarrow> string list" where
  "mark_ready chs by_node n ready =
     (if list_ex (\<lambda>i. ch_is_ready (chs ! i)) (dget_default [] by_node n) then sadd n ready else ready)"

definition flush :: "channel_mgr \<Rightarrow> unit res \<times> channel_mgr" where
  "flush m =
     (case deliver (cm_by_key m) (cm_buffer m) (cm_channels m, []) of
        (Inl e, chs, _) \<Rightarrow> (Inl e, m\<lparr>cm_channels := chs\<rparr>)
      | (Inr _, chs, updated) \<Rightarrow>
          (Inr (), m\<lparr>cm_channels := chs, cm_buffer := [],
                     cm_ready := fold (mark_ready chs (cm_by_node m)) updated (cm_ready m)\<rparr>))"

text \<open>The order in which a set of node names is listed is up to the interpreter.\<close>

definition get_ready_nodes :: "(string list \<Rightarrow> string list) \<Rightarrow> channel_mgr \<Rightarrow> string list" where
  "get_ready_nodes order m = order (cm_ready m)"

definition consume_at :: "nat \<Rightarrow> channel list \<Rightarrow> channel list" where
  "consume_at i chs = (if ch_is_ready (chs ! i) then chs[i := ch_consume (chs ! i)] else chs)"

definition mgr_consume :: "string \<Rightarrow> channel_mgr \<Rightarrow> channel_mgr" where
  "mgr_consume n m =
     (case dget (cm_by_node m) n of
        None \<Rightarrow> m
      | Some is \<Rightarrow> m\<lparr>cm_channels := fold consume_at is (cm_channels m), cm_ready := sdiscard n (cm_ready m)\<rparr>)"

definition mgr_snapshot :: "channel_mgr \<Rightarrow> (string, chan_snap list) pydict" where
  "mgr_snapshot m =
     filter (\<lambda>(n, snaps). n \<noteq> END_NODE \<and> list_ex snap_nonempty snaps)
       (map (\<lambda>(n, is). (n, map (\<lambda>i. ch_snapshot (cm_channels m ! i)) is)) (cm_by_node m))"

definition restore_at :: "string \<Rightarrow> nat \<times> chan_snap \<Rightarrow> channel_mgr \<Rightarrow> channel_mgr" where
  "restore_at n ist m =
     (let (i, st) = ist
      in if snap_nonempty st
         then (let ch = ch_restore st (cm_channels m ! i)
               in m\<lparr>cm_channels := (cm_channels m)[i := ch],
                    cm_ready := (if ch_is_ready ch then sadd n (cm_ready m) else cm_ready m)\<rparr>)
         else m)"

definition restore_node :: "string \<times> chan_snap list \<Rightarrow> channel_mgr \<Rightarrow> channel_mgr" where
  "restore_node nsnaps m =
     (let (n, snaps) = nsnaps
      in case dget (cm_by_node m) n of
           None \<Rightarrow> m
         | Some is \<Rightarrow> if length is = length snaps then fold (restore_at n) (zip is snaps) m else m)"

definition mgr_restore :: "(string, chan_snap list) pydict \<Rightarrow> channel_mgr \<Rightarrow> channel_mgr" where
  "mgr_restore snap m = fold restore_node snap m"

section \<open>The channel contract\<close>

text \<open>What the manager relies on, for any kind of channel.\<close>

locale channel_kind =
  fixes is_ready :: "'c \<Rightarrow> bool" and accept :: "'m \<Rightarrow> 'c \<Rightarrow> bool \<times> 'c" and consume :: "'c \<Rightarrow> 'c"
    and snapshot :: "'c \<Rightarrow> 's" and restore :: "'s \<Rightarrow> 'c \<Rightarrow> 'c" and nonempty :: "'s \<Rightarrow> bool" and name :: "'c \<Rightarrow> 'n"
  assumes unchanged: "\<not> fst (accept m c) \<Longrightarrow> snd (accept m c) = c"
    and still_ready: "is_ready c \<Longrightarrow> is_ready (snd (accept m c))"
    and consumed: "\<not> is_ready (consume c)"
    and ready_nonempty: "is_ready c \<Longrightarrow> nonempty (snapshot c)"
    and restored: "is_ready (restore (snapshot c) (consume c)) = is_ready c"
    and names: "name (snd (accept m c)) = name c" "name (consume c) = name c" "name (restore s c) = name c"
begin

lemma fold_accept_ready: "is_ready c \<Longrightarrow> is_ready (fold (\<lambda>m c. snd (accept m c)) ms c)"
  by (induction ms arbitrary: c) (auto simp: still_ready)

lemma fold_accept_name: "name (fold (\<lambda>m c. snd (accept m c)) ms c) = name c"
  by (induction ms arbitrary: c) (auto simp: names)

lemma becomes_ready_changed:
  assumes "\<not> is_ready c" and "is_ready (snd (accept m c))"
  shows "fst (accept m c)"
  using assms unchanged by metis

end

lemma ch_accept_name [simp]: "ch_name (snd (ch_accept m c)) = ch_name c"
  by (cases m; cases c) auto

lemma sinter_empty_iff: "sinter g r = [] \<longleftrightarrow> set g \<inter> set r = {}"
  by (auto simp: sinter_def filter_empty_conv)

lemma barrier_ready_iff:
  "ch_is_ready (BarrierChannel n gs r) \<longleftrightarrow> set r \<noteq> {} \<and> (\<forall>g \<in> set gs. set g \<inter> set r \<noteq> {})"
  by (auto simp: list_all_iff sinter_empty_iff)

declare ch_is_ready.simps(2) [simp del]

interpretation chan: channel_kind ch_is_ready ch_accept ch_consume ch_snapshot ch_restore snap_nonempty ch_name
proof
  fix m :: message and c d :: channel and s :: chan_snap
  show "\<not> fst (ch_accept m c) \<Longrightarrow> snd (ch_accept m c) = c"
    by (cases m; cases c) (auto split: if_splits)
  show "ch_is_ready c \<Longrightarrow> ch_is_ready (snd (ch_accept m c))"
    by (cases m; cases c) (auto simp: barrier_ready_iff)
  show "\<not> ch_is_ready (ch_consume c)" by (cases c) (auto simp: barrier_ready_iff)
  show "ch_is_ready c \<Longrightarrow> snap_nonempty (ch_snapshot c)" by (cases c) (auto simp: barrier_ready_iff)
  show "ch_is_ready (ch_restore (ch_snapshot c) (ch_consume c)) = ch_is_ready c"
    by (cases c) (auto simp: barrier_ready_iff)
  show "ch_name (snd (ch_accept m c)) = ch_name c" by (cases m; cases c) auto
  show "ch_name (ch_consume c) = ch_name c" by (cases c) auto
  show "ch_name (ch_restore s c) = ch_name c" by (cases s; cases c) auto
qed

lemma ch_key_accept [simp]: "ch_key (snd (ch_accept m c)) = ch_key c"
  by (cases m; cases c) auto

lemma ch_key_consume [simp]: "ch_key (ch_consume c) = ch_key c"
  by (cases c) auto

lemma ch_key_restore [simp]: "ch_key (ch_restore s c) = ch_key c"
  by (cases s; cases c) auto

section \<open>Well-formed managers\<close>

definition layout :: "channel list \<Rightarrow> (string \<times> string) list" where
  "layout chs = map (\<lambda>c. (ch_key c, ch_name c)) chs"

definition positions :: "channel list \<Rightarrow> string \<Rightarrow> nat list" where
  "positions chs n = filter (\<lambda>i. ch_name (chs ! i) = n) [0..<length chs]"

text \<open>
  The indexes describe the channels: by key the last channel with that key, by node the positions
  of the node's channels in order.
\<close>

definition mgr_wf :: "channel_mgr \<Rightarrow> bool" where
  "mgr_wf m \<longleftrightarrow> dwf (cm_by_node m) \<and>
     (\<forall>n. dget (cm_by_node m) n =
        (if positions (cm_channels m) n = [] then None else Some (positions (cm_channels m) n))) \<and>
     (\<forall>k. dget (cm_by_key m) k =
        (if k \<in> ch_key ` set (cm_channels m)
         then Some (Max {i. i < length (cm_channels m) \<and> ch_key (cm_channels m ! i) = k}) else None))"

text \<open>The ready set is exact: the nodes with a ready channel.\<close>

definition ready_exact :: "channel_mgr \<Rightarrow> bool" where
  "ready_exact m \<longleftrightarrow> distinct (cm_ready m) \<and>
     set (cm_ready m) = ch_name ` {c \<in> set (cm_channels m). ch_is_ready c}"

lemma layoutD:
  assumes "layout chs = layout chs'"
  shows "length chs = length chs'" and "map ch_key chs = map ch_key chs'" and "map ch_name chs = map ch_name chs'"
proof -
  have "map ch_key c = map fst (layout c)" "map ch_name c = map snd (layout c)" for c
    by (simp_all add: layout_def comp_def)
  then show "map ch_key chs = map ch_key chs'" "map ch_name chs = map ch_name chs'" using assms by simp_all
  then show "length chs = length chs'" by (metis length_map)
qed

lemma positions_names: "positions chs n = filter (\<lambda>i. map ch_name chs ! i = n) [0..<length chs]"
  by (auto simp: positions_def intro: filter_cong)

lemma positions_layout:
  assumes "layout chs = layout chs'" shows "positions chs n = positions chs' n"
  unfolding positions_names by (simp add: layoutD[OF assms])

definition last_with_key :: "string list \<Rightarrow> string \<Rightarrow> nat option" where
  "last_with_key ks k = (if k \<in> set ks then Some (Max {i. i < length ks \<and> ks ! i = k}) else None)"

lemma mgr_wf_iff:
  "mgr_wf m \<longleftrightarrow> dwf (cm_by_node m) \<and>
     (\<forall>n. dget (cm_by_node m) n =
        (if positions (cm_channels m) n = [] then None else Some (positions (cm_channels m) n))) \<and>
     (\<forall>k. dget (cm_by_key m) k = last_with_key (map ch_key (cm_channels m)) k)"
proof -
  have "{i. i < length chs \<and> ch_key (chs ! i) = k} = {i. i < length (map ch_key chs) \<and> map ch_key chs ! i = k}"
    for chs k by auto
  then show ?thesis by (simp add: mgr_wf_def last_with_key_def)
qed

lemma mgr_wf_layout:
  assumes "mgr_wf m" and "layout (cm_channels m') = layout (cm_channels m)"
    and "cm_by_node m' = cm_by_node m" and "cm_by_key m' = cm_by_key m"
  shows "mgr_wf m'"
  using assms(1) unfolding mgr_wf_iff by (simp add: assms(3,4) layoutD[OF assms(2)] positions_layout[OF assms(2)])

lemma positions_mem: "i \<in> set (positions chs n) \<longleftrightarrow> i < length chs \<and> ch_name (chs ! i) = n"
  by (auto simp: positions_def)

lemma by_key_index:
  assumes "mgr_wf m" and "dget (cm_by_key m) k = Some i"
  shows "i < length (cm_channels m)" and "ch_key (cm_channels m ! i) = k"
proof -
  let ?I = "{i. i < length (cm_channels m) \<and> ch_key (cm_channels m ! i) = k}"
  have k: "k \<in> ch_key ` set (cm_channels m)" "i = Max ?I"
    using assms by (auto simp: mgr_wf_def split: if_splits)
  then have "?I \<noteq> {}" by (auto simp: in_set_conv_nth)
  then have "i \<in> ?I" unfolding k(2) by (intro Max_in) auto
  then show "i < length (cm_channels m)" "ch_key (cm_channels m ! i) = k" by auto
qed

lemma by_key_None: "mgr_wf m \<Longrightarrow> dget (cm_by_key m) k = None \<longleftrightarrow> k \<notin> ch_key ` set (cm_channels m)"
  by (auto simp: mgr_wf_def)

lemma positions_snoc:
  "positions (xs @ [x]) n = positions xs n @ (if ch_name x = n then [length xs] else [])"
  by (auto simp: positions_def nth_append intro: filter_cong)

lemma last_with_key_snoc:
  "last_with_key (ks @ [k]) q = (if q = k then Some (length ks) else last_with_key ks q)"
proof -
  let ?I = "{i. i < Suc (length ks) \<and> (ks @ [k]) ! i = q}"
  show ?thesis
  proof (cases "q = k")
    case True
    then have "Max ?I = length ks"
      by (intro Max_eqI) (auto simp: less_Suc_eq_le)
    with True show ?thesis by (simp add: last_with_key_def)
  next
    case False
    then have "?I = {i. i < length ks \<and> ks ! i = q}"
      by (auto simp: nth_append less_Suc_eq)
    with False show ?thesis by (simp add: last_with_key_def)
  qed
qed

lemma add_channel_sel [simp]:
  "cm_channels (add_channel (i, ch) m) = cm_channels m"
  "cm_by_key (add_channel (i, ch) m) = dset (ch_key ch) i (cm_by_key m)"
  "cm_by_node (add_channel (i, ch) m) =
     dset (ch_name ch) (dget_default [] (cm_by_node m) (ch_name ch) @ [i]) (cm_by_node m)"
  "cm_ready (add_channel (i, ch) m) = (if ch_is_ready ch then sadd (ch_name ch) (cm_ready m) else cm_ready m)"
  "cm_buffer (add_channel (i, ch) m) = cm_buffer m"
  by (simp_all add: add_channel_def)

lemma manager_init_fold:
  fixes m0 :: channel_mgr and xs :: "channel list"
  assumes "m0 = \<lparr>cm_channels = chs, cm_by_key = [], cm_by_node = [], cm_ready = [], cm_buffer = []\<rparr>"
  defines "m \<equiv> fold add_channel (enumerate 0 xs) m0"
  shows "cm_channels m = chs \<and> cm_buffer m = [] \<and> dwf (cm_by_node m) \<and>
    (\<forall>n. dget (cm_by_node m) n = (if positions xs n = [] then None else Some (positions xs n))) \<and>
    (\<forall>k. dget (cm_by_key m) k = last_with_key (map ch_key xs) k) \<and>
    distinct (cm_ready m) \<and> set (cm_ready m) = ch_name ` {c \<in> set xs. ch_is_ready c}"
  unfolding m_def
proof (induction xs rule: rev_induct)
  case Nil
  then show ?case by (simp add: assms(1) positions_def last_with_key_def)
next
  case (snoc x xs)
  let ?p = "fold add_channel (enumerate 0 xs) m0"
  have step: "fold add_channel (enumerate 0 (xs @ [x])) m0 = add_channel (length xs, x) ?p"
    by (simp add: enumerate_append_eq)
  have g: "dget_default [] (cm_by_node ?p) n = positions xs n" for n
    using snoc.IH by (simp add: dget_default_def)
  have n: "(if positions (xs @ [x]) n = [] then None else Some (positions (xs @ [x]) n)) =
      (if n = ch_name x then Some (positions xs n @ [length xs])
       else if positions xs n = [] then None else Some (positions xs n))" for n
    by (simp add: positions_snoc)
  have r: "{c \<in> set (xs @ [x]). ch_is_ready c} =
      (if ch_is_ready x then insert x {c \<in> set xs. ch_is_ready c} else {c \<in> set xs. ch_is_ready c})"
    by auto
  show ?case
    unfolding step n r using snoc.IH by (simp add: g last_with_key_snoc)
qed

lemma manager_init_ok:
  "mgr_wf (manager_init chs)" "ready_exact (manager_init chs)"
  "cm_channels (manager_init chs) = chs" "cm_buffer (manager_init chs) = []"
  using manager_init_fold[OF refl, of chs chs]
  by (simp_all add: manager_init_def mgr_wf_iff ready_exact_def)

section \<open>Flushing\<close>

abbreviation accepts :: "message list \<Rightarrow> channel \<Rightarrow> channel" where
  "accepts ms c \<equiv> fold (\<lambda>m c. snd (ch_accept m c)) ms c"

lemma layout_update:
  assumes "i < length chs \<Longrightarrow> ch_key c = ch_key (chs ! i) \<and> ch_name c = ch_name (chs ! i)"
  shows "layout (chs[i := c]) = layout chs"
  using assms
  by (cases "i < length chs") (simp_all add: layout_def map_update list_update_same_conv list_update_beyond)

lemma deliver_spec:
  assumes "\<forall>k i. dget bk k = Some i \<longrightarrow> i < length chs"
    and "deliver bk msgs (chs, upd) = (r, chs', upd')"
    and known: "known = takeWhile (\<lambda>m. dget bk (target m) \<noteq> None) msgs"
  shows "layout chs' = layout chs"
    and "r = (if \<forall>m \<in> set msgs. dget bk (target m) \<noteq> None then Inr () else Inl ValueError)"
    and "distinct upd \<Longrightarrow> distinct upd'" and "set upd \<subseteq> set upd'"
    and "i < length chs \<Longrightarrow> chs' ! i = accepts (filter (\<lambda>m. dget bk (target m) = Some i) known) (chs ! i)"
    and "i < length chs \<Longrightarrow> chs' ! i \<noteq> chs ! i \<Longrightarrow> ch_name (chs ! i) \<in> set upd'"
    and "set upd' \<subseteq> set upd \<union> ch_name ` set chs"
proof -
  have "layout chs' = layout chs \<and>
    r = (if \<forall>m \<in> set msgs. dget bk (target m) \<noteq> None then Inr () else Inl ValueError) \<and>
    (distinct upd \<longrightarrow> distinct upd') \<and> set upd \<subseteq> set upd' \<and>
    (\<forall>i < length chs. chs' ! i = accepts (filter (\<lambda>m. dget bk (target m) = Some i)
        (takeWhile (\<lambda>m. dget bk (target m) \<noteq> None) msgs)) (chs ! i)) \<and>
    (\<forall>i < length chs. chs' ! i \<noteq> chs ! i \<longrightarrow> ch_name (chs ! i) \<in> set upd') \<and>
    set upd' \<subseteq> set upd \<union> ch_name ` set chs"
    using assms(1,2)
  proof (induction msgs arbitrary: chs upd)
    case Nil
    then show ?case by auto
  next
    case (Cons msg msgs)
    show ?case
    proof (cases "dget bk (target msg)")
      case None
      with Cons.prems show ?thesis by auto
    next
      case (Some j)
      then have j: "j < length chs" using Cons.prems(1) by blast
      define ch where "ch = snd (ch_accept msg (chs ! j))"
      define chs1 where "chs1 = chs[j := ch]"
      define upd1 where "upd1 = (if fst (ch_accept msg (chs ! j)) then sadd (ch_name ch) upd else upd)"
      have run: "deliver bk msgs (chs1, upd1) = (r, chs', upd')"
        using Cons.prems(2) Some by (cases "ch_accept msg (chs ! j)") (simp add: Let_def chs1_def upd1_def ch_def split: if_splits)
      have len: "length chs1 = length chs" by (simp add: chs1_def)
      have lay: "layout chs1 = layout chs"
        unfolding chs1_def by (rule layout_update) (simp add: ch_def)
      have names: "ch_name ` set chs1 = ch_name ` set chs"
        using layoutD(3)[OF lay] by (metis list.set_map)
      have nm: "ch_name (chs1 ! i) = ch_name (chs ! i)" if "i < length chs" for i
        using layoutD(3)[OF lay] that len by (metis nth_map)
      have bnd: "\<forall>k i. dget bk k = Some i \<longrightarrow> i < length chs1" using Cons.prems(1) len by simp
      note IH = Cons.IH[OF bnd run]
      have ch1: "chs1 ! i = (if i = j then ch else chs ! i)" if "i < length chs" for i
        using that by (simp add: chs1_def)
      have upd: "ch_name (chs ! i) \<in> set upd'" if i: "i < length chs" "chs' ! i \<noteq> chs ! i" for i
      proof (cases "chs' ! i = chs1 ! i")
        case False
        then show ?thesis using IH i(1) len nm by auto
      next
        case True
        then have "chs1 ! i \<noteq> chs ! i" using i(2) by simp
        then have ij: "i = j" "ch \<noteq> chs ! j" using ch1[OF i(1)] by (auto split: if_splits)
        then have "fst (ch_accept msg (chs ! j))" using chan.unchanged unfolding ch_def by blast
        then have "ch_name (chs ! j) \<in> set upd1" by (simp add: upd1_def ch_def)
        then show ?thesis using IH ij(1) by auto
      qed
      have acc: "chs' ! i = accepts (filter (\<lambda>m. dget bk (target m) = Some i)
          (takeWhile (\<lambda>m. dget bk (target m) \<noteq> None) (msg # msgs))) (chs ! i)" if "i < length chs" for i
        using IH that len ch1[OF that] Some by (auto simp: ch_def)
      have d: "distinct upd \<Longrightarrow> distinct upd1" "set upd \<subseteq> set upd1" "set upd1 \<subseteq> set upd \<union> ch_name ` set chs"
        using j by (auto simp: upd1_def ch_def)
      show ?thesis
        using IH lay names upd acc d Some by auto
    qed
  qed
  then show "layout chs' = layout chs"
    and "r = (if \<forall>m \<in> set msgs. dget bk (target m) \<noteq> None then Inr () else Inl ValueError)"
    and "distinct upd \<Longrightarrow> distinct upd'" and "set upd \<subseteq> set upd'"
    and "i < length chs \<Longrightarrow> chs' ! i = accepts (filter (\<lambda>m. dget bk (target m) = Some i) known) (chs ! i)"
    and "i < length chs \<Longrightarrow> chs' ! i \<noteq> chs ! i \<Longrightarrow> ch_name (chs ! i) \<in> set upd'"
    and "set upd' \<subseteq> set upd \<union> ch_name ` set chs"
    by (auto simp: known)
qed

lemma fold_mark_ready:
  assumes "distinct ready"
  shows "distinct (fold (mark_ready chs bn) ns ready)"
    and "set (fold (mark_ready chs bn) ns ready) =
      set ready \<union> {n \<in> set ns. \<exists>i \<in> set (dget_default [] bn n). ch_is_ready (chs ! i)}"
proof -
  have "distinct (fold (mark_ready chs bn) ns ready) \<and> set (fold (mark_ready chs bn) ns ready) =
      set ready \<union> {n \<in> set ns. \<exists>i \<in> set (dget_default [] bn n). ch_is_ready (chs ! i)}"
    using assms
  proof (induction ns arbitrary: ready)
    case (Cons n ns)
    have "distinct (mark_ready chs bn n ready)" using Cons.prems by (simp add: mark_ready_def)
    from Cons.IH[OF this] show ?case
      by (auto simp: mark_ready_def list_ex_iff split: if_splits)
  qed simp
  then show "distinct (fold (mark_ready chs bn) ns ready)"
    and "set (fold (mark_ready chs bn) ns ready) =
      set ready \<union> {n \<in> set ns. \<exists>i \<in> set (dget_default [] bn n). ch_is_ready (chs ! i)}"
    by blast+
qed

definition known_targets :: "channel_mgr \<Rightarrow> message list \<Rightarrow> bool" where
  "known_targets m msgs \<longleftrightarrow> (\<forall>msg \<in> set msgs. target msg \<in> ch_key ` set (cm_channels m))"

text \<open>The channel a key denotes, as a position.\<close>

definition addressed :: "channel_mgr \<Rightarrow> nat \<Rightarrow> message \<Rightarrow> bool" where
  "addressed m i msg \<longleftrightarrow> dget (cm_by_key m) (target msg) = Some i"

lemma node_channels_positions: "mgr_wf m \<Longrightarrow> dget_default [] (cm_by_node m) n = positions (cm_channels m) n"
  by (auto simp: mgr_wf_def dget_default_def)

lemma ready_nodes_eq:
  "ch_name ` {c \<in> set chs. ch_is_ready c} = {n. \<exists>i \<in> set (positions chs n). ch_is_ready (chs ! i)}"
proof (intro set_eqI iffI)
  fix n
  assume "n \<in> ch_name ` {c \<in> set chs. ch_is_ready c}"
  then obtain c where "c \<in> set chs" "ch_is_ready c" "ch_name c = n" by blast
  then obtain i where "i < length chs" "ch_is_ready (chs ! i)" "ch_name (chs ! i) = n"
    by (auto simp: in_set_conv_nth)
  then show "n \<in> {n. \<exists>i \<in> set (positions chs n). ch_is_ready (chs ! i)}"
    using positions_mem[of i chs n] by blast
next
  fix n
  assume "n \<in> {n. \<exists>i \<in> set (positions chs n). ch_is_ready (chs ! i)}"
  then obtain i where "i < length chs" "ch_is_ready (chs ! i)" "ch_name (chs ! i) = n"
    using positions_mem[of _ chs n] by blast
  then show "n \<in> ch_name ` {c \<in> set chs. ch_is_ready c}" by force
qed

lemma flush_spec:
  assumes W: "mgr_wf m" and R: "ready_exact m" and K: "known_targets m (cm_buffer m)"
  shows "\<exists>m'. flush m = (Inr (), m') \<and> mgr_wf m' \<and> ready_exact m' \<and> cm_buffer m' = [] \<and>
    layout (cm_channels m') = layout (cm_channels m) \<and>
    cm_by_key m' = cm_by_key m \<and> cm_by_node m' = cm_by_node m \<and>
    (\<forall>i < length (cm_channels m).
       cm_channels m' ! i = accepts (filter (addressed m i) (cm_buffer m)) (cm_channels m ! i))"
proof -
  obtain r chs upd where d: "deliver (cm_by_key m) (cm_buffer m) (cm_channels m, []) = (r, chs, upd)"
    by (metis prod_cases3)
  have bnd: "\<forall>k i. dget (cm_by_key m) k = Some i \<longrightarrow> i < length (cm_channels m)"
    using by_key_index(1)[OF W] by blast
  note D = deliver_spec[OF bnd d refl]
  have all: "\<forall>msg \<in> set (cm_buffer m). dget (cm_by_key m) (target msg) \<noteq> None"
    using K by_key_None[OF W] unfolding known_targets_def by blast
  then have tw: "takeWhile (\<lambda>m'. dget (cm_by_key m) (target m') \<noteq> None) (cm_buffer m) = cm_buffer m"
    by (auto simp: takeWhile_eq_all_conv)
  define m' where "m' = m\<lparr>cm_channels := chs, cm_buffer := [],
    cm_ready := fold (mark_ready chs (cm_by_node m)) upd (cm_ready m)\<rparr>"
  have f: "flush m = (Inr (), m')" using D(2) all by (simp add: flush_def d m'_def)
  have sel: "cm_channels m' = chs" "cm_by_node m' = cm_by_node m" "cm_by_key m' = cm_by_key m" "cm_buffer m' = []"
    by (simp_all add: m'_def)
  have wf: "mgr_wf m'" by (rule mgr_wf_layout[OF W]) (simp_all add: sel D(1))
  have len: "length chs = length (cm_channels m)" using layoutD(1)[OF D(1)] .
  have pos: "positions chs n = positions (cm_channels m) n" for n by (rule positions_layout[OF D(1)])
  have FM: "distinct (cm_ready m')"
      "set (cm_ready m') = set (cm_ready m) \<union> {n \<in> set upd. \<exists>i \<in> set (positions chs n). ch_is_ready (chs ! i)}"
    using fold_mark_ready[of "cm_ready m" chs "cm_by_node m" upd] R
    by (simp_all add: m'_def ready_exact_def node_channels_positions[OF W] pos)
  have mono: "ch_is_ready (chs ! i)" if "i < length chs" "ch_is_ready (cm_channels m ! i)" for i
    using D(5)[of i] that len chan.fold_accept_ready by simp
  have set: "set (cm_ready m') = {n. \<exists>i \<in> set (positions chs n). ch_is_ready (chs ! i)}"
  proof (intro set_eqI iffI)
    fix n
    assume "n \<in> set (cm_ready m')"
    then consider "n \<in> set (cm_ready m)" | "\<exists>i \<in> set (positions chs n). ch_is_ready (chs ! i)"
      unfolding FM(2) by blast
    then show "n \<in> {n. \<exists>i \<in> set (positions chs n). ch_is_ready (chs ! i)}"
    proof cases
      case 1
      then have "n \<in> {n. \<exists>i \<in> set (positions (cm_channels m) n). ch_is_ready (cm_channels m ! i)}"
        using R unfolding ready_exact_def ready_nodes_eq by blast
      then obtain i where "i \<in> set (positions chs n)" "ch_is_ready (cm_channels m ! i)"
        unfolding pos by blast
      then show ?thesis using mono[of i] by (auto simp: positions_mem)
    qed blast
  next
    fix n
    assume "n \<in> {n. \<exists>i \<in> set (positions chs n). ch_is_ready (chs ! i)}"
    then obtain i where i: "i \<in> set (positions chs n)" "ch_is_ready (chs ! i)" by blast
    then have il: "i < length (cm_channels m)" "ch_name (cm_channels m ! i) = n"
      using pos by (auto simp: positions_mem)
    show "n \<in> set (cm_ready m')"
    proof (cases "chs ! i = cm_channels m ! i")
      case True
      then have "n \<in> {n. \<exists>i \<in> set (positions (cm_channels m) n). ch_is_ready (cm_channels m ! i)}"
        using i pos by auto
      then have "n \<in> set (cm_ready m)" using R unfolding ready_exact_def ready_nodes_eq by blast
      then show ?thesis by (simp add: FM(2))
    next
      case False
      then have "n \<in> set upd" using D(6)[OF il(1)] il(2) by simp
      then show ?thesis using i by (auto simp: FM(2))
    qed
  qed
  have "ready_exact m'" unfolding ready_exact_def ready_nodes_eq sel(1) using FM(1) set by blast
  moreover have "\<forall>i < length (cm_channels m).
      chs ! i = accepts (filter (addressed m i) (cm_buffer m)) (cm_channels m ! i)"
    using D(5) unfolding tw addressed_def by blast
  ultimately show ?thesis using f wf sel D(1) by simp
qed

lemma flush_unknown:
  assumes W: "mgr_wf m" and K: "\<not> known_targets m (cm_buffer m)"
  shows "fst (flush m) = Inl ValueError" and "cm_buffer (snd (flush m)) = cm_buffer m"
    and "cm_ready (snd (flush m)) = cm_ready m"
proof -
  obtain r chs upd where d: "deliver (cm_by_key m) (cm_buffer m) (cm_channels m, []) = (r, chs, upd)"
    by (metis prod_cases3)
  have "\<not> (\<forall>msg \<in> set (cm_buffer m). dget (cm_by_key m) (target msg) \<noteq> None)"
    using K by_key_None[OF W] unfolding known_targets_def by blast
  moreover have "\<forall>k i. dget (cm_by_key m) k = Some i \<longrightarrow> i < length (cm_channels m)"
    using by_key_index(1)[OF W] by blast
  ultimately have "r = Inl ValueError" using deliver_spec(2)[OF _ d refl] by simp
  then show "fst (flush m) = Inl ValueError" and "cm_buffer (snd (flush m)) = cm_buffer m"
    and "cm_ready (snd (flush m)) = cm_ready m"
    by (simp_all add: flush_def d)
qed

section \<open>Consuming\<close>

lemma consume_at_sel:
  "length (consume_at i chs) = length chs"
  "j < length chs \<Longrightarrow> consume_at i chs ! j = (if j = i \<and> ch_is_ready (chs ! i) then ch_consume (chs ! i) else chs ! j)"
  by (auto simp: consume_at_def)

lemma fold_consume_at:
  assumes "distinct is" and "j < length chs"
  shows "fold consume_at is chs ! j =
    (if j \<in> set is \<and> ch_is_ready (chs ! j) then ch_consume (chs ! j) else chs ! j)"
  using assms
proof (induction "is" arbitrary: chs)
  case (Cons i "is")
  then show ?case by (auto simp: consume_at_sel chan.consumed)
qed simp

lemma length_fold_consume_at [simp]: "length (fold consume_at is chs) = length chs"
  by (induction "is" arbitrary: chs) (auto simp: consume_at_sel)

lemma consume_spec:
  assumes W: "mgr_wf m" and R: "ready_exact m"
  shows "mgr_wf (mgr_consume n m)" and "ready_exact (mgr_consume n m)"
    and "layout (cm_channels (mgr_consume n m)) = layout (cm_channels m)"
    and "cm_by_key (mgr_consume n m) = cm_by_key m" and "cm_by_node (mgr_consume n m) = cm_by_node m"
    and "cm_buffer (mgr_consume n m) = cm_buffer m"
    and "set (cm_ready (mgr_consume n m)) = set (cm_ready m) - {n}"
    and "i < length (cm_channels m) \<Longrightarrow> cm_channels (mgr_consume n m) ! i =
      (if ch_name (cm_channels m ! i) = n \<and> ch_is_ready (cm_channels m ! i)
       then ch_consume (cm_channels m ! i) else cm_channels m ! i)"
proof -
  let ?m = "mgr_consume n m" and ?chs = "cm_channels m"
  have dist: "distinct (positions ?chs n)" by (simp add: positions_def)
  show keys: "cm_by_key ?m = cm_by_key m" "cm_by_node ?m = cm_by_node m" and buf: "cm_buffer ?m = cm_buffer m"
    by (auto simp: mgr_consume_def split: option.splits)
  have ch: "cm_channels ?m ! i = (if ch_name (?chs ! i) = n \<and> ch_is_ready (?chs ! i)
       then ch_consume (?chs ! i) else ?chs ! i)" if "i < length ?chs" for i
  proof (cases "positions ?chs n = []")
    case True
    then have "dget (cm_by_node m) n = None" using W by (simp add: mgr_wf_def)
    moreover have "ch_name (?chs ! i) \<noteq> n" using True that positions_mem[of i ?chs n] by auto
    ultimately show ?thesis by (simp add: mgr_consume_def)
  next
    case False
    then have "dget (cm_by_node m) n = Some (positions ?chs n)" using W by (simp add: mgr_wf_def)
    then show ?thesis using fold_consume_at[OF dist that] that by (simp add: mgr_consume_def positions_mem)
  qed
  then show "i < length ?chs \<Longrightarrow> cm_channels ?m ! i = (if ch_name (?chs ! i) = n \<and> ch_is_ready (?chs ! i)
       then ch_consume (?chs ! i) else ?chs ! i)" .
  have len: "length (cm_channels ?m) = length ?chs"
    by (auto simp: mgr_consume_def split: option.splits)
  show lay: "layout (cm_channels ?m) = layout ?chs"
    unfolding layout_def by (rule nth_equalityI) (simp_all add: len ch chan.names)
  show "mgr_wf ?m" by (rule mgr_wf_layout[OF W lay keys(2,1)])
  have nopos: "n \<notin> set (cm_ready m)" if "positions ?chs n = []"
    using R that unfolding ready_exact_def ready_nodes_eq by auto
  have rdy: "cm_ready ?m = (if positions ?chs n = [] then cm_ready m else sdiscard n (cm_ready m))"
    using W by (simp add: mgr_consume_def mgr_wf_def)
  show rs: "set (cm_ready ?m) = set (cm_ready m) - {n}"
    using nopos by (simp add: rdy)
  have pos: "positions (cm_channels ?m) k = positions ?chs k" for k by (rule positions_layout[OF lay])
  have "{k. \<exists>i \<in> set (positions ?chs k). ch_is_ready (cm_channels ?m ! i)} =
      {k. \<exists>i \<in> set (positions ?chs k). ch_is_ready (?chs ! i)} - {n}"
    by (auto simp: positions_mem ch chan.consumed split: if_splits)
  then have "set (cm_ready ?m) = {k. \<exists>i \<in> set (positions (cm_channels ?m) k). ch_is_ready (cm_channels ?m ! i)}"
    using R unfolding rs pos ready_exact_def ready_nodes_eq by simp
  moreover have "distinct (cm_ready ?m)" using R by (simp add: rdy ready_exact_def)
  ultimately show "ready_exact ?m" unfolding ready_exact_def ready_nodes_eq by blast
qed

section \<open>Saving and restoring\<close>

fun ch_ok :: "channel \<Rightarrow> bool" where
  "ch_ok (TriggerChannel n ms) = True"
| "ch_ok (BarrierChannel n gs r) = distinct r"

lemma sunion_distinct_id: "distinct (xs @ ys) \<Longrightarrow> sunion xs ys = xs @ ys"
proof (induction ys arbitrary: xs)
  case (Cons y ys)
  then have "sadd y xs = xs @ [y]" by (simp add: sadd_def)
  with Cons show ?case by (simp add: sunion_def)
qed (simp add: sunion_def)

lemma pyset_id: "distinct xs \<Longrightarrow> pyset xs = xs"
  using sunion_distinct_id[of "[]" xs] by (simp add: pyset_def)

lemma ch_restore_snapshot: "ch_ok c \<Longrightarrow> ch_restore (ch_snapshot c) (ch_consume c) = c"
  by (cases c) (auto simp: pyset_id)

lemma snap_empty_consumed: "\<not> snap_nonempty (ch_snapshot c) \<Longrightarrow> ch_consume c = c"
  by (cases c) auto

lemma ch_ok_accept: "ch_ok c \<Longrightarrow> ch_ok (snd (ch_accept m c))"
  by (cases m; cases c) auto

lemma ch_ok_accepts: "ch_ok c \<Longrightarrow> ch_ok (accepts ms c)"
  by (induction ms arbitrary: c) (auto simp: ch_ok_accept)

lemma ch_ok_consume: "ch_ok c \<Longrightarrow> ch_ok (ch_consume c)"
  by (cases c) auto

text \<open>
  Restoring entry by entry: the positions in \<open>S\<close> have been given the saved state \<open>f\<close>, the rest is
  as it was, and the ready nodes are those with a restored channel that is ready.
\<close>

definition restored_at :: "(nat \<Rightarrow> chan_snap) \<Rightarrow> nat set \<Rightarrow> nat \<Rightarrow> bool" where
  "restored_at f S i \<longleftrightarrow> i \<in> S \<and> snap_nonempty (f i)"

definition restoring :: "channel_mgr \<Rightarrow> (nat \<Rightarrow> chan_snap) \<Rightarrow> nat set \<Rightarrow> channel_mgr \<Rightarrow> bool" where
  "restoring m0 f S m \<longleftrightarrow>
     cm_by_node m = cm_by_node m0 \<and> cm_by_key m = cm_by_key m0 \<and> cm_buffer m = cm_buffer m0 \<and>
     length (cm_channels m) = length (cm_channels m0) \<and> distinct (cm_ready m) \<and>
     (\<forall>i < length (cm_channels m0). cm_channels m ! i =
        (if restored_at f S i then ch_restore (f i) (cm_channels m0 ! i) else cm_channels m0 ! i)) \<and>
     set (cm_ready m) = {ch_name (cm_channels m0 ! i) | i. i < length (cm_channels m0) \<and>
        restored_at f S i \<and> ch_is_ready (ch_restore (f i) (cm_channels m0 ! i))}"

lemma restoring_step:
  assumes "restoring m0 f S m" and "i < length (cm_channels m0)" and "i \<notin> S" and "ch_name (cm_channels m0 ! i) = n"
  shows "restoring m0 f (insert i S) (restore_at n (i, f i) m)"
proof (cases "snap_nonempty (f i)")
  case False
  then have "restored_at f (insert i S) j \<longleftrightarrow> restored_at f S j" for j by (auto simp: restored_at_def)
  with False assms(1) show ?thesis by (simp add: restoring_def restore_at_def)
next
  case True
  have r: "restored_at f (insert i S) j \<longleftrightarrow> restored_at f S j \<or> j = i" for j
    using True by (auto simp: restored_at_def)
  have c: "cm_channels m ! i = cm_channels m0 ! i"
    using assms(1,2,3) by (simp add: restoring_def restored_at_def)
  let ?ch = "ch_restore (f i) (cm_channels m0 ! i)"
  have m': "restore_at n (i, f i) m = m\<lparr>cm_channels := (cm_channels m)[i := ?ch],
      cm_ready := (if ch_is_ready ?ch then sadd n (cm_ready m) else cm_ready m)\<rparr>"
    using True by (simp add: restore_at_def c Let_def)
  have "set (cm_ready (restore_at n (i, f i) m)) =
      {ch_name (cm_channels m0 ! j) | j. j < length (cm_channels m0) \<and>
        restored_at f (insert i S) j \<and> ch_is_ready (ch_restore (f j) (cm_channels m0 ! j))}"
    unfolding m' r using assms(1,2,4) by (auto simp: restoring_def)
  with assms(1,2) show ?thesis
    unfolding restoring_def r by (auto simp: m' nth_list_update)
qed

lemma restoring_node:
  assumes "restoring m0 f S m" and "distinct is" and "set is \<inter> S = {}"
    and "\<forall>i \<in> set is. i < length (cm_channels m0) \<and> ch_name (cm_channels m0 ! i) = n"
  shows "restoring m0 f (S \<union> set is) (fold (restore_at n) (map (\<lambda>i. (i, f i)) is) m)"
  using assms
proof (induction "is" arbitrary: S m)
  case (Cons i "is")
  have "restoring m0 f (insert i S) (restore_at n (i, f i) m)"
    by (rule restoring_step[OF Cons.prems(1)]) (use Cons.prems in auto)
  from Cons.IH[OF this] Cons.prems show ?case by simp
qed simp

lemma restore_node_positions:
  assumes "mgr_wf m0" and "cm_by_node m = cm_by_node m0" and "positions (cm_channels m0) n \<noteq> []"
  shows "restore_node (n, map f (positions (cm_channels m0) n)) m =
    fold (restore_at n) (map (\<lambda>i. (i, f i)) (positions (cm_channels m0) n)) m"
  using assms by (simp add: restore_node_def mgr_wf_def zip_map2 zip_same_conv_map comp_def)

lemma restoring_entries:
  assumes W: "mgr_wf m0"
  shows "\<lbrakk>restoring m0 f S m; distinct ns; \<forall>n \<in> set ns. positions (cm_channels m0) n \<noteq> [];
      \<forall>n \<in> set ns. set (positions (cm_channels m0) n) \<inter> S = {}\<rbrakk> \<Longrightarrow>
    restoring m0 f (S \<union> (\<Union>n \<in> set ns. set (positions (cm_channels m0) n)))
      (fold restore_node (map (\<lambda>n. (n, map f (positions (cm_channels m0) n))) ns) m)"
proof (induction ns arbitrary: S m)
  case (Cons n ns)
  let ?p = "positions (cm_channels m0) n"
  let ?m = "restore_node (n, map f ?p) m"
  have eq: "?m = fold (restore_at n) (map (\<lambda>i. (i, f i)) ?p) m"
    using Cons.prems by (intro restore_node_positions[OF W]) (simp_all add: restoring_def)
  have "restoring m0 f (S \<union> set ?p) ?m"
    unfolding eq using Cons.prems
    by (intro restoring_node) (auto simp: positions_def)
  moreover have "\<forall>n' \<in> set ns. set (positions (cm_channels m0) n') \<inter> (S \<union> set ?p) = {}"
    using Cons.prems by (auto simp: positions_def)
  ultimately show ?case
    using Cons.IH[of "S \<union> set ?p" ?m] Cons.prems by (simp add: Un_assoc)
qed simp

definition resumed_channels :: "channel list \<Rightarrow> channel list" where
  "resumed_channels chs = map (\<lambda>c. if ch_name c = END_NODE then ch_consume c else c) chs"

definition saved_nodes :: "channel_mgr \<Rightarrow> string list" where
  "saved_nodes m = filter (\<lambda>n. n \<noteq> END_NODE \<and>
     list_ex (\<lambda>i. snap_nonempty (ch_snapshot (cm_channels m ! i))) (positions (cm_channels m) n))
     (dkeys (cm_by_node m))"

lemma mgr_snapshot_eq:
  assumes "mgr_wf m"
  shows "mgr_snapshot m =
    map (\<lambda>n. (n, map (\<lambda>i. ch_snapshot (cm_channels m ! i)) (positions (cm_channels m) n))) (saved_nodes m)"
proof -
  let ?f = "\<lambda>i. ch_snapshot (cm_channels m ! i)"
  have p: "snd e = positions (cm_channels m) (fst e)" if "e \<in> set (cm_by_node m)" for e
  proof -
    have d: "dget (cm_by_node m) (fst e) = Some (snd e)"
      using assms that unfolding mgr_wf_def by (cases e) (metis fst_conv snd_conv map_of_eq_Some_iff)
    have "dget (cm_by_node m) (fst e) =
        (if positions (cm_channels m) (fst e) = [] then None else Some (positions (cm_channels m) (fst e)))"
      using assms unfolding mgr_wf_def by blast
    then show ?thesis unfolding d by (simp split: if_splits)
  qed
  then have eq: "map (\<lambda>(n, is). (n, map ?f is)) (cm_by_node m) =
      map (\<lambda>n. (n, map ?f (positions (cm_channels m) n))) (dkeys (cm_by_node m))"
    by (auto simp: case_prod_unfold)
  show ?thesis
    unfolding mgr_snapshot_def eq saved_nodes_def filter_map comp_def by (simp add: list_ex_iff)
qed

lemma saved_positions:
  assumes "mgr_wf m"
  shows "distinct (saved_nodes m)" and "n \<in> set (saved_nodes m) \<Longrightarrow> positions (cm_channels m) n \<noteq> []"
    and "n \<in> set (saved_nodes m) \<longleftrightarrow>
      n \<noteq> END_NODE \<and> (\<exists>i \<in> set (positions (cm_channels m) n). snap_nonempty (ch_snapshot (cm_channels m ! i)))"
proof -
  show "distinct (saved_nodes m)" using assms by (simp add: saved_nodes_def mgr_wf_def)
  show "n \<in> set (saved_nodes m) \<Longrightarrow> positions (cm_channels m) n \<noteq> []"
    by (auto simp: saved_nodes_def list_ex_iff)
  have "dget (cm_by_node m) n =
      (if positions (cm_channels m) n = [] then None else Some (positions (cm_channels m) n))"
    using assms unfolding mgr_wf_def by blast
  then have "n \<in> set (dkeys (cm_by_node m))" if "i \<in> set (positions (cm_channels m) n)" for i
    using that by (auto simp: in_keys_iff split: if_splits)
  then show "n \<in> set (saved_nodes m) \<longleftrightarrow>
      n \<noteq> END_NODE \<and> (\<exists>i \<in> set (positions (cm_channels m) n). snap_nonempty (ch_snapshot (cm_channels m ! i)))"
    by (auto simp: saved_nodes_def list_ex_iff)
qed

lemma layout_map: "(\<And>c. ch_key (f c) = ch_key c \<and> ch_name (f c) = ch_name c) \<Longrightarrow> layout (map f chs) = layout chs"
  by (simp add: layout_def)

lemma restore_snapshot:
  assumes W: "mgr_wf m" and R: "ready_exact m" and O: "list_all ch_ok (cm_channels m)"
  defines "m0 \<equiv> manager_init (map ch_consume (cm_channels m))"
  defines "m' \<equiv> mgr_restore (mgr_snapshot m) m0"
  shows "cm_channels m' = resumed_channels (cm_channels m)"
    and "mgr_wf m'" and "ready_exact m'" and "cm_buffer m' = []"
    and "set (cm_ready m') = set (cm_ready m) - {END_NODE}"
proof -
  let ?chs = "cm_channels m" and ?f = "\<lambda>i. ch_snapshot (cm_channels m ! i)"
  have m0: "mgr_wf m0" "ready_exact m0" "cm_channels m0 = map ch_consume ?chs" "cm_buffer m0 = []"
    unfolding m0_def by (rule manager_init_ok)+
  have lay: "layout (cm_channels m0) = layout ?chs" unfolding m0(3) by (rule layout_map) (simp add: chan.names)
  have pos: "positions (cm_channels m0) n = positions ?chs n" for n by (rule positions_layout[OF lay])
  have "{c \<in> set (map ch_consume ?chs). ch_is_ready c} = {}" by (auto simp: chan.consumed)
  then have "cm_ready m0 = []" using m0(2) unfolding ready_exact_def m0(3) by (metis image_empty set_empty)
  then have r0: "restoring m0 ?f {} m0" by (simp add: restoring_def restored_at_def)
  let ?S = "\<Union>n \<in> set (saved_nodes m). set (positions ?chs n)"
  have "restoring m0 ?f ({} \<union> (\<Union>n \<in> set (saved_nodes m). set (positions (cm_channels m0) n)))
      (fold restore_node (map (\<lambda>n. (n, map ?f (positions (cm_channels m0) n))) (saved_nodes m)) m0)"
    using saved_positions(2)[OF W] unfolding pos[symmetric]
    by (intro restoring_entries[OF m0(1) r0 saved_positions(1)[OF W]]) blast+
  then have r: "restoring m0 ?f ?S m'"
    unfolding m'_def mgr_restore_def mgr_snapshot_eq[OF W] by (simp add: pos)
  have at_iff: "restored_at ?f ?S i \<longleftrightarrow> ch_name (?chs ! i) \<noteq> END_NODE \<and> snap_nonempty (?f i)" if "i < length ?chs" for i
    using that saved_positions(3)[OF W] unfolding restored_at_def
    by (auto simp: positions_mem)
  have nth: "cm_channels m' ! i = (if ch_name (?chs ! i) = END_NODE then ch_consume (?chs ! i) else ?chs ! i)"
    if i: "i < length ?chs" for i
  proof -
    have "ch_ok (?chs ! i)" using O i by (simp add: list_all_length)
    then have "ch_restore (?f i) (ch_consume (?chs ! i)) = ?chs ! i" by (rule ch_restore_snapshot)
    moreover have "cm_channels m' ! i = (if restored_at ?f ?S i then ch_restore (?f i) (cm_channels m0 ! i) else cm_channels m0 ! i)"
      using r i by (simp add: restoring_def m0(3))
    ultimately show ?thesis
      using i at_iff[OF i] snap_empty_consumed[of "?chs ! i"] by (auto simp: m0(3))
  qed
  have len: "length (cm_channels m') = length ?chs" using r by (simp add: restoring_def m0(3))
  show ch: "cm_channels m' = resumed_channels ?chs"
    by (rule nth_equalityI) (simp_all add: len nth resumed_channels_def)
  have lay': "layout (cm_channels m') = layout (cm_channels m0)"
    unfolding ch lay resumed_channels_def by (rule layout_map) (simp add: chan.names)
  show "mgr_wf m'" using r by (intro mgr_wf_layout[OF m0(1) lay']) (simp_all add: restoring_def)
  show "cm_buffer m' = []" using r by (simp add: restoring_def m0(4))
  have eq: "ch_restore (?f i) (ch_consume (?chs ! i)) = ?chs ! i" if "i < length ?chs" for i
    using O that by (simp add: list_all_length ch_restore_snapshot)
  have "set (cm_ready m') = {ch_name (cm_channels m0 ! i) | i. i < length (cm_channels m0) \<and>
      restored_at ?f ?S i \<and> ch_is_ready (ch_restore (?f i) (cm_channels m0 ! i))}"
    using r unfolding restoring_def by blast
  also have "\<dots> = {ch_name (?chs ! i) | i. i < length ?chs \<and> restored_at ?f ?S i \<and> ch_is_ready (?chs ! i)}"
    unfolding setcompr_eq_image by (rule image_cong) (auto simp: m0(3) eq chan.names)
  also have "\<dots> = {ch_name (?chs ! i) | i. i < length ?chs \<and> ch_is_ready (?chs ! i) \<and> ch_name (?chs ! i) \<noteq> END_NODE}"
    using at_iff chan.ready_nonempty by blast
  also have "\<dots> = ch_name ` {c \<in> set ?chs. ch_is_ready c} - {END_NODE}"
    by (auto simp: in_set_conv_nth)
  finally have rd: "set (cm_ready m') = ch_name ` {c \<in> set ?chs. ch_is_ready c} - {END_NODE}" .
  then show "set (cm_ready m') = set (cm_ready m) - {END_NODE}" using R by (simp add: ready_exact_def)
  have "ch_name ` {c \<in> set (resumed_channels ?chs). ch_is_ready c} = ch_name ` {c \<in> set ?chs. ch_is_ready c} - {END_NODE}"
    by (auto simp: resumed_channels_def chan.consumed image_iff split: if_splits)
  then show "ready_exact m'" using r rd by (simp add: ready_exact_def ch restoring_def)
qed

section \<open>Properties\<close>

lemma accepts_barrier:
  "accepts ms (BarrierChannel n gs r) = BarrierChannel n gs (received (accepts ms (BarrierChannel n gs r))) \<and>
   set (received (accepts ms (BarrierChannel n gs r))) = set r \<union> {s. \<exists>t. BarrierMessage s t \<in> set ms}"
proof (induction ms arbitrary: r)
  case (Cons m ms)
  show ?case
  proof (cases m)
    case (TriggerMessage s t)
    then show ?thesis using Cons[of r] by auto
  next
    case (BarrierMessage s t)
    then have "snd (ch_accept m (BarrierChannel n gs r)) = BarrierChannel n gs (sadd s r)"
      by (auto simp: sadd_def)
    with Cons[of "sadd s r"] BarrierMessage show ?thesis by auto
  qed
qed simp

text \<open>C10: a barrier that has taken any messages since it was last consumed is ready exactly when some
  barrier message arrived and every group of its formula has a sender among them; the order, the
  repetitions and the trigger messages do not matter.\<close>

theorem barrier_waits_for_groups:
  "ch_is_ready (accepts ms (ch_consume (BarrierChannel n gs r))) \<longleftrightarrow>
     (let S = {s. \<exists>t. BarrierMessage s t \<in> set ms}
      in S \<noteq> {} \<and> list_all (\<lambda>g. set g \<inter> S \<noteq> {}) gs)"
proof -
  obtain r' where "accepts ms (BarrierChannel n gs []) = BarrierChannel n gs r'"
      "set r' = {s. \<exists>t. BarrierMessage s t \<in> set ms}"
    using accepts_barrier[of ms n gs "[]"] by auto
  then show ?thesis by (simp add: barrier_ready_iff list_all_iff Let_def)
qed

text \<open>C11: when every buffered message has a channel, \<open>flush\<close> succeeds, empties the buffer, gives each
  channel exactly the messages addressed to it in their order, and leaves the indexes and the ready
  set exact; when one has none, it raises and the buffer stays as it was.\<close>

theorem flush_delivers:
  assumes "mgr_wf m" and "ready_exact m"
  shows "if known_targets m (cm_buffer m)
    then fst (flush m) = Inr () \<and> cm_buffer (snd (flush m)) = [] \<and>
      cm_channels (snd (flush m)) =
        map (\<lambda>i. accepts (filter (addressed m i) (cm_buffer m)) (cm_channels m ! i)) [0..<length (cm_channels m)] \<and>
      mgr_wf (snd (flush m)) \<and> ready_exact (snd (flush m))
    else fst (flush m) = Inl ValueError \<and> cm_buffer (snd (flush m)) = cm_buffer m"
proof (cases "known_targets m (cm_buffer m)")
  case True
  from flush_spec[OF assms True] obtain m' where m': "flush m = (Inr (), m')" "mgr_wf m'" "ready_exact m'"
      "cm_buffer m' = []" "layout (cm_channels m') = layout (cm_channels m)"
      "\<forall>i < length (cm_channels m).
         cm_channels m' ! i = accepts (filter (addressed m i) (cm_buffer m)) (cm_channels m ! i)"
    by blast
  have "cm_channels m' =
      map (\<lambda>i. accepts (filter (addressed m i) (cm_buffer m)) (cm_channels m ! i)) [0..<length (cm_channels m)]"
    by (rule nth_equalityI) (use layoutD(1)[OF m'(5)] m'(6) in simp_all)
  with True m' show ?thesis by simp
next
  case False
  then show ?thesis using flush_unknown[OF assms(1)] by simp
qed

definition wit_mgr :: channel_mgr where
  "wit_mgr = fold buffer_message [TriggerMessage ''a'' ''b'', BarrierMessage ''a'' (make_router_key ''c'' [[''a''], [''b'']])]
     (manager_init [TriggerChannel ''b'' [], TriggerChannel ''c'' [], BarrierChannel ''c'' [[''a''], [''b'']] []])"

lemma wit_mgr_ok: "mgr_wf wit_mgr" "ready_exact wit_mgr"
proof -
  have sel: "cm_channels (buffer_message msg m) = cm_channels m" "cm_by_key (buffer_message msg m) = cm_by_key m"
      "cm_by_node (buffer_message msg m) = cm_by_node m" "cm_ready (buffer_message msg m) = cm_ready m"
    for msg m by (simp_all add: buffer_message_def)
  show "mgr_wf wit_mgr" by (simp add: wit_mgr_def mgr_wf_iff sel manager_init_ok(1)[unfolded mgr_wf_iff])
  show "ready_exact wit_mgr"
    by (simp only: wit_mgr_def ready_exact_def sel fold.simps o_apply id_apply manager_init_ok(2)[unfolded ready_exact_def])
qed

lemma flush_delivers_witness:
  "fst (flush wit_mgr) = Inr () \<and> cm_ready (snd (flush wit_mgr)) = [''b''] \<and> cm_buffer (snd (flush wit_mgr)) = []"
proof -
  have k: "known_targets wit_mgr (cm_buffer wit_mgr)" by code_simp
  have "cm_ready (snd (flush wit_mgr)) = [''b'']" by code_simp
  with flush_delivers[OF wit_mgr_ok] k show ?thesis by simp
qed

text \<open>C12: a snapshot restored into a newly compiled graph gives every channel back except those of the
  end node, which come back empty, with the indexes and the ready set exact again.\<close>

theorem snapshot_restores:
  assumes "mgr_wf m" and "ready_exact m" and "list_all ch_ok (cm_channels m)"
  shows "let m' = mgr_restore (mgr_snapshot m) (manager_init (map ch_consume (cm_channels m)))
    in cm_channels m' = map (\<lambda>c. if ch_name c = END_NODE then ch_consume c else c) (cm_channels m) \<and>
       mgr_wf m' \<and> ready_exact m' \<and> set (cm_ready m') = set (cm_ready m) - {END_NODE}"
  using restore_snapshot[OF assms] by (simp add: Let_def resumed_channels_def)

lemma snapshot_restores_witness:
  "let m = snd (flush wit_mgr)
   in cm_channels (mgr_restore (mgr_snapshot m) (manager_init (map ch_consume (cm_channels m)))) = cm_channels m \<and>
      snap_nonempty (ch_snapshot (cm_channels m ! 2))"
proof -
  let ?m = "snd (flush wit_mgr)"
  have "known_targets wit_mgr (cm_buffer wit_mgr)" by code_simp
  then have w: "mgr_wf ?m" "ready_exact ?m" using flush_spec[OF wit_mgr_ok] by auto
  have "list_all ch_ok (cm_channels ?m)" by code_simp
  moreover have "map (\<lambda>c. if ch_name c = END_NODE then ch_consume c else c) (cm_channels ?m) = cm_channels ?m"
    by code_simp
  moreover have "snap_nonempty (ch_snapshot (cm_channels ?m ! 2))" by code_simp
  ultimately show ?thesis using snapshot_restores[OF w] by (simp add: Let_def)
qed

end
