(* ===== verification/Graph_Store.thy ===== *)
theory Graph_Store
  imports Prelude
begin

text \<open>
  The store of interrupted graph runs: \<open>core/graph/store/inmemory.py\<close> and the \<open>Store\<close> interface of
  \<open>core/graph/store/base.py\<close>. States go in and out as deep copies, so a stored state is a value.
\<close>

record ('g, 's) graph_saver =
  gs_get :: "string \<Rightarrow> string \<Rightarrow> 's \<Rightarrow> 'g option"
  gs_save :: "string \<Rightarrow> string \<Rightarrow> 'g \<Rightarrow> 's \<Rightarrow> 's"
  gs_delete :: "string \<Rightarrow> string option \<Rightarrow> 's \<Rightarrow> 's"

text \<open>\<open>store_ck\<close> maps a session to its namespaces; it is a \<open>defaultdict\<close>.\<close>

type_synonym 'g in_memory_store = "(string, (string, 'g) pydict) pydict"

definition store_get :: "string \<Rightarrow> string \<Rightarrow> 'g in_memory_store \<Rightarrow> 'g option" where
  "store_get session_id ns ck = dget (dget_default [] ck session_id) ns"

definition store_save :: "string \<Rightarrow> string \<Rightarrow> 'g \<Rightarrow> 'g in_memory_store \<Rightarrow> 'g in_memory_store" where
  "store_save session_id ns st ck = dset session_id (dset ns st (dget_default [] ck session_id)) ck"

definition delete_ns_by_prefix :: "(string, 'g) pydict \<Rightarrow> string \<Rightarrow> (string, 'g) pydict" where
  "delete_ns_by_prefix sub_map prefix =
     (let ns_to_delete_list = filter (\<lambda>ns. startswith ns prefix) (dkeys sub_map)
      in if ns_to_delete_list = [] then sub_map else fold ddel ns_to_delete_list sub_map)"

definition store_delete :: "string \<Rightarrow> string option \<Rightarrow> 'g in_memory_store \<Rightarrow> 'g in_memory_store" where
  "store_delete session_id ns ck =
     (case dget ck session_id of
        None \<Rightarrow> ck
      | Some sub_map \<Rightarrow>
          (case ns of
             None \<Rightarrow> ddel session_id ck
           | Some prefix \<Rightarrow>
               (let left = delete_ns_by_prefix sub_map prefix
                in if left = [] then ddel session_id ck else dset session_id left ck)))"

definition in_memory_saver :: "('g, 'g in_memory_store) graph_saver" where
  "in_memory_saver = \<lparr>gs_get = store_get, gs_save = store_save, gs_delete = store_delete\<rparr>"

section \<open>The contract of a store\<close>

text \<open>What the engine needs: a saved state is read back, and nothing else changes.\<close>

locale graph_store =
  fixes G :: "('g, 's) graph_saver"
  assumes get_save: "gs_get G s' n' (gs_save G s n st c) = (if s' = s \<and> n' = n then Some st else gs_get G s' n' c)"
    and get_delete_all: "gs_get G s' n' (gs_delete G s None c) = (if s' = s then None else gs_get G s' n' c)"
    and get_delete_ns: "gs_get G s n (gs_delete G s (Some n) c) = None"
    and get_delete_other: "s' \<noteq> s \<Longrightarrow> gs_get G s' n' (gs_delete G s p c) = gs_get G s' n' c"
begin

lemma last_save_wins: "gs_get G s n (gs_save G s n st' (gs_save G s n st c)) = Some st'"
  by (simp add: get_save)

lemma save_survives_other_sessions:
  "s' \<noteq> s \<Longrightarrow> gs_get G s n (gs_delete G s' p (gs_save G s n st c)) = Some st"
  by (simp add: get_delete_other get_save)

end

lemma delete_ns_get:
  "dget (delete_ns_by_prefix sub p) n = (if startswith n p then None else dget sub n)"
proof (cases "filter (\<lambda>ns. startswith ns p) (dkeys sub) = []")
  case True
  then have "startswith n p \<Longrightarrow> n \<notin> fst ` set sub" by (auto simp: filter_empty_conv)
  with True show ?thesis by (auto simp: delete_ns_by_prefix_def in_keys_iff)
next
  case False
  then show ?thesis
    by (auto simp: delete_ns_by_prefix_def Let_def dget_fold_ddel in_keys_iff)
qed

lemma store_delete_exact_aux:
  "store_get s' n' (store_delete s p ck) =
     (if s' = s \<and> (case p of None \<Rightarrow> True | Some q \<Rightarrow> startswith n' q) then None else store_get s' n' ck)"
proof (cases "dget ck s")
  case None
  then show ?thesis by (auto simp: store_delete_def store_get_def dget_default_def)
next
  case (Some sub)
  show ?thesis
  proof (cases p)
    case None
    with Some show ?thesis by (auto simp: store_delete_def store_get_def dget_default_def)
  next
    case (Some q)
    let ?left = "delete_ns_by_prefix sub q"
    have "dget (dget_default [] (if ?left = [] then ddel s ck else dset s ?left ck) s') n' =
        (if s' = s then dget ?left n' else dget (dget_default [] ck s') n')"
      by (auto simp: dget_default_def)
    with Some \<open>dget ck s = Some sub\<close> show ?thesis
      by (simp add: store_delete_def store_get_def Let_def delete_ns_get dget_default_def)
  qed
qed

interpretation mem_graph: graph_store in_memory_saver
proof
  fix s s' n n' :: string and st :: 'g and c :: "'g in_memory_store" and p
  show "gs_get in_memory_saver s' n' (gs_save in_memory_saver s n st c) =
      (if s' = s \<and> n' = n then Some st else gs_get in_memory_saver s' n' c)"
    by (simp add: in_memory_saver_def store_get_def store_save_def dget_default_def)
  have del: "gs_get in_memory_saver s' n' (gs_delete in_memory_saver s p c) =
      (if s' = s \<and> (case p of None \<Rightarrow> True | Some q \<Rightarrow> startswith n' q) then None
       else gs_get in_memory_saver s' n' c)" for s n p s' n'
    by (simp add: in_memory_saver_def store_delete_exact_aux)
  show "gs_get in_memory_saver s' n' (gs_delete in_memory_saver s None c) =
      (if s' = s then None else gs_get in_memory_saver s' n' c)" by (simp add: del)
  show "gs_get in_memory_saver s n (gs_delete in_memory_saver s (Some n) c) = None"
    by (simp add: del startswith_def)
  show "s' \<noteq> s \<Longrightarrow> gs_get in_memory_saver s' n' (gs_delete in_memory_saver s p c) = gs_get in_memory_saver s' n' c"
    by (simp add: del)
qed

text \<open>Deleting a namespace deletes every namespace of the session that has it as a prefix, and nothing
  else; deleting without one deletes the session.\<close>

theorem store_delete_exact:
  "store_get s' n' (store_delete s p ck) =
     (if s' = s \<and> (case p of None \<Rightarrow> True | Some q \<Rightarrow> startswith n' q) then None else store_get s' n' ck)"
  by (rule store_delete_exact_aux)

text \<open>A workflow whose name begins with another's loses its states with the other's.\<close>

lemma sibling_namespace_deleted:
  "store_get ''session'' ''wf10'' (store_delete ''session'' (Some ''wf1'') (store_save ''session'' ''wf10'' st [])) = None"
  by (simp add: store_get_def store_delete_def store_save_def delete_ns_by_prefix_def dget_default_def startswith_def)

end
