(* ===== verification/Pregel_Engine.thy ===== *)
theory Pregel_Engine
  imports Pregel_Channels Graph_Store Decimal
begin

text \<open>
  The super-step engine: \<open>core/graph/pregel/router.py\<close>, \<open>task.py\<close>, \<open>config.py\<close> and \<open>engine.py\<close>. The
  user's node functions and selectors, the order in which tasks finish and the order in which sets
  are listed are the fields of a \<open>step_env\<close>, one for each super-step. Logging, the callbacks of
  \<open>trigger\<close> and \<open>after_step\<close>, and a cancellation from outside are not modelled.
\<close>

section \<open>Nodes and routers\<close>

datatype exn = GraphInterrupt string | Raised py_error

text \<open>What is recorded of a node that did not succeed: a cancelled task has a \<open>CancelledError\<close>.\<close>

datatype failure = Failure exn | CancelledError

type_synonym 'a run_res = "exn + 'a"

datatype router = StaticRouter "string list" | ConditionalRouter nat | BarrierRouter "string list"

text \<open>\<open>PregelBuilder\<close> keeps each node under its own name, so a node is its list of routers.\<close>

type_synonym pregel_nodes = "(string, router list) pydict"

datatype selected = OneTarget string | ManyTargets "string list"

text \<open>
  What a super-step meets: \<open>se_func\<close> is the exception a node's function raises, if any, \<open>se_select\<close> what
  the selector of a node's branch does, \<open>se_finish\<close> the order in which the tasks finish, \<open>se_extra\<close> how
  many more are done by the time \<open>asyncio.wait\<close> wakes up after a first exception, and \<open>se_order\<close>
  the listing order of sets.
\<close>

record step_env =
  se_func :: "string \<Rightarrow> nat \<Rightarrow> exn option"
  se_select :: "string \<Rightarrow> nat \<Rightarrow> selected run_res"
  se_finish :: "string list \<Rightarrow> string list"
  se_extra :: nat
  se_ready :: "string list \<Rightarrow> string list"
  se_order :: "string list \<Rightarrow> string list"

definition env_ok :: "step_env \<Rightarrow> bool" where
  "env_ok E \<longleftrightarrow> set_order (se_finish E) \<and> set_order (se_ready E) \<and> set_order (se_order E)"

fun dispatch :: "step_env \<Rightarrow> string \<Rightarrow> router \<Rightarrow> message list run_res" where
  "dispatch E source (StaticRouter targets) = Inr (map (TriggerMessage source) targets)"
| "dispatch E source (ConditionalRouter sel) =
     (case se_select E source sel of
        Inl e \<Rightarrow> Inl e
      | Inr (OneTarget to) \<Rightarrow> Inr [TriggerMessage source to]
      | Inr (ManyTargets targets) \<Rightarrow> Inr (map (TriggerMessage source) targets))"
| "dispatch E source (BarrierRouter targets) = Inr (map (BarrierMessage source) targets)"

fun dispatch_all :: "step_env \<Rightarrow> string \<Rightarrow> router list \<Rightarrow> message list run_res" where
  "dispatch_all E source [] = Inr []"
| "dispatch_all E source (r # rs) =
     (case dispatch E source r of
        Inl e \<Rightarrow> Inl e
      | Inr msgs \<Rightarrow>
          (case dispatch_all E source rs of
             Inl e \<Rightarrow> Inl e
           | Inr msgs' \<Rightarrow> Inr (msgs @ msgs')))"

section \<open>Tasks\<close>

text \<open>\<open>NodeTask.run\<close>: the function, then the routers; a \<open>GraphInterrupt\<close> is caught and returned.\<close>

datatype task_result = TaskMessages "message list" | TaskInterrupt string | TaskRaised py_error

definition node_body :: "step_env \<Rightarrow> string \<Rightarrow> router list \<Rightarrow> nat \<Rightarrow> message list run_res" where
  "node_body E name routers version =
     (case se_func E name version of Some e \<Rightarrow> Inl e | None \<Rightarrow> dispatch_all E name routers)"

definition task_run :: "step_env \<Rightarrow> string \<Rightarrow> router list \<Rightarrow> nat \<Rightarrow> task_result" where
  "task_run E name routers version =
     (case node_body E name routers version of
        Inr msgs \<Rightarrow> TaskMessages msgs
      | Inl (GraphInterrupt v) \<Rightarrow> TaskInterrupt v
      | Inl (Raised e) \<Rightarrow> TaskRaised e)"

fun raised :: "task_result \<Rightarrow> bool" where
  "raised (TaskRaised e) = True"
| "raised _ = False"

datatype task_status = TASK_STATUS_INTERRUPT | TASK_STATUS_ERROR

record pending_node =
  pd_node_name :: string
  pd_status :: task_status
  pd_exception :: "failure list"

record executor =
  ex_succeed_messages :: "message list"
  ex_failed :: "(string, pending_node) pydict"

definition executor_init :: executor where
  "executor_init = \<lparr>ex_succeed_messages = [], ex_failed = []\<rparr>"

fun exn_status :: "failure \<Rightarrow> task_status" where
  "exn_status (Failure (GraphInterrupt v)) = TASK_STATUS_INTERRUPT"
| "exn_status _ = TASK_STATUS_ERROR"

definition commit_failure :: "string \<Rightarrow> failure \<Rightarrow> executor \<Rightarrow> executor" where
  "commit_failure name e ex =
     (if dget (ex_failed ex) name = None
      then ex\<lparr>ex_failed := dset name \<lparr>pd_node_name = name, pd_status = exn_status e, pd_exception = [e]\<rparr> (ex_failed ex)\<rparr>
      else ex)"

text \<open>\<open>asyncio.wait(tasks, return_when=FIRST_EXCEPTION)\<close>: the tasks done and those still pending.\<close>

definition wait_first_exception :: "step_env \<Rightarrow> (string \<Rightarrow> task_result) \<Rightarrow> string list \<Rightarrow> string list \<times> string list" where
  "wait_first_exception E result tasks =
     (let finish = se_finish E tasks;
          quiet = takeWhile (\<lambda>n. \<not> raised (result n)) finish;
          k = (if length quiet = length finish then length finish else Suc (length quiet) + se_extra E)
      in (take k finish, drop k finish))"

text \<open>
  The loop over the done tasks: the first exception, the first interrupt, the executor.
\<close>

definition collect_task :: "(string \<Rightarrow> task_result) \<Rightarrow> string \<Rightarrow>
    exn option \<times> exn option \<times> executor \<Rightarrow> exn option \<times> exn option \<times> executor" where
  "collect_task result name acc =
     (let (first_err, interrupt, ex) = acc
      in case result name of
           TaskRaised e \<Rightarrow>
             (if first_err = None then Some (Raised e) else first_err, interrupt,
              commit_failure name (Failure (Raised e)) ex)
         | TaskInterrupt v \<Rightarrow>
             (first_err, if interrupt = None then Some (GraphInterrupt v) else interrupt,
              commit_failure name (Failure (GraphInterrupt v)) ex)
         | TaskMessages msgs \<Rightarrow>
             (first_err, interrupt, ex\<lparr>ex_succeed_messages := ex_succeed_messages ex @ msgs\<rparr>))"

definition wait_all :: "step_env \<Rightarrow> (string \<Rightarrow> task_result) \<Rightarrow> string list \<Rightarrow> executor \<Rightarrow> exn option \<times> executor" where
  "wait_all E result tasks ex =
     (if tasks = [] then (None, ex)
      else
        (let (done, pending) = wait_first_exception E result tasks;
             (first_err, interrupt, ex') = fold (collect_task result) (se_order E done) (None, None, ex);
             ex'' = fold (\<lambda>n. commit_failure n CancelledError) (se_order E pending) ex'
         in (if first_err \<noteq> None then first_err else interrupt, ex'')))"

section \<open>The loop\<close>

record graph_state =
  gst_ns :: string
  gst_step :: nat
  gst_channel_values :: "(string, chan_snap list) pydict"
  gst_pending_buffer :: "message list"
  gst_pending_node :: "(string, pending_node) pydict"
  gst_node_version :: "(string, nat) pydict"

record pregel_config =
  cf_session_id :: "string option"
  cf_ns :: "string option"
  cf_recursion_limit :: "int option"
  cf_parent_ns :: "string option"

definition MAX_RECURSIVE_LIMIT :: int where
  "MAX_RECURSIVE_LIMIT = 10000"

definition create_inner_config :: "pregel_config \<Rightarrow> pregel_config" where
  "create_inner_config cfg =
     (if cf_recursion_limit cfg \<in> {None, Some 0}
      then cfg\<lparr>cf_recursion_limit := Some MAX_RECURSIVE_LIMIT\<rparr> else cfg)"

definition truthy :: "string option \<Rightarrow> bool" where
  "truthy s \<longleftrightarrow> s \<noteq> None \<and> s \<noteq> Some []"

text \<open>The configuration a node's function receives: below a named parent, the node has a namespace.\<close>

definition node_config :: "pregel_config \<Rightarrow> string \<Rightarrow> nat \<Rightarrow> pregel_config" where
  "node_config cfg name version =
     (let inner = create_inner_config cfg
      in if truthy (cf_parent_ns inner)
         then (let ns = the (cf_parent_ns inner) @ '':'' @ name @ '':'' @ nat_str version
               in inner\<lparr>cf_ns := Some ns, cf_parent_ns := Some ns\<rparr>)
         else inner)"

record 's pregel =
  pg_nodes :: pregel_nodes
  pg_initial :: string
  pg_store :: "(graph_state, 's) graph_saver option"

record pregel_loop =
  pl_manager :: channel_mgr
  pl_step :: nat
  pl_max_step :: int
  pl_active :: "string list"
  pl_executor :: executor
  pl_retry :: "(string, pending_node) pydict"
  pl_version :: "(string, nat) pydict"

definition loop_new :: "channel list \<Rightarrow> pregel_loop" where
  "loop_new chs = \<lparr>pl_manager = manager_init chs, pl_step = 0, pl_max_step = 0, pl_active = [],
     pl_executor = executor_init, pl_retry = [], pl_version = []\<rparr>"

definition is_resume :: "graph_state option \<Rightarrow> bool" where
  "is_resume state \<longleftrightarrow>
     (case state of
        None \<Rightarrow> False
      | Some st \<Rightarrow> gst_pending_node st \<noteq> [] \<or> gst_pending_buffer st \<noteq> [] \<or> gst_channel_values st \<noteq> [])"

definition saved_state :: "'s pregel \<Rightarrow> pregel_config \<Rightarrow> 's \<Rightarrow> graph_state option" where
  "saved_state g cfg s =
     (if truthy (cf_session_id cfg) \<and> truthy (cf_ns cfg)
      then (case pg_store g of
              None \<Rightarrow> None
            | Some G \<Rightarrow> gs_get G (the (cf_session_id cfg)) (the (cf_ns cfg)) s)
      else None)"

definition resume_from :: "graph_state \<Rightarrow> int \<Rightarrow> pregel_loop \<Rightarrow> pregel_loop" where
  "resume_from st limit l =
     l\<lparr>pl_manager := fold buffer_message (gst_pending_buffer st) (mgr_restore (gst_channel_values st) (pl_manager l)),
       pl_version := gst_node_version st,
       pl_step := gst_step st,
       pl_max_step := int (gst_step st) + limit,
       pl_retry := (if gst_pending_node st \<noteq> [] then gst_pending_node st else pl_retry l)\<rparr>"

definition loop_init :: "'s pregel \<Rightarrow> pregel_config \<Rightarrow> channel list \<Rightarrow> 's \<Rightarrow> unit run_res \<times> pregel_loop" where
  "loop_init g cfg chs s =
     (let l = (loop_new chs)\<lparr>pl_max_step := the (cf_recursion_limit cfg)\<rparr>;
          state = saved_state g cfg s
      in if is_resume state then (Inr (), resume_from (the state) (the (cf_recursion_limit cfg)) l)
         else
           (case flush (buffer_message (TriggerMessage (pg_initial g) (pg_initial g)) (pl_manager l)) of
              (Inl e, m) \<Rightarrow> (Inl (Raised e), l\<lparr>pl_manager := m\<rparr>)
            | (Inr _, m) \<Rightarrow> (Inr (), l\<lparr>pl_manager := m\<rparr>)))"

text \<open>\<open>self.node_version\<close> counts from zero; on a resumed loop it is the saved dictionary.\<close>

definition version_of :: "(string, nat) pydict \<Rightarrow> string \<Rightarrow> nat" where
  "version_of vs n = dget_default 0 vs n"

definition bump_version :: "string \<Rightarrow> (string, nat) pydict \<Rightarrow> (string, nat) pydict" where
  "bump_version n vs = dset n (version_of vs n + 1) vs"

definition choose_active :: "step_env \<Rightarrow> pregel_nodes \<Rightarrow> pregel_loop \<Rightarrow> pregel_loop" where
  "choose_active E nodes l =
     (if pl_retry l \<noteq> [] then l\<lparr>pl_active := dkeys (pl_retry l), pl_retry := []\<rparr>
      else
        (let active = filter (\<lambda>n. dget nodes n \<noteq> None \<and> n \<noteq> END_NODE) (get_ready_nodes (se_ready E) (pl_manager l))
         in l\<lparr>pl_active := active, pl_version := fold bump_version active (pl_version l)\<rparr>))"

fun consume_active :: "pregel_nodes \<Rightarrow> string list \<Rightarrow> channel_mgr \<Rightarrow> unit run_res \<times> channel_mgr" where
  "consume_active nodes [] m = (Inr (), m)"
| "consume_active nodes (n # ns) m =
     (let m' = mgr_consume n m
      in if dget nodes n = None then (Inl (Raised KeyError), m') else consume_active nodes ns m')"

definition step_tasks :: "step_env \<Rightarrow> pregel_nodes \<Rightarrow> pregel_loop \<Rightarrow> string \<Rightarrow> task_result" where
  "step_tasks E nodes l n = task_run E n (the (dget nodes n)) (version_of (pl_version l) n)"

definition flush_step :: "pregel_loop \<Rightarrow> bool run_res \<times> pregel_loop" where
  "flush_step l =
     (case flush (pl_manager l) of
        (Inl e, m) \<Rightarrow> (Inl (Raised e), l\<lparr>pl_manager := m\<rparr>)
      | (Inr _, m) \<Rightarrow> (Inr True, l\<lparr>pl_manager := m, pl_step := pl_step l + 1\<rparr>))"

definition finish_step :: "pregel_loop \<Rightarrow> bool run_res \<times> pregel_loop" where
  "finish_step l =
     (case flush_step (l\<lparr>pl_manager := fold buffer_message (ex_succeed_messages (pl_executor l)) (pl_manager l)\<rparr>) of
        (Inl e, l') \<Rightarrow> (Inl e, l')
      | (Inr b, l') \<Rightarrow> (Inr b, l'\<lparr>pl_executor := executor_init\<rparr>))"

definition run_step_body :: "step_env \<Rightarrow> pregel_nodes \<Rightarrow> pregel_loop \<Rightarrow> bool run_res \<times> pregel_loop" where
  "run_step_body E nodes l0 =
     (let l = choose_active E nodes l0
      in if pl_active l = []
         then (if mgr_is_empty (pl_manager l) then (Inr False, l) else flush_step l)
         else if pl_max_step l < int (pl_step l) then (Inl (Raised RecursionError), l)
         else
           (case consume_active nodes (pl_active l) (pl_manager l) of
              (Inl e, m) \<Rightarrow> (Inl e, l\<lparr>pl_manager := m\<rparr>)
            | (Inr _, m) \<Rightarrow>
                (let l1 = l\<lparr>pl_manager := m\<rparr>;
                     (e, ex) = wait_all E (step_tasks E nodes l1) (pl_active l1) (pl_executor l1);
                     l2 = l1\<lparr>pl_executor := ex\<rparr>
                 in case e of
                      Some e \<Rightarrow> (Inl e, l2)
                    | None \<Rightarrow> finish_step l2)))"

text \<open>
  \<open>pending_buffer\<close> is the manager's own buffer, so extending it changes the manager too.
\<close>

definition error_state :: "pregel_config \<Rightarrow> pregel_loop \<Rightarrow> graph_state" where
  "error_state cfg l =
     \<lparr>gst_ns = the (cf_ns cfg), gst_step = pl_step l, gst_channel_values = mgr_snapshot (pl_manager l),
      gst_pending_buffer = cm_buffer (pl_manager l) @ ex_succeed_messages (pl_executor l),
      gst_pending_node = ex_failed (pl_executor l), gst_node_version = pl_version l\<rparr>"

definition save_state_on_error :: "'s pregel \<Rightarrow> pregel_config \<Rightarrow> pregel_loop \<times> 's \<Rightarrow> pregel_loop \<times> 's" where
  "save_state_on_error g cfg ls =
     (let (l, s) = ls
      in if truthy (cf_session_id cfg) \<and> truthy (cf_ns cfg)
         then (case pg_store g of
                 None \<Rightarrow> (l, s)
               | Some G \<Rightarrow>
                   (l\<lparr>pl_manager := fold buffer_message (ex_succeed_messages (pl_executor l)) (pl_manager l)\<rparr>,
                    gs_save G (the (cf_session_id cfg)) (the (cf_ns cfg)) (error_state cfg l) s))
         else (l, s))"

fun step_error :: "exn \<Rightarrow> exn" where
  "step_error (Raised (BaseError c)) = Raised (BaseError c)"
| "step_error (Raised RecursionError) = Raised RecursionError"
| "step_error (GraphInterrupt v) = GraphInterrupt v"
| "step_error _ = Raised (BaseError ''PREGEL_GRAPH_SUPER_STEP_EXECUTION_ERROR'')"

definition run_step :: "step_env \<Rightarrow> 's pregel \<Rightarrow> pregel_config \<Rightarrow> pregel_loop \<times> 's \<Rightarrow> bool run_res \<times> pregel_loop \<times> 's" where
  "run_step E g cfg ls =
     (case run_step_body E (pg_nodes g) (fst ls) of
        (Inr b, l) \<Rightarrow> (Inr b, l, snd ls)
      | (Inl e, l) \<Rightarrow> (Inl (step_error e), save_state_on_error g cfg (l, snd ls)))"

text \<open>\<open>while await loop.run_step()\<close>, with fuel; \<open>E t\<close> is what the step number \<open>t\<close> of this run meets.\<close>

fun run_steps ::
  "nat \<Rightarrow> (nat \<Rightarrow> step_env) \<Rightarrow> nat \<Rightarrow> 's pregel \<Rightarrow> pregel_config \<Rightarrow> pregel_loop \<times> 's \<Rightarrow> (unit run_res \<times> pregel_loop \<times> 's) option"
where
  "run_steps 0 E t g cfg ls = None"
| "run_steps (Suc fuel) E t g cfg ls =
     (case run_step (E t) g cfg ls of
        (Inr True, ls') \<Rightarrow> run_steps fuel E (Suc t) g cfg ls'
      | (Inr False, ls') \<Rightarrow> Some (Inr (), ls')
      | (Inl e, ls') \<Rightarrow> Some (Inl e, ls'))"

datatype run_outcome = RunFinished | RunInterrupted string | RunRaised exn

definition top_level_config :: "pregel_config \<Rightarrow> pregel_config" where
  "top_level_config cfg =
     (let inner = create_inner_config cfg
      in if \<not> truthy (cf_parent_ns inner) \<and> truthy (cf_ns inner) then inner\<lparr>cf_parent_ns := cf_ns inner\<rparr> else inner)"

definition run_result :: "pregel_config \<Rightarrow> unit run_res \<Rightarrow> run_outcome" where
  "run_result cfg r =
     (case r of
        Inr _ \<Rightarrow> RunFinished
      | Inl (GraphInterrupt v) \<Rightarrow> (if truthy (cf_parent_ns cfg) then RunRaised (GraphInterrupt v) else RunInterrupted v)
      | Inl e \<Rightarrow> RunRaised e)"

text \<open>\<open>Pregel.run\<close>: the channels belong to the compiled graph, so a run leaves them changed.\<close>

definition pregel_run ::
  "nat \<Rightarrow> (nat \<Rightarrow> step_env) \<Rightarrow> 's pregel \<Rightarrow> pregel_config \<Rightarrow> channel list \<times> 's \<Rightarrow> (run_outcome \<times> channel list \<times> 's) option"
where
  "pregel_run fuel E g cfg cs =
     (let inner = top_level_config cfg
      in case loop_init g inner (fst cs) (snd cs) of
           (Inl e, l) \<Rightarrow> Some (run_result cfg (Inl e), cm_channels (pl_manager l), snd cs)
         | (Inr _, l) \<Rightarrow>
             map_option (\<lambda>(r, l', s'). (run_result cfg r, cm_channels (pl_manager l'), s'))
               (run_steps fuel E 0 g inner (l, snd cs)))"


section \<open>The loop ends\<close>

lemma flush_buffer: "fst (flush m) = Inr u \<Longrightarrow> cm_buffer (snd (flush m)) = []"
  by (auto simp: flush_def split: prod.splits sum.splits)

lemma flush_step_continue:
  assumes "flush_step l = (Inr b, l')"
  shows "b" and "pl_step l' = Suc (pl_step l)" and "pl_max_step l' = pl_max_step l"
    and "cm_buffer (pl_manager l') = []"
  using assms flush_buffer[of "pl_manager l"] by (auto simp: flush_step_def split: prod.splits sum.splits)

lemma choose_active_sel [simp]:
  "pl_step (choose_active E nodes l) = pl_step l" "pl_max_step (choose_active E nodes l) = pl_max_step l"
  "pl_manager (choose_active E nodes l) = pl_manager l" "pl_executor (choose_active E nodes l) = pl_executor l"
  by (simp_all add: choose_active_def Let_def)

text \<open>
  Past the limit a step can only deliver what is still buffered, and then the buffer is empty.
\<close>

definition steps_left :: "pregel_loop \<Rightarrow> nat" where
  "steps_left l = nat (pl_max_step l - int (pl_step l) + 1) + (if cm_buffer (pl_manager l) = [] then 1 else 2)"

lemma steps_left_decreases:
  assumes "run_step_body E nodes l = (Inr True, l')"
  shows "steps_left l' < steps_left l"
proof (cases "pl_active (choose_active E nodes l) = []")
  case True
  then have "flush_step (choose_active E nodes l) = (Inr True, l')" "cm_buffer (pl_manager l) \<noteq> []"
    using assms by (auto simp: run_step_body_def Let_def mgr_is_empty_def split: if_splits)
  from flush_step_continue[OF this(1)] this(2) show ?thesis by (simp add: steps_left_def)
next
  case False
  then obtain l2 where le: "int (pl_step l) \<le> pl_max_step l" and f: "finish_step l2 = (Inr True, l')"
    and "pl_step l2 = pl_step l" "pl_max_step l2 = pl_max_step l"
    using assms by (auto simp: run_step_body_def Let_def not_less split: if_splits prod.splits sum.splits option.splits)
  then have "pl_step l' = Suc (pl_step l)" "pl_max_step l' = pl_max_step l" "cm_buffer (pl_manager l') = []"
    using flush_step_continue by (fastforce simp: finish_step_def split: prod.splits sum.splits)+
  with le show ?thesis unfolding steps_left_def by (simp, arith)
qed

lemma steps_left_pos: "0 < steps_left l"
  by (simp add: steps_left_def)

lemma run_steps_total:
  assumes "steps_left (fst ls) \<le> fuel"
  shows "run_steps fuel E t g cfg ls \<noteq> None"
  using assms
proof (induction fuel arbitrary: t ls)
  case 0
  then show ?case using steps_left_pos[of "fst ls"] by simp
next
  case (Suc fuel)
  obtain r l where b: "run_step_body (E t) (pg_nodes g) (fst ls) = (r, l)" by force
  show ?case
  proof (cases "r = Inr True")
    case True
    then have "steps_left l \<le> fuel" using steps_left_decreases[OF b[unfolded True]] Suc.prems by simp
    then show ?thesis using Suc.IH[of "(l, snd ls)"] True b by (simp add: run_step_def)
  next
    case False
    then show ?thesis using b by (cases r) (auto simp: run_step_def)
  qed
qed

lemma run_steps_mono:
  "run_steps fuel E t g cfg ls = Some r \<Longrightarrow> fuel \<le> fuel' \<Longrightarrow> run_steps fuel' E t g cfg ls = Some r"
proof (induction fuel arbitrary: t ls fuel')
  case (Suc fuel)
  then obtain fuel'' where "fuel' = Suc fuel''" by (cases fuel') auto
  with Suc show ?case by (auto split: prod.splits sum.splits bool.splits)
qed simp

definition effective_limit :: "pregel_config \<Rightarrow> nat" where
  "effective_limit cfg = nat (the (cf_recursion_limit (create_inner_config cfg)))"

lemma loop_init_steps_left:
  assumes "loop_init g (top_level_config cfg) chs s = (Inr u, l)"
  shows "steps_left l \<le> effective_limit cfg + 3"
proof -
  have lim: "the (cf_recursion_limit (top_level_config cfg)) = the (cf_recursion_limit (create_inner_config cfg))"
    by (simp add: top_level_config_def Let_def)
  have "pl_max_step l = int (pl_step l) + the (cf_recursion_limit (create_inner_config cfg))"
    using assms
    by (auto simp: loop_init_def Let_def loop_new_def resume_from_def lim split: if_splits prod.splits sum.splits)
  then show ?thesis unfolding steps_left_def effective_limit_def by (simp, arith)
qed

section \<open>Waiting for the tasks\<close>

fun succeeded :: "task_result \<Rightarrow> bool" where
  "succeeded (TaskMessages ms) = True"
| "succeeded _ = False"

fun task_msgs :: "task_result \<Rightarrow> message list" where
  "task_msgs (TaskMessages ms) = ms"
| "task_msgs _ = []"

fun task_failure :: "task_result \<Rightarrow> failure" where
  "task_failure (TaskInterrupt v) = Failure (GraphInterrupt v)"
| "task_failure (TaskRaised e) = Failure (Raised e)"
| "task_failure (TaskMessages ms) = CancelledError"

definition entry :: "string \<Rightarrow> failure \<Rightarrow> string \<times> pending_node" where
  "entry n f = (n, \<lparr>pd_node_name = n, pd_status = exn_status f, pd_exception = [f]\<rparr>)"

definition failed_entries :: "(string \<Rightarrow> task_result) \<Rightarrow> string list \<Rightarrow> (string, pending_node) pydict" where
  "failed_entries result ds = map (\<lambda>n. entry n (task_failure (result n))) (filter (\<lambda>n. \<not> succeeded (result n)) ds)"

lemma fst_entry [simp]: "fst (entry n f) = n"
  by (simp add: entry_def)

lemma commit_failure_new:
  "n \<notin> fst ` set (ex_failed ex) \<Longrightarrow> commit_failure n f ex = ex\<lparr>ex_failed := ex_failed ex @ [entry n f]\<rparr>"
  by (simp add: commit_failure_def dset_new entry_def in_keys_iff)

lemma fold_commit_failure:
  assumes "distinct ns" and "set ns \<inter> fst ` set (ex_failed ex) = {}"
  shows "fold (\<lambda>n. commit_failure n f) ns ex = ex\<lparr>ex_failed := ex_failed ex @ map (\<lambda>n. entry n f) ns\<rparr>"
  using assms
proof (induction ns arbitrary: ex)
  case (Cons n ns)
  then have "n \<notin> fst ` set (ex_failed ex)" by auto
  with Cons show ?case by (simp add: commit_failure_new)
qed simp

definition first_some :: "(string \<Rightarrow> exn option) \<Rightarrow> string list \<Rightarrow> exn option \<Rightarrow> exn option" where
  "first_some f ns e = fold (\<lambda>n e. if e = None then f n else e) ns e"

lemma first_some_Some: "first_some f ns (Some e) = Some e"
  by (induction ns) (simp_all add: first_some_def)

lemma first_some_None:
  "first_some f ns None = None \<longleftrightarrow> (\<forall>n \<in> set ns. f n = None)"
  "first_some f ns None = Some e \<Longrightarrow> \<exists>n \<in> set ns. f n = Some e"
proof (induction ns)
  case (Cons n ns)
  { case 1 then show ?case using Cons first_some_Some[of f ns] by (cases "f n") (simp_all add: first_some_def) }
  { case 2 then show ?case using Cons first_some_Some[of f ns] by (cases "f n") (auto simp: first_some_def) }
qed (simp_all add: first_some_def)

fun raise_of :: "task_result \<Rightarrow> exn option" where
  "raise_of (TaskRaised e) = Some (Raised e)"
| "raise_of _ = None"

fun interrupt_of :: "task_result \<Rightarrow> exn option" where
  "interrupt_of (TaskInterrupt v) = Some (GraphInterrupt v)"
| "interrupt_of _ = None"

lemma fold_collect_task:
  assumes "distinct ds" and "set ds \<inter> fst ` set (ex_failed ex) = {}"
  shows "fold (collect_task result) ds (fe, it, ex) =
    (first_some (raise_of \<circ> result) ds fe, first_some (interrupt_of \<circ> result) ds it,
     ex\<lparr>ex_succeed_messages := ex_succeed_messages ex @ concat (map (task_msgs \<circ> result) ds),
        ex_failed := ex_failed ex @ failed_entries result ds\<rparr>)"
  using assms
proof (induction ds arbitrary: fe it ex)
  case Nil
  then show ?case by (simp add: first_some_def failed_entries_def)
next
  case (Cons n ds)
  then have "n \<notin> fst ` set (ex_failed ex)" by auto
  with Cons show ?case
    by (cases "result n") (simp_all add: collect_task_def commit_failure_new first_some_def failed_entries_def)
qed

lemma wait_first_exception_spec:
  assumes "env_ok E" and "distinct tasks" and "wait_first_exception E result tasks = (done, pending)"
  shows "distinct done" and "distinct pending" and "set done \<inter> set pending = {}"
    and "set done \<union> set pending = set tasks"
    and "pending = [] \<or> (\<exists>n \<in> set done. raised (result n))"
    and "n \<in> set tasks \<Longrightarrow> raised (result n) \<Longrightarrow> \<exists>n \<in> set done. raised (result n)"
proof -
  let ?f = "se_finish E tasks" and ?q = "takeWhile (\<lambda>n. \<not> raised (result n)) (se_finish E tasks)"
  have f: "distinct ?f" "set ?f = set tasks" using assms(1,2) by (auto simp: env_ok_def set_orderD)
  obtain k where k: "done = take k ?f" "pending = drop k ?f"
      "k = (if length ?q = length ?f then length ?f else Suc (length ?q) + se_extra E)"
    using assms(3) by (auto simp: wait_first_exception_def Let_def)
  have app: "?f = done @ pending" by (simp add: k(1,2))
  show "distinct done" "distinct pending" "set done \<inter> set pending = {}" using f(1) unfolding app by auto
  show "set done \<union> set pending = set tasks" using f(2) unfolding app by simp
  have r: "\<exists>n \<in> set done. raised (result n)" if "length ?q \<noteq> length ?f"
  proof -
    have lt: "length ?q < length ?f" using that length_takeWhile_le[of _ ?f] by (meson le_neq_implies_less)
    then have "raised (result (?f ! length ?q))" using nth_length_takeWhile[OF lt] by simp
    moreover have "?f ! length ?q \<in> set done"
      using that lt by (auto simp: k(1,3) in_set_conv_nth intro!: exI[of _ "length ?q"])
    ultimately show ?thesis by blast
  qed
  show "pending = [] \<or> (\<exists>n \<in> set done. raised (result n))"
    by (cases "length ?q = length ?f") (use r in \<open>simp_all add: k(2,3)\<close>)
  show "\<exists>n \<in> set done. raised (result n)" if "n \<in> set tasks" "raised (result n)"
  proof (rule r)
    show "length ?q \<noteq> length ?f"
      using that f(2) by (metis takeWhile_eq_all_conv takeWhile_eq_take take_all_iff order_refl)
  qed
qed

lemma wait_all_spec:
  assumes E: "env_ok E" and D: "distinct tasks" and w: "wait_first_exception E result tasks = (done, pending)"
    and wa: "wait_all E result tasks executor_init = (e, ex)"
  shows "ex_succeed_messages ex = concat (map (task_msgs \<circ> result) (se_order E done))"
    and "ex_failed ex = failed_entries result (se_order E done) @ map (\<lambda>n. entry n CancelledError) (se_order E pending)"
    and "e = None \<longleftrightarrow> (\<forall>n \<in> set tasks. succeeded (result n))"
    and "e = None \<Longrightarrow> pending = []"
    and "e = Some (GraphInterrupt v) \<Longrightarrow> (\<forall>n \<in> set tasks. \<not> raised (result n)) \<and> (\<exists>n \<in> set tasks. result n = TaskInterrupt v)"
    and "e = Some (Raised x) \<Longrightarrow> \<exists>n \<in> set tasks. result n = TaskRaised x"
proof -
  note W = wait_first_exception_spec[OF E D w]
  have so: "distinct (se_order E done)" "set (se_order E done) = set done"
      "distinct (se_order E pending)" "set (se_order E pending) = set pending"
    using E W(1,2) by (auto simp: env_ok_def set_orderD)
  let ?fe = "first_some (raise_of \<circ> result) (se_order E done) None"
  let ?it = "first_some (interrupt_of \<circ> result) (se_order E done) None"
  have body: "wait_all E result tasks executor_init =
      (if ?fe \<noteq> None then ?fe else ?it,
       \<lparr>ex_succeed_messages = concat (map (task_msgs \<circ> result) (se_order E done)),
        ex_failed = failed_entries result (se_order E done) @ map (\<lambda>n. entry n CancelledError) (se_order E pending)\<rparr>)"
  proof (cases "tasks = []")
    case True
    then have "done = []" "pending = []" using W(4) by auto
    then show ?thesis using True so by (simp add: wait_all_def executor_init_def failed_entries_def first_some_def)
  next
    case False
    have "set (se_order E pending) \<inter> fst ` set (failed_entries result (se_order E done)) = {}"
      using W(3) so by (auto simp: failed_entries_def)
    then show ?thesis
      using so fold_collect_task[of "se_order E done" executor_init result None None] False
      by (simp add: wait_all_def w executor_init_def fold_commit_failure)
  qed
  then show "ex_succeed_messages ex = concat (map (task_msgs \<circ> result) (se_order E done))"
    and "ex_failed ex = failed_entries result (se_order E done) @ map (\<lambda>n. entry n CancelledError) (se_order E pending)"
    using wa by auto
  have e: "e = (if ?fe \<noteq> None then ?fe else ?it)" using body wa by simp
  have raise: "raised r \<longleftrightarrow> raise_of r \<noteq> None" for r by (cases r) auto
  have fe: "?fe = None \<longleftrightarrow> (\<forall>n \<in> set tasks. raise_of (result n) = None)"
    using first_some_None(1)[of "raise_of \<circ> result" "se_order E done"] W(4,6) so(2) raise by (metis UnCI comp_apply)
  have all: "pending = []" if "?fe = None" using W(4,5) that fe raise by (metis UnCI)
  have succ: "succeeded r \<longleftrightarrow> raise_of r = None \<and> interrupt_of r = None" for r by (cases r) auto
  have "?it = None \<longleftrightarrow> (\<forall>n \<in> set done. interrupt_of (result n) = None)"
    using first_some_None(1)[of "interrupt_of \<circ> result" "se_order E done"] so(2) by simp
  then show en: "e = None \<longleftrightarrow> (\<forall>n \<in> set tasks. succeeded (result n))"
    using e fe all W(4) succ by (cases "?fe = None") auto
  show "e = None \<Longrightarrow> pending = []" using e all by (auto split: if_splits)
  have fe_raised: "\<exists>n \<in> set tasks. raise_of (result n) = Some f" if "?fe = Some f" for f
    using first_some_None(2)[OF that] so(2) W(4) by auto
  have it_interrupt: "\<exists>n \<in> set tasks. interrupt_of (result n) = Some f" if "?it = Some f" for f
    using first_some_None(2)[OF that] so(2) W(4) by auto
  have R: "raise_of r = Some (Raised y) \<longleftrightarrow> r = TaskRaised y" "raise_of r \<noteq> Some (GraphInterrupt u)"
    and I: "interrupt_of r = Some (GraphInterrupt u) \<longleftrightarrow> r = TaskInterrupt u" "interrupt_of r \<noteq> Some (Raised y)"
    for r y u by (cases r; auto)+
  show "\<exists>n \<in> set tasks. result n = TaskRaised x" if "e = Some (Raised x)"
    using that e fe_raised[of "Raised x"] it_interrupt[of "Raised x"] R I by (auto split: if_splits)
  show "(\<forall>n \<in> set tasks. \<not> raised (result n)) \<and> (\<exists>n \<in> set tasks. result n = TaskInterrupt v)"
    if "e = Some (GraphInterrupt v)"
  proof -
    have "?fe = None" using that e fe_raised[of "GraphInterrupt v"] R by (auto split: if_splits)
    moreover from this have "?it = Some (GraphInterrupt v)" using that e by simp
    ultimately show ?thesis using fe raise it_interrupt[of "GraphInterrupt v"] I by metis
  qed
qed

section \<open>A step from a consistent loop\<close>

definition mgr_ok :: "channel_mgr \<Rightarrow> bool" where
  "mgr_ok m \<longleftrightarrow> mgr_wf m \<and> ready_exact m \<and> list_all ch_ok (cm_channels m)"

definition loop_ok :: "pregel_loop \<Rightarrow> bool" where
  "loop_ok l \<longleftrightarrow> mgr_ok (pl_manager l) \<and> pl_executor l = executor_init \<and> dwf (pl_retry l)"

lemma mgr_okI_nth:
  assumes "mgr_ok m" and "mgr_wf m'" and "ready_exact m'" and "length (cm_channels m') = length (cm_channels m)"
    and "\<And>i. i < length (cm_channels m) \<Longrightarrow> ch_ok (cm_channels m ! i) \<Longrightarrow> ch_ok (cm_channels m' ! i)"
  shows "mgr_ok m'"
  using assms by (simp add: mgr_ok_def list_all_length)

lemma mgr_ok_buffer: "mgr_ok (m\<lparr>cm_buffer := b\<rparr>) = mgr_ok m"
  by (simp add: mgr_ok_def mgr_wf_def ready_exact_def)

lemma fold_buffer_message: "fold buffer_message msgs m = m\<lparr>cm_buffer := cm_buffer m @ msgs\<rparr>"
  by (induction msgs arbitrary: m) (simp_all add: buffer_message_def)

lemma consume_ok:
  assumes "mgr_ok m"
  shows "mgr_ok (mgr_consume n m)"
proof -
  have W: "mgr_wf m" "ready_exact m" using assms by (auto simp: mgr_ok_def)
  note C = consume_spec[where n = n, OF W]
  show ?thesis
    by (rule mgr_okI_nth[OF assms C(1,2)]) (use layoutD(1)[OF C(3)] C(8) ch_ok_consume in auto)
qed

lemma consume_one:
  assumes "mgr_ok m"
  shows "layout (cm_channels (mgr_consume n m)) = layout (cm_channels m)"
    and "cm_buffer (mgr_consume n m) = cm_buffer m"
    and "set (cm_ready (mgr_consume n m)) = set (cm_ready m) - {n}"
    and "map ch_consume (cm_channels (mgr_consume n m)) = map ch_consume (cm_channels m)"
    and "n \<notin> set (cm_ready m) \<Longrightarrow> cm_channels (mgr_consume n m) = cm_channels m"
proof -
  have W: "mgr_wf m" "ready_exact m" using assms by (auto simp: mgr_ok_def)
  note C = consume_spec[where n = n, OF W]
  have len: "length (cm_channels (mgr_consume n m)) = length (cm_channels m)" by (rule layoutD(1)[OF C(3)])
  have idem: "ch_consume (ch_consume c) = ch_consume c" for c by (cases c) auto
  show "layout (cm_channels (mgr_consume n m)) = layout (cm_channels m)"
    "cm_buffer (mgr_consume n m) = cm_buffer m" "set (cm_ready (mgr_consume n m)) = set (cm_ready m) - {n}"
    by (rule C(3,6,7))+
  show "map ch_consume (cm_channels (mgr_consume n m)) = map ch_consume (cm_channels m)"
    by (rule nth_equalityI) (simp_all add: len C(8) idem)
  show "cm_channels (mgr_consume n m) = cm_channels m" if "n \<notin> set (cm_ready m)"
  proof (rule nth_equalityI)
    fix i assume "i < length (cm_channels (mgr_consume n m))"
    then have i: "i < length (cm_channels m)" by (simp add: len)
    have "\<not> (ch_name (cm_channels m ! i) = n \<and> ch_is_ready (cm_channels m ! i))"
      using W(2) that i nth_mem[OF i] by (auto simp: ready_exact_def)
    then show "cm_channels (mgr_consume n m) ! i = cm_channels m ! i" using C(8)[OF i] by auto
  qed (simp add: len)
qed

lemma consume_fold:
  assumes "mgr_ok m"
  shows "mgr_ok (fold mgr_consume ns m) \<and>
    layout (cm_channels (fold mgr_consume ns m)) = layout (cm_channels m) \<and>
    cm_buffer (fold mgr_consume ns m) = cm_buffer m \<and>
    set (cm_ready (fold mgr_consume ns m)) = set (cm_ready m) - set ns \<and>
    map ch_consume (cm_channels (fold mgr_consume ns m)) = map ch_consume (cm_channels m) \<and>
    (set (cm_ready m) \<inter> set ns = {} \<longrightarrow> cm_channels (fold mgr_consume ns m) = cm_channels m)"
  using assms
proof (induction ns arbitrary: m)
  case (Cons n ns)
  show ?case
    using Cons.IH[OF consume_ok[where n = n, OF Cons.prems]] consume_one[where n = n, OF Cons.prems] by auto
qed simp

lemma consume_active_known:
  assumes "consume_active nodes ns m = (Inr u, m')"
  shows "m' = fold mgr_consume ns m" and "\<forall>n \<in> set ns. dget nodes n \<noteq> None"
  using assms by (induction ns arbitrary: m) (auto simp: Let_def split: if_splits)

lemma consume_active_eq:
  "\<forall>n \<in> set ns. dget nodes n \<noteq> None \<Longrightarrow> consume_active nodes ns m = (Inr (), fold mgr_consume ns m)"
  by (induction ns arbitrary: m) (auto simp: Let_def)

lemma choose_active_distinct:
  assumes "loop_ok l" and "env_ok E"
  shows "distinct (pl_active (choose_active E nodes l))" and "pl_retry (choose_active E nodes l) = []"
    and "pl_retry l = [] \<Longrightarrow> set (pl_active (choose_active E nodes l)) \<subseteq> set (cm_ready (pl_manager l))"
proof -
  have "distinct (cm_ready (pl_manager l))" using assms(1) by (simp add: loop_ok_def mgr_ok_def ready_exact_def)
  then have r: "distinct (se_ready E (cm_ready (pl_manager l)))" "set (se_ready E (cm_ready (pl_manager l))) = set (cm_ready (pl_manager l))"
    using assms(2) by (auto simp: env_ok_def set_orderD)
  then show "distinct (pl_active (choose_active E nodes l))"
    using assms(1) by (auto simp: choose_active_def Let_def get_ready_nodes_def loop_ok_def)
  show "pl_retry (choose_active E nodes l) = []" by (auto simp: choose_active_def Let_def)
  show "pl_retry l = [] \<Longrightarrow> set (pl_active (choose_active E nodes l)) \<subseteq> set (cm_ready (pl_manager l))"
    using r(2) by (auto simp: choose_active_def Let_def get_ready_nodes_def)
qed

text \<open>The part of a step between consuming and flushing, taken apart.\<close>

lemma run_step_tasks:
  assumes "l1 = choose_active E nodes l" and "pl_active l1 \<noteq> []" and "int (pl_step l) \<le> pl_max_step l"
    and "consume_active nodes (pl_active l1) (pl_manager l) = (Inr (), m)"
    and "wait_all E (step_tasks E nodes l1) (pl_active l1) (pl_executor l) = (e, ex)"
  shows "run_step_body E nodes l =
    (case e of Some e \<Rightarrow> (Inl e, l1\<lparr>pl_manager := m, pl_executor := ex\<rparr>)
     | None \<Rightarrow> finish_step (l1\<lparr>pl_manager := m, pl_executor := ex\<rparr>))"
proof -
  have "step_tasks E nodes (l1\<lparr>pl_manager := m\<rparr>) = step_tasks E nodes l1"
    by (simp add: fun_eq_iff step_tasks_def)
  then show ?thesis using assms(2-) unfolding assms(1) by (simp add: run_step_body_def Let_def)
qed

text \<open>A step that fails while its tasks run leaves some node in \<open>failed\<close>.\<close>

lemma run_step_failed:
  assumes "run_step_body E nodes l = (Inl e, l')" and "ex_failed (pl_executor l') \<noteq> []" and "pl_executor l = executor_init"
    and "env_ok E" and "loop_ok l"
  obtains l1 ex where "l1 = choose_active E nodes l" "pl_active l1 \<noteq> []" "int (pl_step l) \<le> pl_max_step l"
    "\<forall>n \<in> set (pl_active l1). dget nodes n \<noteq> None"
    "wait_all E (step_tasks E nodes l1) (pl_active l1) executor_init = (Some e, ex)"
    "l' = l1\<lparr>pl_manager := fold mgr_consume (pl_active l1) (pl_manager l), pl_executor := ex\<rparr>"
proof -
  let ?l1 = "choose_active E nodes l"
  have ex0: "ex_failed executor_init = []" by (simp add: executor_init_def)
  have ne: "pl_active ?l1 \<noteq> []"
    using assms(1,2,3) ex0 by (auto simp: run_step_body_def Let_def flush_step_def split: if_splits prod.splits sum.splits)
  have le: "int (pl_step l) \<le> pl_max_step l"
    using assms(1,2,3) ne ex0 by (auto simp: run_step_body_def Let_def not_less split: if_splits)
  obtain r m where c: "consume_active nodes (pl_active ?l1) (pl_manager l) = (r, m)" by force
  have "r = Inr ()"
  proof (rule ccontr)
    assume "r \<noteq> Inr ()"
    then obtain x where "r = Inl x" by (cases r) auto
    then show False using assms(1,2,3) ne le c ex0 by (auto simp: run_step_body_def Let_def)
  qed
  note C = consume_active_known[OF c[unfolded this]]
  obtain e' ex where w: "wait_all E (step_tasks E nodes ?l1) (pl_active ?l1) executor_init = (e', ex)" by force
  have rb: "run_step_body E nodes l = (case e' of Some e \<Rightarrow> (Inl e, ?l1\<lparr>pl_manager := m, pl_executor := ex\<rparr>)
     | None \<Rightarrow> finish_step (?l1\<lparr>pl_manager := m, pl_executor := ex\<rparr>))"
    by (rule run_step_tasks[OF refl ne le]) (use c \<open>r = Inr ()\<close> w assms(3) in simp_all)
  have "e' \<noteq> None"
  proof
    assume "e' = None"
    obtain d p where d: "wait_first_exception E (step_tasks E nodes ?l1) (pl_active ?l1) = (d, p)" by force
    note W = wait_all_spec[OF assms(4) choose_active_distinct(1)[OF assms(5,4)] d w]
    have "set d = set (pl_active ?l1)" "p = []"
      using W(4) wait_first_exception_spec(4)[OF assms(4) choose_active_distinct(1)[OF assms(5,4)] d] \<open>e' = None\<close> by auto
    moreover have "set (se_order E d) = set d" "set (se_order E []) = {}"
      using assms(4) wait_first_exception_spec(1)[OF assms(4) choose_active_distinct(1)[OF assms(5,4)] d]
      by (auto simp: env_ok_def set_orderD(2))
    ultimately have "ex_failed ex = []" using W(2,3) \<open>e' = None\<close> by (simp add: failed_entries_def filter_empty_conv)
    then show False
      using rb assms(1,2) \<open>e' = None\<close>
      by (auto simp: finish_step_def flush_step_def executor_init_def split: prod.splits sum.splits)
  qed
  then show thesis using that[OF refl ne le C(2), of ex] w assms(1) C(1) rb by auto
qed

section \<open>Resuming\<close>

lemma ch_consume_accepts: "ch_consume (accepts ms c) = ch_consume c"
proof (induction ms arbitrary: c)
  case (Cons m ms)
  have "ch_consume (snd (ch_accept m c)) = ch_consume c" by (cases m; cases c) auto
  with Cons show ?case by simp
qed simp

lemma ready_resumed:
  "ch_name ` {c \<in> set (resumed_channels chs). ch_is_ready c} = ch_name ` {c \<in> set chs. ch_is_ready c} - {END_NODE}"
  by (auto simp: resumed_channels_def chan.consumed image_iff split: if_splits)

lemma layout_resumed: "layout (resumed_channels chs) = layout chs"
  unfolding resumed_channels_def by (rule layout_map) (simp add: chan.names)

lemma by_key_layout:
  assumes "mgr_wf m" and "mgr_wf m'" and "layout (cm_channels m') = layout (cm_channels m)"
  shows "dget (cm_by_key m') k = dget (cm_by_key m) k"
  using assms(1,2) layoutD(2)[OF assms(3)] unfolding mgr_wf_iff by simp

lemma flush_resumed:
  assumes ok: "mgr_ok m" "mgr_ok m'" and chs: "cm_channels m' = resumed_channels (cm_channels m)"
    and buf: "cm_buffer m' = cm_buffer m" and fl: "flush m' = (Inr u, f')"
  shows "\<exists>f. flush m = (Inr (), f) \<and> cm_buffer f = [] \<and> cm_buffer f' = [] \<and>
    resumed_channels (cm_channels f) = resumed_channels (cm_channels f') \<and>
    set (cm_ready f) - {END_NODE} = set (cm_ready f') - {END_NODE}"
proof -
  have lay: "layout (cm_channels m') = layout (cm_channels m)" unfolding chs by (rule layout_resumed)
  have W: "mgr_wf m" "ready_exact m" "mgr_wf m'" "ready_exact m'" using ok by (auto simp: mgr_ok_def)
  have K': "known_targets m' (cm_buffer m')" using flush_unknown(1)[OF W(3)] fl by fastforce
  have "ch_key ` set (cm_channels m') = ch_key ` set (cm_channels m)"
    using layoutD(2)[OF lay] by (metis set_map)
  then have K: "known_targets m (cm_buffer m)" using K' buf by (simp add: known_targets_def)
  obtain f where f: "flush m = (Inr (), f)" "ready_exact f" "cm_buffer f = []"
      "layout (cm_channels f) = layout (cm_channels m)"
      "\<forall>i < length (cm_channels m). cm_channels f ! i = accepts (filter (addressed m i) (cm_buffer m)) (cm_channels m ! i)"
    using flush_spec[OF W(1,2) K] by blast
  obtain f'' where f'': "flush m' = (Inr (), f'')" "ready_exact f''" "cm_buffer f'' = []"
      "layout (cm_channels f'') = layout (cm_channels m')"
      "\<forall>i < length (cm_channels m'). cm_channels f'' ! i = accepts (filter (addressed m' i) (cm_buffer m')) (cm_channels m' ! i)"
    using flush_spec[OF W(3,4) K'] by blast
  have eq: "f'' = f'" using fl f''(1) by simp
  have ad: "addressed m' i = addressed m i" for i
    by (simp add: fun_eq_iff addressed_def by_key_layout[OF W(1,3) lay])
  have len: "length (cm_channels f) = length (cm_channels m)" "length (cm_channels f') = length (cm_channels m)"
      "length (cm_channels m') = length (cm_channels m)"
    using layoutD(1)[OF f(4)] layoutD(1)[OF f''(4)] layoutD(1)[OF lay] eq by simp_all
  have r: "resumed_channels (cm_channels f) = resumed_channels (cm_channels f')"
  proof (rule nth_equalityI)
    fix i assume "i < length (resumed_channels (cm_channels f))"
    then have i: "i < length (cm_channels m)" by (simp add: resumed_channels_def len)
    let ?c = "cm_channels m ! i" and ?ms = "filter (addressed m i) (cm_buffer m)"
    have "cm_channels f ! i = accepts ?ms ?c" using f(5) i by blast
    moreover have "cm_channels f' ! i = accepts ?ms (if ch_name ?c = END_NODE then ch_consume ?c else ?c)"
      using f''(5) i len(3) unfolding eq ad buf chs by (simp add: resumed_channels_def)
    moreover have "ch_consume (ch_consume ?c) = ch_consume ?c" by (cases ?c) auto
    ultimately show "resumed_channels (cm_channels f) ! i = resumed_channels (cm_channels f') ! i"
      using i by (simp add: resumed_channels_def len chan.fold_accept_name chan.names ch_consume_accepts)
  qed (simp add: resumed_channels_def len)
  have "set (cm_ready f) - {END_NODE} = set (cm_ready f') - {END_NODE}"
    using f(2) f''(2) ready_resumed[of "cm_channels f"] ready_resumed[of "cm_channels f'"] r
    unfolding eq ready_exact_def by simp
  with f r f''(3) eq show ?thesis by blast
qed

definition order_as :: "'a list \<Rightarrow> 'a list \<Rightarrow> 'a list" where
  "order_as D xs = (if distinct D \<and> set xs = set D then D else xs)"

lemma order_as_ok: "set_order (order_as D)"
  by (auto simp: set_order_def order_as_def)

definition merged_env :: "step_env \<Rightarrow> step_env \<Rightarrow> string list \<Rightarrow> string list \<Rightarrow> step_env" where
  "merged_env E E' F D =
     \<lparr>se_func = (\<lambda>n. if n \<in> set F then se_func E' n else se_func E n),
      se_select = (\<lambda>n. if n \<in> set F then se_select E' n else se_select E n),
      se_finish = (\<lambda>xs. xs), se_extra = 0, se_ready = se_ready E, se_order = order_as D\<rparr>"

lemma merged_env_ok: "env_ok E \<Longrightarrow> env_ok (merged_env E E' F D)"
  by (simp add: env_ok_def merged_env_def order_as_ok)

lemma dispatch_merged:
  "dispatch (merged_env E E' F D) n r = dispatch (if n \<in> set F then E' else E) n r"
  by (cases r) (simp_all add: merged_env_def)

lemma dispatch_all_merged:
  "dispatch_all (merged_env E E' F D) n rs = dispatch_all (if n \<in> set F then E' else E) n rs"
  by (induction rs) (simp_all only: dispatch_all.simps dispatch_merged)

lemma task_run_merged:
  "task_run (merged_env E E' F D) n rs v = task_run (if n \<in> set F then E' else E) n rs v"
  unfolding task_run_def node_body_def dispatch_all_merged by (simp add: merged_env_def)

lemma choose_active_merged: "choose_active (merged_env E E' F D) nodes l = choose_active E nodes l"
  by (simp add: choose_active_def merged_env_def)

lemma failed_keys:
  assumes "env_ok E" and "distinct tasks" and "wait_all E result tasks executor_init = (e, ex)"
    and "wait_first_exception E result tasks = (done, pending)"
  shows "set (dkeys (ex_failed ex)) = {n \<in> set done. \<not> succeeded (result n)} \<union> set pending"
    and "distinct (dkeys (ex_failed ex))" and "set (dkeys (ex_failed ex)) \<subseteq> set tasks"
    and "n \<in> set tasks \<Longrightarrow> n \<notin> set (dkeys (ex_failed ex)) \<Longrightarrow> succeeded (result n)"
    and "ex_succeed_messages ex =
      concat (map (task_msgs \<circ> result) (filter (\<lambda>n. n \<notin> set (dkeys (ex_failed ex))) (se_order E done)))"
proof -
  note W = wait_first_exception_spec[OF assms(1,2,4)] and A = wait_all_spec[OF assms(1,2,4,3)]
  have so: "distinct (se_order E done)" "set (se_order E done) = set done"
      "distinct (se_order E pending)" "set (se_order E pending) = set pending"
    using assms(1) W(1,2) by (auto simp: env_ok_def set_orderD)
  have k: "dkeys (ex_failed ex) = filter (\<lambda>n. \<not> succeeded (result n)) (se_order E done) @ se_order E pending"
    by (simp add: A(2) failed_entries_def comp_def)
  show S: "set (dkeys (ex_failed ex)) = {n \<in> set done. \<not> succeeded (result n)} \<union> set pending"
    unfolding k using so by auto
  show "distinct (dkeys (ex_failed ex))" unfolding k using so W(3) by auto
  show "set (dkeys (ex_failed ex)) \<subseteq> set tasks" unfolding S using W(4) by blast
  show "n \<in> set tasks \<Longrightarrow> n \<notin> set (dkeys (ex_failed ex)) \<Longrightarrow> succeeded (result n)" unfolding S using W(4) by blast
  have "n \<in> set done \<Longrightarrow> n \<in> set (dkeys (ex_failed ex)) \<longleftrightarrow> \<not> succeeded (result n)" for n
    unfolding S using W(3) by blast
  then have "filter (\<lambda>n. n \<notin> set (dkeys (ex_failed ex))) (se_order E done) = filter (\<lambda>n. succeeded (result n)) (se_order E done)"
    using so(2) by (intro filter_cong) auto
  moreover have "concat (map (task_msgs \<circ> result) ds) = concat (map (task_msgs \<circ> result) (filter (\<lambda>n. succeeded (result n)) ds))" for ds
  proof (induction ds)
    case (Cons d ds)
    then show ?case by (cases "result d") simp_all
  qed simp
  ultimately show "ex_succeed_messages ex =
      concat (map (task_msgs \<circ> result) (filter (\<lambda>n. n \<notin> set (dkeys (ex_failed ex))) (se_order E done)))"
    using A(1) by simp
qed

text \<open>
  One super-step, twice: the first run fails with the nodes \<open>F\<close> not done, the second resumes from what
  was saved and completes. The merged environment lets the nodes of \<open>F\<close> do what they did on the
  second run, in a single step.
\<close>

lemma succeeded_wait_all:
  assumes "env_ok E" and "distinct tasks" and "\<forall>n \<in> set tasks. succeeded (result n)"
  shows "wait_all E result tasks executor_init =
    (None, \<lparr>ex_succeed_messages = concat (map (task_msgs \<circ> result) (se_order E (se_finish E tasks))), ex_failed = []\<rparr>)"
proof -
  obtain d p where d: "wait_first_exception E result tasks = (d, p)" by force
  obtain e ex where w: "wait_all E result tasks executor_init = (e, ex)" by force
  note A = wait_all_spec[OF assms(1,2) d w] and W = wait_first_exception_spec[OF assms(1,2) d]
  have e: "e = None" using A(3) assms(3) by blast
  then have p: "p = []" by (rule A(4))
  have "d @ p = se_finish E tasks" using d by (auto simp: wait_first_exception_def Let_def)
  then have df: "d = se_finish E tasks" using p by simp
  have "set (se_order E d) = set tasks" "set (se_order E []) = {}"
    using assms(1) W(1,4) p by (auto simp: env_ok_def set_orderD(2))
  then have "ex_failed ex = []" using A(2) p assms(3) by (simp add: failed_entries_def filter_empty_conv)
  then have "ex = \<lparr>ex_succeed_messages = concat (map (task_msgs \<circ> result) (se_order E (se_finish E tasks))), ex_failed = []\<rparr>"
    using A(1) unfolding df by (intro executor.equality) simp_all
  with e w show ?thesis by simp
qed

lemma finish_step_continues:
  assumes "finish_step l = (Inr b, l')"
  obtains f where "flush (fold buffer_message (ex_succeed_messages (pl_executor l)) (pl_manager l)) = (Inr (), f)"
    and "l' = l\<lparr>pl_manager := f, pl_step := pl_step l + 1, pl_executor := executor_init\<rparr>" and "b"
  using assms by (auto simp: finish_step_def flush_step_def split: prod.splits sum.splits)

lemma finish_step_eq:
  "flush (fold buffer_message (ex_succeed_messages (pl_executor l)) (pl_manager l)) = (Inr (), f) \<Longrightarrow>
   finish_step l = (Inr True, l\<lparr>pl_manager := f, pl_step := pl_step l + 1, pl_executor := executor_init\<rparr>)"
  by (simp add: finish_step_def flush_step_def)

definition same_but_end :: "pregel_loop \<Rightarrow> pregel_loop \<Rightarrow> bool" where
  "same_but_end l l' \<longleftrightarrow> pl_step l = pl_step l' \<and> pl_version l = pl_version l' \<and>
     pl_retry l = [] \<and> pl_retry l' = [] \<and> pl_executor l = executor_init \<and> pl_executor l' = executor_init \<and>
     cm_buffer (pl_manager l) = [] \<and> cm_buffer (pl_manager l') = [] \<and>
     resumed_channels (cm_channels (pl_manager l)) = resumed_channels (cm_channels (pl_manager l')) \<and>
     set (cm_ready (pl_manager l)) - {END_NODE} = set (cm_ready (pl_manager l')) - {END_NODE}"

text \<open>The loop a resumed run starts from, for a loop that failed after consuming.\<close>

definition resumed_loop :: "pregel_config \<Rightarrow> int \<Rightarrow> pregel_loop \<Rightarrow> pregel_loop" where
  "resumed_loop cfg limit l' =
     resume_from (error_state cfg l') limit (loop_new (map ch_consume (cm_channels (pl_manager l'))))"

lemma resumed_step:
  assumes E: "env_ok E" "env_ok E'" and ok: "loop_ok l"
    and step1: "run_step_body E nodes l = (Inl e, l')" "ex_failed (pl_executor l') \<noteq> []"
    and step2: "run_step_body E' nodes (resumed_loop cfg limit l') = (Inr True, l2)"
  shows "\<exists>D l''. run_step_body (merged_env E E' (dkeys (ex_failed (pl_executor l'))) D) nodes l = (Inr True, l'') \<and>
    same_but_end l'' l2"
proof -
  have ex0: "pl_executor l = executor_init" and M: "mgr_ok (pl_manager l)" using ok by (auto simp: loop_ok_def)
  obtain l1 ex where l1: "l1 = choose_active E nodes l" "pl_active l1 \<noteq> []" "int (pl_step l) \<le> pl_max_step l"
      "\<forall>n \<in> set (pl_active l1). dget nodes n \<noteq> None"
      "wait_all E (step_tasks E nodes l1) (pl_active l1) executor_init = (Some e, ex)"
      "l' = l1\<lparr>pl_manager := fold mgr_consume (pl_active l1) (pl_manager l), pl_executor := ex\<rparr>"
    by (rule run_step_failed[OF step1 ex0 E(1) ok])
  let ?A = "pl_active l1" and ?F = "dkeys (ex_failed ex)"
  let ?m = "fold mgr_consume ?A (pl_manager l)" and ?S = "ex_succeed_messages ex"
  have dA: "distinct ?A" using choose_active_distinct(1)[OF ok E(1)] l1(1) by simp
  obtain d p where d: "wait_first_exception E (step_tasks E nodes l1) ?A = (d, p)" by force
  note K = failed_keys[OF E(1) dA l1(5) d]
  have F: "?F \<noteq> []" using step1(2) l1(6) by simp
  note C = consume_fold[OF M, of ?A]
  have Cm: "mgr_ok ?m" "set (cm_ready ?m) = set (cm_ready (pl_manager l)) - set ?A"
      "cm_buffer ?m = cm_buffer (pl_manager l)" using C by auto
  \<comment> \<open>what the resumed loop starts from\<close>
  let ?fresh = "mgr_restore (mgr_snapshot ?m) (manager_init (map ch_consume (cm_channels ?m)))"
  have Wm: "mgr_wf ?m" "ready_exact ?m" "list_all ch_ok (cm_channels ?m)" using Cm(1) by (auto simp: mgr_ok_def)
  note R = restore_snapshot[OF Wm]
  let ?b = "cm_buffer ?m @ ?S"
  let ?lr = "resumed_loop cfg limit l'"
  have pf: "ex_failed ex \<noteq> []" using F by auto
  have lr: "pl_manager ?lr = ?fresh\<lparr>cm_buffer := ?b\<rparr>" "pl_retry ?lr = ex_failed ex" "pl_version ?lr = pl_version l1"
      "pl_step ?lr = pl_step l" "pl_executor ?lr = executor_init"
    using pf l1(1)[THEN arg_cong[where f = pl_step]]
    by (simp_all add: resumed_loop_def resume_from_def loop_new_def error_state_def l1(6) fold_buffer_message R(4))
  have ok0: "mgr_ok (pl_manager ?lr)"
    unfolding lr(1) mgr_ok_buffer unfolding mgr_ok_def
  proof (intro conjI R(2) R(3))
    show "list_all ch_ok (cm_channels ?fresh)"
      unfolding R(1) using Wm(3) by (auto simp: resumed_channels_def list_all_iff ch_ok_consume)
  qed
  let ?lc = "choose_active E' nodes ?lr"
  have lc: "pl_active ?lc = ?F" "pl_version ?lc = pl_version l1" "pl_retry ?lc = []"
    using pf by (simp_all add: choose_active_def lr)
  have Fne: "pl_active ?lc \<noteq> []" using F lc(1) by simp
  have Fn: "\<forall>n \<in> set ?F. dget nodes n \<noteq> None" using l1(4) K(3) by blast
  have le: "int (pl_step ?lr) \<le> pl_max_step ?lr"
    using step2 Fne by (auto simp: run_step_body_def Let_def not_less split: if_splits)
  \<comment> \<open>consuming the retried nodes changes nothing\<close>
  let ?mc = "fold mgr_consume ?F (pl_manager ?lr)"
  note C2 = consume_fold[OF ok0, of ?F]
  have rdy: "set (cm_ready (pl_manager ?lr)) \<inter> set ?F = {}"
    using R(5) Cm(2) K(3) by (auto simp: lr(1))
  have mc: "mgr_ok ?mc" "cm_channels ?mc = resumed_channels (cm_channels ?m)" "cm_buffer ?mc = ?b"
    using C2 rdy R(1) by (auto simp: lr(1))
  obtain e2 ex2 where w2: "wait_all E' (step_tasks E' nodes ?lc) ?F executor_init = (e2, ex2)" by force
  have b2: "run_step_body E' nodes ?lr = (case e2 of Some e \<Rightarrow> (Inl e, ?lc\<lparr>pl_manager := ?mc, pl_executor := ex2\<rparr>)
      | None \<Rightarrow> finish_step (?lc\<lparr>pl_manager := ?mc, pl_executor := ex2\<rparr>))"
    by (rule run_step_tasks[OF refl Fne le]) (use consume_active_eq[OF Fn] w2 lc(1) lr(5) in simp_all)
  then have e2: "e2 = None" using step2 by (cases e2) auto
  obtain d2 p2 where d2: "wait_first_exception E' (step_tasks E' nodes ?lc) ?F = (d2, p2)" by force
  have s2: "\<forall>n \<in> set ?F. succeeded (step_tasks E' nodes ?lc n)"
    using wait_all_spec(3)[OF E(2) K(2) d2 w2] e2 by blast
  define DF where "DF = se_order E' (se_finish E' ?F)"
  have DF: "distinct DF" "set DF = set ?F" using E(2) K(2) by (auto simp: DF_def env_ok_def set_orderD)
  have ex2: "ex_succeed_messages ex2 = concat (map (task_msgs \<circ> step_tasks E' nodes ?lc) DF)"
    using succeeded_wait_all[OF E(2) K(2) s2] w2 by (simp add: DF_def)
  have "finish_step (?lc\<lparr>pl_manager := ?mc, pl_executor := ex2\<rparr>) = (Inr True, l2)" using b2 e2 step2 by simp
  then obtain f2 where f2: "flush (fold buffer_message (ex_succeed_messages ex2) ?mc) = (Inr (), f2)"
      "l2 = ?lc\<lparr>pl_manager := f2, pl_step := pl_step ?lr + 1, pl_executor := executor_init\<rparr>"
    by (rule finish_step_continues) simp
  \<comment> \<open>the same in one step\<close>
  define DS where "DS = filter (\<lambda>n. n \<notin> set ?F) (se_order E d)"
  have "distinct (se_order E d)" "set (se_order E d) = set d"
    using E(1) wait_first_exception_spec(1)[OF E(1) dA d] by (auto simp: env_ok_def set_orderD)
  moreover have "set d \<union> set p = set ?A" by (rule wait_first_exception_spec(4)[OF E(1) dA d])
  ultimately have D: "distinct (DS @ DF)" "set (DS @ DF) = set ?A"
    using DF K(1,3) by (auto simp: DS_def)
  define M' where "M' = merged_env E E' ?F (DS @ DF)"
  have Mok: "env_ok M'" unfolding M'_def by (rule merged_env_ok[OF E(1)])
  have cM: "choose_active M' nodes l = l1" by (simp add: M'_def choose_active_merged l1(1))
  have tM: "step_tasks M' nodes l1 n = (if n \<in> set ?F then step_tasks E' nodes ?lc n else step_tasks E nodes l1 n)" for n
    by (simp add: step_tasks_def M'_def task_run_merged lc(2))
  have sM: "\<forall>n \<in> set ?A. succeeded (step_tasks M' nodes l1 n)" using K(4) s2 tM by auto
  have oM: "se_order M' (se_finish M' ?A) = DS @ DF" using D by (simp add: M'_def merged_env_def order_as_def)
  have mapS: "map (task_msgs \<circ> step_tasks M' nodes l1) DS = map (task_msgs \<circ> step_tasks E nodes l1) DS"
    by (simp add: tM DS_def)
  have mapF: "map (task_msgs \<circ> step_tasks M' nodes l1) DF = map (task_msgs \<circ> step_tasks E' nodes ?lc) DF"
    using DF(2) by (simp add: tM)
  have S: "?S = concat (map (task_msgs \<circ> step_tasks E nodes l1) DS)" using K(5) by (simp add: DS_def)
  let ?exM = "\<lparr>ex_succeed_messages = ?S @ ex_succeed_messages ex2, ex_failed = []\<rparr>"
  have wM: "wait_all M' (step_tasks M' nodes l1) ?A executor_init = (None, ?exM)"
    unfolding succeeded_wait_all[OF Mok dA sM] oM ex2 S by (simp only: map_append concat_append mapS mapF)
  have bM: "run_step_body M' nodes l = finish_step (l1\<lparr>pl_manager := ?m, pl_executor := ?exM\<rparr>)"
    using run_step_tasks[of l1 M' nodes l ?m None ?exM] cM l1(2,3) consume_active_eq[OF l1(4)] wM ex0 by simp
  have "\<exists>f. flush (?m\<lparr>cm_buffer := ?b @ ex_succeed_messages ex2\<rparr>) = (Inr (), f) \<and> cm_buffer f = [] \<and> cm_buffer f2 = [] \<and>
      resumed_channels (cm_channels f) = resumed_channels (cm_channels f2) \<and>
      set (cm_ready f) - {END_NODE} = set (cm_ready f2) - {END_NODE}"
  proof (rule flush_resumed)
    show "flush (?mc\<lparr>cm_buffer := ?b @ ex_succeed_messages ex2\<rparr>) = (Inr (), f2)"
      using f2(1) by (simp add: fold_buffer_message mc(3))
  qed (simp_all add: mgr_ok_buffer Cm(1) mc(1,2))
  then obtain f where f: "flush (?m\<lparr>cm_buffer := ?b @ ex_succeed_messages ex2\<rparr>) = (Inr (), f)" "cm_buffer f = []" "cm_buffer f2 = []"
      "resumed_channels (cm_channels f) = resumed_channels (cm_channels f2)"
      "set (cm_ready f) - {END_NODE} = set (cm_ready f2) - {END_NODE}" by blast
  let ?l'' = "l1\<lparr>pl_manager := f, pl_step := pl_step l1 + 1, pl_executor := executor_init\<rparr>"
  have "run_step_body M' nodes l = (Inr True, ?l'')"
    unfolding bM by (subst finish_step_eq[where f = f]) (simp_all add: fold_buffer_message f(1)[unfolded append_assoc])
  moreover have "same_but_end ?l'' l2"
    using f lc(2,3) lr(4) l1(1) choose_active_distinct(2)[OF ok E(1)] by (simp add: same_but_end_def f2(2))
  ultimately show ?thesis unfolding M'_def using l1(6) by auto
qed

section \<open>A run that is stored\<close>

locale run_store = graph_store G for G :: "(graph_state, 's) graph_saver"
begin

lemma resumes_saved:
  assumes "pg_store g = Some G" and "truthy (cf_session_id cfg)" and "truthy (cf_ns cfg)"
    and "env_ok E" and "loop_ok l"
    and "run_step E g cfg (l, s) = (Inl e, l', s')" and "ex_failed (pl_executor l') \<noteq> []"
  obtains b lb where "run_step_body E (pg_nodes g) l = (Inl b, lb)" and "e = step_error b"
    and "pl_executor l' = pl_executor lb" and "s' = gs_save G (the (cf_session_id cfg)) (the (cf_ns cfg)) (error_state cfg lb) s"
    and "loop_init g cfg (map ch_consume (cm_channels (pl_manager l))) s' =
      (Inr (), resumed_loop cfg (the (cf_recursion_limit cfg)) lb)"
proof -
  obtain r lb where b: "run_step_body E (pg_nodes g) l = (r, lb)" by force
  then obtain x where r: "r = Inl x" using assms(6) by (cases r) (auto simp: run_step_def)
  have sv: "l' = lb\<lparr>pl_manager := fold buffer_message (ex_succeed_messages (pl_executor lb)) (pl_manager lb)\<rparr>"
      "s' = gs_save G (the (cf_session_id cfg)) (the (cf_ns cfg)) (error_state cfg lb) s" "e = step_error x"
    using assms(1,2,3,6) b r by (auto simp: run_step_def save_state_on_error_def)
  have ne: "ex_failed (pl_executor lb) \<noteq> []" using assms(7) sv(1) by simp
  have st: "saved_state g cfg s' = Some (error_state cfg lb)"
    using assms(1,2,3) by (simp add: saved_state_def sv(2) get_save)
  have res: "is_resume (Some (error_state cfg lb))" using ne by (simp add: is_resume_def error_state_def)
  have ex0: "pl_executor l = executor_init" "mgr_ok (pl_manager l)" using assms(5) by (auto simp: loop_ok_def)
  have chs: "map ch_consume (cm_channels (pl_manager l)) = map ch_consume (cm_channels (pl_manager lb))"
    using run_step_failed[OF b[unfolded r] ne ex0(1) assms(4,5)] consume_fold[OF ex0(2)]
    by (metis pregel_loop.select_convs(1) pregel_loop.surjective pregel_loop.update_convs(1,5))
  have "loop_init g cfg (map ch_consume (cm_channels (pl_manager l))) s' =
      (Inr (), resumed_loop cfg (the (cf_recursion_limit cfg)) lb)"
    unfolding loop_init_def Let_def st chs resumed_loop_def using res by (simp add: resume_from_def loop_new_def)
  with that[OF b[unfolded r] sv(3) _ sv(2)] sv(1) show thesis by simp
qed

lemma resume_completes:
  assumes "env_ok E" and "env_ok E'" and "loop_ok l" and "pg_store g = Some G"
    and "truthy (cf_session_id cfg)" and "truthy (cf_ns cfg)"
    and "run_step E g cfg (l, s) = (Inl e, l', s')" and "ex_failed (pl_executor l') \<noteq> []"
    and "loop_init g cfg (map ch_consume (cm_channels (pl_manager l))) s' = (Inr (), lr)"
    and "run_step E' g cfg (lr, s') = (Inr True, l2, s'')"
  shows "\<exists>D l''. run_step (merged_env E E' (dkeys (ex_failed (pl_executor l'))) D) g cfg (l, s) = (Inr True, l'', s) \<and>
    same_but_end l'' l2"
proof -
  obtain b lb where lb: "run_step_body E (pg_nodes g) l = (Inl b, lb)" "pl_executor l' = pl_executor lb"
      "loop_init g cfg (map ch_consume (cm_channels (pl_manager l))) s' =
        (Inr (), resumed_loop cfg (the (cf_recursion_limit cfg)) lb)"
    by (rule resumes_saved[OF assms(4,5,6,1,3,7,8)])
  have lr: "lr = resumed_loop cfg (the (cf_recursion_limit cfg)) lb" using assms(9) lb(3) by simp
  have "run_step_body E' (pg_nodes g) lr = (Inr True, l2)"
    using assms(10) by (auto simp: run_step_def split: prod.splits sum.splits)
  then obtain D l'' where "run_step_body (merged_env E E' (dkeys (ex_failed (pl_executor lb))) D) (pg_nodes g) l = (Inr True, l'')"
      "same_but_end l'' l2"
    using resumed_step[OF assms(1,2,3) lb(1)] assms(8) lb(2) lr by metis
  then show ?thesis using lb(2) by (intro exI[of _ D] exI[of _ l'']) (simp add: run_step_def)
qed

end

interpretation mem_run: run_store in_memory_saver ..

section \<open>The invariant of the loop\<close>

lemma flush_ok:
  assumes ok: "mgr_ok m" and f: "flush m = (Inr u, m')"
  shows "mgr_ok m'"
proof -
  have W: "mgr_wf m" "ready_exact m" "list_all ch_ok (cm_channels m)" using ok by (auto simp: mgr_ok_def)
  have K: "known_targets m (cm_buffer m)" using flush_unknown(1)[OF W(1)] f by fastforce
  obtain m'' where m'': "flush m = (Inr (), m'')" "mgr_wf m''" "ready_exact m''" "layout (cm_channels m'') = layout (cm_channels m)"
      "\<forall>i < length (cm_channels m). cm_channels m'' ! i = accepts (filter (addressed m i) (cm_buffer m)) (cm_channels m ! i)"
    using flush_spec[OF W(1,2) K] by blast
  have "mgr_ok m''" by (rule mgr_okI_nth[OF ok m''(2,3)]) (use layoutD(1)[OF m''(4)] m''(5) ch_ok_accepts in auto)
  then show ?thesis using f m''(1) by simp
qed

lemma loop_init_ok:
  assumes "list_all ch_ok chs" and "loop_init g cfg chs s = (Inr u, l)" and "\<not> is_resume (saved_state g cfg s)"
  shows "loop_ok l"
proof -
  have "mgr_ok (manager_init chs)" using assms(1) manager_init_ok[of chs] by (simp add: mgr_ok_def)
  then have "mgr_ok (buffer_message msg (manager_init chs))" for msg
    by (simp add: buffer_message_def mgr_ok_buffer)
  then show ?thesis
    using assms(2,3)
    by (auto simp: loop_init_def Let_def loop_new_def loop_ok_def dest: flush_ok[rotated] split: prod.splits sum.splits)
qed

lemma loop_ok_flush_step: "loop_ok l \<Longrightarrow> flush_step l = (Inr b, l') \<Longrightarrow> loop_ok l'"
  using flush_ok by (auto simp: flush_step_def loop_ok_def split: prod.splits sum.splits)

lemma choose_active_ok: "loop_ok l \<Longrightarrow> loop_ok (choose_active E nodes l)"
  by (simp add: choose_active_def loop_ok_def Let_def)

lemma loop_ok_step:
  assumes "loop_ok l" and "run_step_body E nodes l = (Inr b, l')"
  shows "loop_ok l'"
proof (cases "pl_active (choose_active E nodes l) = []")
  case True
  then show ?thesis
    using assms choose_active_ok[of l E nodes] loop_ok_flush_step
    by (auto simp: run_step_body_def Let_def split: if_splits)
next
  case False
  let ?l1 = "choose_active E nodes l"
  have le: "int (pl_step l) \<le> pl_max_step l"
    using assms(2) False by (auto simp: run_step_body_def Let_def not_less split: if_splits)
  obtain r m where c: "consume_active nodes (pl_active ?l1) (pl_manager l) = (r, m)" by force
  have r: "r = Inr ()" using assms(2) False le c by (cases r) (auto simp: run_step_body_def Let_def)
  obtain e ex where w: "wait_all E (step_tasks E nodes ?l1) (pl_active ?l1) (pl_executor l) = (e, ex)" by force
  have "finish_step (?l1\<lparr>pl_manager := m, pl_executor := ex\<rparr>) = (Inr b, l')"
    using run_step_tasks[OF refl False le c[unfolded r] w] assms(2) by (auto split: option.splits)
  then obtain f where f: "flush (fold buffer_message (ex_succeed_messages ex) m) = (Inr (), f)"
      "l' = ?l1\<lparr>pl_manager := f, pl_step := pl_step l + 1, pl_executor := executor_init\<rparr>"
    by (rule finish_step_continues) simp
  have "mgr_ok m"
    using consume_active_known(1)[OF c[unfolded r]] consume_fold assms(1) by (simp add: loop_ok_def)
  then have "mgr_ok f" using flush_ok[OF _ f(1)] by (simp add: fold_buffer_message mgr_ok_buffer)
  then show ?thesis using choose_active_ok[OF assms(1), of E nodes] by (simp add: loop_ok_def f(2))
qed

section \<open>Properties\<close>

text \<open>C14: a run always ends. Whatever the nodes do and whatever was stored, the loop calls \<open>run_step\<close> at
  most as often as the recursion limit plus three, so with that much fuel there is an outcome and
  more fuel never changes it.\<close>

theorem pregel_run_ends:
  "\<exists>r. \<forall>extra. pregel_run (effective_limit cfg + 3 + extra) E g cfg cs = Some r"
proof -
  let ?inner = "top_level_config cfg"
  obtain i l where i: "loop_init g ?inner (fst cs) (snd cs) = (i, l)" by force
  show ?thesis
  proof (cases i)
    case (Inl e)
    then show ?thesis using i by (simp add: pregel_run_def Let_def)
  next
    case (Inr u)
    have "steps_left l \<le> effective_limit cfg + 3" by (rule loop_init_steps_left[OF i[unfolded Inr]])
    then obtain r where r: "run_steps (effective_limit cfg + 3) E 0 g ?inner (l, snd cs) = Some r"
      using run_steps_total[of "(l, snd cs)"] by fastforce
    have "run_steps (effective_limit cfg + 3 + extra) E 0 g ?inner (l, snd cs) = Some r" for extra
      by (rule run_steps_mono[OF r]) simp
    then show ?thesis using i Inr by (cases r) (simp add: pregel_run_def Let_def)
  qed
qed

text \<open>C15: when a step fails while its tasks run, the active nodes split into those recorded as failed, the
  cancelled ones included, and those that succeeded, whose messages are all kept; an interrupt is
  raised only if no node raised an error, and an error only if a node raised it.\<close>

theorem failed_step_accounts:
  assumes "env_ok E" and "loop_ok l" and "run_step_body E nodes l = (Inl e, l')" and "ex_failed (pl_executor l') \<noteq> []"
  shows "let A = pl_active l'; F = dkeys (ex_failed (pl_executor l')); result = step_tasks E nodes l'
    in distinct F \<and> set F \<subseteq> set A \<and>
       (\<exists>ds. distinct ds \<and> set ds = set A - set F \<and> list_all (succeeded \<circ> result) ds \<and>
          ex_succeed_messages (pl_executor l') = concat (map (task_msgs \<circ> result) ds)) \<and>
       (case e of
          GraphInterrupt v \<Rightarrow> list_all (\<lambda>n. \<not> raised (result n)) A \<and> list_ex (\<lambda>n. result n = TaskInterrupt v) A
        | Raised x \<Rightarrow> list_ex (\<lambda>n. result n = TaskRaised x) A)"
proof -
  have ex0: "pl_executor l = executor_init" using assms(2) by (simp add: loop_ok_def)
  obtain l1 ex where l1: "l1 = choose_active E nodes l"
      "wait_all E (step_tasks E nodes l1) (pl_active l1) executor_init = (Some e, ex)"
      "l' = l1\<lparr>pl_manager := fold mgr_consume (pl_active l1) (pl_manager l), pl_executor := ex\<rparr>"
    by (rule run_step_failed[OF assms(3,4) ex0 assms(1,2)])
  have dA: "distinct (pl_active l1)" using choose_active_distinct(1)[OF assms(2,1)] l1(1) by simp
  have res: "step_tasks E nodes l' = step_tasks E nodes l1" by (simp add: fun_eq_iff step_tasks_def l1(3))
  obtain d p where d: "wait_first_exception E (step_tasks E nodes l1) (pl_active l1) = (d, p)" by force
  note K = failed_keys[OF assms(1) dA l1(2) d] and A = wait_all_spec[OF assms(1) dA d l1(2)]
    and W = wait_first_exception_spec[OF assms(1) dA d]
  let ?ds = "filter (\<lambda>n. n \<notin> set (dkeys (ex_failed ex))) (se_order E d)"
  have so: "distinct (se_order E d)" "set (se_order E d) = set d" using assms(1) W(1) by (auto simp: env_ok_def set_orderD)
  have ds: "distinct ?ds" "set ?ds = set (pl_active l1) - set (dkeys (ex_failed ex))"
    using so W(3,4) K(1) by auto
  have "list_all (succeeded \<circ> step_tasks E nodes l1) ?ds" using ds(2) K(4) by (auto simp: list_all_iff)
  moreover have "case e of
        GraphInterrupt v \<Rightarrow> list_all (\<lambda>n. \<not> raised (step_tasks E nodes l1 n)) (pl_active l1) \<and>
          list_ex (\<lambda>n. step_tasks E nodes l1 n = TaskInterrupt v) (pl_active l1)
      | Raised x \<Rightarrow> list_ex (\<lambda>n. step_tasks E nodes l1 n = TaskRaised x) (pl_active l1)"
    using A(5,6) by (cases e) (simp_all add: list_all_iff list_ex_iff)
  moreover have "ex_succeed_messages ex = concat (map (task_msgs \<circ> step_tasks E nodes l1) ?ds)" by (rule K(5))
  ultimately have "distinct (dkeys (ex_failed ex)) \<and> set (dkeys (ex_failed ex)) \<subseteq> set (pl_active l1) \<and>
      (\<exists>ds. distinct ds \<and> set ds = set (pl_active l1) - set (dkeys (ex_failed ex)) \<and>
        list_all (succeeded \<circ> step_tasks E nodes l1) ds \<and>
        ex_succeed_messages ex = concat (map (task_msgs \<circ> step_tasks E nodes l1) ds)) \<and>
      (case e of
        GraphInterrupt v \<Rightarrow> list_all (\<lambda>n. \<not> raised (step_tasks E nodes l1 n)) (pl_active l1) \<and>
          list_ex (\<lambda>n. step_tasks E nodes l1 n = TaskInterrupt v) (pl_active l1)
      | Raised x \<Rightarrow> list_ex (\<lambda>n. step_tasks E nodes l1 n = TaskRaised x) (pl_active l1))"
    using K(2,3) ds by blast
  moreover have al: "pl_active l' = pl_active l1" and xl: "pl_executor l' = ex" by (simp_all add: l1(3))
  ultimately show ?thesis unfolding Let_def res al xl by simp
qed

text \<open>C16: interrupting a step and resuming it loses and repeats nothing. A step that fails is saved; a newly
  compiled graph resumes it, running only the nodes that had failed; if that succeeds, the result is
  the one of a single uninterrupted step in which those nodes do what they did on the second run,
  up to the channels of the end node.\<close>

theorem resume_completes_step:
  assumes "env_ok E" and "env_ok E'" and "loop_ok l" and "pg_store g = Some in_memory_saver"
    and "truthy (cf_session_id cfg)" and "truthy (cf_ns cfg)"
    and "run_step E g cfg (l, s) = (Inl e, l', s')" and "ex_failed (pl_executor l') \<noteq> []"
    and "loop_init g cfg (map ch_consume (cm_channels (pl_manager l))) s' = (Inr (), lr)"
    and "run_step E' g cfg (lr, s') = (Inr True, l2, s'')"
  shows "\<exists>D l''. run_step (merged_env E E' (dkeys (ex_failed (pl_executor l'))) D) g cfg (l, s) = (Inr True, l'', s) \<and>
    same_but_end l'' l2"
  by (rule mem_run.resume_completes[OF assms])

section \<open>A concrete run\<close>

text \<open>
  The start node triggers \<open>a\<close> and \<open>b\<close>, which meet at a barrier before \<open>c\<close>. The first time \<open>b\<close> asks for
  input.
\<close>

definition wit_key :: string where
  "wit_key = make_router_key ''c'' [[''a''], [''b'']]"

definition wit_pregel :: "graph_state in_memory_store pregel" where
  "wit_pregel = \<lparr>pg_nodes = [(START, [StaticRouter [''a'', ''b'']]), (END_NODE, []), (''a'', [BarrierRouter [wit_key]]),
      (''b'', [BarrierRouter [wit_key]]), (''c'', [StaticRouter [END_NODE]])],
     pg_initial = START, pg_store = Some in_memory_saver\<rparr>"

definition wit_channels :: "channel list" where
  "wit_channels = map (\<lambda>n. TriggerChannel n []) [START, END_NODE, ''a'', ''b'', ''c''] @
     [BarrierChannel ''c'' [[''a''], [''b'']] []]"

definition wit_cfg :: pregel_config where
  "wit_cfg = \<lparr>cf_session_id = Some ''s'', cf_ns = Some ''w'', cf_recursion_limit = Some 10, cf_parent_ns = None\<rparr>"

definition quiet_env :: step_env where
  "quiet_env = \<lparr>se_func = (\<lambda>n v. None), se_select = (\<lambda>n k. Inr (ManyTargets [])), se_finish = (\<lambda>xs. xs),
     se_extra = 0, se_ready = (\<lambda>xs. xs), se_order = (\<lambda>xs. xs)\<rparr>"

definition asking_env :: step_env where
  "asking_env = quiet_env\<lparr>se_func := (\<lambda>n v. if n = ''b'' then Some (GraphInterrupt ''input'') else None)\<rparr>"

definition wit_start :: pregel_loop where
  "wit_start = snd (loop_init wit_pregel wit_cfg wit_channels [])"

definition wit_loop :: pregel_loop where
  "wit_loop = snd (run_step_body quiet_env (pg_nodes wit_pregel) wit_start)"

definition wit_failed :: "bool run_res \<times> pregel_loop \<times> graph_state in_memory_store" where
  "wit_failed = run_step asking_env wit_pregel wit_cfg (wit_loop, [])"

definition wit_resumed :: pregel_loop where
  "wit_resumed = snd (loop_init wit_pregel wit_cfg (map ch_consume (cm_channels (pl_manager wit_loop))) (snd (snd wit_failed)))"

definition wit_done :: "bool run_res \<times> pregel_loop \<times> graph_state in_memory_store" where
  "wit_done = run_step quiet_env wit_pregel wit_cfg (wit_resumed, snd (snd wit_failed))"

lemma wit_envs: "env_ok quiet_env" "env_ok asking_env"
  by (simp_all add: env_ok_def quiet_env_def asking_env_def set_order_def)

lemma wit_loop_ok: "loop_ok wit_loop"
proof -
  have i: "loop_init wit_pregel wit_cfg wit_channels [] = (Inr (), wit_start)"
  proof -
    have "fst (loop_init wit_pregel wit_cfg wit_channels []) = Inr ()" by code_simp
    then show ?thesis by (simp add: wit_start_def prod_eq_iff)
  qed
  have "\<not> is_resume (saved_state wit_pregel wit_cfg [])" by code_simp
  then have s: "loop_ok wit_start" by (intro loop_init_ok[OF _ i]) code_simp
  have "fst (run_step_body quiet_env (pg_nodes wit_pregel) wit_start) = Inr True" by code_simp
  then have "run_step_body quiet_env (pg_nodes wit_pregel) wit_start = (Inr True, wit_loop)"
    by (simp add: wit_loop_def prod_eq_iff)
  then show ?thesis by (rule loop_ok_step[OF s])
qed

lemma failed_step_accounts_witness:
  "case run_step_body asking_env (pg_nodes wit_pregel) wit_loop of
     (Inl e, l') \<Rightarrow> e = GraphInterrupt ''input'' \<and> dkeys (ex_failed (pl_executor l')) = [''b''] \<and>
       list_all (\<lambda>n. \<not> raised (step_tasks asking_env (pg_nodes wit_pregel) l' n)) (pl_active l')
   | _ \<Rightarrow> False"
proof -
  obtain r l' where b: "run_step_body asking_env (pg_nodes wit_pregel) wit_loop = (r, l')" by force
  have "fst (run_step_body asking_env (pg_nodes wit_pregel) wit_loop) = Inl (GraphInterrupt ''input'')" by code_simp
  then have r: "r = Inl (GraphInterrupt ''input'')" using b by simp
  have "dkeys (ex_failed (pl_executor (snd (run_step_body asking_env (pg_nodes wit_pregel) wit_loop)))) = [''b'']"
    by code_simp
  then have f: "dkeys (ex_failed (pl_executor l')) = [''b'']" using b by simp
  then have "ex_failed (pl_executor l') \<noteq> []" by auto
  from failed_step_accounts[OF wit_envs(2) wit_loop_ok b[unfolded r] this] f b r
  show ?thesis by (simp add: Let_def)
qed

lemma resume_completes_step_witness:
  "dkeys (ex_failed (pl_executor (fst (snd wit_failed)))) = [''b''] \<and>
   pl_active (fst (snd wit_done)) = [''b''] \<and> cm_ready (pl_manager (fst (snd wit_done))) = [''c''] \<and>
   (\<exists>D l''. run_step (merged_env asking_env quiet_env [''b''] D) wit_pregel wit_cfg (wit_loop, []) = (Inr True, l'', []) \<and>
     same_but_end l'' (fst (snd wit_done)))"
proof -
  have f: "dkeys (ex_failed (pl_executor (fst (snd wit_failed)))) = [''b'']" by code_simp
  have "fst wit_failed = Inl (GraphInterrupt ''input'')" by code_simp
  then have 1: "run_step asking_env wit_pregel wit_cfg (wit_loop, []) =
      (Inl (GraphInterrupt ''input''), fst (snd wit_failed), snd (snd wit_failed))"
    by (simp add: wit_failed_def prod_eq_iff)
  have "fst (loop_init wit_pregel wit_cfg (map ch_consume (cm_channels (pl_manager wit_loop))) (snd (snd wit_failed))) = Inr ()"
    by code_simp
  then have 2: "loop_init wit_pregel wit_cfg (map ch_consume (cm_channels (pl_manager wit_loop))) (snd (snd wit_failed)) =
      (Inr (), wit_resumed)"
    by (simp add: wit_resumed_def prod_eq_iff)
  have "fst wit_done = Inr True" by code_simp
  then have 3: "run_step quiet_env wit_pregel wit_cfg (wit_resumed, snd (snd wit_failed)) =
      (Inr True, fst (snd wit_done), snd (snd wit_done))"
    by (simp add: wit_done_def prod_eq_iff)
  have t: "truthy (cf_session_id wit_cfg)" "truthy (cf_ns wit_cfg)" by code_simp+
  have st: "pg_store wit_pregel = Some in_memory_saver" by (simp add: wit_pregel_def)
  have ne: "ex_failed (pl_executor (fst (snd wit_failed))) \<noteq> []" using f by auto
  have a: "pl_active (fst (snd wit_done)) = [''b'']" by code_simp
  have c: "cm_ready (pl_manager (fst (snd wit_done))) = [''c'']" by code_simp
  show ?thesis
    using resume_completes_step[OF wit_envs(2,1) wit_loop_ok st t 1 ne 2 3] unfolding f by (simp add: a c)
qed

end
