(* ===== verification/Pregel_Builder.thy ===== *)
theory Pregel_Builder
  imports Pregel_Engine
begin

text \<open>
  \<open>core/graph/pregel/builder.py\<close>: nodes get a trigger channel each, an edge from several sources gets
  a barrier channel and every source a router to it. Node functions are not part of the model's
  nodes, and a selector is the number the environment knows it by.
\<close>

section \<open>The builder\<close>

record builder =
  pb_nodes :: pregel_nodes
  pb_channels :: "channel list"

text \<open>An item of a source list: a node name, a set of them, or something else.\<close>

datatype source_item = Sender string | AnyOf "string list" | OtherItem

datatype edge_start = StartNode string | StartItems "source_item list" | OtherStart

datatype edge_end = EndNode string | EndNodes "string list" | OtherEnd

definition builder_add_node :: "string \<Rightarrow> router list \<Rightarrow> builder \<Rightarrow> builder" where
  "builder_add_node name routers b =
     b\<lparr>pb_nodes := dset name routers (pb_nodes b), pb_channels := pb_channels b @ [TriggerChannel name []]\<rparr>"

definition builder_init :: builder where
  "builder_init = builder_add_node END_NODE [] (builder_add_node START [] \<lparr>pb_nodes = [], pb_channels = []\<rparr>)"

text \<open>\<open>self.nodes[name].routers.append(router)\<close>\<close>

definition append_router :: "string \<Rightarrow> router \<Rightarrow> builder \<Rightarrow> unit res \<times> builder" where
  "append_router name r b =
     (case dget (pb_nodes b) name of
        None \<Rightarrow> (Inl KeyError, b)
      | Some rs \<Rightarrow> (Inr (), b\<lparr>pb_nodes := dset name (rs @ [r]) (pb_nodes b)\<rparr>))"

fun append_routers :: "string list \<Rightarrow> router \<Rightarrow> builder \<Rightarrow> unit res \<times> builder" where
  "append_routers [] r b = (Inr (), b)"
| "append_routers (n # ns) r b =
     (case append_router n r b of
        (Inl e, b') \<Rightarrow> (Inl e, b')
      | (Inr _, b') \<Rightarrow> append_routers ns r b')"

fun barrier_groups :: "source_item list \<Rightarrow> string list list res" where
  "barrier_groups [] = Inr []"
| "barrier_groups (Sender s # its) = map_sum id (\<lambda>gs. [s] # gs) (barrier_groups its)"
| "barrier_groups (AnyOf g # its) = map_sum id (\<lambda>gs. pyset g # gs) (barrier_groups its)"
| "barrier_groups (OtherItem # its) = Inl ValueError"

fun item_senders :: "source_item \<Rightarrow> string list" where
  "item_senders (Sender s) = [s]"
| "item_senders (AnyOf g) = g"
| "item_senders OtherItem = []"

fun builder_add_edge :: "edge_start \<Rightarrow> edge_end \<Rightarrow> builder \<Rightarrow> unit res \<times> builder" where
  "builder_add_edge (StartItems start) (EndNode end) b =
     (case barrier_groups start of
        Inl e \<Rightarrow> (Inl e, b)
      | Inr groups \<Rightarrow>
          (let barrier = BarrierChannel end groups []
           in append_routers (concat (map item_senders start)) (BarrierRouter [ch_key barrier])
                (b\<lparr>pb_channels := pb_channels b @ [barrier]\<rparr>)))"
| "builder_add_edge (StartNode start) (EndNodes end) b = append_router start (StaticRouter end) b"
| "builder_add_edge (StartNode start) (EndNode end) b = append_router start (StaticRouter [end]) b"
| "builder_add_edge _ _ b = (Inl ValueError, b)"

definition builder_add_branch :: "string \<Rightarrow> nat \<Rightarrow> builder \<Rightarrow> unit res \<times> builder" where
  "builder_add_branch src selector b = append_router src (ConditionalRouter selector) b"

definition builder_build :: "(graph_state, 's) graph_saver option \<Rightarrow> builder \<Rightarrow> 's pregel \<times> channel list" where
  "builder_build store b = (\<lparr>pg_nodes = pb_nodes b, pg_initial = START, pg_store = store\<rparr>, pb_channels b)"

section \<open>What every builder satisfies\<close>

datatype builder_op = AddNode string | AddEdge edge_start edge_end | AddBranch string nat

fun builder_step :: "builder_op \<Rightarrow> builder \<Rightarrow> unit res \<times> builder" where
  "builder_step (AddNode n) b = (Inr (), builder_add_node n [] b)"
| "builder_step (AddEdge s e) b = builder_add_edge s e b"
| "builder_step (AddBranch s k) b = builder_add_branch s k b"

text \<open>A program that catches what an operation raises can go on with what it left behind.\<close>

definition run_builder :: "builder_op list \<Rightarrow> builder" where
  "run_builder ops = fold (\<lambda>op b. snd (builder_step op b)) ops builder_init"

definition barrier_targets :: "builder \<Rightarrow> string set" where
  "barrier_targets b = {t. \<exists>(n, rs) \<in> set (pb_nodes b). \<exists>ts. BarrierRouter ts \<in> set rs \<and> t \<in> set ts}"

definition builder_inv :: "builder \<Rightarrow> bool" where
  "builder_inv b \<longleftrightarrow> dwf (pb_nodes b) \<and> set (dkeys (pb_nodes b)) \<subseteq> ch_key ` set (pb_channels b) \<and>
     barrier_targets b \<subseteq> ch_key ` set (pb_channels b) \<and> list_all ch_ok (pb_channels b) \<and>
     list_all (\<lambda>c. \<not> ch_is_ready c) (pb_channels b) \<and> {START, END_NODE} \<subseteq> set (dkeys (pb_nodes b))"

lemma barrier_targets_iff:
  "dwf (pb_nodes b) \<Longrightarrow> t \<in> barrier_targets b \<longleftrightarrow>
     (\<exists>n rs ts. dget (pb_nodes b) n = Some rs \<and> BarrierRouter ts \<in> set rs \<and> t \<in> set ts)"
  by (auto simp: barrier_targets_def dest: map_of_is_SomeI)

lemma dget_SomeE: "dget d k = Some v \<Longrightarrow> k \<in> fst ` set d"
  by (simp add: in_keys_iff)

lemma append_router_inv:
  assumes "builder_inv b" and "\<forall>ts. r = BarrierRouter ts \<longrightarrow> set ts \<subseteq> ch_key ` set (pb_channels b)"
  shows "builder_inv (snd (append_router n r b))" and "pb_channels (snd (append_router n r b)) = pb_channels b"
proof -
  show "pb_channels (snd (append_router n r b)) = pb_channels b" by (simp add: append_router_def split: option.splits)
  show "builder_inv (snd (append_router n r b))"
  proof (cases "dget (pb_nodes b) n")
    case None
    then show ?thesis using assms(1) by (simp add: append_router_def)
  next
    case (Some rs)
    let ?b = "b\<lparr>pb_nodes := dset n (rs @ [r]) (pb_nodes b)\<rparr>"
    have w: "dwf (pb_nodes b)" "dwf (pb_nodes ?b)" using assms(1) by (simp_all add: builder_inv_def distinct_update)
    have "barrier_targets ?b \<subseteq> ch_key ` set (pb_channels b)"
    proof
      fix t assume "t \<in> barrier_targets ?b"
      then obtain k rs' ts where "dget (dset n (rs @ [r]) (pb_nodes b)) k = Some rs'" "BarrierRouter ts \<in> set rs'" "t \<in> set ts"
        using barrier_targets_iff[OF w(2)] by auto
      then consider "t \<in> barrier_targets b" | "r = BarrierRouter ts" "t \<in> set ts"
        using barrier_targets_iff[OF w(1)] Some by (fastforce split: if_splits)
      then show "t \<in> ch_key ` set (pb_channels b)" using assms by cases (auto simp: builder_inv_def)
    qed
    then show ?thesis using assms(1) Some w(2) by (auto simp: append_router_def builder_inv_def dom_update dest: dget_SomeE)
  qed
qed

lemma append_routers_inv:
  assumes "builder_inv b" and "\<forall>ts. r = BarrierRouter ts \<longrightarrow> set ts \<subseteq> ch_key ` set (pb_channels b)"
  shows "builder_inv (snd (append_routers ns r b)) \<and> pb_channels (snd (append_routers ns r b)) = pb_channels b"
  using assms
proof (induction ns arbitrary: b)
  case (Cons n ns)
  note A = append_router_inv[OF Cons.prems, of n]
  have pc: "\<forall>ts. r = BarrierRouter ts \<longrightarrow> set ts \<subseteq> ch_key ` set (pb_channels (snd (append_router n r b)))"
    unfolding A(2) by (rule Cons.prems(2))
  have "builder_inv (snd (append_routers ns r (snd (append_router n r b)))) \<and>
      pb_channels (snd (append_routers ns r (snd (append_router n r b)))) = pb_channels b"
    using Cons.IH[OF A(1) pc] unfolding A(2) .
  then show ?case using A by (auto split: prod.splits sum.splits)
qed simp

lemma barrier_groups_ready: "\<not> ch_is_ready (BarrierChannel n gs [])"
  by (simp add: barrier_ready_iff)

lemma add_channel_inv:
  assumes "builder_inv b" and "ch_ok c" and "\<not> ch_is_ready c"
  shows "builder_inv (b\<lparr>pb_channels := pb_channels b @ [c]\<rparr>)"
proof -
  have "barrier_targets (b\<lparr>pb_channels := chs\<rparr>) = barrier_targets b" for chs by (simp add: barrier_targets_def)
  then show ?thesis using assms by (auto simp: builder_inv_def)
qed

lemma builder_step_inv:
  assumes "builder_inv b"
  shows "builder_inv (snd (builder_step op b))"
proof (cases op)
  case (AddNode n)
  let ?b = "builder_add_node n [] b"
  have w: "dwf (pb_nodes b)" using assms by (simp add: builder_inv_def)
  have "barrier_targets ?b \<subseteq> barrier_targets b"
  proof
    fix t assume "t \<in> barrier_targets ?b"
    then obtain k rs ts where "dget (pb_nodes ?b) k = Some rs" "BarrierRouter ts \<in> set rs" "t \<in> set ts"
      using barrier_targets_iff[of ?b] w by (auto simp: builder_add_node_def distinct_update)
    then show "t \<in> barrier_targets b" using barrier_targets_iff[OF w] by (auto simp: builder_add_node_def split: if_splits)
  qed
  then show ?thesis using assms AddNode
    by (auto simp: builder_inv_def builder_add_node_def distinct_update dom_update)
next
  case (AddBranch s k)
  then show ?thesis using append_router_inv(1)[OF assms] by (simp add: builder_add_branch_def)
next
  case (AddEdge s e)
  show ?thesis
  proof (cases "(s, e, b)" rule: builder_add_edge.cases)
    case (1 start "end" b')
    show ?thesis
    proof (cases "barrier_groups start")
      case (Inr groups)
      let ?c = "BarrierChannel end groups []"
      have "builder_inv (b\<lparr>pb_channels := pb_channels b @ [?c]\<rparr>)"
        by (rule add_channel_inv[OF assms]) (simp_all add: barrier_groups_ready)
      then show ?thesis using append_routers_inv Inr 1 AddEdge by (simp add: Let_def)
    qed (use 1 AddEdge assms in simp)
  qed (use AddEdge assms append_router_inv(1)[OF assms] in simp_all)
qed

lemma builder_init_inv: "builder_inv builder_init"
  by (auto simp: builder_inv_def builder_init_def builder_add_node_def barrier_targets_def START_def END_NODE_def)

lemma run_builder_inv: "builder_inv (run_builder ops)"
proof -
  have "builder_inv b \<Longrightarrow> builder_inv (fold (\<lambda>op b. snd (builder_step op b)) ops b)" for b
    by (induction ops arbitrary: b) (simp_all add: builder_step_inv)
  then show ?thesis by (simp add: run_builder_def builder_init_inv)
qed

lemma append_router_keeps:
  assumes "dget (pb_nodes b) n = Some rs" and "r \<in> set rs"
  shows "\<exists>rs'. dget (pb_nodes (snd (append_router m r' b))) n = Some rs' \<and> r \<in> set rs'"
  using assms by (auto simp: append_router_def split: option.splits)

lemma append_routers_ok:
  assumes "append_routers ns r b = (Inr u, b')"
  shows "pb_channels b' = pb_channels b" and "n \<in> set ns \<Longrightarrow> \<exists>rs. dget (pb_nodes b') n = Some rs \<and> r \<in> set rs"
proof -
  have keep: "append_routers ns r b = (Inr u, b') \<Longrightarrow> dget (pb_nodes b) n = Some rs \<Longrightarrow> r \<in> set rs \<Longrightarrow>
      \<exists>rs. dget (pb_nodes b') n = Some rs \<and> r \<in> set rs" for ns b rs
  proof (induction ns arbitrary: b rs)
    case (Cons k ns)
    then obtain b1 where b1: "append_router k r b = (Inr (), b1)" "append_routers ns r b1 = (Inr u, b')"
      by (auto split: prod.splits sum.splits)
    then show ?case using append_router_keeps[OF Cons.prems(2,3), of k r] Cons.IH by fastforce
  qed auto
  show "pb_channels b' = pb_channels b"
    using assms by (induction ns arbitrary: b)
      (auto simp: append_router_def split: prod.splits sum.splits option.splits)
  show "n \<in> set ns \<Longrightarrow> \<exists>rs. dget (pb_nodes b') n = Some rs \<and> r \<in> set rs"
    using assms
  proof (induction ns arbitrary: b)
    case (Cons k ns)
    then obtain b1 where b1: "append_router k r b = (Inr (), b1)" "append_routers ns r b1 = (Inr u, b')"
      by (auto split: prod.splits sum.splits)
    show ?case
    proof (cases "n = k")
      case True
      then have "\<exists>rs. dget (pb_nodes b1) n = Some rs \<and> r \<in> set rs"
        using b1(1) by (auto simp: append_router_def split: option.splits)
      then show ?thesis using keep[OF b1(2)] by blast
    next
      case False
      then show ?thesis using Cons.IH[OF _ b1(2)] Cons.prems(1) by simp
    qed
  qed simp
qed

lemma barrier_groups_spec:
  "barrier_groups its = Inr gs \<Longrightarrow> map set gs = map (set \<circ> item_senders) its"
proof (induction its arbitrary: gs)
  case (Cons it its)
  then show ?case by (cases it; cases "barrier_groups its") (auto simp: pyset_def)
qed simp

section \<open>Properties\<close>


text \<open>C18: an edge from several sources makes them meet. The target gets a barrier that every source has a
  router to, and after any of the sources have sent their messages the barrier is ready exactly when
  each item of the source list is a node that has, or a set of nodes one of which has.\<close>

theorem barrier_edge_waits:
  assumes "builder_add_edge (StartItems items) (EndNode e) b = (Inr (), b')"
  shows "\<exists>c \<in> set (pb_channels b'). ch_name c = e \<and>
    (\<forall>s. s \<in> set (concat (map item_senders items)) \<longrightarrow>
       (\<exists>rs. dget (pb_nodes b') s = Some rs \<and> BarrierRouter [ch_key c] \<in> set rs)) \<and>
    (\<forall>sent E. ch_is_ready (accepts (concat (map (\<lambda>s. projr (dispatch E s (BarrierRouter [ch_key c]))) sent)) c) \<longleftrightarrow>
       sent \<noteq> [] \<and> list_all (\<lambda>it. set (item_senders it) \<inter> set sent \<noteq> {}) items)"
proof -
  obtain groups where gr: "barrier_groups items = Inr groups" using assms by (cases "barrier_groups items") auto
  let ?c = "BarrierChannel e groups []"
  have ap: "append_routers (concat (map item_senders items)) (BarrierRouter [ch_key ?c])
      (b\<lparr>pb_channels := pb_channels b @ [?c]\<rparr>) = (Inr (), b')"
    using assms gr by (simp add: Let_def)
  note A = append_routers_ok[OF ap]
  have "?c \<in> set (pb_channels b')" by (simp add: A(1))
  moreover have "ch_is_ready (accepts (concat (map (\<lambda>s. projr (dispatch E s (BarrierRouter [ch_key ?c]))) sent)) ?c) \<longleftrightarrow>
      sent \<noteq> [] \<and> list_all (\<lambda>it. set (item_senders it) \<inter> set sent \<noteq> {}) items" for sent E
  proof -
    let ?ms = "concat (map (\<lambda>s. projr (dispatch E s (BarrierRouter [ch_key ?c]))) sent)"
    obtain r where r: "accepts ?ms ?c = BarrierChannel e groups r" "set r = {s. \<exists>t. BarrierMessage s t \<in> set ?ms}"
      using accepts_barrier[of ?ms e groups "[]"] by auto
    have "set r = set sent" unfolding r(2) by auto
    moreover have "(\<forall>g \<in> set groups. set g \<inter> set sent \<noteq> {}) \<longleftrightarrow> (\<forall>g \<in> set (map set groups). g \<inter> set sent \<noteq> {})" by simp
    ultimately show ?thesis
      unfolding r(1) barrier_ready_iff barrier_groups_spec[OF gr] by (simp add: list_all_iff)
  qed
  ultimately show ?thesis using A(2) by (intro bexI[of _ ?c]) auto
qed

lemma barrier_edge_waits_witness:
  "let b = run_builder [AddNode ''a'', AddNode ''b'', AddNode ''c'', AddNode ''d''];
       items = [AnyOf [''a'', ''b''], Sender ''c'']
   in \<exists>c \<in> set (pb_channels (snd (builder_add_edge (StartItems items) (EndNode ''d'') b))).
        ch_name c = ''d'' \<and> ch_is_ready (accepts [BarrierMessage ''c'' (ch_key c), BarrierMessage ''a'' (ch_key c)] c)"
proof -
  let ?b = "run_builder [AddNode ''a'', AddNode ''b'', AddNode ''c'', AddNode ''d'']"
  let ?items = "[AnyOf [''a'', ''b''], Sender ''c'']"
  have "fst (builder_add_edge (StartItems ?items) (EndNode ''d'') ?b) = Inr ()" by code_simp
  then have "builder_add_edge (StartItems ?items) (EndNode ''d'') ?b =
      (Inr (), snd (builder_add_edge (StartItems ?items) (EndNode ''d'') ?b))" by (simp add: prod_eq_iff)
  from barrier_edge_waits[OF this] obtain c where
      c: "c \<in> set (pb_channels (snd (builder_add_edge (StartItems ?items) (EndNode ''d'') ?b)))" "ch_name c = ''d''"
        "\<And>sent E. ch_is_ready (accepts (concat (map (\<lambda>s. projr (dispatch E s (BarrierRouter [ch_key c]))) sent)) c) \<longleftrightarrow>
          sent \<noteq> [] \<and> list_all (\<lambda>it. set (item_senders it) \<inter> set sent \<noteq> {}) ?items" by blast
  have "ch_is_ready (accepts [BarrierMessage ''c'' (ch_key c), BarrierMessage ''a'' (ch_key c)] c)"
    using c(3)[of undefined "[''c'', ''a'']"] by simp
  with c(1,2) show ?thesis unfolding Let_def by blast
qed

end
