(* ===== verification/Graph_Compile.thy ===== *)
theory Graph_Compile
  imports Pregel_Builder
begin

text \<open>
  \<open>core/graph/graph.py\<close>: collecting nodes and edges and compiling them for the engine. A node that
  waits for all its predecessors gets a barrier; predecessors that lie on different exits of one
  branch exclude each other, so they form one group of the barrier. An executable and a branch
  condition are numbers here, an absent one is \<open>None\<close>; an absent name is the empty string.
\<close>

section \<open>Collecting the graph\<close>

datatype edge_source = SrcNode string | SrcList "string list"

record vertex =
  vx_node :: nat
  vx_is_end :: bool

record pregel_graph =
  gr_edges :: "(edge_source \<times> string) list"
  gr_waits :: "string list"
  gr_nodes :: "(string, vertex) pydict"
  gr_branches :: "(string, (string, nat) pydict) pydict"
  gr_branch_targets :: "(string, string list) pydict"

definition graph_init :: pregel_graph where
  "graph_init = \<lparr>gr_edges = [], gr_waits = [], gr_nodes = [], gr_branches = [], gr_branch_targets = []\<rparr>"

definition node_id_invalid :: py_error where
  "node_id_invalid = BaseError ''PREGEL_GRAPH_NODE_ID_INVALID''"

definition validate_node_id :: "string \<Rightarrow> unit res" where
  "validate_node_id node_id = (if node_id = [] then Inl node_id_invalid else Inr ())"

fun source_invalid :: "edge_source \<Rightarrow> bool" where
  "source_invalid (SrcNode s) \<longleftrightarrow> s = []"
| "source_invalid (SrcList ss) \<longleftrightarrow> ss = [] \<or> list_ex (\<lambda>s. s = []) ss"

definition graph_add_edge :: "edge_source \<Rightarrow> string \<Rightarrow> pregel_graph \<Rightarrow> unit res \<times> pregel_graph" where
  "graph_add_edge source target_id g =
     (if source_invalid source \<or> target_id = [] then (Inl (BaseError ''PREGEL_GRAPH_EDGE_INVALID''), g)
      else (Inr (), g\<lparr>gr_edges := gr_edges g @ [(source, target_id)]\<rparr>))"

definition start_node :: "string \<Rightarrow> pregel_graph \<Rightarrow> unit res \<times> pregel_graph" where
  "start_node node_id g =
     (case validate_node_id node_id of
        Inl e \<Rightarrow> (Inl e, g)
      | Inr _ \<Rightarrow> graph_add_edge (SrcList [START]) node_id g)"

definition end_node :: "string \<Rightarrow> pregel_graph \<Rightarrow> unit res \<times> pregel_graph" where
  "end_node node_id g =
     (case validate_node_id node_id of
        Inl e \<Rightarrow> (Inl e, g)
      | Inr _ \<Rightarrow>
          graph_add_edge (SrcList [node_id]) END_NODE
            (case dget (gr_nodes g) node_id of
               None \<Rightarrow> g
             | Some v \<Rightarrow> g\<lparr>gr_nodes := dset node_id (v\<lparr>vx_is_end := True\<rparr>) (gr_nodes g)\<rparr>))"

definition graph_add_node :: "string \<Rightarrow> nat option \<Rightarrow> bool \<Rightarrow> pregel_graph \<Rightarrow> unit res \<times> pregel_graph" where
  "graph_add_node node_id node wait_for_all g =
     (case validate_node_id node_id of
        Inl e \<Rightarrow> (Inl e, g)
      | Inr _ \<Rightarrow>
          (case node of
             None \<Rightarrow> (Inl (BaseError ''PREGEL_GRAPH_NODE_INVALID''), g)
           | Some x \<Rightarrow>
               if dget (gr_nodes g) node_id \<noteq> None then (Inl node_id_invalid, g)
               else (Inr (), g\<lparr>gr_nodes := dset node_id \<lparr>vx_node = x, vx_is_end = False\<rparr> (gr_nodes g),
                              gr_waits := (if wait_for_all then sadd node_id (gr_waits g) else gr_waits g)\<rparr>)))"

text \<open>A router comes with the name \<open>_get_callable_name\<close> finds for it.\<close>

definition add_conditional_edges :: "string \<Rightarrow> (string \<times> nat) option \<Rightarrow> pregel_graph \<Rightarrow> unit res \<times> pregel_graph" where
  "add_conditional_edges source_id router g =
     (if source_id = [] then (Inl (BaseError ''PREGEL_GRAPH_CONDITION_EDGE_INVALID''), g)
      else
        (case router of
           None \<Rightarrow> (Inl (BaseError ''PREGEL_GRAPH_CONDITION_EDGE_INVALID''), g)
         | Some (name, condition) \<Rightarrow>
             (Inr (), g\<lparr>gr_branches := dset source_id (dset name condition (dget_default [] (gr_branches g) source_id))
                          (gr_branches g)\<rparr>)))"

definition register_branch_targets :: "string \<Rightarrow> string list \<Rightarrow> pregel_graph \<Rightarrow> pregel_graph" where
  "register_branch_targets branch_id targets g =
     (if branch_id \<noteq> [] \<and> 1 < length targets
      then g\<lparr>gr_branch_targets := dset branch_id targets (gr_branch_targets g)\<rparr> else g)"

section \<open>Resolving the barriers\<close>

text \<open>The search follows the edges with a single source only.\<close>

function bfs :: "(edge_source \<times> string) list \<Rightarrow> string list \<Rightarrow> string list \<Rightarrow> string list" where
  "bfs edges [] visited = visited"
| "bfs edges (node # queue) visited =
     (if node \<in> set visited then bfs edges queue visited
      else
        (let visited' = sadd node visited
         in bfs edges
              (queue @ map snd (filter (\<lambda>(src, tgt). src = SrcNode node \<and> tgt \<notin> set visited') edges))
              visited'))"
  by pat_completeness auto

definition bfs_open :: "(edge_source \<times> string) list \<Rightarrow> string list \<Rightarrow> string list \<Rightarrow> string set" where
  "bfs_open edges queue visited = (set queue \<union> snd ` set edges) - set visited"

lemma bfs_open_visit:
  assumes "node \<notin> set visited" and "set queue' \<subseteq> set queue \<union> snd ` set edges"
  shows "bfs_open edges queue' (sadd node visited) \<subset> bfs_open edges (node # queue) visited"
  using assms by (auto simp: bfs_open_def)

termination bfs
proof (relation "inv_image (finite_psubset <*lex*> less_than)
    (\<lambda>(edges, queue, visited). (bfs_open edges queue visited, length queue))")
  fix edges :: "(edge_source \<times> string) list" and node queue visited
  show "((edges, queue, visited), (edges, node # queue, visited))
      \<in> inv_image (finite_psubset <*lex*> less_than) (\<lambda>(edges, queue, visited). (bfs_open edges queue visited, length queue))"
    if "node \<in> set visited"
  proof -
    have "bfs_open edges queue visited = bfs_open edges (node # queue) visited" using that by (auto simp: bfs_open_def)
    then show ?thesis by simp
  qed
  fix visited' assume "node \<notin> set visited" "visited' = sadd node visited"
  then show "((edges, queue @ map snd (filter (\<lambda>(src, tgt). src = SrcNode node \<and> tgt \<notin> set visited') edges), visited'),
        (edges, node # queue, visited))
      \<in> inv_image (finite_psubset <*lex*> less_than) (\<lambda>(edges, queue, visited). (bfs_open edges queue visited, length queue))"
    using bfs_open_visit[of node visited _ queue edges]
    by (auto simp: finite_psubset_def bfs_open_def)
qed auto

definition forward_reachable :: "(edge_source \<times> string) list \<Rightarrow> string \<Rightarrow> string list" where
  "forward_reachable edges start = bfs edges [start] []"

definition build_branch_parent :: "pregel_graph \<Rightarrow> (string, string) pydict" where
  "build_branch_parent g =
     fold (\<lambda>(branch, targets) parent.
         fold (\<lambda>tgt parent.
             if dget (gr_branch_targets g) tgt \<noteq> None \<or> dget (gr_branches g) tgt \<noteq> None
             then dset tgt branch parent else parent)
           targets parent)
       (gr_branch_targets g) []"

text \<open>\<open>while root in branch_parent\<close>: it need not end.\<close>

partial_function (option) branch_root :: "(string, string) pydict \<Rightarrow> string \<Rightarrow> string option" where
  [code]: "branch_root parent b =
     (case dget parent b of
        None \<Rightarrow> Some b
      | Some b' \<Rightarrow> branch_root parent b')"

text \<open>The exits of the branches from which a node can be reached.\<close>

definition branch_exits :: "pregel_graph \<Rightarrow> (string \<times> string) list" where
  "branch_exits g = concat (map (\<lambda>(b, targets). map (\<lambda>t. (b, t)) targets) (gr_branch_targets g))"

definition owners :: "pregel_graph \<Rightarrow> string \<Rightarrow> (string \<times> string) list" where
  "owners g p = filter (\<lambda>(b, t). p \<in> set (forward_reachable (gr_edges g) t)) (branch_exits g)"

text \<open>Steps 4 and 5, over the predecessors in the order their set is listed.\<close>

definition group_pred :: "pregel_graph \<Rightarrow> string \<Rightarrow> (string, string list) pydict \<times> string list list \<Rightarrow>
    (string, string list) pydict \<times> string list list" where
  "group_pred g p acc =
     (let (branch_groups, standalone) = acc
      in case owners g p of
           [(b, t)] \<Rightarrow> (dset b (sadd p (dget_default [] branch_groups b)) branch_groups, standalone)
         | _ \<Rightarrow> (branch_groups, standalone @ [[p]]))"

fun hoist :: "(string, string) pydict \<Rightarrow> (string, string list) pydict \<Rightarrow> (string, string list) pydict \<Rightarrow>
    (string, string list) pydict option" where
  "hoist parent [] merged = Some merged"
| "hoist parent ((b, preds) # groups) merged =
     (case branch_root parent b of
        None \<Rightarrow> None
      | Some ancestor \<Rightarrow> hoist parent groups (dset ancestor (sunion (dget_default [] merged ancestor) preds) merged))"

definition resolve_barrier_groups :: "(string list \<Rightarrow> string list) \<Rightarrow> pregel_graph \<Rightarrow> string list list \<Rightarrow> string list list option" where
  "resolve_barrier_groups order g source_list =
     (if gr_branch_targets g = [] \<or> source_list = [] then Some source_list
      else
        (let (branch_groups, standalone) = fold (group_pred g) (order (pyset (concat source_list))) ([], [])
         in case hoist (build_branch_parent g) branch_groups [] of
              None \<Rightarrow> None
            | Some root_merged \<Rightarrow>
                (let result = filter (\<lambda>grp. grp \<noteq> []) (map snd root_merged) @ standalone
                 in Some (if result \<noteq> [] then result else source_list))))"

section \<open>Compiling\<close>

fun source_groups :: "edge_source \<Rightarrow> string list list" where
  "source_groups (SrcNode s) = [[s]]"
| "source_groups (SrcList ss) = map (\<lambda>s. [s]) ss"

definition collect_edge :: "string list \<Rightarrow> edge_source \<times> string \<Rightarrow>
    (edge_source \<times> string) list \<times> (string, string list list) pydict \<Rightarrow> (edge_source \<times> string) list \<times> (string, string list list) pydict" where
  "collect_edge waits edge acc =
     (let (edges, sources) = acc; (source, tgt) = edge
      in if tgt \<in> set waits
         then (edges, dset tgt (dget_default [] sources tgt @ source_groups source) sources)
         else (edges @ [edge], sources))"

fun resolve_all :: "(string list \<Rightarrow> string list) \<Rightarrow> pregel_graph \<Rightarrow> (string, string list list) pydict \<Rightarrow>
    (string, string list list) pydict option" where
  "resolve_all order g [] = Some []"
| "resolve_all order g ((tgt, sources) # rest) =
     (case resolve_barrier_groups order g sources of
        None \<Rightarrow> None
      | Some groups \<Rightarrow> map_option (\<lambda>rs. (tgt, groups) # rs) (resolve_all order g rest))"

fun group_item :: "string list \<Rightarrow> source_item" where
  "group_item [s] = Sender s"
| "group_item g = AnyOf g"

fun source_start :: "edge_source \<Rightarrow> edge_start" where
  "source_start (SrcNode s) = StartNode s"
| "source_start (SrcList ss) = StartItems (map Sender ss)"

text \<open>The builder operations of \<open>_compile\<close>, run until one raises.\<close>

definition compile_ops :: "pregel_graph \<Rightarrow> (edge_source \<times> string) list \<Rightarrow> (string, string list list) pydict \<Rightarrow> builder_op list" where
  "compile_ops g edges sources =
     map AddNode (dkeys (gr_nodes g)) @
     map (\<lambda>(tgt, groups). AddEdge (StartItems (map group_item groups)) (EndNode tgt)) sources @
     map (\<lambda>(source, tgt). AddEdge (source_start source) (EndNode tgt)) edges @
     concat (map (\<lambda>(start, branches). map (\<lambda>(name, condition). AddBranch start condition) branches) (gr_branches g))"

fun run_until_error :: "builder_op list \<Rightarrow> builder \<Rightarrow> unit res \<times> builder" where
  "run_until_error [] b = (Inr (), b)"
| "run_until_error (op # ops) b =
     (case builder_step op b of
        (Inl e, b') \<Rightarrow> (Inl e, b')
      | (Inr _, b') \<Rightarrow> run_until_error ops b')"

definition graph_compile :: "(string list \<Rightarrow> string list) \<Rightarrow> pregel_graph \<Rightarrow> builder res option" where
  "graph_compile order g =
     (let (edges, sources) = fold (collect_edge (gr_waits g)) (gr_edges g) ([], [])
      in map_option (\<lambda>sources'.
             case run_until_error (compile_ops g edges sources') builder_init of
               (Inl e, b) \<Rightarrow> Inl e
             | (Inr _, b) \<Rightarrow> Inr b)
           (resolve_all order g sources))"

section \<open>The search\<close>

definition edge_rel :: "(edge_source \<times> string) list \<Rightarrow> (string \<times> string) set" where
  "edge_rel edges = {(a, b). (SrcNode a, b) \<in> set edges}"

lemma bfs_sound: "set (bfs edges queue visited) \<subseteq> (edge_rel edges)\<^sup>* `` set queue \<union> set visited"
proof (induction edges queue visited rule: bfs.induct)
  case (2 edges node queue visited)
  show ?case
  proof (cases "node \<in> set visited")
    case True
    then show ?thesis using 2(1) by auto
  next
    case False
    let ?new = "map snd (filter (\<lambda>(src, tgt). src = SrcNode node \<and> tgt \<notin> set (sadd node visited)) edges)"
    have n: "set ?new \<subseteq> edge_rel edges `` {node}" by (auto simp: edge_rel_def)
    then have "(edge_rel edges)\<^sup>* `` set ?new \<subseteq> (edge_rel edges)\<^sup>* `` {node}"
      by (blast intro: converse_rtrancl_into_rtrancl)
    moreover have "set (bfs edges (queue @ ?new) (sadd node visited)) \<subseteq>
        (edge_rel edges)\<^sup>* `` (set queue \<union> set ?new) \<union> set (sadd node visited)"
      using 2(2)[OF False refl] unfolding set_append .
    ultimately have "set (bfs edges (queue @ ?new) (sadd node visited)) \<subseteq>
        (edge_rel edges)\<^sup>* `` (set queue \<union> {node}) \<union> insert node (set visited)"
      unfolding set_sadd by blast
    moreover have "bfs edges (node # queue) visited = bfs edges (queue @ ?new) (sadd node visited)"
      using False by (simp add: Let_def)
    ultimately show ?thesis by auto
  qed
qed simp

lemma bfs_contains: "set queue \<union> set visited \<subseteq> set (bfs edges queue visited)"
  by (induction edges queue visited rule: bfs.induct) (auto simp: Let_def)

lemma bfs_closed:
  "edge_rel edges `` set visited \<subseteq> set visited \<union> set queue \<Longrightarrow>
   edge_rel edges `` set (bfs edges queue visited) \<subseteq> set (bfs edges queue visited)"
proof (induction edges queue visited rule: bfs.induct)
  case (2 edges node queue visited)
  show ?case
  proof (cases "node \<in> set visited")
    case True
    then show ?thesis using 2(1,3) by auto
  next
    case False
    let ?v = "sadd node visited"
    let ?q = "queue @ map snd (filter (\<lambda>(src, tgt). src = SrcNode node \<and> tgt \<notin> set ?v) edges)"
    have "edge_rel edges `` set ?v \<subseteq> set ?v \<union> set ?q"
    proof
      fix y assume "y \<in> edge_rel edges `` set ?v"
      then consider "y \<in> edge_rel edges `` set visited" | "(SrcNode node, y) \<in> set edges"
        by (auto simp: edge_rel_def)
      then show "y \<in> set ?v \<union> set ?q"
      proof cases
        case 1
        then show ?thesis using 2(3) by auto
      next
        case 2
        then show ?thesis by (cases "y \<in> set ?v") force+
      qed
    qed
    then show ?thesis using 2(2)[OF False refl] False by (simp add: Let_def)
  qed
qed simp

lemma closed_rtrancl: "r `` X \<subseteq> X \<Longrightarrow> r\<^sup>* `` X \<subseteq> X"
proof
  fix y assume X: "r `` X \<subseteq> X" and "y \<in> r\<^sup>* `` X"
  then obtain x where "(x, y) \<in> r\<^sup>*" "x \<in> X" by blast
  then show "y \<in> X" using X by (induction rule: rtrancl_induct) auto
qed

lemma forward_reachable_set: "set (forward_reachable edges start) = (edge_rel edges)\<^sup>* `` {start}"
proof
  show "set (forward_reachable edges start) \<subseteq> (edge_rel edges)\<^sup>* `` {start}"
    using bfs_sound[of edges "[start]" "[]"] by (simp add: forward_reachable_def)
  have "(edge_rel edges)\<^sup>* `` set (forward_reachable edges start) \<subseteq> set (forward_reachable edges start)"
    unfolding forward_reachable_def by (rule closed_rtrancl, rule bfs_closed) simp
  moreover have "start \<in> set (forward_reachable edges start)"
    using bfs_contains[of "[start]" "[]" edges] by (simp add: forward_reachable_def)
  ultimately show "(edge_rel edges)\<^sup>* `` {start} \<subseteq> set (forward_reachable edges start)" by blast
qed

section \<open>The groups\<close>

lemma dget_default_empty: "dget_default d [] k = d"
  by (simp add: dget_default_def)

text \<open>The root branch of a predecessor that exactly one branch exit leads to.\<close>

definition owner_branch :: "pregel_graph \<Rightarrow> string \<Rightarrow> string option" where
  "owner_branch g p = (case owners g p of [(b, t)] \<Rightarrow> Some b | _ \<Rightarrow> None)"

definition owner_root :: "pregel_graph \<Rightarrow> string \<Rightarrow> string option" where
  "owner_root g p = Option.bind (owner_branch g p) (branch_root (build_branch_parent g))"

lemma group_pred_cases:
  "group_pred g p (bg, st) =
     (case owner_branch g p of
        Some b \<Rightarrow> (dset b (sadd p (dget_default [] bg b)) bg, st)
      | None \<Rightarrow> (bg, st @ [[p]]))"
  by (auto simp: group_pred_def owner_branch_def split: list.splits prod.splits)

lemma fold_group_pred:
  assumes "fold (group_pred g) ps (bg, st) = (bg', st')" and "dwf bg"
  shows "dwf bg' \<and> st' = st @ map (\<lambda>p. [p]) (filter (\<lambda>p. owner_branch g p = None) ps) \<and>
    (\<forall>b. set (dget_default [] bg' b) = set (dget_default [] bg b) \<union> {p \<in> set ps. owner_branch g p = Some b}) \<and>
    set (dkeys bg') = set (dkeys bg) \<union> {b. \<exists>p \<in> set ps. owner_branch g p = Some b}"
  using assms
proof (induction ps arbitrary: bg st)
  case (Cons p ps)
  show ?case
  proof (cases "owner_branch g p")
    case None
    then have "fold (group_pred g) ps (bg, st @ [[p]]) = (bg', st')" using Cons.prems(1) by (simp add: group_pred_cases)
    from Cons.IH[OF this Cons.prems(2)] None show ?thesis by auto
  next
    case (Some b)
    let ?bg = "dset b (sadd p (dget_default [] bg b)) bg"
    have "fold (group_pred g) ps (?bg, st) = (bg', st')" using Cons.prems(1) Some by (simp add: group_pred_cases)
    note IH = Cons.IH[OF this distinct_update[OF Cons.prems(2)]]
    have D: "set (dget_default [] ?bg c) = (if c = b then insert p (set (dget_default [] bg b)) else set (dget_default [] bg c))" for c
      by (cases "dget bg b") (auto simp: dget_default_def)
    have K: "set (dkeys ?bg) = insert b (set (dkeys bg))" by (simp add: dom_update)
    show ?thesis using IH Some unfolding D K by auto
  qed
qed simp

lemma hoist_spec:
  assumes "hoist parent bg m = Some m'" and "dwf bg" and "dwf m"
  shows "dwf m' \<and> (\<forall>b \<in> set (dkeys bg). branch_root parent b \<noteq> None) \<and>
    (\<forall>r. set (dget_default [] m' r) = set (dget_default [] m r) \<union>
       (\<Union>b \<in> {b \<in> set (dkeys bg). branch_root parent b = Some r}. set (dget_default [] bg b))) \<and>
    set (dkeys m') = set (dkeys m) \<union> {r. \<exists>b \<in> set (dkeys bg). branch_root parent b = Some r}"
  using assms
proof (induction bg arbitrary: m)
  case (Cons e bg)
  obtain b ps where e: "e = (b, ps)" by force
  obtain r where r: "branch_root parent b = Some r" using Cons.prems(1) e by (cases "branch_root parent b") auto
  let ?m = "dset r (sunion (dget_default [] m r) ps) m"
  have "hoist parent bg ?m = Some m'" using Cons.prems(1) e r by simp
  note IH = Cons.IH[OF this _ distinct_update[OF Cons.prems(3)]]
  have nb: "b \<notin> set (dkeys bg)" using Cons.prems(2) e by simp
  have D: "set (dget_default [] ?m c) = (if c = r then set (dget_default [] m r) \<union> set ps else set (dget_default [] m c))" for c
    by (cases "dget m r") (auto simp: dget_default_def)
  have B: "dget_default [] (e # bg) c = (if c = b then ps else dget_default [] bg c)" for c
    by (simp add: e dget_default_def)
  have S: "{c \<in> set (dkeys (e # bg)). branch_root parent c = Some q} =
      (if q = r then insert b {c \<in> set (dkeys bg). branch_root parent c = Some q}
       else {c \<in> set (dkeys bg). branch_root parent c = Some q})" for q
    using r by (auto simp: e)
  have U: "(\<Union>c \<in> {c \<in> set (dkeys (e # bg)). branch_root parent c = Some q}. set (dget_default [] (e # bg) c)) =
      (if q = r then set ps else {}) \<union> (\<Union>c \<in> {c \<in> set (dkeys bg). branch_root parent c = Some q}. set (dget_default [] bg c))" for q
  proof -
    let ?T = "{c \<in> set (dkeys bg). branch_root parent c = Some q}"
    have "(\<Union>c \<in> ?T. set (if c = b then ps else dget_default [] bg c)) = (\<Union>c \<in> ?T. set (dget_default [] bg c))"
      using nb by (intro SUP_cong) auto
    then show ?thesis unfolding S B by (cases "q = r") simp_all
  qed
  have "dwf bg" using Cons.prems(2) by simp
  note IH = IH[OF this]
  have "set (dget_default [] m' q) = set (dget_default [] m q) \<union>
      (\<Union>c \<in> {c \<in> set (dkeys (e # bg)). branch_root parent c = Some q}. set (dget_default [] (e # bg) c))" for q
    unfolding U using IH D by auto
  moreover have "set (dkeys m') = set (dkeys m) \<union> {q. \<exists>c \<in> set (dkeys (e # bg)). branch_root parent c = Some q}"
    using IH r by (auto simp: e dom_update)
  moreover have "\<forall>c \<in> set (dkeys (e # bg)). branch_root parent c \<noteq> None" using IH r by (simp add: e)
  ultimately show ?case using IH by blast
qed simp

text \<open>
  The predecessors that exclude one with another: both lie behind exactly one branch exit, and the
  branches have the same root.
\<close>

definition pred_class :: "pregel_graph \<Rightarrow> string set \<Rightarrow> string \<Rightarrow> string set" where
  "pred_class g P p = {q \<in> P. q = p \<or> (owner_root g p \<noteq> None \<and> owner_root g q = owner_root g p)}"

lemma resolve_groups:
  assumes ord: "set_order order" and res: "resolve_barrier_groups order g sources = Some groups"
    and ne: "gr_branch_targets g \<noteq> []" "concat sources \<noteq> []"
  shows "set (map set groups) = pred_class g (set (concat sources)) ` set (concat sources)"
    and "distinct (map set groups)"
proof -
  let ?ps = "order (pyset (concat sources))"
  define P where "P = set (concat sources)"
  have ps: "distinct ?ps" "set ?ps = P" using ord by (simp_all add: set_orderD P_def)
  obtain bg st where f: "fold (group_pred g) ?ps ([], []) = (bg, st)" by force
  have F: "dwf bg" "st = map (\<lambda>p. [p]) (filter (\<lambda>p. owner_branch g p = None) ?ps)"
      "\<And>b. set (dget_default [] bg b) = {p \<in> P. owner_branch g p = Some b}"
      "set (dkeys bg) = {b. \<exists>p \<in> P. owner_branch g p = Some b}"
    using fold_group_pred[OF f] ps(2) by (simp_all add: dget_default_empty)
  have "sources \<noteq> []" using ne(2) by auto
  then obtain m where m: "hoist (build_branch_parent g) bg [] = Some m"
      and gr: "groups = (let result = filter (\<lambda>grp. grp \<noteq> []) (map snd m) @ st in if result \<noteq> [] then result else sources)"
    using res ne(1) by (auto simp: resolve_barrier_groups_def f Let_def split: option.splits)
  note H = hoist_spec[OF m F(1)]
  have root: "owner_root g p = (case owner_branch g p of None \<Rightarrow> None | Some b \<Rightarrow> branch_root (build_branch_parent g) b)" for p
    by (simp add: owner_root_def split: option.split)
  have lone: "owner_root g p = None \<longleftrightarrow> owner_branch g p = None" if "p \<in> P" for p
    using H F(4) that by (fastforce simp: root split: option.splits)
  have M: "set (dget_default [] m r) = {p \<in> P. owner_root g p = Some r}" for r
  proof -
    have "set (dget_default [] m r) =
        (\<Union>b \<in> {b \<in> set (dkeys bg). branch_root (build_branch_parent g) b = Some r}. {p \<in> P. owner_branch g p = Some b})"
      using H F(3) by (simp add: dget_default_empty)
    also have "\<dots> = {p \<in> P. owner_root g p = Some r}" using F(4) by (auto simp: root split: option.splits)
    finally show ?thesis .
  qed
  have dm: "dwf m" using H by simp
  have entry: "set v = {p \<in> P. owner_root g p = Some r}" if "(r, v) \<in> set m" for r v
    using M[of r] that dm by (simp add: dget_default_def)
  have keys: "owner_root g p = Some r \<Longrightarrow> p \<in> P \<Longrightarrow> \<exists>v. (r, v) \<in> set m" for p r
  proof (cases "dget m r")
    case None
    assume "owner_root g p = Some r" "p \<in> P"
    then have "p \<in> set (dget_default [] m r)" using M[of r] by blast
    then show ?thesis using None by (simp add: dget_default_def)
  next
    case (Some v)
    then show ?thesis using map_of_SomeD by metis
  qed
  let ?A = "filter (\<lambda>grp. grp \<noteq> []) (map snd m)"
  have A: "set (map set ?A) = {{p \<in> P. owner_root g p = Some r} | r. \<exists>p \<in> P. owner_root g p = Some r}"
  proof (intro set_eqI iffI)
    fix X assume "X \<in> set (map set ?A)"
    then obtain r v where v: "(r, v) \<in> set m" "v \<noteq> []" "X = set v" by auto
    have X: "X = {p \<in> P. owner_root g p = Some r}" "X \<noteq> {}" using v entry[OF v(1)] by (simp, metis v(2,3) set_empty)
    then have "\<exists>p \<in> P. owner_root g p = Some r" by blast
    with X(1) show "X \<in> {{p \<in> P. owner_root g p = Some r} | r. \<exists>p \<in> P. owner_root g p = Some r}" by blast
  next
    fix X assume "X \<in> {{p \<in> P. owner_root g p = Some r} | r. \<exists>p \<in> P. owner_root g p = Some r}"
    then obtain r p where r: "X = {p \<in> P. owner_root g p = Some r}" "p \<in> P" "owner_root g p = Some r" by auto
    then obtain v where v: "(r, v) \<in> set m" using keys by blast
    then have "set v = X" "v \<noteq> []" using entry[OF v] r by auto
    then show "X \<in> set (map set ?A)" using v by force
  qed
  have stset: "set (map set st) = (\<lambda>p. {p}) ` {p \<in> P. owner_root g p = None}"
    using lone ps(2) by (auto simp: F(2))
  have cls: "pred_class g P p = (case owner_root g p of None \<Rightarrow> {p} | Some r \<Rightarrow> {q \<in> P. owner_root g q = Some r})"
    if "p \<in> P" for p
    using that by (auto simp: pred_class_def split: option.splits)
  have img: "pred_class g P ` P = set (map set (?A @ st))"
  proof -
    have "pred_class g P ` P = (\<lambda>p. case owner_root g p of None \<Rightarrow> {p} | Some r \<Rightarrow> {q \<in> P. owner_root g q = Some r}) ` P"
      using cls by (rule image_cong[OF refl])
    also have "\<dots> = {{p \<in> P. owner_root g p = Some r} | r. \<exists>p \<in> P. owner_root g p = Some r} \<union> (\<lambda>p. {p}) ` {p \<in> P. owner_root g p = None}"
      by (force split: option.splits)
    finally show ?thesis using A stset by simp
  qed
  have "P \<noteq> {}" using ne(2) by (simp add: P_def)
  then have "?A @ st \<noteq> []" using img by (metis image_is_empty list.map(1) set_empty)
  then have groups: "groups = ?A @ st" using gr by (simp add: Let_def)
  show "set (map set groups) = pred_class g (set (concat sources)) ` set (concat sources)"
    unfolding groups using img by (simp add: P_def)
  have "distinct (map set ?A)"
  proof -
    have same: "r = r'" if "(r, v) \<in> set m" "(r', v') \<in> set m" "v \<noteq> []" "set v = set v'" for r r' v v'
    proof -
      obtain x where x: "x \<in> set v" using \<open>v \<noteq> []\<close> by (cases v) auto
      then have "x \<in> {p \<in> P. owner_root g p = Some r}" using entry[OF that(1)] by blast
      moreover have "x \<in> {p \<in> P. owner_root g p = Some r'}" using x entry[OF that(2)] that(4) by blast
      ultimately have "owner_root g x = Some r" "owner_root g x = Some r'" by blast+
      then show ?thesis by simp
    qed
    have "distinct m" using dm by (simp add: distinct_map)
    then have fd: "distinct (filter (\<lambda>e. snd e \<noteq> []) m)" by simp
    have inj: "inj_on (set \<circ> snd) (set (filter (\<lambda>e. snd e \<noteq> []) m))"
    proof (rule inj_onI)
      fix e e' assume "e \<in> set (filter (\<lambda>e. snd e \<noteq> []) m)" "e' \<in> set (filter (\<lambda>e. snd e \<noteq> []) m)"
        and eq: "(set \<circ> snd) e = (set \<circ> snd) e'"
      then have e: "(fst e, snd e) \<in> set m" "(fst e', snd e') \<in> set m" "snd e \<noteq> []" by auto
      then have "fst e = fst e'" using eq by (intro same[OF e]) simp
      then show "e = e'" using e(1,2) eq_key_imp_eq_value[OF dm] by (metis prod.collapse)
    qed
    have A_eq: "map set ?A = map (set \<circ> snd) (filter (\<lambda>e. snd e \<noteq> []) m)" by (simp add: filter_map comp_def)
    show ?thesis unfolding A_eq distinct_map using fd inj by blast
  qed
  moreover have "distinct (map set st)"
    using ps(1) by (simp add: F(2) comp_def distinct_map inj_on_def)
  moreover have "set (map set ?A) \<inter> set (map set st) = {}"
  proof -
    have False if X1: "X \<in> set (map set ?A)" and X2: "X \<in> set (map set st)" for X
    proof -
      obtain r where "X = {p \<in> P. owner_root g p = Some r}" using X1 unfolding A by blast
      moreover obtain q where "X = {q}" "owner_root g q = None" using X2 unfolding stset by blast
      ultimately show False by (metis (mono_tags, lifting) mem_Collect_eq option.discI singletonI)
    qed
    then show ?thesis by blast
  qed
  ultimately show "distinct (map set groups)" unfolding groups map_append distinct_append by blast
qed

section \<open>Properties\<close>

text \<open>C19: the search finds exactly what the edges with a single source lead to, each node once, and ends
  on every graph, cycles included.\<close>

lemma bfs_distinct: "distinct visited \<Longrightarrow> distinct (bfs edges queue visited)"
  by (induction edges queue visited rule: bfs.induct) (auto simp: Let_def)

theorem forward_reachable_exact:
  "set (forward_reachable edges start) = {n. (start, n) \<in> {(a, b). (SrcNode a, b) \<in> set edges}\<^sup>*} \<and>
   distinct (forward_reachable edges start)"
  using forward_reachable_set[of edges start] bfs_distinct[of "[]" edges "[start]"]
  by (auto simp: edge_rel_def forward_reachable_def)

text \<open>C20: the groups of a barrier partition the predecessors, and two predecessors share a group exactly
  when each lies behind exactly one branch exit and their branches have the same root branch: only
  such predecessors can exclude each other.\<close>

theorem barrier_groups_exclusive:
  assumes "set_order order" and "resolve_barrier_groups order g sources = Some groups"
    and "gr_branch_targets g \<noteq> []" and "concat sources \<noteq> []"
  shows "\<Union> (set ` set groups) = \<Union> (set ` set sources) \<and> distinct (map set groups) \<and>
    (\<forall>grp \<in> set groups. \<forall>p \<in> set grp. set grp =
       {q \<in> \<Union> (set ` set sources). q = p \<or>
          (\<exists>b t b' t' r. owners g p = [(b, t)] \<and> owners g q = [(b', t')] \<and>
             branch_root (build_branch_parent g) b = Some r \<and> branch_root (build_branch_parent g) b' = Some r)})"
proof -
  let ?P = "set (concat sources)"
  note R = resolve_groups[OF assms]
  have root: "owner_root g p = Some r \<longleftrightarrow> (\<exists>b t. owners g p = [(b, t)] \<and> branch_root (build_branch_parent g) b = Some r)" for p r
    by (auto simp: owner_root_def owner_branch_def bind_eq_Some_conv split: list.splits)
  have same: "owner_root g p \<noteq> None \<and> owner_root g q = owner_root g p \<longleftrightarrow>
      (\<exists>b t b' t' r. owners g p = [(b, t)] \<and> owners g q = [(b', t')] \<and>
         branch_root (build_branch_parent g) b = Some r \<and> branch_root (build_branch_parent g) b' = Some r)" for p q
  proof -
    have "owner_root g p \<noteq> None \<and> owner_root g q = owner_root g p \<longleftrightarrow> (\<exists>r. owner_root g p = Some r \<and> owner_root g q = Some r)"
      by auto
    then show ?thesis unfolding root by blast
  qed
  have cl: "set grp = pred_class g ?P p" if "grp \<in> set groups" "p \<in> set grp" for grp p
  proof -
    have "set grp \<in> set (map set groups)" using that(1) by auto
    then have "set grp \<in> pred_class g ?P ` ?P" unfolding R(1) .
    then obtain p' where p': "p' \<in> ?P" "set grp = pred_class g ?P p'" by blast
    have "p \<in> pred_class g ?P p'" using that(2) p'(2) by blast
    then show ?thesis unfolding p'(2) by (auto simp: pred_class_def)
  qed
  have "\<Union> (set ` set groups) = \<Union> (pred_class g ?P ` ?P)" using R(1) by simp
  also have "\<dots> = ?P" by (auto simp: pred_class_def)
  finally have "\<Union> (set ` set groups) = \<Union> (set ` set sources)" by simp
  moreover have "\<forall>grp \<in> set groups. \<forall>p \<in> set grp. set grp =
       {q \<in> \<Union> (set ` set sources). q = p \<or>
          (\<exists>b t b' t' r. owners g p = [(b, t)] \<and> owners g q = [(b', t')] \<and>
             branch_root (build_branch_parent g) b = Some r \<and> branch_root (build_branch_parent g) b' = Some r)}"
    using cl unfolding pred_class_def same set_concat by blast
  ultimately show ?thesis using R(2) by blast
qed

text \<open>
  The branch \<open>b\<close> leads to \<open>x\<close> or to a nested branch \<open>c\<close>, and \<open>c\<close> to \<open>y\<close> or \<open>z\<close>; \<open>w\<close> waits for \<open>x\<close>, \<open>y\<close>,
  \<open>z\<close> and the unrelated \<open>u\<close>.
\<close>

definition wit_graph :: pregel_graph where
  "wit_graph = graph_init\<lparr>
     gr_edges := [(SrcNode ''x'', ''w''), (SrcNode ''y'', ''w''), (SrcNode ''z'', ''w''), (SrcNode ''u'', ''w'')],
     gr_branch_targets := [(''b'', [''x'', ''c'']), (''c'', [''y'', ''z''])]\<rparr>"

lemma branch_root_None: "dget parent b = None \<Longrightarrow> branch_root parent b = Some b"
  by (subst branch_root.simps) simp

lemma branch_root_Some: "dget parent b = Some b' \<Longrightarrow> branch_root parent b = branch_root parent b'"
  by (subst branch_root.simps) simp

lemma wit_parent: "build_branch_parent wit_graph = [(''c'', ''b'')]"
  by code_simp

lemma wit_roots: "branch_root (build_branch_parent wit_graph) ''b'' = Some ''b''"
    "branch_root (build_branch_parent wit_graph) ''c'' = Some ''b''"
proof -
  show b: "branch_root (build_branch_parent wit_graph) ''b'' = Some ''b''"
    unfolding wit_parent by (rule branch_root_None) simp
  show "branch_root (build_branch_parent wit_graph) ''c'' = Some ''b''"
    using b unfolding wit_parent by (subst branch_root_Some[where b' = "''b''"]) simp_all
qed

lemma barrier_groups_exclusive_witness:
  "resolve_barrier_groups (\<lambda>xs. xs) wit_graph [[''x''], [''y''], [''z''], [''u'']] = Some [[''x'', ''y'', ''z''], [''u'']] \<and>
   (\<Union> (set ` set [[''x'', ''y'', ''z''], [''u'']]) = {''x'', ''y'', ''z'', ''u''})"
proof -
  let ?src = "[[''x''], [''y''], [''z''], [''u'']]"
  have f: "fold (group_pred wit_graph) (pyset (concat ?src)) ([], []) =
      ([(''b'', [''x'']), (''c'', [''y'', ''z''])], [[''u'']])" by code_simp
  have h: "hoist (build_branch_parent wit_graph) [(''b'', [''x'']), (''c'', [''y'', ''z''])] [] = Some [(''b'', [''x'', ''y'', ''z''])]"
    by (simp add: wit_roots dget_default_def sunion_def sadd_def)
  have n: "gr_branch_targets wit_graph \<noteq> []" by (simp add: wit_graph_def)
  have r: "resolve_barrier_groups (\<lambda>xs. xs) wit_graph ?src = Some [[''x'', ''y'', ''z''], [''u'']]"
    by (simp add: resolve_barrier_groups_def f h n del: concat.simps hoist.simps)
  have o: "set_order (\<lambda>xs::string list. xs)" by (simp add: set_order_def)
  have c: "concat ?src \<noteq> []" by simp
  have "\<Union> (set ` set [[''x'', ''y'', ''z''], [''u'']]) = \<Union> (set ` set ?src)"
    using barrier_groups_exclusive[OF o r n c] by blast
  also have "\<dots> = {''x'', ''y'', ''z'', ''u''}" by auto
  finally show ?thesis using r by blast
qed

text \<open>C21: hoisting a branch to its root follows the parents to a branch without one, and it does not end
  exactly when the parents never get there.\<close>

lemma branch_root_reached:
  assumes "branch_root parent b = Some r"
  shows "(b, r) \<in> {(x, y). dget parent x = Some y}\<^sup>* \<and> dget parent r = None"
proof (rule branch_root.raw_induct[OF _ assms])
  fix f :: "(string, string) pydict \<Rightarrow> string \<Rightarrow> string option" and parent b r
  assume "\<And>parent b r. f parent b = Some r \<Longrightarrow> (b, r) \<in> {(x, y). dget parent x = Some y}\<^sup>* \<and> dget parent r = None"
    and "(case dget parent b of None \<Rightarrow> Some b | Some b' \<Rightarrow> f parent b') = Some r"
  then show "(b, r) \<in> {(x, y). dget parent x = Some y}\<^sup>* \<and> dget parent r = None"
    by (cases "dget parent b") (auto intro: converse_rtrancl_into_rtrancl)
qed

theorem branch_root_exact:
  "branch_root parent b = Some r \<longleftrightarrow> (b, r) \<in> {(x, y). dget parent x = Some y}\<^sup>* \<and> dget parent r = None"
proof
  assume "(b, r) \<in> {(x, y). dget parent x = Some y}\<^sup>* \<and> dget parent r = None"
  then have "(b, r) \<in> {(x, y). dget parent x = Some y}\<^sup>*" "dget parent r = None" by auto
  then show "branch_root parent b = Some r"
    by (induction rule: converse_rtrancl_induct) (auto simp: branch_root_None branch_root_Some)
qed (rule branch_root_reached)

section \<open>Behaviours at the edges\<close>

text \<open>Two branches each of which can lead to the other: the compilation does not end.\<close>

definition looping_graph :: pregel_graph where
  "looping_graph = graph_init\<lparr>gr_nodes := map (\<lambda>n. (n, \<lparr>vx_node = 0, vx_is_end = False\<rparr>)) [''b'', ''c'', ''x'', ''w''],
     gr_edges := [(SrcNode ''x'', ''w'')], gr_waits := [''w''],
     gr_branch_targets := [(''b'', [''x'', ''c'']), (''c'', [''y'', ''b''])]\<rparr>"

lemma looping_branches_hang: "graph_compile (\<lambda>xs. xs) looping_graph = None"
proof -
  let ?p = "build_branch_parent looping_graph"
  have p: "?p = [(''c'', ''b''), (''b'', ''c'')]" by code_simp
  have "branch_root ?p ''b'' = None"
  proof (rule ccontr)
    assume "branch_root ?p ''b'' \<noteq> None"
    then obtain r where r: "(''b'', r) \<in> {(x, y). dget ?p x = Some y}\<^sup>*" "dget ?p r = None"
      using branch_root_reached by fastforce
    from r(1) have "r \<in> {''b'', ''c''}" by (induction rule: rtrancl_induct) (auto simp: p split: if_splits)
    with r(2) show False by (auto simp: p)
  qed
  moreover have "fold (group_pred looping_graph) (pyset [''x'']) ([], []) = ([(''b'', [''x''])], [])" by code_simp
  moreover have "gr_branch_targets looping_graph \<noteq> []" by (simp add: looping_graph_def)
  ultimately have "resolve_barrier_groups (\<lambda>xs. xs) looping_graph [[''x'']] = None"
    by (simp add: resolve_barrier_groups_def)
  moreover have "fold (collect_edge (gr_waits looping_graph)) (gr_edges looping_graph) ([], []) = ([], [(''w'', [[''x'']])])"
    by code_simp
  ultimately show ?thesis by (simp add: graph_compile_def)
qed

text \<open>An edge with a list of sources is not followed, so a node behind it is not seen to exclude others.\<close>

lemma list_edge_not_followed:
  "forward_reachable [(SrcList [''a''], ''p''), (SrcNode ''p'', ''w'')] ''a'' = [''a'']"
  by code_simp

text \<open>Two routers of one name on one node: the second replaces the first.\<close>

lemma router_name_collision:
  "dget (gr_branches (snd (add_conditional_edges ''n'' (Some (''<lambda>'', 2))
     (snd (add_conditional_edges ''n'' (Some (''<lambda>'', 1)) graph_init))))) ''n'' = Some [(''<lambda>'', 2)]"
  by code_simp

end
