(* ===== verification/Task_Manager.thy ===== *)
theory Task_Manager
  imports Prelude
begin

text \<open>
  The controller's tasks: \<open>core/controller/schema/task.py\<close> and \<open>core/controller/modules/task_manager.py\<close>.
  The manager keeps its tasks in a dictionary with four indexes beside it: the ids by priority, the
  children of each parent, the parent of each child, and the roots. The fields of a task that the
  manager never looks at are one number. The async lock makes every operation one step; a task that
  is returned or stored is a value. The captures of running executions, which compare the identity
  of objects, are not modelled.
\<close>

section \<open>Tasks\<close>

datatype task_status = SUBMITTED | WORKING | PAUSED | INPUT_REQUIRED | COMPLETED | CANCELED | FAILED | WAITING | UNKNOWN

record task =
  tk_session_id :: string
  tk_task_id :: string
  tk_task_type :: string
  tk_priority :: int
  tk_status :: task_status
  tk_parent :: "string option"
  tk_input_fields :: "nat option"
  tk_error :: "string option"
  tk_metadata :: "(string, string) pydict option"
  tk_rest :: nat

definition required_string :: "string \<Rightarrow> string res" where
  "required_string v = (if v = [] \<or> strip v = [] then Inl ValueError else Inr (strip v))"

definition valid_priority :: "int \<Rightarrow> int res" where
  "valid_priority v = (if v < 0 then Inl ValueError else Inr v)"

definition valid_parent :: "string option \<Rightarrow> string option res" where
  "valid_parent v =
     (case v of
        None \<Rightarrow> Inr None
      | Some s \<Rightarrow> if s = [] \<or> strip s = [] then Inl ValueError else Inr (Some (strip s)))"

definition consistent :: "task \<Rightarrow> bool" where
  "consistent t \<longleftrightarrow>
     \<not> (tk_parent t \<noteq> None \<and> tk_parent t = Some (tk_task_id t)) \<and>
     \<not> (tk_status t = FAILED \<and> (case tk_error t of None \<Rightarrow> True | Some e \<Rightarrow> strip e = [])) \<and>
     \<not> (tk_status t = INPUT_REQUIRED \<and> tk_input_fields t = None)"

text \<open>Constructing a \<open>Task\<close>: the field validators, then the model validator.\<close>

definition make_task :: "task \<Rightarrow> task res" where
  "make_task t =
     (case (required_string (tk_session_id t), required_string (tk_task_id t), required_string (tk_task_type t),
            valid_priority (tk_priority t), valid_parent (tk_parent t)) of
        (Inr sid, Inr tid, Inr ty, Inr p, Inr par) \<Rightarrow>
          (let t' = t\<lparr>tk_session_id := sid, tk_task_id := tid, tk_task_type := ty, tk_priority := p, tk_parent := par\<rparr>
           in if consistent t' then Inr t' else Inl ValueError)
      | _ \<Rightarrow> Inl ValueError)"

section \<open>Filters\<close>

datatype priority_filter = Priority int | Highest

record task_filter =
  tf_task_id :: "string list option"
  tf_session_id :: "string option"
  tf_user_id :: "string option"
  tf_priority :: "priority_filter option"
  tf_status :: "task_status option"
  tf_with_children :: bool
  tf_is_root :: bool

definition param_error :: py_error where
  "param_error = BaseError ''AGENT_CONTROLLER_TASK_PARAM_ERROR''"

definition validate_at_least_one_filter :: "task_filter \<Rightarrow> task_filter res" where
  "validate_at_least_one_filter f =
     (if tf_task_id f = None \<and> tf_session_id f = None \<and> tf_user_id f = None \<and> tf_priority f = None \<and>
         tf_status f = None \<and> \<not> tf_is_root f
      then Inl param_error else Inr f)"

section \<open>The manager\<close>

record task_mgr =
  tm_tasks :: "(string, task) pydict"
  tm_priority :: "(int, string list) pydict"
  tm_children :: "(string, string list) pydict"
  tm_parent :: "(string, string) pydict"
  tm_roots :: "string list"
  tm_callback :: bool
  tm_notified :: nat

definition task_mgr_init :: task_mgr where
  "task_mgr_init = \<lparr>tm_tasks = [], tm_priority = [], tm_children = [], tm_parent = [], tm_roots = [],
     tm_callback = False, tm_notified = 0\<rparr>"

text \<open>\<open>if t.parent_task_id\<close>\<close>

definition truthy_parent :: "task \<Rightarrow> bool" where
  "truthy_parent t \<longleftrightarrow> tk_parent t \<noteq> None \<and> tk_parent t \<noteq> Some []"

definition set_on_task_submitted :: "bool \<Rightarrow> task_mgr \<Rightarrow> task_mgr" where
  "set_on_task_submitted callback m = m\<lparr>tm_callback := callback\<rparr>"

definition call_submitted :: "task_mgr \<Rightarrow> task_mgr" where
  "call_submitted m = (if tm_callback m then m\<lparr>tm_notified := tm_notified m + 1\<rparr> else m)"

definition notify_if_submitted :: "task list \<Rightarrow> task_mgr \<Rightarrow> task_mgr" where
  "notify_if_submitted ts m =
     (if \<not> tm_callback m then m
      else if list_ex (\<lambda>t. tk_status t = SUBMITTED) ts then call_submitted m else m)"

record task_state =
  ts_tasks :: "(string, task) pydict"
  ts_priority_index :: "(int, string list) pydict"
  ts_parent_to_children :: "(string, string list) pydict"
  ts_children_to_parent :: "(string, string) pydict"
  ts_root_tasks :: "string list"

definition get_state :: "task_mgr \<Rightarrow> task_state" where
  "get_state m = \<lparr>ts_tasks = tm_tasks m, ts_priority_index = tm_priority m, ts_parent_to_children = tm_children m,
     ts_children_to_parent = tm_parent m, ts_root_tasks = tm_roots m\<rparr>"

definition load_state :: "task_state \<Rightarrow> task_mgr \<Rightarrow> task_mgr" where
  "load_state s m = m\<lparr>tm_tasks := ts_tasks s, tm_priority := ts_priority_index s,
     tm_children := ts_parent_to_children s, tm_parent := ts_children_to_parent s, tm_roots := ts_root_tasks s\<rparr>"

definition clear_state :: "task_mgr \<Rightarrow> task_mgr" where
  "clear_state m = m\<lparr>tm_tasks := [], tm_priority := [], tm_children := [], tm_parent := [], tm_roots := []\<rparr>"

section \<open>Adding\<close>

definition add_one :: "task \<Rightarrow> task_mgr \<Rightarrow> task_mgr" where
  "add_one t m =
     (let tid = tk_task_id t;
          m1 = m\<lparr>tm_tasks := dset tid t (tm_tasks m),
                 tm_priority := dset (tk_priority t) (dget_default [] (tm_priority m) (tk_priority t) @ [tid]) (tm_priority m)\<rparr>
      in if truthy_parent t
         then m1\<lparr>tm_children := dset (the (tk_parent t)) (sadd tid (dget_default [] (tm_children m) (the (tk_parent t)))) (tm_children m),
                 tm_parent := dset tid (the (tk_parent t)) (tm_parent m),
                 tm_roots := sdiscard tid (tm_roots m)\<rparr>
         else m1\<lparr>tm_roots := sadd tid (tm_roots m)\<rparr>)"

fun add_all :: "task list \<Rightarrow> task_mgr \<Rightarrow> unit res \<times> task_mgr" where
  "add_all [] m = (Inr (), m)"
| "add_all (t # ts) m =
     (if dget (tm_tasks m) (tk_task_id t) \<noteq> None then (Inl param_error, m) else add_all ts (add_one t m))"

definition add_task :: "task list \<Rightarrow> task_mgr \<Rightarrow> unit res \<times> task_mgr" where
  "add_task ts m =
     (case add_all ts m of
        (Inl e, m') \<Rightarrow> (Inl e, m')
      | (Inr _, m') \<Rightarrow> (Inr (), notify_if_submitted ts m'))"

section \<open>Querying\<close>

text \<open>
  \<open>_collect_all_children\<close> calls itself on every child: \<open>None\<close> stands for a recursion that does not end,
  which Python turns into a \<open>RecursionError\<close>.
\<close>

partial_function (option) collect_list :: "(string, string list) pydict \<Rightarrow> string list \<Rightarrow> string list \<Rightarrow> string list option" where
  "collect_list idx cs acc =
     (case cs of
        [] \<Rightarrow> Some acc
      | c # cs' \<Rightarrow>
          Option.bind (collect_list idx (dget_default [] idx c) (sadd c acc)) (\<lambda>acc'. collect_list idx cs' acc'))"

definition collect_all_children :: "task_mgr \<Rightarrow> string \<Rightarrow> string list \<Rightarrow> string list option" where
  "collect_all_children m parent_id children_set =
     collect_list (tm_children m) (dget_default [] (tm_children m) parent_id) children_set"

fun collect_for :: "task_mgr \<Rightarrow> string list \<Rightarrow> string list \<Rightarrow> string list option" where
  "collect_for m [] acc = Some acc"
| "collect_for m (p # ps) acc =
     (case collect_all_children m p acc of
        None \<Rightarrow> None
      | Some acc' \<Rightarrow> collect_for m ps acc')"

definition user_matches :: "string option \<Rightarrow> task \<Rightarrow> bool" where
  "user_matches user t =
     (case user of
        None \<Rightarrow> True
      | Some u \<Rightarrow>
          \<not> (case tk_metadata t of
                None \<Rightarrow> True
              | Some md \<Rightarrow> (md \<noteq> [] \<and> dget md ''user_id'' \<noteq> Some u) \<or> dget md ''user_id'' = None))"

definition rest_matches :: "task_filter \<Rightarrow> task \<Rightarrow> bool" where
  "rest_matches f t \<longleftrightarrow> \<not> (tf_status f \<noteq> None \<and> tf_status f \<noteq> Some (tk_status t)) \<and> user_matches (tf_user_id f) t"

definition has_primary_filter :: "task_filter \<Rightarrow> bool" where
  "has_primary_filter f \<longleftrightarrow> tf_task_id f \<noteq> None \<or> tf_session_id f \<noteq> None \<or> tf_priority f \<noteq> None \<or> tf_is_root f"

definition candidate_ids :: "task_filter \<Rightarrow> task_mgr \<Rightarrow> string list" where
  "candidate_ids f m =
     (if \<not> has_primary_filter f \<and> (tf_status f \<noteq> None \<or> tf_user_id f \<noteq> None) then dkeys (tm_tasks m)
      else pyset
        ((case tf_task_id f of None \<Rightarrow> [] | Some ids \<Rightarrow> ids) @
         (case tf_session_id f of None \<Rightarrow> []
          | Some s \<Rightarrow> map tk_task_id (filter (\<lambda>t. tk_session_id t = s) (map snd (tm_tasks m)))) @
         (case tf_priority f of Some (Priority p) \<Rightarrow> dget_default [] (tm_priority m) p | _ \<Rightarrow> []) @
         (if tf_is_root f then tm_roots m else [])))"

definition lookup_all :: "task_mgr \<Rightarrow> string list \<Rightarrow> task list" where
  "lookup_all m ids = List.map_filter (dget (tm_tasks m)) ids"

definition query :: "(string list \<Rightarrow> string list) \<Rightarrow> task_filter \<Rightarrow> task_mgr \<Rightarrow> task list option" where
  "query order f m =
     (let result = filter (rest_matches f) (lookup_all m (order (candidate_ids f m)))
      in if tf_with_children f
         then map_option (\<lambda>children. result @ lookup_all m (order children)) (collect_for m (map tk_task_id result) [])
         else Some result)"

text \<open>A recursion that does not end is the \<open>RecursionError\<close> it leads to.\<close>

fun or_recursion :: "'a option \<Rightarrow> 'a res" where
  "or_recursion None = Inl RecursionError"
| "or_recursion (Some x) = Inr x"

definition get_task :: "(string list \<Rightarrow> string list) \<Rightarrow> task_filter option \<Rightarrow> task_mgr \<Rightarrow> task list res" where
  "get_task order f m =
     (case f of
        None \<Rightarrow> Inr (map snd (tm_tasks m))
      | Some f \<Rightarrow>
          (if tf_priority f = Some Highest then Inl param_error else or_recursion (query order f m)))"

text \<open>The children of one parent or, recursively, everything below it.\<close>

definition child_ids :: "task_mgr \<Rightarrow> bool \<Rightarrow> string list \<Rightarrow> string list \<Rightarrow> string list option" where
  "child_ids m is_recursive ids acc =
     (if is_recursive then collect_for m ids acc
      else Some (fold (\<lambda>tid acc. sunion acc (dget_default [] (tm_children m) tid)) ids acc))"

definition get_child_task :: "(string list \<Rightarrow> string list) \<Rightarrow> string list \<Rightarrow> bool \<Rightarrow> task_mgr \<Rightarrow> task list res" where
  "get_child_task order ids is_recursive m =
     or_recursion (map_option (\<lambda>cs. lookup_all m (order cs)) (child_ids m is_recursive ids []))"

section \<open>Removing\<close>

definition remove_from_bucket :: "int \<Rightarrow> string \<Rightarrow> (int, string list) pydict \<Rightarrow> (int, string list) pydict" where
  "remove_from_bucket p tid idx =
     (case dget idx p of None \<Rightarrow> idx | Some ids \<Rightarrow> dset p (remove1 tid ids) idx)"

definition discard_child :: "string \<Rightarrow> string \<Rightarrow> (string, string list) pydict \<Rightarrow> (string, string list) pydict" where
  "discard_child p tid idx = (case dget idx p of None \<Rightarrow> idx | Some cs \<Rightarrow> dset p (sdiscard tid cs) idx)"

definition promote_child :: "string list \<Rightarrow> string \<Rightarrow> task_mgr \<Rightarrow> task_mgr" where
  "promote_child removing cid m =
     (if cid \<in> set removing then m
      else
        (case dget (tm_tasks m) cid of
           None \<Rightarrow> m
         | Some c \<Rightarrow>
             m\<lparr>tm_tasks := dset cid (c\<lparr>tk_parent := None\<rparr>) (tm_tasks m),
               tm_roots := sadd cid (tm_roots m), tm_parent := ddel cid (tm_parent m)\<rparr>))"

definition detach :: "string \<Rightarrow> task \<Rightarrow> task_mgr \<Rightarrow> task_mgr" where
  "detach tid t m =
     (if truthy_parent t
      then m\<lparr>tm_children := discard_child (the (tk_parent t)) tid (tm_children m), tm_parent := ddel tid (tm_parent m)\<rparr>
      else m\<lparr>tm_roots := sdiscard tid (tm_roots m)\<rparr>)"

definition remove_one :: "string list \<Rightarrow> string \<Rightarrow> task_mgr \<Rightarrow> task_mgr" where
  "remove_one removing tid m =
     (case dget (tm_tasks m) tid of
        None \<Rightarrow> m
      | Some t \<Rightarrow>
          (let m1 = detach tid t (m\<lparr>tm_priority := remove_from_bucket (tk_priority t) tid (tm_priority m)\<rparr>);
               m2 = (case dget (tm_children m1) tid of
                       None \<Rightarrow> m1
                     | Some cs \<Rightarrow>
                         (let m' = fold (promote_child removing) cs m1
                          in m'\<lparr>tm_children := ddel tid (tm_children m')\<rparr>))
           in m2\<lparr>tm_tasks := ddel tid (tm_tasks m2)\<rparr>))"

definition remove_ids :: "string list \<Rightarrow> task_mgr \<Rightarrow> task_mgr" where
  "remove_ids removing m = fold (remove_one removing) removing m"

text \<open>\<open>pop_task\<close> also changes the filter it is given: \<open>highest\<close> becomes the greatest key of the index.\<close>

definition pop_task :: "(string list \<Rightarrow> string list) \<Rightarrow> task_filter option \<Rightarrow> task_mgr \<Rightarrow> task list res \<times> task_filter option \<times> task_mgr" where
  "pop_task order f m =
     (case f of
        None \<Rightarrow> (Inl param_error, None, m)
      | Some f \<Rightarrow>
          (if tf_priority f = Some Highest \<and> tm_priority m = [] then (Inr [], Some f, m)
           else
             (let f' = (if tf_priority f = Some Highest then f\<lparr>tf_priority := Some (Priority (Max (set (dkeys (tm_priority m)))))\<rparr> else f)
              in case query order f' m of
                   None \<Rightarrow> (Inl RecursionError, Some f', m)
                 | Some ts \<Rightarrow> (Inr ts, Some f', remove_ids (order (pyset (map tk_task_id ts))) m))))"

definition remove_task :: "(string list \<Rightarrow> string list) \<Rightarrow> task_filter option \<Rightarrow> task_mgr \<Rightarrow> unit res \<times> task_mgr" where
  "remove_task order f m =
     (case f of
        None \<Rightarrow> (Inl param_error, m)
      | Some f \<Rightarrow>
          (if tf_priority f = Some Highest then (Inl param_error, m)
           else
             (case validate_at_least_one_filter f of
                Inl e \<Rightarrow> (Inl e, m)
              | Inr f' \<Rightarrow>
                  (case query order f' m of
                     None \<Rightarrow> (Inl RecursionError, m)
                   | Some ts \<Rightarrow> (Inr (), remove_ids (order (pyset (map tk_task_id ts))) m)))))"

section \<open>Updating\<close>

definition move_parent :: "task \<Rightarrow> task \<Rightarrow> task_mgr \<Rightarrow> task_mgr" where
  "move_parent old t m =
     (let tid = tk_task_id t;
          m1 = (if truthy_parent old
                then m\<lparr>tm_children := discard_child (the (tk_parent old)) tid (tm_children m), tm_parent := ddel tid (tm_parent m)\<rparr>
                else m)
      in if truthy_parent t
         then m1\<lparr>tm_children := dset (the (tk_parent t)) (sadd tid (dget_default [] (tm_children m1) (the (tk_parent t)))) (tm_children m1),
                 tm_parent := dset tid (the (tk_parent t)) (tm_parent m1),
                 tm_roots := sdiscard tid (tm_roots m1)\<rparr>
         else m1\<lparr>tm_roots := sadd tid (tm_roots m1), tm_parent := ddel tid (tm_parent m1)\<rparr>)"

definition update_one :: "task \<Rightarrow> bool \<times> task_mgr \<Rightarrow> bool \<times> task_mgr" where
  "update_one t acc =
     (let (ok, m) = acc; tid = tk_task_id t
      in case dget (tm_tasks m) tid of
           None \<Rightarrow> (False, m)
         | Some old \<Rightarrow>
             (let idx = remove_from_bucket (tk_priority old) tid (tm_priority m);
                  idx' = (if tid \<notin> set (dget_default [] idx (tk_priority t))
                          then dset (tk_priority t) (dget_default [] idx (tk_priority t) @ [tid]) idx else idx);
                  m1 = m\<lparr>tm_tasks := dset tid t (tm_tasks m), tm_priority := idx'\<rparr>
              in (ok, if tk_parent old \<noteq> tk_parent t then move_parent old t m1 else m1)))"

definition update_task :: "task list \<Rightarrow> task_mgr \<Rightarrow> bool \<times> task_mgr" where
  "update_task ts m = fold update_one ts (True, m)"

definition set_status_one :: "task_status \<Rightarrow> string option \<Rightarrow> string \<Rightarrow> task_mgr \<Rightarrow> task_mgr" where
  "set_status_one st err tid m =
     (case dget (tm_tasks m) tid of
        None \<Rightarrow> m
      | Some t \<Rightarrow>
          m\<lparr>tm_tasks := dset tid
             (if st = FAILED
              then t\<lparr>tk_status := st,
                     tk_error := Some (if err \<in> {None, Some []} then ''Task execution failed'' else the err)\<rparr>
              else t\<lparr>tk_status := st\<rparr>) (tm_tasks m)\<rparr>)"

definition update_task_status :: "(string list \<Rightarrow> string list) \<Rightarrow> string list \<Rightarrow> task_status \<Rightarrow> bool \<Rightarrow> bool \<Rightarrow> string option \<Rightarrow>
    task_mgr \<Rightarrow> unit res \<times> task_mgr" where
  "update_task_status order ids st with_children is_recursive err m =
     (case (if with_children then child_ids m is_recursive ids (pyset ids) else Some (pyset ids)) of
        None \<Rightarrow> (Inl RecursionError, m)
      | Some all_ids \<Rightarrow>
          (let m' = fold (set_status_one st err) (order all_ids) m
           in (Inr (), if st = SUBMITTED then call_submitted m' else m')))"

definition set_priority_one :: "int \<Rightarrow> string \<Rightarrow> task_mgr \<Rightarrow> task_mgr" where
  "set_priority_one p tid m =
     (case dget (tm_tasks m) tid of
        None \<Rightarrow> m
      | Some t \<Rightarrow>
          (let m1 = m\<lparr>tm_tasks := dset tid (t\<lparr>tk_priority := p\<rparr>) (tm_tasks m)\<rparr>
           in if tk_priority t \<noteq> p
              then (let idx = remove_from_bucket (tk_priority t) tid (tm_priority m)
                    in m1\<lparr>tm_priority := dset p (dget_default [] idx p @ [tid]) idx\<rparr>)
              else m1))"

definition set_priority :: "(string list \<Rightarrow> string list) \<Rightarrow> string list \<Rightarrow> int \<Rightarrow> bool \<Rightarrow> bool \<Rightarrow> task_mgr \<Rightarrow> unit res \<times> task_mgr" where
  "set_priority order ids p with_children is_recursive m =
     (case (if with_children then child_ids m is_recursive ids (pyset ids) else Some (pyset ids)) of
        None \<Rightarrow> (Inl RecursionError, m)
      | Some all_ids \<Rightarrow> (Inr (), fold (set_priority_one p) (order all_ids) m))"

section \<open>The indexes agree with the tasks\<close>

text \<open>\<open>idx\<close> lists, for each value of an attribute, the ids of the tasks that have it.\<close>

definition indexes :: "('k, string list) pydict \<Rightarrow> (task \<Rightarrow> 'k option) \<Rightarrow> (string, task) pydict \<Rightarrow> bool" where
  "indexes idx attr ts \<longleftrightarrow> dwf idx \<and>
     (\<forall>k. distinct (dget_default [] idx k) \<and> set (dget_default [] idx k) = {j. \<exists>t. dget ts j = Some t \<and> attr t = Some k})"

lemma indexesD:
  assumes "indexes idx attr ts"
  shows "dwf idx" and "distinct (dget_default [] idx k)"
    and "j \<in> set (dget_default [] idx k) \<longleftrightarrow> (\<exists>t. dget ts j = Some t \<and> attr t = Some k)"
  using assms by (auto simp: indexes_def)

text \<open>One task changes: the index must drop its id everywhere but under the new value.\<close>

lemma indexes_point:
  assumes "indexes idx attr ts" and "\<And>j. dget ts' j = (if j = tid then v else dget ts j)" and "dwf idx'"
    and "\<And>k. distinct (dget_default [] idx' k)"
    and "\<And>k. set (dget_default [] idx' k) =
      set (dget_default [] idx k) - {tid} \<union> (if Option.bind v attr = Some k then {tid} else {})"
  shows "indexes idx' attr ts'"
  unfolding indexes_def
proof (intro conjI allI set_eqI)
  fix k j
  show "j \<in> set (dget_default [] idx' k) \<longleftrightarrow> j \<in> {j. \<exists>t. dget ts' j = Some t \<and> attr t = Some k}"
    unfolding assms(5) using indexesD(3)[OF assms(1), of j k] by (cases "j = tid") (auto simp: assms(2) bind_eq_Some_conv)
qed (use assms(3,4) in auto)

lemma indexes_cong:
  assumes "indexes idx attr ts" and "\<And>j. map_option attr (dget ts' j) = map_option attr (dget ts j)"
  shows "indexes idx attr ts'"
proof -
  have "(\<exists>t. dget ts' j = Some t \<and> attr t = Some k) \<longleftrightarrow> (\<exists>t. dget ts j = Some t \<and> attr t = Some k)" for j k
    using assms(2)[of j] by (cases "dget ts j"; cases "dget ts' j") auto
  with assms(1) show ?thesis by (simp add: indexes_def)
qed

lemma dget_default_remove_from_bucket:
  "dget_default [] (remove_from_bucket p tid idx) k =
     (if k = p then remove1 tid (dget_default [] idx p) else dget_default [] idx k)"
  by (cases "dget idx p") (simp_all add: remove_from_bucket_def dget_default_def)

lemma indexes_attr_cong:
  assumes I: "indexes idx a ts" and "\<And>j t. dget ts j = Some t \<Longrightarrow> a t = b t"
  shows "indexes idx b ts"
  unfolding indexes_def
proof (intro conjI allI set_eqI)
  fix k j
  show "j \<in> set (dget_default [] idx k) \<longleftrightarrow> j \<in> {j. \<exists>t. dget ts j = Some t \<and> b t = Some k}"
    using indexesD(3)[OF I, of j k] assms(2)[of j] by (cases "dget ts j") auto
qed (use indexesD(1,2)[OF I] in auto)

lemma set_remove_from_bucket:
  assumes "distinct (dget_default [] idx p)"
  shows "set (dget_default [] (remove_from_bucket p tid idx) k) =
      (if k = p then set (dget_default [] idx p) - {tid} else set (dget_default [] idx k))"
    and "distinct (dget_default [] idx k) \<Longrightarrow> distinct (dget_default [] (remove_from_bucket p tid idx) k)"
    and "dwf idx \<Longrightarrow> dwf (remove_from_bucket p tid idx)"
proof -
  show "set (dget_default [] (remove_from_bucket p tid idx) k) =
      (if k = p then set (dget_default [] idx p) - {tid} else set (dget_default [] idx k))"
    using assms by (simp add: dget_default_remove_from_bucket)
  show "distinct (dget_default [] idx k) \<Longrightarrow> distinct (dget_default [] (remove_from_bucket p tid idx) k)"
    by (auto simp: dget_default_remove_from_bucket)
  show "dwf idx \<Longrightarrow> dwf (remove_from_bucket p tid idx)"
    by (cases "dget idx p") (simp_all add: remove_from_bucket_def distinct_update)
qed

lemma dget_default_discard_child:
  "dget_default [] (discard_child p tid idx) k =
     (if k = p then sdiscard tid (dget_default [] idx p) else dget_default [] idx k)"
  by (cases "dget idx p") (simp_all add: discard_child_def dget_default_def sdiscard_def)

lemma set_discard_child:
  "set (dget_default [] (discard_child p tid idx) k) =
      (if k = p then set (dget_default [] idx p) - {tid} else set (dget_default [] idx k))"
  "distinct (dget_default [] idx k) \<Longrightarrow> distinct (dget_default [] (discard_child p tid idx) k)"
  "dwf idx \<Longrightarrow> dwf (discard_child p tid idx)"
proof -
  show "distinct (dget_default [] idx k) \<Longrightarrow> distinct (dget_default [] (discard_child p tid idx) k)"
    by (auto simp: dget_default_discard_child)
  show "dwf idx \<Longrightarrow> dwf (discard_child p tid idx)"
    by (cases "dget idx p") (simp_all add: discard_child_def distinct_update)
qed (simp add: dget_default_discard_child)

text \<open>
  The invariant, for a removal under way: the parents in \<open>D\<close> are gone from the index of children.
\<close>

definition kids_attr :: "string set \<Rightarrow> task \<Rightarrow> string option" where
  "kids_attr D t = (case tk_parent t of Some p \<Rightarrow> if p \<in> D then None else Some p | None \<Rightarrow> None)"

definition tm_inv_upto :: "string set \<Rightarrow> task_mgr \<Rightarrow> bool" where
  "tm_inv_upto D m \<longleftrightarrow> dwf (tm_tasks m) \<and>
     (\<forall>j t. dget (tm_tasks m) j = Some t \<longrightarrow> tk_task_id t = j \<and> tk_parent t \<noteq> Some []) \<and>
     indexes (tm_priority m) (\<lambda>t. Some (tk_priority t)) (tm_tasks m) \<and>
     indexes (tm_children m) (kids_attr D) (tm_tasks m) \<and>
     (\<forall>j. dget (tm_parent m) j = Option.bind (dget (tm_tasks m) j) tk_parent) \<and>
     distinct (tm_roots m) \<and> set (tm_roots m) = {j. \<exists>t. dget (tm_tasks m) j = Some t \<and> tk_parent t = None}"

abbreviation tm_inv :: "task_mgr \<Rightarrow> bool" where
  "tm_inv m \<equiv> tm_inv_upto {} m"

lemma kids_attr_empty [simp]: "kids_attr {} = tk_parent"
  by (auto simp: kids_attr_def fun_eq_iff split: option.split)

lemma tm_invD:
  assumes "tm_inv_upto D m"
  shows "dwf (tm_tasks m)" and "dget (tm_tasks m) j = Some t \<Longrightarrow> tk_task_id t = j"
    and "dget (tm_tasks m) j = Some t \<Longrightarrow> tk_parent t \<noteq> Some []"
    and "indexes (tm_priority m) (\<lambda>t. Some (tk_priority t)) (tm_tasks m)"
    and "indexes (tm_children m) (kids_attr D) (tm_tasks m)"
    and "dget (tm_parent m) j = Option.bind (dget (tm_tasks m) j) tk_parent"
    and "distinct (tm_roots m)"
    and "j \<in> set (tm_roots m) \<longleftrightarrow> (\<exists>t. dget (tm_tasks m) j = Some t \<and> tk_parent t = None)"
  using assms unfolding tm_inv_upto_def by blast+

lemma tm_inv_init: "tm_inv task_mgr_init"
  by (simp add: tm_inv_upto_def task_mgr_init_def indexes_def dget_default_def)

lemma truthy_parent_iff: "tk_parent t \<noteq> Some [] \<Longrightarrow> truthy_parent t \<longleftrightarrow> tk_parent t \<noteq> None"
  by (simp add: truthy_parent_def)

text \<open>A task is stored and its parent's indexes follow.\<close>

lemma tm_inv_point:
  assumes I: "tm_inv m" and t: "tk_task_id t = tid" "tk_parent t \<noteq> Some []"
    and ts: "tm_tasks m' = dset tid t (tm_tasks m)"
    and pr: "indexes (tm_priority m') (\<lambda>t. Some (tk_priority t)) (tm_tasks m')"
    and ch: "indexes (tm_children m') tk_parent (tm_tasks m')"
    and pa: "\<And>j. dget (tm_parent m') j = (if j = tid then tk_parent t else dget (tm_parent m) j)"
    and ro: "distinct (tm_roots m')" "set (tm_roots m') = set (tm_roots m) - {tid} \<union> (if tk_parent t = None then {tid} else {})"
  shows "tm_inv m'"
proof -
  note D = tm_invD[OF I]
  have "set (tm_roots m') = {j. \<exists>t. dget (tm_tasks m') j = Some t \<and> tk_parent t = None}"
  proof (rule set_eqI)
    fix j
    show "j \<in> set (tm_roots m') \<longleftrightarrow> j \<in> {j. \<exists>t. dget (tm_tasks m') j = Some t \<and> tk_parent t = None}"
      using D(8)[of j] by (cases "j = tid"; cases "tk_parent t = None") (auto simp: ro(2) ts)
  qed
  moreover have "dwf (tm_tasks m')" using D(1) by (simp add: ts distinct_update)
  moreover have "dget (tm_parent m') j = Option.bind (dget (tm_tasks m') j) tk_parent" for j
    using D(6)[of j] by (simp add: pa ts)
  moreover have "dget (tm_tasks m') j = Some t' \<longrightarrow> tk_task_id t' = j \<and> tk_parent t' \<noteq> Some []" for j t'
    using D(2,3)[of j t'] t by (auto simp: ts split: if_splits)
  ultimately show ?thesis using pr ch ro(1) by (simp add: tm_inv_upto_def)
qed

lemma add_one_inv:
  assumes I: "tm_inv m" and n: "dget (tm_tasks m) (tk_task_id t) = None" and p: "tk_parent t \<noteq> Some []"
  shows "tm_inv (add_one t m)"
proof -
  let ?tid = "tk_task_id t"
  note D = tm_invD[OF I]
  have upd: "dget (dset ?tid t (tm_tasks m)) j = (if j = ?tid then Some t else dget (tm_tasks m) j)" for j by simp
  have np: "?tid \<notin> set (dget_default [] (tm_priority m) k)" for k using indexesD(3)[OF D(4)] n by simp
  have nc: "?tid \<notin> set (dget_default [] (tm_children m) k)" for k using indexesD(3)[OF D(5)] n by simp
  have nr: "?tid \<notin> set (tm_roots m)" using D(8) n by simp
  have pr: "indexes (dset (tk_priority t) (dget_default [] (tm_priority m) (tk_priority t) @ [?tid]) (tm_priority m))
      (\<lambda>t. Some (tk_priority t)) (dset ?tid t (tm_tasks m))"
    by (rule indexes_point[OF D(4) upd]) (use indexesD(1,2)[OF D(4)] np in \<open>auto simp: distinct_update\<close>)
  have ch: "indexes (if truthy_parent t then dset (the (tk_parent t)) (sadd ?tid (dget_default [] (tm_children m) (the (tk_parent t)))) (tm_children m)
      else tm_children m) tk_parent (dset ?tid t (tm_tasks m))"
    by (rule indexes_point[OF D(5)[unfolded kids_attr_empty] upd])
      (use indexesD(1,2)[OF D(5)] nc truthy_parent_iff[OF p] in \<open>auto simp: distinct_update\<close>)
  show ?thesis
    by (rule tm_inv_point[OF I refl p])
      (use pr ch D(6)[of ?tid] D(7) nr n truthy_parent_iff[OF p] in \<open>auto simp: add_one_def Let_def split: if_splits\<close>)
qed

lemma add_all_inv:
  assumes "tm_inv m" and "\<forall>t \<in> set ts. tk_parent t \<noteq> Some []"
  shows "tm_inv (snd (add_all ts m))"
  using assms by (induction ts arbitrary: m) (auto simp: add_one_inv)

lemma tm_inv_notify [simp]:
  "tm_inv_upto D (m\<lparr>tm_notified := n\<rparr>) = tm_inv_upto D m" "tm_inv_upto D (m\<lparr>tm_callback := b\<rparr>) = tm_inv_upto D m"
  by (simp_all add: tm_inv_upto_def)

lemma tm_inv_call [simp]: "tm_inv_upto D (call_submitted m) = tm_inv_upto D m"
    "tm_inv_upto D (notify_if_submitted ts m) = tm_inv_upto D m"
  by (simp_all add: call_submitted_def notify_if_submitted_def)

lemma add_task_inv:
  assumes "tm_inv m" and "\<forall>t \<in> set ts. tk_parent t \<noteq> Some []"
  shows "tm_inv (snd (add_task ts m))"
  using add_all_inv[OF assms] by (auto simp: add_task_def split: prod.splits sum.splits)

text \<open>Changes that leave a task's parent alone.\<close>

lemma tm_inv_same_parent:
  assumes I: "tm_inv m" and old: "dget (tm_tasks m) tid = Some old" and t: "tk_task_id t = tid" "tk_parent t = tk_parent old"
    and m': "m' = m\<lparr>tm_tasks := dset tid t (tm_tasks m), tm_priority := idx\<rparr>"
    and pr: "indexes idx (\<lambda>t. Some (tk_priority t)) (dset tid t (tm_tasks m))"
  shows "tm_inv m'"
proof -
  note D = tm_invD[OF I]
  have ch: "indexes (tm_children m) tk_parent (dset tid t (tm_tasks m))"
    by (rule indexes_cong[OF D(5)[unfolded kids_attr_empty]]) (use old t(2) in simp)
  show ?thesis
  proof (rule tm_inv_point[OF I t(1)])
    show "tk_parent t \<noteq> Some []" using D(3)[OF old] t(2) by simp
    show "dget (tm_parent m') j = (if j = tid then tk_parent t else dget (tm_parent m) j)" for j
      using D(6)[of tid] old t(2) by (simp add: m')
    show "set (tm_roots m') = set (tm_roots m) - {tid} \<union> (if tk_parent t = None then {tid} else {})"
      using D(8)[of tid] old t(2) by (auto simp: m')
  qed (use pr ch D(7) in \<open>simp_all add: m'\<close>)
qed

lemma set_status_one_inv:
  assumes "tm_inv m"
  shows "tm_inv (set_status_one st err tid m)"
proof (cases "dget (tm_tasks m) tid")
  case None
  then show ?thesis using assms by (simp add: set_status_one_def)
next
  case (Some t)
  let ?t = "if st = FAILED then t\<lparr>tk_status := st, tk_error := Some (if err \<in> {None, Some []} then ''Task execution failed'' else the err)\<rparr>
    else t\<lparr>tk_status := st\<rparr>"
  show ?thesis
  proof (rule tm_inv_same_parent[OF assms Some])
    show "tk_task_id ?t = tid" using tm_invD(2)[OF assms Some] by simp
    show "indexes (tm_priority m) (\<lambda>t. Some (tk_priority t)) (dset tid ?t (tm_tasks m))"
      by (rule indexes_cong[OF tm_invD(4)[OF assms]]) (use Some in simp)
    show "set_status_one st err tid m = m\<lparr>tm_tasks := dset tid ?t (tm_tasks m), tm_priority := tm_priority m\<rparr>"
      using Some by (simp add: set_status_one_def)
  qed simp
qed

lemma indexes_move_bucket:
  assumes I: "indexes idx (\<lambda>t. Some (tk_priority t)) ts" and old: "dget ts tid = Some old"
  shows "indexes (let idx' = remove_from_bucket (tk_priority old) tid idx
      in dset (tk_priority t) (dget_default [] idx' (tk_priority t) @ [tid]) idx')
    (\<lambda>t. Some (tk_priority t)) (dset tid t ts)"
proof -
  let ?idx = "remove_from_bucket (tk_priority old) tid idx"
  have R: "set (dget_default [] ?idx k) = set (dget_default [] idx k) - {tid}" for k
    using set_remove_from_bucket(1)[OF indexesD(2)[OF I], of "tk_priority old" tid k] indexesD(3)[OF I, of tid k] old by auto
  have dd: "distinct (dget_default [] ?idx k)" for k
    using set_remove_from_bucket(2)[OF indexesD(2)[OF I] indexesD(2)[OF I]] .
  show ?thesis
    unfolding Let_def
  proof (rule indexes_point[OF I])
    show "dwf (dset (tk_priority t) (dget_default [] ?idx (tk_priority t) @ [tid]) ?idx)"
      using set_remove_from_bucket(3)[OF indexesD(2)[OF I] indexesD(1)[OF I]] by (simp add: distinct_update)
    show "dget (dset tid t ts) j = (if j = tid then Some t else dget ts j)" for j by simp
  qed (use dd R in auto)
qed

lemma set_priority_one_inv:
  assumes "tm_inv m"
  shows "tm_inv (set_priority_one p tid m)"
proof (cases "dget (tm_tasks m) tid")
  case None
  then show ?thesis using assms by (simp add: set_priority_one_def)
next
  case (Some t)
  let ?t = "t\<lparr>tk_priority := p\<rparr>"
  let ?idx = "if tk_priority t \<noteq> p then
      (let idx = remove_from_bucket (tk_priority t) tid (tm_priority m) in dset p (dget_default [] idx p @ [tid]) idx)
    else tm_priority m"
  show ?thesis
  proof (rule tm_inv_same_parent[OF assms Some])
    show "tk_task_id ?t = tid" using tm_invD(2)[OF assms Some] by simp
    show "indexes ?idx (\<lambda>t. Some (tk_priority t)) (dset tid ?t (tm_tasks m))"
    proof (cases "tk_priority t = p")
      case True
      then have "?t = t" by simp
      show ?thesis unfolding \<open>?t = t\<close> using True by (auto intro!: indexes_cong[OF tm_invD(4)[OF assms]] simp: Some)
    next
      case False
      then show ?thesis using indexes_move_bucket[OF tm_invD(4)[OF assms] Some, of ?t] by simp
    qed
    show "set_priority_one p tid m = m\<lparr>tm_tasks := dset tid ?t (tm_tasks m), tm_priority := ?idx\<rparr>"
      using Some by (simp add: set_priority_one_def Let_def)
  qed simp
qed

lemma update_one_inv:
  assumes I: "tm_inv m" and p: "tk_parent t \<noteq> Some []"
  shows "tm_inv (snd (update_one t (ok, m)))"
proof (cases "dget (tm_tasks m) (tk_task_id t)")
  case None
  then show ?thesis using assms by (simp add: update_one_def Let_def)
next
  case (Some old)
  let ?tid = "tk_task_id t"
  note D = tm_invD[OF I]
  let ?idx = "remove_from_bucket (tk_priority old) ?tid (tm_priority m)"
  have "?tid \<notin> set (dget_default [] ?idx (tk_priority t))"
    using set_remove_from_bucket(1)[OF indexesD(2)[OF D(4)], of "tk_priority old" ?tid "tk_priority t"]
      indexesD(3)[OF D(4), of ?tid "tk_priority t"] Some by auto
  then have idx: "(if ?tid \<notin> set (dget_default [] ?idx (tk_priority t))
      then dset (tk_priority t) (dget_default [] ?idx (tk_priority t) @ [?tid]) ?idx else ?idx) =
      (let idx = ?idx in dset (tk_priority t) (dget_default [] idx (tk_priority t) @ [?tid]) idx)" by (simp add: Let_def)
  let ?m1 = "m\<lparr>tm_tasks := dset ?tid t (tm_tasks m), tm_priority := (let idx = ?idx in dset (tk_priority t) (dget_default [] idx (tk_priority t) @ [?tid]) idx)\<rparr>"
  have u: "snd (update_one t (ok, m)) = (if tk_parent old \<noteq> tk_parent t then move_parent old t ?m1 else ?m1)"
    using Some by (simp add: update_one_def idx[unfolded Let_def] Let_def)
  have pr: "indexes (tm_priority ?m1) (\<lambda>t. Some (tk_priority t)) (tm_tasks ?m1)"
    using indexes_move_bucket[OF D(4) Some, of t] by simp
  show ?thesis
  proof (cases "tk_parent old = tk_parent t")
    case True
    then show ?thesis unfolding u by (auto intro!: tm_inv_same_parent[OF I Some refl _ refl] indexes_move_bucket[OF D(4) Some])
  next
    case False
    let ?m2 = "move_parent old t ?m1"
    have tr: "truthy_parent old \<longleftrightarrow> tk_parent old \<noteq> None" "truthy_parent t \<longleftrightarrow> tk_parent t \<noteq> None"
      using truthy_parent_iff[OF D(3)[OF Some]] truthy_parent_iff[OF p] by auto
    let ?c1 = "if truthy_parent old then discard_child (the (tk_parent old)) ?tid (tm_children m) else tm_children m"
    have c1: "set (dget_default [] ?c1 k) = set (dget_default [] (tm_children m) k) - {?tid}" for k
      using indexesD(3)[OF D(5), of ?tid k] Some tr(1) by (auto simp: set_discard_child(1))
    have c1d: "dwf ?c1" "distinct (dget_default [] ?c1 k)" for k
      using indexesD(1,2)[OF D(5)] by (simp_all add: set_discard_child(2,3))
    let ?c2 = "if truthy_parent t then dset (the (tk_parent t)) (sadd ?tid (dget_default [] ?c1 (the (tk_parent t)))) ?c1 else ?c1"
    have sel: "tm_tasks ?m2 = dset ?tid t (tm_tasks m)" "tm_priority ?m2 = tm_priority ?m1" "tm_children ?m2 = ?c2"
        "tm_roots ?m2 = (if truthy_parent t then sdiscard ?tid (tm_roots m) else sadd ?tid (tm_roots m))"
      by (simp_all add: move_parent_def Let_def)
    have pa: "dget (tm_parent ?m2) j = (if j = ?tid then tk_parent t else dget (tm_parent m) j)" for j
      using tr by (auto simp: move_parent_def Let_def)
    have ch: "indexes ?c2 tk_parent (dset ?tid t (tm_tasks m))"
    proof (rule indexes_point[OF D(5)[unfolded kids_attr_empty]])
      show "dget (dset ?tid t (tm_tasks m)) j = (if j = ?tid then Some t else dget (tm_tasks m) j)" for j by simp
      show "dwf ?c2" using c1d(1) by (simp add: distinct_update)
      show "distinct (dget_default [] ?c2 k)" for k using c1d(2) by simp
      show "set (dget_default [] ?c2 k) =
          set (dget_default [] (tm_children m) k) - {?tid} \<union> (if Option.bind (Some t) tk_parent = Some k then {?tid} else {})" for k
        using c1 tr(2) by (cases "tk_parent t") auto
    qed
    have "tm_inv ?m2"
    proof (rule tm_inv_point[OF I refl p sel(1) _ _ pa])
      show "indexes (tm_priority ?m2) (\<lambda>t. Some (tk_priority t)) (tm_tasks ?m2)" using pr by (simp only: sel(1,2)) simp
      show "indexes (tm_children ?m2) tk_parent (tm_tasks ?m2)" using ch by (simp only: sel(1,3))
      show "distinct (tm_roots ?m2)" using D(7) by (simp only: sel(4)) simp
      show "set (tm_roots ?m2) = set (tm_roots m) - {?tid} \<union> (if tk_parent t = None then {?tid} else {})"
        using tr(2) by (simp only: sel(4)) auto
    qed
    then show ?thesis unfolding u using False by simp
  qed
qed


section \<open>Removing keeps the indexes, and promotes the orphans\<close>

lemma kids_attr_Some: "kids_attr D t = Some k \<longleftrightarrow> tk_parent t = Some k \<and> k \<notin> D"
  by (auto simp: kids_attr_def split: option.split)

lemma promote_child_fields:
  fixes m :: task_mgr
  shows "tm_priority (promote_child removing c m) = tm_priority m" "tm_children (promote_child removing c m) = tm_children m"
      "dget (tm_tasks (promote_child removing c m)) j = map_option (\<lambda>t. if j = c \<and> c \<notin> set removing then t\<lparr>tk_parent := None\<rparr> else t) (dget (tm_tasks m) j)"
      "dget (tm_parent (promote_child removing c m)) j = (if j = c \<and> c \<notin> set removing \<and> dget (tm_tasks m) j \<noteq> None then None else dget (tm_parent m) j)"
      "j \<in> set (tm_roots (promote_child removing c m)) \<longleftrightarrow> j \<in> set (tm_roots m) \<or> j = c \<and> c \<notin> set removing \<and> dget (tm_tasks m) j \<noteq> None"
      "distinct (tm_roots m) \<Longrightarrow> distinct (tm_roots (promote_child removing c m))" "dwf (tm_tasks m) \<Longrightarrow> dwf (tm_tasks (promote_child removing c m))"
  by (cases "dget (tm_tasks m) j"; auto simp: promote_child_def distinct_update split: option.splits)+

lemma fold_promote:
  fixes m :: task_mgr
  shows "tm_priority (fold (promote_child removing) cs m) = tm_priority m"
    and "tm_children (fold (promote_child removing) cs m) = tm_children m"
    and "dget (tm_tasks (fold (promote_child removing) cs m)) j =
      map_option (\<lambda>t. if j \<in> set cs - set removing then t\<lparr>tk_parent := None\<rparr> else t) (dget (tm_tasks m) j)"
    and "dget (tm_parent (fold (promote_child removing) cs m)) j =
      (if j \<in> set cs - set removing \<and> dget (tm_tasks m) j \<noteq> None then None else dget (tm_parent m) j)"
    and "j \<in> set (tm_roots (fold (promote_child removing) cs m)) \<longleftrightarrow>
      j \<in> set (tm_roots m) \<or> j \<in> set cs - set removing \<and> dget (tm_tasks m) j \<noteq> None"
    and "distinct (tm_roots m) \<Longrightarrow> distinct (tm_roots (fold (promote_child removing) cs m))"
    and "dwf (tm_tasks m) \<Longrightarrow> dwf (tm_tasks (fold (promote_child removing) cs m))"
proof (induction cs arbitrary: m)
  case (Cons c cs)
  note p = promote_child_fields
  { case 1 show ?case by (simp add: Cons.IH(1) p(1)) }
  { case 2 show ?case by (simp add: Cons.IH(2) p(2)) }
  { case 3 show ?case by (cases "dget (tm_tasks m) j") (auto simp: Cons.IH(3) p(3)) }
  { case 4 show ?case by (auto simp: Cons.IH(4) p(3,4)) }
  { case 5 show ?case by (auto simp: Cons.IH(5) p(3,5)) }
  { case 6 then show ?case by (simp add: Cons.IH(6) p(6)) }
  { case 7 then show ?case by (simp add: Cons.IH(7) p(7)) }
qed (simp_all add: option.map_ident)

text \<open>What one removal does to every field.\<close>

lemma remove_one_fields:
  assumes I: "tm_inv_upto D m" and t: "dget (tm_tasks m) tid = Some t" and r: "tid \<in> set removing" and d: "tid \<notin> D"
  shows "tm_priority (remove_one removing tid m) = remove_from_bucket (tk_priority t) tid (tm_priority m)"
    and "dwf (tm_children (remove_one removing tid m))"
    and "distinct (dget_default [] (tm_children (remove_one removing tid m)) k)"
    and "set (dget_default [] (tm_children (remove_one removing tid m)) k) =
      (if k = tid then {} else set (dget_default [] (tm_children m) k) - {tid})"
    and "dget (tm_tasks (remove_one removing tid m)) j =
      (if j = tid then None
       else map_option (\<lambda>t. if j \<notin> set removing \<and> tk_parent t = Some tid then t\<lparr>tk_parent := None\<rparr> else t) (dget (tm_tasks m) j))"
    and "dget (tm_parent (remove_one removing tid m)) j =
      (if j = tid \<or> j \<notin> set removing \<and> dget (tm_parent m) j = Some tid then None else dget (tm_parent m) j)"
    and "j \<in> set (tm_roots (remove_one removing tid m)) \<longleftrightarrow>
      j \<noteq> tid \<and> (j \<in> set (tm_roots m) \<or> j \<notin> set removing \<and> dget (tm_parent m) j = Some tid)"
    and "distinct (tm_roots (remove_one removing tid m))"
    and "dwf (tm_tasks (remove_one removing tid m))"
proof -
  note D = tm_invD[OF I]
  let ?pr = "remove_from_bucket (tk_priority t) tid (tm_priority m)"
  define m1 where "m1 = detach tid t (m\<lparr>tm_priority := ?pr\<rparr>)"
  have tr: "truthy_parent t \<longleftrightarrow> tk_parent t \<noteq> None" using truthy_parent_iff[OF D(3)[OF t]] .
  have m1: "tm_priority m1 = ?pr" "tm_tasks m1 = tm_tasks m"
      "dwf (tm_children m1)" "distinct (dget_default [] (tm_children m1) k)"
      "set (dget_default [] (tm_children m1) k) = set (dget_default [] (tm_children m) k) - {tid}"
      "dget (tm_parent m1) j = (if j = tid then None else dget (tm_parent m) j)"
      "set (tm_roots m1) = set (tm_roots m) - {tid}" "distinct (tm_roots m1)" for j k
    using D(7) D(6)[of tid] D(8)[of tid] t tr indexesD(1,2)[OF D(5)] indexesD(3)[OF D(5), of tid k]
    by (auto simp: m1_def detach_def set_discard_child kids_attr_Some)
  define cs where "cs = dget_default [] (tm_children m1) tid"
  define m2 where "m2 = fold (promote_child removing) cs m1"
  have del: "dget (tm_children m1) tid = None \<Longrightarrow> ddel tid (tm_children m1) = tm_children m1"
    by (metis AList.delete_id map_of_eq_None_iff)
  have eq: "remove_one removing tid m = m2\<lparr>tm_children := ddel tid (tm_children m2), tm_tasks := ddel tid (tm_tasks m2)\<rparr>"
    by (cases "dget (tm_children m1) tid")
      (simp_all add: remove_one_def t m1_def[symmetric] Let_def m2_def cs_def dget_default_def fold_promote(2) del)
  have cs: "j \<in> set cs \<longleftrightarrow> j \<noteq> tid \<and> dget (tm_parent m) j = Some tid"
      "j \<in> set cs \<longleftrightarrow> j \<noteq> tid \<and> (\<exists>t'. dget (tm_tasks m) j = Some t' \<and> tk_parent t' = Some tid)" for j
    using indexesD(3)[OF D(5), of j tid] D(6)[of j] d by (auto simp: cs_def m1(5) kids_attr_Some bind_eq_Some_conv)
  note P = fold_promote[where removing = removing and cs = cs and m = m1, folded m2_def]
  show "tm_priority (remove_one removing tid m) = ?pr" by (simp add: eq P(1) m1(1))
  show "dwf (tm_children (remove_one removing tid m))" using m1(3) by (simp add: eq P(2) dwf_ddel)
  show "distinct (dget_default [] (tm_children (remove_one removing tid m)) k)" using m1(4) by (simp add: eq P(2))
  show "set (dget_default [] (tm_children (remove_one removing tid m)) k) =
      (if k = tid then {} else set (dget_default [] (tm_children m) k) - {tid})" by (simp add: eq P(2) m1(5))
  show "dget (tm_tasks (remove_one removing tid m)) j =
      (if j = tid then None
       else map_option (\<lambda>t. if j \<notin> set removing \<and> tk_parent t = Some tid then t\<lparr>tk_parent := None\<rparr> else t) (dget (tm_tasks m) j))"
    using cs(2)[of j] by (cases "dget (tm_tasks m) j") (auto simp: eq P(3) m1(2))
  show "dget (tm_parent (remove_one removing tid m)) j =
      (if j = tid \<or> j \<notin> set removing \<and> dget (tm_parent m) j = Some tid then None else dget (tm_parent m) j)"
    using cs[of j] by (auto simp: eq P(4) m1(2,6))
  show "j \<in> set (tm_roots (remove_one removing tid m)) \<longleftrightarrow>
      j \<noteq> tid \<and> (j \<in> set (tm_roots m) \<or> j \<notin> set removing \<and> dget (tm_parent m) j = Some tid)"
    using cs[of j] by (auto simp: eq P(5) m1(2,7))
  show "distinct (tm_roots (remove_one removing tid m))" using P(6) m1(8) by (simp add: eq)
  show "dwf (tm_tasks (remove_one removing tid m))" using P(7) D(1) by (simp add: eq m1(2) dwf_ddel)
qed


lemma remove_one_inv:
  assumes I: "tm_inv_upto D m" and t: "dget (tm_tasks m) tid = Some t" and r: "tid \<in> set removing" and d: "tid \<notin> D"
  shows "tm_inv_upto (insert tid D) (remove_one removing tid m)"
proof -
  note D = tm_invD[OF I]
  note F = remove_one_fields[OF I t r d]
  let ?m = "remove_one removing tid m"
  have tasks: "dget (tm_tasks ?m) j = Some u \<longleftrightarrow> j \<noteq> tid \<and> (\<exists>u'. dget (tm_tasks m) j = Some u' \<and>
      u = (if j \<notin> set removing \<and> tk_parent u' = Some tid then u'\<lparr>tk_parent := None\<rparr> else u'))" for j u
    unfolding F(5) by (cases "dget (tm_tasks m) j") auto
  have par: "dget (tm_parent m) j = (case dget (tm_tasks m) j of None \<Rightarrow> None | Some u \<Rightarrow> tk_parent u)" for j
    using D(6)[of j] by (simp split: option.split)
  have "indexes (tm_priority ?m) (\<lambda>t. Some (tk_priority t)) (ddel tid (tm_tasks m))"
    unfolding F(1)
  proof (rule indexes_point[OF D(4)])
    show "dget (ddel tid (tm_tasks m)) j = (if j = tid then None else dget (tm_tasks m) j)" for j by simp
    show "set (dget_default [] (remove_from_bucket (tk_priority t) tid (tm_priority m)) k) =
        set (dget_default [] (tm_priority m) k) - {tid} \<union> (if Option.bind None (\<lambda>t. Some (tk_priority t)) = Some k then {tid} else {})" for k
      using set_remove_from_bucket(1)[OF indexesD(2)[OF D(4)], of "tk_priority t" tid k] indexesD(3)[OF D(4), of tid k] t by auto
  qed (use set_remove_from_bucket(2,3)[OF indexesD(2)[OF D(4)]] indexesD(1,2)[OF D(4)] in auto)
  then have pr: "indexes (tm_priority ?m) (\<lambda>t. Some (tk_priority t)) (tm_tasks ?m)"
    by (rule indexes_cong) (auto simp: F(5) option.map_comp o_def intro!: option.map_cong)
  have ch: "indexes (tm_children ?m) (kids_attr (insert tid D)) (tm_tasks ?m)"
    unfolding indexes_def
  proof (intro conjI allI set_eqI)
    fix k j
    show "j \<in> set (dget_default [] (tm_children ?m) k) \<longleftrightarrow>
        j \<in> {j. \<exists>t. dget (tm_tasks ?m) j = Some t \<and> kids_attr (insert tid D) t = Some k}"
      unfolding F(4) mem_Collect_eq kids_attr_Some tasks
      using indexesD(3)[OF D(5), of j k] by (cases "dget (tm_tasks m) j") (auto simp: kids_attr_Some)
  qed (simp_all add: F(2,3))
  have pa: "dget (tm_parent ?m) j = Option.bind (dget (tm_tasks ?m) j) tk_parent" for j
    unfolding F(5,6) par by (cases "dget (tm_tasks m) j") auto
  have ro: "j \<in> set (tm_roots ?m) \<longleftrightarrow> (\<exists>t. dget (tm_tasks ?m) j = Some t \<and> tk_parent t = None)" for j
    unfolding F(7) tasks par D(8) by (cases "dget (tm_tasks m) j") auto
  have "dget (tm_tasks ?m) j = Some u \<longrightarrow> tk_task_id u = j \<and> tk_parent u \<noteq> Some []" for j u
    unfolding tasks using D(2,3)[of j] by auto
  then show ?thesis unfolding tm_inv_upto_def using pr ch pa ro F(8,9) by blast
qed

text \<open>The ids of a removal are those of stored tasks. Every other task stays, the orphans as roots.\<close>

definition survivor :: "string set \<Rightarrow> string set \<Rightarrow> string \<Rightarrow> task option \<Rightarrow> task option" where
  "survivor removing gone j v =
     (if j \<in> gone then None
      else map_option (\<lambda>t. if j \<notin> removing \<and> tk_parent t \<in> Some ` gone then t\<lparr>tk_parent := None\<rparr> else t) v)"

lemma fold_remove_one:
  assumes "tm_inv_upto D m" and "distinct ids" and "set ids \<subseteq> set removing" and "\<forall>j \<in> set ids. dget (tm_tasks m) j \<noteq> None"
    and "set ids \<inter> D = {}"
  shows "tm_inv_upto (D \<union> set ids) (fold (remove_one removing) ids m) \<and>
    (\<forall>j. dget (tm_tasks (fold (remove_one removing) ids m)) j = survivor (set removing) (set ids) j (dget (tm_tasks m) j))"
  using assms
proof (induction ids arbitrary: m D)
  case Nil
  then show ?case by (simp add: survivor_def option.map_ident)
next
  case (Cons tid ids)
  then obtain t where t: "dget (tm_tasks m) tid = Some t" by auto
  let ?m = "remove_one removing tid m"
  have r: "tid \<in> set removing" and d: "tid \<notin> D" using Cons.prems by auto
  note F = remove_one_fields(5)[OF Cons.prems(1) t r d]
  have "tm_inv_upto (insert tid D \<union> set ids) (fold (remove_one removing) ids ?m) \<and>
    (\<forall>j. dget (tm_tasks (fold (remove_one removing) ids ?m)) j = survivor (set removing) (set ids) j (dget (tm_tasks ?m) j))"
    by (rule Cons.IH) (use Cons.prems remove_one_inv[OF Cons.prems(1) t r d] F in auto)
  moreover have "survivor (set removing) (set ids) j (dget (tm_tasks ?m) j) =
      survivor (set removing) (set (tid # ids)) j (dget (tm_tasks m) j)" for j
    unfolding F using Cons.prems(2) by (cases "dget (tm_tasks m) j") (auto simp: survivor_def)
  ultimately show ?case by simp
qed

lemma remove_ids_spec:
  assumes I: "tm_inv m" and "distinct ids" and "\<forall>j \<in> set ids. dget (tm_tasks m) j \<noteq> None"
  shows "tm_inv (remove_ids ids m)"
    and "dget (tm_tasks (remove_ids ids m)) j = survivor (set ids) (set ids) j (dget (tm_tasks m) j)"
proof -
  have F: "tm_inv_upto (set ids) (remove_ids ids m)"
      "dget (tm_tasks (remove_ids ids m)) j = survivor (set ids) (set ids) j (dget (tm_tasks m) j)" for j
    using fold_remove_one[OF I assms(2) subset_refl assms(3)] by (simp_all add: remove_ids_def)
  show "dget (tm_tasks (remove_ids ids m)) j = survivor (set ids) (set ids) j (dget (tm_tasks m) j)" by (rule F(2))
  have "tk_parent t \<notin> Some ` set ids" if T: "dget (tm_tasks (remove_ids ids m)) j = Some t" for j t
  proof -
    obtain u where u: "dget (tm_tasks m) j = Some u"
      using T by (cases "dget (tm_tasks m) j") (simp_all add: F(2) survivor_def split: if_splits)
    have "t = (if tk_parent u \<in> Some ` set ids then u\<lparr>tk_parent := None\<rparr> else u)"
      using T u by (cases "j \<in> set ids") (simp_all add: F(2) survivor_def)
    then show ?thesis by (cases "tk_parent u \<in> Some ` set ids") simp_all
  qed
  then have "indexes (tm_children (remove_ids ids m)) (kids_attr {}) (tm_tasks (remove_ids ids m))"
    by (intro indexes_attr_cong[OF tm_invD(5)[OF F(1)]]) (auto simp: kids_attr_def split: option.split)
  with F(1) show "tm_inv (remove_ids ids m)" by (simp add: tm_inv_upto_def)
qed

section \<open>The recursion over the children\<close>

definition child_rel :: "(string, string list) pydict \<Rightarrow> (string \<times> string) set" where
  "child_rel idx = {(p, c). c \<in> set (dget_default [] idx p)}"

lemma finite_child_rel: "finite (child_rel idx)"
proof (rule finite_subset)
  show "child_rel idx \<subseteq> fst ` set idx \<times> \<Union> (set ` snd ` set idx)"
  proof
    fix x assume "x \<in> child_rel idx"
    then obtain p c where x: "x = (p, c)" "c \<in> set (dget_default [] idx p)" by (auto simp: child_rel_def)
    then obtain cs where "dget idx p = Some cs" "c \<in> set cs"
      by (cases "dget idx p") (auto simp: dget_default_def)
    then have "(p, cs) \<in> set idx" by (simp add: map_of_SomeD)
    with x \<open>c \<in> set cs\<close> show "x \<in> fst ` set idx \<times> \<Union> (set ` snd ` set idx)" by force
  qed
qed auto

lemma collect_list_eqs [simp, code]:
  "collect_list idx [] acc = Some acc"
  "collect_list idx (c # cs) acc = Option.bind (collect_list idx (dget_default [] idx c) (sadd c acc)) (collect_list idx cs)"
  by (subst collect_list.simps, simp)+

lemma below_child: "(child_rel idx)\<^sup>* `` {c} = insert c ((child_rel idx)\<^sup>* `` set (dget_default [] idx c))"
proof -
  have "(child_rel idx)\<^sup>* `` {c} = insert c ((child_rel idx)\<^sup>* `` (child_rel idx `` {c}))"
    by (rule set_eqI) (metis (no_types, lifting) Image_singleton_iff ImageE ImageI converse_rtranclE converse_rtrancl_into_rtrancl
      insertCI insertE rtrancl.rtrancl_refl)
  moreover have "child_rel idx `` {c} = set (dget_default [] idx c)" by (auto simp: child_rel_def)
  ultimately show ?thesis by simp
qed

lemma collect_list_set:
  assumes "collect_list idx cs acc = Some acc'"
  shows "set acc' = set acc \<union> (child_rel idx)\<^sup>* `` set cs"
proof (rule collect_list.raw_induct[OF _ assms])
  fix rec idx cs acc acc'
  assume IH: "\<And>idx cs acc acc'. rec idx cs acc = Some acc' \<Longrightarrow> set acc' = set acc \<union> (child_rel idx)\<^sup>* `` set cs"
    and r: "(case cs of [] \<Rightarrow> Some acc
      | c # cs' \<Rightarrow> Option.bind (rec idx (dget_default [] idx c) (sadd c acc)) (\<lambda>acc'. rec idx cs' acc')) = Some acc'"
  show "set acc' = set acc \<union> (child_rel idx)\<^sup>* `` set cs"
  proof (cases cs)
    case Nil
    with r show ?thesis by simp
  next
    case (Cons c cs')
    with r obtain a where a: "rec idx (dget_default [] idx c) (sadd c acc) = Some a" "rec idx cs' a = Some acc'"
      by (auto simp: bind_eq_Some_conv)
    then show ?thesis using IH[OF a(1)] IH[OF a(2)] Cons below_child[of idx c] by auto
  qed
qed

lemma acc_children:
  "set (dget_default [] idx c) \<subseteq> Wellfounded.acc ((child_rel idx)\<inverse>) \<longleftrightarrow> c \<in> Wellfounded.acc ((child_rel idx)\<inverse>)"
proof
  assume A: "set (dget_default [] idx c) \<subseteq> Wellfounded.acc ((child_rel idx)\<inverse>)"
  show "c \<in> Wellfounded.acc ((child_rel idx)\<inverse>)"
  proof (rule accI)
    fix d assume "(d, c) \<in> (child_rel idx)\<inverse>"
    then have "d \<in> set (dget_default [] idx c)" by (simp add: child_rel_def)
    with A show "d \<in> Wellfounded.acc ((child_rel idx)\<inverse>)" by blast
  qed
next
  assume A: "c \<in> Wellfounded.acc ((child_rel idx)\<inverse>)"
  show "set (dget_default [] idx c) \<subseteq> Wellfounded.acc ((child_rel idx)\<inverse>)"
  proof
    fix d assume "d \<in> set (dget_default [] idx c)"
    then have "(d, c) \<in> (child_rel idx)\<inverse>" by (simp add: child_rel_def)
    with A show "d \<in> Wellfounded.acc ((child_rel idx)\<inverse>)" by (rule acc_downward)
  qed
qed

lemma collect_list_acc:
  assumes "collect_list idx cs acc = Some acc'"
  shows "set cs \<subseteq> Wellfounded.acc ((child_rel idx)\<inverse>)"
proof (rule collect_list.raw_induct[OF _ assms])
  fix rec idx cs acc acc'
  assume IH: "\<And>idx cs acc acc'. rec idx cs acc = Some acc' \<Longrightarrow> set cs \<subseteq> Wellfounded.acc ((child_rel idx)\<inverse>)"
    and r: "(case cs of [] \<Rightarrow> Some acc
      | c # cs' \<Rightarrow> Option.bind (rec idx (dget_default [] idx c) (sadd c acc)) (\<lambda>acc'. rec idx cs' acc')) = Some acc'"
  show "set cs \<subseteq> Wellfounded.acc ((child_rel idx)\<inverse>)"
  proof (cases cs)
    case (Cons c cs')
    with r obtain a where a: "rec idx (dget_default [] idx c) (sadd c acc) = Some a" "rec idx cs' a = Some acc'"
      by (auto simp: bind_eq_Some_conv)
    have "c \<in> Wellfounded.acc ((child_rel idx)\<inverse>)" using IH[OF a(1)] by (simp add: acc_children)
    with IH[OF a(2)] Cons show ?thesis by simp
  qed simp
qed

lemma collect_list_each:
  assumes "\<And>c acc. c \<in> set cs \<Longrightarrow> \<exists>acc'. collect_list idx (dget_default [] idx c) acc = Some acc'"
  shows "\<exists>acc'. collect_list idx cs acc = Some acc'"
  using assms
proof (induction cs arbitrary: acc)
  case (Cons c cs)
  obtain a where "collect_list idx (dget_default [] idx c) (sadd c acc) = Some a" using Cons.prems[of c] by auto
  moreover have "\<exists>a'. collect_list idx cs a = Some a'" by (rule Cons.IH) (use Cons.prems in simp)
  ultimately show ?case by simp
qed simp

lemma collect_list_returns:
  assumes "set cs \<subseteq> Wellfounded.acc ((child_rel idx)\<inverse>)"
  shows "\<exists>acc'. collect_list idx cs acc = Some acc'"
proof (rule collect_list_each)
  fix c acc
  assume "c \<in> set cs"
  with assms have "c \<in> Wellfounded.acc ((child_rel idx)\<inverse>)" by auto
  then show "\<exists>acc'. collect_list idx (dget_default [] idx c) acc = Some acc'"
  proof (induction arbitrary: acc rule: acc_induct_rule)
    case (1 c)
    show ?case by (rule collect_list_each) (use 1 in \<open>simp add: child_rel_def\<close>)
  qed
qed

text \<open>In a finite relation, the elements that start no infinite chain are those that reach no cycle.\<close>

lemma acc_converse_iff:
  assumes fin: "finite r"
  shows "x \<in> Wellfounded.acc (r\<inverse>) \<longleftrightarrow> (\<forall>y. (x, y) \<in> r\<^sup>* \<longrightarrow> (y, y) \<notin> r\<^sup>+)"
proof
  assume "x \<in> Wellfounded.acc (r\<inverse>)"
  then show "\<forall>y. (x, y) \<in> r\<^sup>* \<longrightarrow> (y, y) \<notin> r\<^sup>+"
  proof (induction rule: acc_induct_rule)
    case (1 x)
    show ?case
    proof (intro allI impI notI)
      fix y assume xy: "(x, y) \<in> r\<^sup>*" and yy: "(y, y) \<in> r\<^sup>+"
      then have "(x, y) \<in> r\<^sup>+" by (meson rtrancl_trancl_trancl)
      then obtain z where "(x, z) \<in> r" "(z, y) \<in> r\<^sup>*" by (meson tranclD)
      with 1 yy show False by auto
    qed
  qed
next
  assume nc: "\<forall>y. (x, y) \<in> r\<^sup>* \<longrightarrow> (y, y) \<notin> r\<^sup>+"
  let ?s = "r \<inter> (r\<^sup>* `` {x}) \<times> UNIV"
  have "acyclic ?s"
    unfolding acyclic_def
  proof (intro allI notI)
    fix y assume yy: "(y, y) \<in> ?s\<^sup>+"
    then obtain z where "(y, z) \<in> ?s" by (meson tranclD)
    then have "(x, y) \<in> r\<^sup>*" by auto
    with nc trancl_mono[OF yy, of r] show False by auto
  qed
  then have w: "wf (?s\<inverse>)" using fin by (simp add: finite_acyclic_wf_converse)
  have "(x, y) \<in> r\<^sup>* \<Longrightarrow> y \<in> Wellfounded.acc (r\<inverse>)" for y
    using w
  proof (induction y rule: wf_induct_rule)
    case (less y)
    show ?case
      by (rule accI) (use less in \<open>auto intro: rtrancl_into_rtrancl\<close>)
  qed
  then show "x \<in> Wellfounded.acc (r\<inverse>)" by simp
qed


section \<open>Runs of a manager\<close>

text \<open>
  A caller builds its tasks with the constructor, and restores only a state that was read before, once: the
  manager goes on with the lists and the task objects of the state it loads, so the next operation changes
  that state too.
\<close>

fun make_tasks :: "task list \<Rightarrow> task list res" where
  "make_tasks [] = Inr []"
| "make_tasks (t # ts) =
     (case make_task t of
        Inl e \<Rightarrow> Inl e
      | Inr t' \<Rightarrow> (case make_tasks ts of Inl e \<Rightarrow> Inl e | Inr ts' \<Rightarrow> Inr (t' # ts')))"

datatype task_op =
    OpAdd "task list"
  | OpUpdate "task list"
  | OpPop "task_filter option"
  | OpRemove "task_filter option"
  | OpStatus "string list" task_status bool bool "string option"
  | OpPriority "string list" int bool bool
  | OpCallback bool
  | OpClear
  | OpSave
  | OpLoad

fun task_step :: "(string list \<Rightarrow> string list) \<Rightarrow> task_op \<Rightarrow> task_mgr \<times> task_state option \<Rightarrow> task_mgr \<times> task_state option" where
  "task_step order (OpAdd raw) (m, s) = ((case make_tasks raw of Inl _ \<Rightarrow> m | Inr ts \<Rightarrow> snd (add_task ts m)), s)"
| "task_step order (OpUpdate raw) (m, s) = ((case make_tasks raw of Inl _ \<Rightarrow> m | Inr ts \<Rightarrow> snd (update_task ts m)), s)"
| "task_step order (OpPop f) (m, s) = (snd (snd (pop_task order f m)), s)"
| "task_step order (OpRemove f) (m, s) = (snd (remove_task order f m), s)"
| "task_step order (OpStatus ids st wc rec err) (m, s) = (snd (update_task_status order ids st wc rec err m), s)"
| "task_step order (OpPriority ids p wc rec) (m, s) = (snd (set_priority order ids p wc rec m), s)"
| "task_step order (OpCallback b) (m, s) = (set_on_task_submitted b m, s)"
| "task_step order OpClear (m, s) = (clear_state m, s)"
| "task_step order OpSave (m, s) = (m, Some (get_state m))"
| "task_step order OpLoad (m, s) = (case s of None \<Rightarrow> (m, None) | Some st \<Rightarrow> (load_state st m, None))"

definition task_run :: "(string list \<Rightarrow> string list) \<Rightarrow> task_op list \<Rightarrow> task_mgr" where
  "task_run order ops = fst (fold (task_step order) ops (task_mgr_init, None))"

lemma make_task_parent: "make_task t = Inr t' \<Longrightarrow> tk_parent t' \<noteq> Some []"
  by (auto simp: make_task_def valid_parent_def Let_def split: sum.splits if_splits option.splits)

lemma make_tasks_parent: "make_tasks raw = Inr ts \<Longrightarrow> \<forall>t \<in> set ts. tk_parent t \<noteq> Some []"
  by (induction raw arbitrary: ts) (auto simp: make_task_parent split: sum.splits)

lemma set_lookup_all: "t \<in> set (lookup_all m ids) \<longleftrightarrow> (\<exists>j \<in> set ids. dget (tm_tasks m) j = Some t)"
  by (induction ids) (auto simp: lookup_all_def List.map_filter_simps split: option.split)

lemma update_task_inv:
  assumes "tm_inv m" and "\<forall>t \<in> set ts. tk_parent t \<noteq> Some []"
  shows "tm_inv (snd (update_task ts m))"
proof -
  have "tm_inv (snd (fold update_one ts (ok, m)))" for ok
    using assms
  proof (induction ts arbitrary: ok m)
    case (Cons t ts)
    have "tm_inv (snd (update_one t (ok, m)))" using update_one_inv Cons.prems by simp
    then show ?case using Cons by (cases "update_one t (ok, m)") simp
  qed simp
  then show ?thesis by (simp add: update_task_def)
qed

lemma query_stored:
  assumes "query order f m = Some ts" and "t \<in> set ts"
  shows "\<exists>j. dget (tm_tasks m) j = Some t"
  using assms by (auto simp: query_def Let_def set_lookup_all split: if_splits)

lemma removal_spec:
  assumes I: "tm_inv m" and o: "set_order order" and q: "query order f m = Some ts"
  shows "tm_inv (remove_ids (order (pyset (map tk_task_id ts))) m)"
    and "dget (tm_tasks (remove_ids (order (pyset (map tk_task_id ts))) m)) j =
      survivor (tk_task_id ` set ts) (tk_task_id ` set ts) j (dget (tm_tasks m) j)"
proof -
  let ?ids = "order (pyset (map tk_task_id ts))"
  have ids: "distinct ?ids" "set ?ids = tk_task_id ` set ts" using set_orderD[OF o] by simp_all
  have "\<forall>j \<in> set ?ids. dget (tm_tasks m) j \<noteq> None"
    using query_stored[OF q] tm_invD(2)[OF I] unfolding ids(2) by fastforce
  from remove_ids_spec[OF I ids(1) this] show "tm_inv (remove_ids ?ids m)"
    and "dget (tm_tasks (remove_ids ?ids m)) j = survivor (tk_task_id ` set ts) (tk_task_id ` set ts) j (dget (tm_tasks m) j)"
    unfolding ids(2) by blast+
qed

lemma pop_task_inv:
  assumes "tm_inv m" and "set_order order"
  shows "tm_inv (snd (snd (pop_task order f m)))"
  using assms by (auto simp: pop_task_def Let_def removal_spec(1) split: option.split)

lemma remove_task_inv:
  assumes "tm_inv m" and "set_order order"
  shows "tm_inv (snd (remove_task order f m))"
  using assms by (auto simp: remove_task_def removal_spec(1) split: option.split sum.split)

lemma fold_inv: "(\<And>x m. P m \<Longrightarrow> P (f x m)) \<Longrightarrow> P m \<Longrightarrow> P (fold f xs m)"
  by (induction xs arbitrary: m) auto

lemma update_task_status_inv:
  assumes "tm_inv m"
  shows "tm_inv (snd (update_task_status order ids st wc rec err m))"
  using fold_inv[of tm_inv "set_status_one st err", OF set_status_one_inv assms] assms
  by (auto simp: update_task_status_def Let_def split: option.split)

lemma set_priority_inv:
  assumes "tm_inv m"
  shows "tm_inv (snd (set_priority order ids p wc rec m))"
  using fold_inv[of tm_inv "set_priority_one p", OF set_priority_one_inv assms] assms
  by (auto simp: set_priority_def split: option.split)

definition saved_ok :: "task_state \<Rightarrow> bool" where
  "saved_ok s \<longleftrightarrow> tm_inv (load_state s task_mgr_init)"

lemma tm_inv_load [simp]: "tm_inv (load_state s m) = saved_ok s"
  by (simp add: saved_ok_def load_state_def tm_inv_upto_def)

lemma saved_ok_get [simp]: "saved_ok (get_state m) = tm_inv m"
  by (simp add: saved_ok_def load_state_def get_state_def tm_inv_upto_def)

lemma tm_inv_clear [simp]: "tm_inv (clear_state m)"
  using tm_inv_init by (simp add: clear_state_def tm_inv_upto_def task_mgr_init_def)

lemma task_step_inv:
  assumes "set_order order" and "tm_inv m" and "\<forall>st \<in> set_option s. saved_ok st"
  shows "tm_inv (fst (task_step order op (m, s)))" and "\<forall>st \<in> set_option (snd (task_step order op (m, s))). saved_ok st"
  using assms
  by (cases op; auto simp: add_task_inv update_task_inv make_tasks_parent pop_task_inv remove_task_inv update_task_status_inv
      set_priority_inv set_on_task_submitted_def split: sum.split option.split)+

lemma task_run_inv:
  assumes "set_order order"
  shows "tm_inv (task_run order ops)"
proof -
  let ?ok = "\<lambda>x. tm_inv (fst x) \<and> (\<forall>st \<in> set_option (snd x). saved_ok st)"
  have "?ok (fold (task_step order) ops (task_mgr_init, None))"
  proof (rule fold_inv)
    fix op x assume "?ok x"
    then show "?ok (task_step order op x)"
      using task_step_inv[OF assms, of "fst x" "snd x" op] by simp
  qed (simp add: tm_inv_init)
  then show ?thesis by (simp add: task_run_def)
qed


section \<open>What a query returns\<close>

definition selects :: "task_filter \<Rightarrow> task \<Rightarrow> bool" where
  "selects f t \<longleftrightarrow> rest_matches f t \<and>
     (if has_primary_filter f
      then (\<exists>ids. tf_task_id f = Some ids \<and> tk_task_id t \<in> set ids) \<or> tf_session_id f = Some (tk_session_id t) \<or>
        tf_priority f = Some (Priority (tk_priority t)) \<or> tf_is_root f \<and> tk_parent t = None
      else tf_status f \<noteq> None \<or> tf_user_id f \<noteq> None)"

lemma candidate_ids_distinct: "tm_inv m \<Longrightarrow> distinct (candidate_ids f m)"
  using tm_invD(1)[of "{}" m] by (simp add: candidate_ids_def)

lemma map_snd_stored: "dwf d \<Longrightarrow> x \<in> set (map snd d) \<longleftrightarrow> (\<exists>j. dget d j = Some x)"
  by (simp add: map_of_eq_Some_iff) force

lemma candidate_ids_iff:
  assumes I: "tm_inv m" and t: "dget (tm_tasks m) j = Some t" and nh: "tf_priority f \<noteq> Some Highest"
  shows "j \<in> set (candidate_ids f m) \<and> rest_matches f t \<longleftrightarrow> selects f t"
proof -
  note D = tm_invD[OF I]
  have tid: "tk_task_id t = j" using D(2)[OF t] .
  have "j \<in> dom (dget (tm_tasks m))" using t by auto
  then have keys: "j \<in> set (dkeys (tm_tasks m))" by (simp add: dom_map_of_conv_image_fst)
  have by_session: "j \<in> set (map tk_task_id (filter (\<lambda>t. tk_session_id t = s) us)) \<longleftrightarrow> tk_session_id t = s"
    if "us = map snd (tm_tasks m)" for s us
  proof -
    have us: "u \<in> set us \<longleftrightarrow> (\<exists>k. dget (tm_tasks m) k = Some u)" for u
      unfolding that by (rule map_snd_stored[OF D(1)])
    have u: "u = t" if "u \<in> set us" "tk_task_id u = j" for u
    proof -
      obtain k where "dget (tm_tasks m) k = Some u" using us \<open>u \<in> set us\<close> by blast
      with D(2)[of k u] that(2) t show ?thesis by simp
    qed
    have t: "t \<in> set us" using us t by blast
    show ?thesis
    proof
      assume "j \<in> set (map tk_task_id (filter (\<lambda>t. tk_session_id t = s) us))"
      then obtain u where "u \<in> set us" "tk_session_id u = s" "tk_task_id u = j" by auto
      with u show "tk_session_id t = s" by blast
    qed (use t tid in auto)
  qed
  have session: "j \<in> set (case tf_session_id f of None \<Rightarrow> []
      | Some s \<Rightarrow> map tk_task_id (filter (\<lambda>t. tk_session_id t = s) (map snd (tm_tasks m)))) \<longleftrightarrow> tf_session_id f = Some (tk_session_id t)"
    using by_session[OF refl] by (cases "tf_session_id f") (auto simp del: set_map)
  have prio: "j \<in> set (case tf_priority f of Some (Priority p) \<Rightarrow> dget_default [] (tm_priority m) p | _ \<Rightarrow> []) \<longleftrightarrow>
      tf_priority f = Some (Priority (tk_priority t))"
    using indexesD(3)[OF D(4), of j] t nh by (auto split: option.split priority_filter.split)
  have ids: "j \<in> set (case tf_task_id f of None \<Rightarrow> [] | Some ids \<Rightarrow> ids) \<longleftrightarrow> (\<exists>ids. tf_task_id f = Some ids \<and> tk_task_id t \<in> set ids)"
    by (cases "tf_task_id f") (simp_all add: tid)
  have roots: "j \<in> set (if tf_is_root f then tm_roots m else []) \<longleftrightarrow> tf_is_root f \<and> tk_parent t = None"
    using D(8)[of j] t by simp
  show ?thesis
  proof (cases "has_primary_filter f")
    case True
    then have c: "candidate_ids f m = pyset ((case tf_task_id f of None \<Rightarrow> [] | Some ids \<Rightarrow> ids) @
         (case tf_session_id f of None \<Rightarrow> []
          | Some s \<Rightarrow> map tk_task_id (filter (\<lambda>t. tk_session_id t = s) (map snd (tm_tasks m)))) @
         (case tf_priority f of Some (Priority p) \<Rightarrow> dget_default [] (tm_priority m) p | _ \<Rightarrow> []) @
         (if tf_is_root f then tm_roots m else []))" by (simp only: candidate_ids_def if_False if_True not_True_eq_False simp_thms)
    show ?thesis
      unfolding c set_pyset set_append Un_iff ids session prio roots using True by (auto simp: selects_def)
  next
    case False
    then show ?thesis
      using keys by (cases "tf_status f \<noteq> None \<or> tf_user_id f \<noteq> None")
        (auto simp: candidate_ids_def selects_def has_primary_filter_def)
  qed
qed

lemma map_id_lookup_all:
  assumes "tm_inv m"
  shows "map tk_task_id (lookup_all m ids) = filter (\<lambda>j. dget (tm_tasks m) j \<noteq> None) ids"
  using tm_invD(2)[OF assms]
  by (induction ids) (auto simp: lookup_all_def List.map_filter_simps split: option.split)

lemma distinct_lookup_all:
  assumes "tm_inv m" and "distinct ids"
  shows "distinct (map tk_task_id (filter P (lookup_all m ids)))"
proof -
  have "distinct (map tk_task_id (lookup_all m ids))" using assms by (simp add: map_id_lookup_all)
  then show ?thesis by (simp add: distinct_map_filter)
qed

lemma matching_spec:
  assumes I: "tm_inv m" and o: "set_order order" and nh: "tf_priority f \<noteq> Some Highest"
  shows "set (filter (rest_matches f) (lookup_all m (order (candidate_ids f m)))) =
      {t. (\<exists>j. dget (tm_tasks m) j = Some t) \<and> selects f t}"
    and "distinct (map tk_task_id (filter (rest_matches f) (lookup_all m (order (candidate_ids f m)))))"
proof -
  have c: "distinct (order (candidate_ids f m))" "set (order (candidate_ids f m)) = set (candidate_ids f m)"
    using set_orderD[OF o candidate_ids_distinct[OF I]] by simp_all
  show "distinct (map tk_task_id (filter (rest_matches f) (lookup_all m (order (candidate_ids f m)))))"
    by (rule distinct_lookup_all[OF I c(1)])
  show "set (filter (rest_matches f) (lookup_all m (order (candidate_ids f m)))) =
      {t. (\<exists>j. dget (tm_tasks m) j = Some t) \<and> selects f t}"
  proof (rule set_eqI)
    fix t
    show "t \<in> set (filter (rest_matches f) (lookup_all m (order (candidate_ids f m)))) \<longleftrightarrow>
        t \<in> {t. (\<exists>j. dget (tm_tasks m) j = Some t) \<and> selects f t}"
      using candidate_ids_iff[OF I _ nh] by (auto simp: set_lookup_all c(2))
  qed
qed

section \<open>What the recursion collects\<close>

definition parent_rel :: "(string, task) pydict \<Rightarrow> (string \<times> string) set" where
  "parent_rel ts = {(p, c). \<exists>t. dget ts c = Some t \<and> tk_parent t = Some p}"

lemma child_rel_eq:
  assumes "tm_inv m"
  shows "child_rel (tm_children m) = parent_rel (tm_tasks m)"
  using indexesD(3)[OF tm_invD(5)[OF assms]] by (auto simp: child_rel_def parent_rel_def)

lemma trancl_Image: "r\<^sup>+ `` {x} = r\<^sup>* `` (r `` {x})"
  by (metis relcomp_Image trancl_unfold_left)

lemma child_rel_Image: "child_rel idx `` {p} = set (dget_default [] idx p)"
  by (auto simp: child_rel_def)

lemma collect_for_spec:
  "(case collect_for m ps acc of
      None \<Rightarrow> \<exists>p \<in> set ps. p \<notin> Wellfounded.acc ((child_rel (tm_children m))\<inverse>)
    | Some acc' \<Rightarrow> (\<forall>p \<in> set ps. p \<in> Wellfounded.acc ((child_rel (tm_children m))\<inverse>)) \<and>
        set acc' = set acc \<union> (child_rel (tm_children m))\<^sup>+ `` set ps)"
proof (induction ps arbitrary: acc)
  case (Cons p ps)
  let ?r = "child_rel (tm_children m)"
  let ?cs = "dget_default [] (tm_children m) p"
  show ?case
  proof (cases "collect_all_children m p acc")
    case None
    have "p \<notin> Wellfounded.acc (?r\<inverse>)"
    proof
      assume "p \<in> Wellfounded.acc (?r\<inverse>)"
      then have "set ?cs \<subseteq> Wellfounded.acc (?r\<inverse>)" by (simp add: acc_children)
      from collect_list_returns[OF this, of acc] None show False by (auto simp: collect_all_children_def)
    qed
    then show ?thesis using None by simp
  next
    case (Some acc1)
    then have c: "collect_list (tm_children m) ?cs acc = Some acc1" by (simp add: collect_all_children_def)
    have p: "p \<in> Wellfounded.acc (?r\<inverse>)"
      using collect_list_acc[OF c] by (simp add: acc_children)
    have s: "set acc1 = set acc \<union> ?r\<^sup>+ `` {p}"
      using collect_list_set[OF c] by (simp add: trancl_Image child_rel_Image)
    show ?thesis using Cons[of acc1] p s Some by (auto split: option.splits)
  qed
qed simp

lemma collect_for_distinct:
  assumes "collect_for m ps acc = Some acc'" and "distinct acc"
  shows "distinct acc'"
proof -
  have L: "distinct acc \<longrightarrow> distinct acc'" if "collect_list idx cs acc = Some acc'" for idx cs acc acc'
    by (rule collect_list.raw_induct[OF _ that]) (auto simp: bind_eq_Some_conv split: list.splits)
  show ?thesis
    using assms by (induction ps arbitrary: acc) (auto simp: collect_all_children_def dest: L split: option.splits)
qed


text \<open>With its children, the result of a query is closed under descendants.\<close>

lemma query_closed:
  assumes I: "tm_inv m" and o: "set_order order" and q: "query order f m = Some ts" and wc: "tf_with_children f"
  shows "(parent_rel (tm_tasks m))\<^sup>+ `` (tk_task_id ` set ts) \<subseteq> tk_task_id ` set ts"
proof -
  let ?r = "parent_rel (tm_tasks m)"
  define found where "found = filter (rest_matches f) (lookup_all m (order (candidate_ids f m)))"
  from q wc obtain cs where c: "collect_for m (map tk_task_id found) [] = Some cs" and ts: "ts = found @ lookup_all m (order cs)"
    by (auto simp: query_def Let_def found_def[symmetric])
  have cs: "set cs = ?r\<^sup>+ `` (tk_task_id ` set found)"
    using collect_for_spec[where m = m and ps = "map tk_task_id found" and acc = "[]"] c child_rel_eq[OF I] by simp
  have ids: "tk_task_id ` set (lookup_all m (order cs)) = {j \<in> set cs. dget (tm_tasks m) j \<noteq> None}"
    using arg_cong[OF map_id_lookup_all[OF I, of "order cs"], of set] set_orderD(2)[OF o collect_for_distinct[OF c]] by simp
  have dom: "dget (tm_tasks m) j \<noteq> None" if "(i, j) \<in> ?r\<^sup>+" for i j
    using that by (cases rule: tranclE) (auto simp: parent_rel_def)
  have gone: "tk_task_id ` set ts = tk_task_id ` set found \<union> ?r\<^sup>+ `` (tk_task_id ` set found)"
    unfolding ts set_append image_Un ids cs using dom by blast
  show ?thesis unfolding gone by (auto intro: trancl_trans)
qed

lemma get_child_task_recursive:
  assumes I: "tm_inv m" and o: "set_order order"
  shows "case get_child_task order ids True m of
       Inl e \<Rightarrow> e = RecursionError \<and> (\<exists>i \<in> set ids. \<exists>j. (i, j) \<in> (parent_rel (tm_tasks m))\<^sup>* \<and> (j, j) \<in> (parent_rel (tm_tasks m))\<^sup>+)
     | Inr ts \<Rightarrow> (\<forall>i \<in> set ids. \<forall>j. (i, j) \<in> (parent_rel (tm_tasks m))\<^sup>* \<longrightarrow> (j, j) \<notin> (parent_rel (tm_tasks m))\<^sup>+) \<and>
         distinct (map tk_task_id ts) \<and> tk_task_id ` set ts = (parent_rel (tm_tasks m))\<^sup>+ `` set ids"
proof -
  let ?r = "parent_rel (tm_tasks m)"
  have fin: "finite ?r" using finite_child_rel[of "tm_children m"] child_rel_eq[OF I] by simp
  note spec = collect_for_spec[where m = m and ps = ids and acc = "[]", unfolded child_rel_eq[OF I] acc_converse_iff[OF fin]]
  show ?thesis
  proof (cases "collect_for m ids []")
    case None
    with spec show ?thesis by (simp add: get_child_task_def child_ids_def)
  next
    case (Some cs)
    have oc: "distinct (order cs)" "set (order cs) = set cs" using set_orderD[OF o collect_for_distinct[OF Some]] by simp_all
    have "j \<in> dom (dget (tm_tasks m))" if "j \<in> ?r\<^sup>+ `` set ids" for j
      using that by (auto simp: parent_rel_def elim: tranclE)
    with spec Some have known: "\<forall>j \<in> set cs. dget (tm_tasks m) j \<noteq> None" by auto
    have "set (map tk_task_id (lookup_all m (order cs))) = set cs"
      unfolding map_id_lookup_all[OF I] using known oc(2) by auto
    with spec Some distinct_lookup_all[OF I oc(1), of "\<lambda>_. True"] show ?thesis
      by (simp add: get_child_task_def child_ids_def)
  qed
qed

section \<open>Properties\<close>

text \<open>C22: after any run of the manager, each index is the one the stored tasks determine: a task is under
  its own id, the bucket of a priority lists once each task that has it, the children of a parent are
  the tasks that name it, the reverse index gives each task its parent, and the roots are the tasks
  without one.\<close>

theorem task_indexes_agree:
  assumes "set_order order"
  shows "let m = task_run order ops in
    (\<forall>j t. dget (tm_tasks m) j = Some t \<longrightarrow> tk_task_id t = j) \<and>
    (\<forall>p. distinct (dget_default [] (tm_priority m) p) \<and>
      set (dget_default [] (tm_priority m) p) = {j. \<exists>t. dget (tm_tasks m) j = Some t \<and> tk_priority t = p}) \<and>
    (\<forall>p. set (dget_default [] (tm_children m) p) = {j. \<exists>t. dget (tm_tasks m) j = Some t \<and> tk_parent t = Some p}) \<and>
    (\<forall>j. dget (tm_parent m) j = Option.bind (dget (tm_tasks m) j) tk_parent) \<and>
    set (tm_roots m) = {j. \<exists>t. dget (tm_tasks m) j = Some t \<and> tk_parent t = None}"
proof -
  have I: "tm_inv (task_run order ops)" by (rule task_run_inv[OF assms])
  from tm_invD[OF I] indexesD[OF tm_invD(4)[OF I]] indexesD[OF tm_invD(5)[OF I]] show ?thesis
    unfolding Let_def kids_attr_empty by blast
qed

definition demo_task :: "string \<Rightarrow> int \<Rightarrow> string option \<Rightarrow> task" where
  "demo_task tid p parent = \<lparr>tk_session_id = ''s'', tk_task_id = tid, tk_task_type = ''t'', tk_priority = p, tk_status = SUBMITTED,
     tk_parent = parent, tk_input_fields = None, tk_error = None, tk_metadata = None, tk_rest = 0\<rparr>"

definition demo_filter :: task_filter where
  "demo_filter = \<lparr>tf_task_id = None, tf_session_id = None, tf_user_id = None, tf_priority = None, tf_status = None,
     tf_with_children = False, tf_is_root = False\<rparr>"

definition demo_ops :: "task_op list" where
  "demo_ops = [OpAdd [demo_task ''a'' 1 None, demo_task ''b'' 2 (Some ''a''), demo_task ''c'' 2 (Some ''b'')]]"

theorem task_indexes_agree_witness:
  "tm_roots (task_run (\<lambda>xs. xs) demo_ops) = [''a''] \<and>
   (\<forall>j. dget (tm_parent (task_run (\<lambda>xs. xs) demo_ops)) j = Option.bind (dget (tm_tasks (task_run (\<lambda>xs. xs) demo_ops)) j) tk_parent)"
proof
  show "tm_roots (task_run (\<lambda>xs. xs) demo_ops) = [''a'']" by code_simp
  show "\<forall>j. dget (tm_parent (task_run (\<lambda>xs. xs) demo_ops)) j = Option.bind (dget (tm_tasks (task_run (\<lambda>xs. xs) demo_ops)) j) tk_parent"
    using task_indexes_agree[OF set_order_id, of demo_ops] by (simp add: Let_def)
qed





text \<open>C25: popping removes exactly the tasks it returns, each of them stored before; every other task stays
  as it was, except that a task whose parent was popped becomes a root; when the filter asks for the
  children too, there is no such task: everything below a popped task is popped with it.\<close>

theorem pop_removes_what_it_returns:
  assumes "set_order order" and pop: "pop_task order (Some f) (task_run order ops) = (Inr ts, f', m')"
  shows "let old = tm_tasks (task_run order ops); gone = tk_task_id ` set ts in
    (\<forall>t \<in> set ts. dget old (tk_task_id t) = Some t) \<and>
    (\<forall>j. dget (tm_tasks m') j =
      (if j \<in> gone then None
       else map_option (\<lambda>t. if \<exists>p \<in> gone. tk_parent t = Some p then t\<lparr>tk_parent := None\<rparr> else t) (dget old j))) \<and>
    (tf_with_children f \<longrightarrow> (parent_rel old)\<^sup>+ `` gone \<subseteq> gone)"
proof -
  define m where "m = task_run order ops"
  have I: "tm_inv m" unfolding m_def by (rule task_run_inv[OF assms(1)])
  let ?gone = "tk_task_id ` set ts"
  define g where "g = (if tf_priority f = Some Highest then f\<lparr>tf_priority := Some (Priority (Max (set (dkeys (tm_priority m)))))\<rparr> else f)"
  have g: "tf_with_children g = tf_with_children f" by (simp add: g_def)
  have "pop_task order (Some f) m = (if tf_priority f = Some Highest \<and> tm_priority m = [] then (Inr [], Some f, m)
      else case query order g m of None \<Rightarrow> (Inl RecursionError, Some g, m)
        | Some ts \<Rightarrow> (Inr ts, Some g, remove_ids (order (pyset (map tk_task_id ts))) m))"
    by (simp only: pop_task_def g_def Let_def option.case)
  with pop have q: "ts = [] \<and> m' = m \<or> query order g m = Some ts \<and> m' = remove_ids (order (pyset (map tk_task_id ts))) m"
    unfolding m_def[symmetric] by (auto split: option.splits if_splits)
  from q have "(\<forall>t \<in> set ts. dget (tm_tasks m) (tk_task_id t) = Some t) \<and>
    (\<forall>j. dget (tm_tasks m') j = (if j \<in> ?gone then None
       else map_option (\<lambda>t. if \<exists>p \<in> ?gone. tk_parent t = Some p then t\<lparr>tk_parent := None\<rparr> else t) (dget (tm_tasks m) j))) \<and>
    (tf_with_children f \<longrightarrow> (parent_rel (tm_tasks m))\<^sup>+ `` ?gone \<subseteq> ?gone)"
  proof
    assume "query order g m = Some ts \<and> m' = remove_ids (order (pyset (map tk_task_id ts))) m"
    then have q: "query order g m = Some ts" and m': "m' = remove_ids (order (pyset (map tk_task_id ts))) m" by simp_all
    have "dget (tm_tasks m) (tk_task_id t) = Some t" if t: "t \<in> set ts" for t
      using query_stored[OF q t] tm_invD(2)[OF I] by blast
    moreover have "dget (tm_tasks m') j = (if j \<in> ?gone then None
       else map_option (\<lambda>t. if \<exists>p \<in> ?gone. tk_parent t = Some p then t\<lparr>tk_parent := None\<rparr> else t) (dget (tm_tasks m) j))" for j
      unfolding m' removal_spec(2)[OF I assms(1) q] by (auto simp: survivor_def image_iff intro!: option.map_cong)
    moreover have "(parent_rel (tm_tasks m))\<^sup>+ `` ?gone \<subseteq> ?gone" if "tf_with_children f"
      by (rule query_closed[OF I assms(1) q]) (use g that in simp)
    ultimately show ?thesis by blast
  qed (simp add: option.map_ident)
  then show ?thesis by (simp add: m_def Let_def)
qed

theorem pop_removes_what_it_returns_witness:
  "dget (tm_tasks (snd (snd (pop_task (\<lambda>xs. xs) (Some (demo_filter\<lparr>tf_task_id := Some [''b'']\<rparr>)) (task_run (\<lambda>xs. xs) demo_ops))))) ''c'' =
     Some (demo_task ''c'' 2 None)"
proof -
  let ?f = "demo_filter\<lparr>tf_task_id := Some [''b'']\<rparr>"
  let ?old = "task_run (\<lambda>xs. xs) demo_ops"
  let ?m = "snd (snd (pop_task (\<lambda>xs. xs) (Some ?f) ?old))"
  have p: "fst (pop_task (\<lambda>xs. xs) (Some ?f) ?old) = Inr [demo_task ''b'' 2 (Some ''a'')]" by code_simp
  have c: "dget (tm_tasks ?old) ''c'' = Some (demo_task ''c'' 2 (Some ''b''))" by code_simp
  have pop: "pop_task (\<lambda>xs. xs) (Some ?f) ?old =
      (Inr [demo_task ''b'' 2 (Some ''a'')], fst (snd (pop_task (\<lambda>xs. xs) (Some ?f) ?old)), ?m)"
    unfolding p[symmetric] by simp
  show ?thesis
    using pop_removes_what_it_returns[OF set_order_id pop] by (simp add: Let_def c) (simp add: demo_task_def)
qed

section \<open>Facts of the code worth knowing\<close>

text \<open>Popping the highest priority gives nothing while a lower priority still has a task: the emptied bucket
  of the higher one is still the greatest key.\<close>

lemma pop_highest_sees_empty_bucket:
  "let run = task_run (\<lambda>xs. xs)
       [OpAdd [demo_task ''a'' 1 None, demo_task ''b'' 2 None], OpPop (Some (demo_filter\<lparr>tf_priority := Some Highest\<rparr>))]
   in fst (pop_task (\<lambda>xs. xs) (Some (demo_filter\<lparr>tf_priority := Some Highest\<rparr>)) run) = Inr [] \<and>
      dkeys (tm_tasks run) = [''a'']"
  by code_simp

text \<open>Two tasks can each name the other as parent; listing what is below one of them then never ends.\<close>

lemma self_ancestor_recursion:
  assumes "tm_inv m" and "set_order order" and "(i, i) \<in> (parent_rel (tm_tasks m))\<^sup>+"
  shows "get_child_task order [i] True m = Inl RecursionError"
  using get_child_task_recursive[OF assms(1,2), of "[i]"] assms(3)
  by (cases "get_child_task order [i] True m") (simp, fastforce)

lemma parent_cycle_recursion:
  "get_child_task (\<lambda>xs. xs) [''a''] True
     (task_run (\<lambda>xs. xs) [OpAdd [demo_task ''a'' 1 (Some ''b''), demo_task ''b'' 1 (Some ''a'')]]) = Inl RecursionError"
proof (rule self_ancestor_recursion[OF task_run_inv[OF set_order_id] set_order_id])
  let ?m = "task_run (\<lambda>xs. xs) [OpAdd [demo_task ''a'' 1 (Some ''b''), demo_task ''b'' 1 (Some ''a'')]]"
  have a: "dget (tm_tasks ?m) ''a'' = Some (demo_task ''a'' 1 (Some ''b''))" by code_simp
  have b: "dget (tm_tasks ?m) ''b'' = Some (demo_task ''b'' 1 (Some ''a''))" by code_simp
  have r: "(''b'', ''a'') \<in> parent_rel (tm_tasks ?m)" "(''a'', ''b'') \<in> parent_rel (tm_tasks ?m)"
    using a b by (simp_all add: parent_rel_def demo_task_def)
  then show "(''a'', ''a'') \<in> (parent_rel (tm_tasks ?m))\<^sup>+" by (meson r_into_trancl' trancl_into_trancl)
qed

end
