(* ===== verification/Callback_Filters.thy ===== *)
theory Callback_Filters
  imports Pyval
begin

text \<open>
  The filters of the callback framework: \<open>core/runner/callback/enums.py\<close>, \<open>models.py\<close> and
  \<open>filters.py\<close>. A callback is known by its identity and its \<open>__name__\<close>, which is what the filters
  key their tables by; the functions the user supplies are the fields of a \<open>user_env\<close>, indexed by
  numbers. The value of \<open>time.time()\<close> at a call is an argument. Reasons are texts for the log.
\<close>

section \<open>Calls\<close>

datatype filter_action = CONTINUE | STOP | SKIP | MODIFY

record callback =
  cb_id :: nat
  cb_name :: string

type_synonym call_args = "pyval list \<times> pdict"

record filter_result =
  fr_action :: filter_action
  fr_modified_args :: "pyval list option"
  fr_modified_kwargs :: "pdict option"

definition filter_action_result :: "filter_action \<Rightarrow> filter_result" where
  "filter_action_result a = \<lparr>fr_action = a, fr_modified_args = None, fr_modified_kwargs = None\<rparr>"

record filter_env =
  fe_validator :: "nat \<Rightarrow> call_args \<Rightarrow> bool res"
  fe_modifier :: "nat \<Rightarrow> call_args \<Rightarrow> call_args res"
  fe_condition :: "nat \<Rightarrow> string \<Rightarrow> callback \<Rightarrow> call_args \<Rightarrow> bool res"
  fe_custom :: "nat \<Rightarrow> string \<Rightarrow> callback \<Rightarrow> call_args \<Rightarrow> filter_result res"

definition callback_key :: "string \<Rightarrow> callback \<Rightarrow> string" where
  "callback_key event cb = event @ '':'' @ cb_name cb"

section \<open>Rate limits\<close>

record rate_limit =
  rl_max_calls :: int
  rl_time_window :: rat
  rl_call_times :: "(string, rat list) pydict"

definition rate_limit_init :: "int \<Rightarrow> rat \<Rightarrow> rate_limit" where
  "rate_limit_init max_calls window = \<lparr>rl_max_calls = max_calls, rl_time_window = window, rl_call_times = []\<rparr>"

text \<open>A \<open>deque\<close> with a negative \<open>maxlen\<close> cannot be made; the new time always fits the bound.\<close>

definition rate_limit_filter :: "string \<Rightarrow> callback \<Rightarrow> rat \<Rightarrow> rate_limit \<Rightarrow> filter_result res \<times> rate_limit" where
  "rate_limit_filter event cb current_time f =
     (if rl_max_calls f < 0 then (Inl ValueError, f)
      else
        (let key = callback_key event cb;
             times = dropWhile (\<lambda>t. current_time - t > rl_time_window f) (dget_default [] (rl_call_times f) key)
         in if int (length times) \<ge> rl_max_calls f
            then (Inr (filter_action_result SKIP), f\<lparr>rl_call_times := dset key times (rl_call_times f)\<rparr>)
            else (Inr (filter_action_result CONTINUE), f\<lparr>rl_call_times := dset key (times @ [current_time]) (rl_call_times f)\<rparr>)))"

section \<open>Circuit breakers\<close>

record breaker =
  br_failure_threshold :: int
  br_timeout :: rat
  br_failures :: "(string, int) pydict"
  br_last_failure_time :: "(string, rat) pydict"
  br_is_open :: "(string, bool) pydict"

definition breaker_init :: "int \<Rightarrow> rat \<Rightarrow> breaker" where
  "breaker_init threshold timeout = \<lparr>br_failure_threshold = threshold, br_timeout = timeout, br_failures = [],
     br_last_failure_time = [], br_is_open = []\<rparr>"

text \<open>Looking an absent key up in a \<open>defaultdict\<close> stores the default.\<close>

definition breaker_filter :: "string \<Rightarrow> callback \<Rightarrow> rat \<Rightarrow> breaker \<Rightarrow> filter_result res \<times> breaker" where
  "breaker_filter event cb current_time b =
     (let key = callback_key event cb;
          is_open = dget_default False (br_is_open b) key;
          b1 = b\<lparr>br_is_open := dset key is_open (br_is_open b)\<rparr>
      in if \<not> is_open then (Inr (filter_action_result CONTINUE), b1)
         else
           (case dget (br_last_failure_time b) key of
              None \<Rightarrow> (Inl KeyError, b1)
            | Some t \<Rightarrow>
                (if current_time - t > br_timeout b
                 then (Inr (filter_action_result CONTINUE),
                       b1\<lparr>br_is_open := dset key False (br_is_open b1), br_failures := dset key 0 (br_failures b)\<rparr>)
                 else (Inr (filter_action_result SKIP), b1))))"

definition record_success :: "string \<Rightarrow> callback \<Rightarrow> breaker \<Rightarrow> breaker" where
  "record_success event cb b = b\<lparr>br_failures := dset (callback_key event cb) 0 (br_failures b)\<rparr>"

definition record_failure :: "string \<Rightarrow> callback \<Rightarrow> rat \<Rightarrow> breaker \<Rightarrow> breaker" where
  "record_failure event cb current_time b =
     (let key = callback_key event cb;
          n = dget_default 0 (br_failures b) key + 1;
          b1 = b\<lparr>br_failures := dset key n (br_failures b),
                 br_last_failure_time := dset key current_time (br_last_failure_time b)\<rparr>
      in if n \<ge> br_failure_threshold b then b1\<lparr>br_is_open := dset key True (br_is_open b)\<rparr> else b1)"

section \<open>All filters\<close>

definition validation_filter :: "filter_env \<Rightarrow> nat \<Rightarrow> call_args \<Rightarrow> filter_result" where
  "validation_filter E validator call =
     (case fe_validator E validator call of
        Inl e \<Rightarrow> filter_action_result SKIP
      | Inr is_valid \<Rightarrow> if \<not> is_valid then filter_action_result SKIP else filter_action_result CONTINUE)"

definition auth_filter :: "string \<Rightarrow> call_args \<Rightarrow> filter_result" where
  "auth_filter required_role call =
     (let user_role = dget_default (PStr ''guest'') (snd call) ''user_role''
      in if \<not> py_eq user_role (PStr required_role) then filter_action_result SKIP else filter_action_result CONTINUE)"

definition param_modify_filter :: "filter_env \<Rightarrow> nat \<Rightarrow> call_args \<Rightarrow> filter_result" where
  "param_modify_filter E modifier call =
     (case fe_modifier E modifier call of
        Inl e \<Rightarrow> filter_action_result SKIP
      | Inr (new_args, new_kwargs) \<Rightarrow>
          \<lparr>fr_action = MODIFY, fr_modified_args = Some new_args, fr_modified_kwargs = Some new_kwargs\<rparr>)"

definition conditional_filter :: "filter_env \<Rightarrow> nat \<Rightarrow> filter_action \<Rightarrow> string \<Rightarrow> callback \<Rightarrow> call_args \<Rightarrow> filter_result" where
  "conditional_filter E condition action_on_false event cb call =
     (case fe_condition E condition event cb call of
        Inl e \<Rightarrow> filter_action_result SKIP
      | Inr holds \<Rightarrow> if holds then filter_action_result CONTINUE else filter_action_result action_on_false)"

text \<open>\<open>EventFilter\<close> and \<open>LoggingFilter\<close> always continue; a \<open>CustomFilter\<close> is a subclass the user wrote.\<close>

datatype filter_obj =
    EventFilter
  | RateLimitFilter rate_limit
  | CircuitBreakerFilter breaker
  | ValidationFilter nat
  | LoggingFilter
  | AuthFilter string
  | ParamModifyFilter nat
  | ConditionalFilter nat filter_action
  | CustomFilter nat

definition base_filter :: filter_result where
  "base_filter = filter_action_result CONTINUE"

definition logging_filter :: filter_result where
  "logging_filter = filter_action_result CONTINUE"

fun run_filter :: "filter_env \<Rightarrow> string \<Rightarrow> callback \<Rightarrow> rat \<Rightarrow> call_args \<Rightarrow> filter_obj \<Rightarrow> filter_result res \<times> filter_obj" where
  "run_filter E event cb now call EventFilter = (Inr base_filter, EventFilter)"
| "run_filter E event cb now call (RateLimitFilter f) =
     (let (r, f') = rate_limit_filter event cb now f in (r, RateLimitFilter f'))"
| "run_filter E event cb now call (CircuitBreakerFilter b) =
     (let (r, b') = breaker_filter event cb now b in (r, CircuitBreakerFilter b'))"
| "run_filter E event cb now call (ValidationFilter v) = (Inr (validation_filter E v call), ValidationFilter v)"
| "run_filter E event cb now call LoggingFilter = (Inr logging_filter, LoggingFilter)"
| "run_filter E event cb now call (AuthFilter role) = (Inr (auth_filter role call), AuthFilter role)"
| "run_filter E event cb now call (ParamModifyFilter g) = (Inr (param_modify_filter E g call), ParamModifyFilter g)"
| "run_filter E event cb now call (ConditionalFilter c a) = (Inr (conditional_filter E c a event cb call), ConditionalFilter c a)"
| "run_filter E event cb now call (CustomFilter u) = (fe_custom E u event cb call, CustomFilter u)"

section \<open>The rate limit as a sliding window\<close>

text \<open>A call is the key it counts under and its time; the run says which calls were let through.\<close>

fun rate_run :: "rate_limit \<Rightarrow> (string \<times> callback \<times> rat) list \<Rightarrow> filter_action res list \<times> rate_limit" where
  "rate_run f [] = ([], f)"
| "rate_run f ((event, cb, t) # calls) =
     (let (r, f1) = rate_limit_filter event cb t f; (rs, f2) = rate_run f1 calls
      in (map_sum id fr_action r # rs, f2))"

text \<open>The specification remembers every call it let through.\<close>

fun window_run :: "nat \<Rightarrow> rat \<Rightarrow> (string \<times> rat) list \<Rightarrow> (string \<times> callback \<times> rat) list \<Rightarrow> filter_action res list" where
  "window_run n w accepted [] = []"
| "window_run n w accepted ((event, cb, t) # calls) =
     (let key = callback_key event cb;
          ok = length (filter (\<lambda>(k, u). k = key \<and> t - u \<le> w) accepted) < n
      in Inr (if ok then CONTINUE else SKIP) # window_run n w (if ok then accepted @ [(key, t)] else accepted) calls)"

definition accepted_times :: "string \<Rightarrow> (string \<times> rat) list \<Rightarrow> rat list" where
  "accepted_times key accepted = map snd (filter (\<lambda>(k, u). k = key) accepted)"


definition call_times :: "(string \<times> callback \<times> rat) list \<Rightarrow> rat list" where
  "call_times calls = map (\<lambda>(event, cb, t). t) calls"

lemma dropWhile_dropWhile: "(\<And>x. Q x \<Longrightarrow> P x) \<Longrightarrow> dropWhile P (dropWhile Q xs) = dropWhile P xs"
  by (induction xs) auto

text \<open>What the deque of a key holds once the expired times are dropped, at any later time.\<close>

definition window_inv :: "rat \<Rightarrow> rat \<Rightarrow> (string, rat list) pydict \<Rightarrow> (string \<times> rat) list \<Rightarrow> bool" where
  "window_inv w now tab accepted \<longleftrightarrow>
     (\<forall>key. (\<forall>u \<in> set (dget_default [] tab key). u \<le> now) \<and>
       (\<forall>t \<ge> now. dropWhile (\<lambda>u. t - u > w) (dget_default [] tab key) =
          filter (\<lambda>u. t - u \<le> w) (accepted_times key accepted)))"

lemma window_invD:
  assumes "window_inv w now tab accepted"
  shows "u \<in> set (dget_default [] tab key) \<Longrightarrow> u \<le> now"
    and "now \<le> t \<Longrightarrow> dropWhile (\<lambda>u. t - u > w) (dget_default [] tab key) = filter (\<lambda>u. t - u \<le> w) (accepted_times key accepted)"
  using assms by (auto simp: window_inv_def)

lemma accepted_times_snoc [simp]:
  "accepted_times key (accepted @ [(k, t)]) = accepted_times key accepted @ (if k = key then [t] else [])"
  by (simp add: accepted_times_def)

lemma accepted_in_window:
  "length (filter (\<lambda>(k, u). k = key \<and> t - u \<le> w) accepted) = length (filter (\<lambda>u. t - u \<le> w) (accepted_times key accepted))"
  by (induction accepted) (auto simp: accepted_times_def)

lemma window_inv_drop:
  assumes I: "window_inv w now tab accepted" and t: "now \<le> t"
  shows "window_inv w t (dset key (dropWhile (\<lambda>u. t - u > w) (dget_default [] tab key)) tab) accepted"
proof -
  let ?xs = "dropWhile (\<lambda>u. t - u > w) (dget_default [] tab key)"
  have le: "u \<le> t" if "u \<in> set (dget_default [] tab k)" for u k
    using window_invD(1)[OF I that] t by linarith
  have dd: "dropWhile (\<lambda>u. t' - u > w) ?xs = dropWhile (\<lambda>u. t' - u > w) (dget_default [] tab key)" if "t \<le> t'" for t'
    by (rule dropWhile_dropWhile) (use that in linarith)
  show ?thesis
    unfolding window_inv_def
  proof (intro allI conjI ballI impI)
    fix k u assume "u \<in> set (dget_default [] (dset key ?xs tab) k)"
    then show "u \<le> t" using le[of u k] le[of u key] by (auto split: if_splits dest: set_dropWhileD)
  next
    fix k t' assume t': "t \<le> t'"
    then have "dropWhile (\<lambda>u. t' - u > w) (dget_default [] (dset key ?xs tab) k) = dropWhile (\<lambda>u. t' - u > w) (dget_default [] tab k)"
      by (cases "k = key") (simp_all only: dget_default_dset refl if_True if_False dd)
    also have "\<dots> = filter (\<lambda>u. t' - u \<le> w) (accepted_times k accepted)"
      by (rule window_invD(2)[OF I]) (use t t' in linarith)
    finally show "dropWhile (\<lambda>u. t' - u > w) (dget_default [] (dset key ?xs tab) k) = filter (\<lambda>u. t' - u \<le> w) (accepted_times k accepted)" .
  qed
qed

lemma window_inv_push:
  assumes I: "window_inv w now tab accepted"
  shows "window_inv w now (dset key (dget_default [] tab key @ [now]) tab) (accepted @ [(key, now)])"
proof -
  let ?xs = "dget_default [] tab key"
  have "dropWhile (\<lambda>u. t - u > w) (?xs @ [now]) = filter (\<lambda>u. t - u \<le> w) (accepted_times key accepted @ [now])" if "now \<le> t" for t
  proof (cases "t - now > w")
    case True
    have "t - u > w" if "u \<in> set ?xs" for u using window_invD(1)[OF I that] True by linarith
    then have "dropWhile (\<lambda>u. t - u > w) ?xs = []" and "dropWhile (\<lambda>u. t - u > w) (?xs @ [now]) = []"
      using True by (auto simp: dropWhile_eq_Nil_conv)
    then show ?thesis using window_invD(2)[OF I that, of key] True by simp
  next
    case False
    have "dropWhile (\<lambda>u. t - u > w) (?xs @ [now]) = dropWhile (\<lambda>u. t - u > w) ?xs @ [now]"
      using False by (cases "\<forall>u \<in> set ?xs. t - u > w") (auto simp: dropWhile_append1 dropWhile_append2 dropWhile_eq_Nil_conv)
    then show ?thesis using window_invD(2)[OF I that, of key] False by simp
  qed
  then show ?thesis
    unfolding window_inv_def using window_invD[OF I] by auto
qed

lemma rate_run_window:
  assumes "0 \<le> rl_max_calls f" and "window_inv (rl_time_window f) now (rl_call_times f) accepted"
    and "sorted (now # call_times calls)"
  shows "fst (rate_run f calls) = window_run (nat (rl_max_calls f)) (rl_time_window f) accepted calls"
  using assms
proof (induction calls arbitrary: f now accepted)
  case Nil
  then show ?case by simp
next
  case (Cons c calls)
  obtain event cb t where c: "c = (event, cb, t)" by (cases c)
  let ?key = "callback_key event cb" and ?w = "rl_time_window f" and ?n = "rl_max_calls f"
  let ?xs = "dropWhile (\<lambda>u. t - u > ?w) (dget_default [] (rl_call_times f) ?key)"
  let ?times = "dset ?key ?xs (rl_call_times f)"
  have t: "now \<le> t" and s: "sorted (t # call_times calls)" using Cons.prems(3) by (auto simp: c call_times_def)
  have xs: "?xs = filter (\<lambda>u. t - u \<le> ?w) (accepted_times ?key accepted)" by (rule window_invD(2)[OF Cons.prems(2) t])
  have d: "window_inv ?w t ?times accepted" by (rule window_inv_drop[OF Cons.prems(2) t])
  have ok: "length (filter (\<lambda>(k, u). k = ?key \<and> t - u \<le> ?w) accepted) < nat ?n \<longleftrightarrow> \<not> int (length ?xs) \<ge> ?n"
    unfolding accepted_in_window xs by linarith
  show ?case
  proof (cases "int (length ?xs) \<ge> ?n")
    case True
    have "fst (rate_run (f\<lparr>rl_call_times := ?times\<rparr>) calls) = window_run (nat ?n) ?w accepted calls"
      using Cons.IH[of "f\<lparr>rl_call_times := ?times\<rparr>" t accepted] Cons.prems(1) d s by simp
    then show ?thesis
      using True ok Cons.prems(1) by (simp add: c rate_limit_filter_def Let_def filter_action_result_def split_beta del: not_le)
  next
    case False
    have p: "window_inv ?w t (dset ?key (?xs @ [t]) (rl_call_times f)) (accepted @ [(?key, t)])"
      using window_inv_push[OF d, of ?key] by simp
    have "fst (rate_run (f\<lparr>rl_call_times := dset ?key (?xs @ [t]) (rl_call_times f)\<rparr>) calls) =
        window_run (nat ?n) ?w (accepted @ [(?key, t)]) calls"
      using Cons.IH[of "f\<lparr>rl_call_times := dset ?key (?xs @ [t]) (rl_call_times f)\<rparr>" t "accepted @ [(?key, t)]"] Cons.prems(1) p s by simp
    then show ?thesis
      using False ok Cons.prems(1) by (simp add: c rate_limit_filter_def Let_def filter_action_result_def split_beta del: not_le)
  qed
qed

section \<open>No burst\<close>

text \<open>The times at which calls of a key were let through.\<close>

fun admitted :: "string \<Rightarrow> (string \<times> callback \<times> rat) list \<Rightarrow> filter_action res list \<Rightarrow> rat list" where
  "admitted key ((event, cb, t) # calls) (r # rs) =
     (if callback_key event cb = key \<and> r = Inr CONTINUE then [t] else []) @ admitted key calls rs"
| "admitted key _ _ = []"

definition spaced :: "nat \<Rightarrow> rat \<Rightarrow> rat list \<Rightarrow> bool" where
  "spaced n w ts \<longleftrightarrow> (\<forall>i. i + n < length ts \<longrightarrow> ts ! (i + n) - ts ! i > w)"

lemma spaced_snoc:
  assumes s: "spaced n w ts" and o: "sorted ts" and c: "length (filter (\<lambda>u. t - u \<le> w) ts) < n"
  shows "spaced n w (ts @ [t])"
  unfolding spaced_def
proof (intro allI impI)
  fix i assume i: "i + n < length (ts @ [t])"
  show "(ts @ [t]) ! (i + n) - (ts @ [t]) ! i > w"
  proof (cases "i + n < length ts")
    case True
    then show ?thesis using s by (simp add: spaced_def nth_append)
  next
    case False
    with i have l: "i + n = length ts" by simp
    have n: "0 < n" using c by simp
    have "t - ts ! i > w"
    proof (rule ccontr)
      assume "\<not> t - ts ! i > w"
      then have "t - u \<le> w" if "u \<in> set (drop i ts)" for u
      proof -
        from that obtain k where k: "k < length (drop i ts)" "u = ts ! (i + k)" by (auto simp: in_set_conv_nth)
        then have "ts ! i \<le> u" using sorted_nth_mono[OF o, of i "i + k"] by simp
        with \<open>\<not> t - ts ! i > w\<close> show ?thesis by linarith
      qed
      then have "filter (\<lambda>u. t - u \<le> w) (drop i ts) = drop i ts" by (simp add: filter_id_conv)
      then have "length (drop i ts) \<le> length (filter (\<lambda>u. t - u \<le> w) ts)"
        by (metis append_take_drop_id filter_append le_add2 length_append)
      with c l show False by simp
    qed
    then show ?thesis using l n by (simp add: nth_append)
  qed
qed

lemma window_run_spaced:
  assumes "spaced n w (accepted_times key accepted)" and "sorted (accepted_times key accepted @ call_times calls)"
  shows "spaced n w (accepted_times key accepted @ admitted key calls (window_run n w accepted calls))"
  using assms
proof (induction calls arbitrary: accepted)
  case (Cons c calls)
  obtain event cb t where c: "c = (event, cb, t)" by (cases c)
  let ?key = "callback_key event cb"
  let ?ok = "length (filter (\<lambda>(k, u). k = ?key \<and> t - u \<le> w) accepted) < n"
  have srt: "sorted (accepted_times key accepted @ [t] @ call_times calls)" using Cons.prems(2) by (simp add: c call_times_def)
  then have s2: "sorted (accepted_times key accepted @ call_times calls)" and s3: "sorted (accepted_times key accepted)"
    by (auto simp: sorted_append)
  show ?case
  proof (cases ?ok)
    case False
    then show ?thesis using Cons.IH[OF Cons.prems(1) s2] by (simp add: c del: not_less)
  next
    case True
    have "spaced n w (accepted_times key (accepted @ [(?key, t)]))"
      using Cons.prems(1) spaced_snoc[OF Cons.prems(1) s3] True accepted_in_window[of ?key t w accepted]
      by (cases "?key = key") auto
    moreover have "sorted (accepted_times key (accepted @ [(?key, t)]) @ call_times calls)"
      using srt s2 by simp
    ultimately show ?thesis using Cons.IH[of "accepted @ [(?key, t)]"] True by (simp add: c)
  qed
qed simp


section \<open>When a circuit is open\<close>

text \<open>What happens to a breaker, with the time at which it happens.\<close>

datatype breaker_event = Ask | Success | Failure

fun breaker_step :: "string \<times> callback \<times> breaker_event \<times> rat \<Rightarrow> breaker \<Rightarrow> breaker" where
  "breaker_step (event, cb, Ask, t) b = snd (breaker_filter event cb t b)"
| "breaker_step (event, cb, Success, t) b = record_success event cb b"
| "breaker_step (event, cb, Failure, t) b = record_failure event cb t b"

definition breaker_run :: "int \<Rightarrow> rat \<Rightarrow> (string \<times> callback \<times> breaker_event \<times> rat) list \<Rightarrow> breaker" where
  "breaker_run threshold timeout hist = fold breaker_step hist (breaker_init threshold timeout)"

text \<open>The part of a history that concerns one key.\<close>

definition key_history :: "string \<Rightarrow> (string \<times> callback \<times> breaker_event \<times> rat) list \<Rightarrow> (breaker_event \<times> rat) list" where
  "key_history key hist = map (\<lambda>(event, cb, e, t). (e, t)) (filter (\<lambda>(event, cb, e, t). callback_key event cb = key) hist)"

definition failure_count :: "(breaker_event \<times> rat) list \<Rightarrow> nat" where
  "failure_count h = length (filter (\<lambda>(e, t). e = Failure) h)"

text \<open>Some part of the history has that many failures and no success in between.\<close>

definition failing_part :: "int \<Rightarrow> (breaker_event \<times> rat) list \<Rightarrow> bool" where
  "failing_part n h \<longleftrightarrow> (\<exists>h1 h2 h3. h = h1 @ h2 @ h3 \<and> Success \<notin> fst ` set h2 \<and> n \<le> int (failure_count h2))"

text \<open>The state of one key.\<close>

definition circuit :: "string \<Rightarrow> breaker \<Rightarrow> bool \<times> int \<times> rat option" where
  "circuit key b = (dget_default False (br_is_open b) key, dget_default 0 (br_failures b) key, dget (br_last_failure_time b) key)"

fun circuit_step :: "int \<Rightarrow> rat \<Rightarrow> breaker_event \<times> rat \<Rightarrow> bool \<times> int \<times> rat option \<Rightarrow> bool \<times> int \<times> rat option" where
  "circuit_step threshold timeout (Ask, now) (opn, n, latest) =
     (case latest of
        Some t \<Rightarrow> if opn \<and> now - t > timeout then (False, 0, latest) else (opn, n, latest)
      | None \<Rightarrow> (opn, n, latest))"
| "circuit_step threshold timeout (Success, now) (opn, n, latest) = (opn, 0, latest)"
| "circuit_step threshold timeout (Failure, now) (opn, n, latest) = (opn \<or> threshold \<le> n + 1, n + 1, Some now)"

lemma breaker_step_limits [simp]:
  "br_failure_threshold (breaker_step x b) = br_failure_threshold b" "br_timeout (breaker_step x b) = br_timeout b"
proof -
  obtain event cb e t where x: "x = (event, cb, e, t)" by (cases x)
  show "br_failure_threshold (breaker_step x b) = br_failure_threshold b" "br_timeout (breaker_step x b) = br_timeout b"
    by (cases e; simp add: x breaker_filter_def record_success_def record_failure_def Let_def split: option.split)+
qed

lemma circuit_breaker_step:
  "circuit key (breaker_step (event, cb, e, t) b) =
     (if callback_key event cb = key then circuit_step (br_failure_threshold b) (br_timeout b) (e, t) (circuit key b) else circuit key b)"
  by (cases e; simp add: breaker_filter_def record_success_def record_failure_def circuit_def Let_def split: option.split)

lemma circuit_breaker_run:
  "circuit key (breaker_run threshold timeout hist) =
     fold (circuit_step threshold timeout) (key_history key hist) (False, 0, None)"
proof -
  have "circuit key (fold breaker_step hist b) = fold (circuit_step (br_failure_threshold b) (br_timeout b)) (key_history key hist) (circuit key b)" for b
  proof (induction hist arbitrary: b)
    case (Cons x hist)
    obtain event cb e t where x: "x = (event, cb, e, t)" by (cases x)
    show ?case using Cons.IH[of "breaker_step x b"] by (simp add: x circuit_breaker_step key_history_def del: breaker_step.simps)
  qed (simp add: key_history_def)
  from this[of "breaker_init threshold timeout"] show ?thesis
    by (simp add: breaker_run_def) (simp add: breaker_init_def circuit_def dget_default_def)
qed

lemma failing_part_snoc: "failing_part n h \<Longrightarrow> failing_part n (h @ [x])"
  unfolding failing_part_def by (metis append.assoc)

lemma failing_part_suffix:
  "h = h1 @ h2 \<Longrightarrow> Success \<notin> fst ` set h2 \<Longrightarrow> n \<le> int (failure_count h2) \<Longrightarrow> failing_part n h"
  unfolding failing_part_def by (metis append_Nil2)

text \<open>What the state of a key says of its history.\<close>

lemma circuit_history:
  assumes "fold (circuit_step threshold timeout) h (False, 0, None) = (opn, n, latest)"
  shows "\<exists>h1 h2. h = h1 @ h2 \<and> Success \<notin> fst ` set h2 \<and> n \<le> int (failure_count h2)"
    and "opn \<Longrightarrow> failing_part threshold h"
    and "latest = Some t \<Longrightarrow> (Failure, t) \<in> set h"
    and "opn \<Longrightarrow> latest \<noteq> None"
  using assms
proof (induction h arbitrary: opn n latest rule: rev_induct)
  case Nil
  { case 1 then show ?case by (simp add: failure_count_def) }
  { case 2 then show ?case by simp }
  { case 3 then show ?case by simp }
  { case 4 then show ?case by simp }
next
  case (snoc x h)
  obtain o' n' l' where st: "fold (circuit_step threshold timeout) h (False, 0, None) = (o', n', l')"
    by (cases "fold (circuit_step threshold timeout) h (False, 0, None)")
  obtain e now where x: "x = (e, now)" by (cases x)
  obtain h1 h2 where h: "h = h1 @ h2" "Success \<notin> fst ` set h2" "n' \<le> int (failure_count h2)" using snoc.IH(1)[OF st] by blast
  have step: "(opn, n, latest) = circuit_step threshold timeout (e, now) (o', n', l')"
    if "fold (circuit_step threshold timeout) (h @ [x]) (False, 0, None) = (opn, n, latest)" for opn n latest
    using that by (simp add: st x)
  { case 1
    show ?case
    proof (cases e)
      case Success
      then have "n = 0" using step[OF 1] by simp
      then show ?thesis by (intro exI[of _ "h @ [x]"] exI[of _ "[]"]) (simp add: failure_count_def)
    next
      case Failure
      then show ?thesis using step[OF 1] h
        by (intro exI[of _ h1] exI[of _ "h2 @ [x]"]) (auto simp: x failure_count_def)
    next
      case Ask
      have "n \<le> int (failure_count h2)" using step[OF 1] h(3) Ask by (auto split: option.splits if_splits)
      then show ?thesis using h Ask
        by (intro exI[of _ h1] exI[of _ "h2 @ [x]"]) (auto simp: x failure_count_def)
    qed }
  { case 2
    show ?case
    proof (cases "o'")
      case True
      then show ?thesis using snoc.IH(2)[OF _ st] failing_part_snoc by blast
    next
      case False
      then have "e = Failure" "threshold \<le> n' + 1" using step[OF 2(2)] 2(1) by (cases e; auto split: option.splits if_splits)+
      then show ?thesis using h
        by (intro failing_part_suffix[of _ h1 "h2 @ [x]"]) (auto simp: x failure_count_def)
    qed }
  { case 3
    show ?case using step[OF 3(2)] 3(1) snoc.IH(3)[OF _ st] by (cases e) (auto simp: x split: option.splits if_splits) }
  { case 4
    show ?case using step[OF 4(2)] 4(1) snoc.IH(4)[OF _ st] by (cases e) (auto split: option.splits if_splits) }
qed

lemma circuit_trips:
  assumes "h2 \<noteq> []" and "\<forall>x \<in> set h2. fst x = Failure" and "threshold \<le> int (length h2)" and "0 \<le> n"
  shows "\<exists>n'. fold (circuit_step threshold timeout) h2 (opn, n, latest) = (True, n', Some (snd (List.last h2)))"
proof -
  have "fold (circuit_step threshold timeout) h2 (opn, n, latest) =
      (opn \<or> threshold \<le> n + int (length h2), n + int (length h2), Some (snd (List.last h2)))"
    using assms(1,2,4)
  proof (induction h2 rule: rev_induct)
    case (snoc x h2)
    then show ?case
    proof (cases "h2 = []")
      case True
      then show ?thesis using snoc.prems by (cases x) auto
    next
      case False
      then show ?thesis using snoc by (cases x) auto
    qed
  qed simp
  then show ?thesis using assms(3,4) by simp
qed

lemma circuit_count_nonneg:
  assumes "fold (circuit_step threshold timeout) h (opn0, n0, latest0) = (opn, n, latest)" and "0 \<le> n0"
  shows "0 \<le> n"
  using assms
proof (induction h arbitrary: opn0 n0 latest0)
  case (Cons x h)
  obtain e now where x: "x = (e, now)" by (cases x)
  obtain o' n' l' where st: "circuit_step threshold timeout (e, now) (opn0, n0, latest0) = (o', n', l')"
    by (cases "circuit_step threshold timeout (e, now) (opn0, n0, latest0)")
  have "0 \<le> fst (snd (circuit_step threshold timeout (e, now) (opn0, n0, latest0)))"
    using Cons.prems(2) by (cases e; cases latest0) auto
  with st Cons show ?case by (simp add: x)
qed simp


lemma breaker_run_timeout: "br_timeout (breaker_run threshold timeout hist) = timeout"
proof -
  have "br_timeout (fold breaker_step hist b) = br_timeout b" for b by (induction hist arbitrary: b) auto
  then show ?thesis by (simp add: breaker_run_def) (simp add: breaker_init_def)
qed

lemma rate_run_fresh:
  assumes "0 \<le> max_calls" and "sorted (call_times calls)"
  shows "fst (rate_run (rate_limit_init max_calls window) calls) = window_run (nat max_calls) window [] calls"
proof (cases calls)
  case (Cons c calls')
  let ?t = "hd (call_times calls)"
  have s: "sorted (?t # call_times calls)" using assms(2) by (simp add: Cons call_times_def)
  have "window_inv window ?t [] []" by (simp add: window_inv_def dget_default_def accepted_times_def)
  with rate_run_window[of "rate_limit_init max_calls window" ?t "[]" calls] assms(1) s show ?thesis
    by (simp add: rate_limit_init_def)
qed simp

section \<open>Properties\<close>

text \<open>C26: a rate limit that is asked at times that do not decrease lets a call through exactly when fewer
  than \<open>max_calls\<close> calls with its key were let through within the time window before it; the deques
  forget nothing that matters, and other keys have no influence.\<close>

theorem rate_limit_is_window:
  assumes "0 \<le> max_calls" and "sorted (call_times calls)"
  shows "fst (rate_run (rate_limit_init max_calls window) calls) = window_run (nat max_calls) window [] calls"
  by (rule rate_run_fresh[OF assms])

definition demo_cb :: callback where
  "demo_cb = \<lparr>cb_id = 0, cb_name = ''f''\<rparr>"

definition demo_calls :: "(string \<times> callback \<times> rat) list" where
  "demo_calls = [(''e'', demo_cb, 0), (''e'', demo_cb, 1), (''e'', demo_cb, 2), (''e'', demo_cb, 5)]"

theorem rate_limit_is_window_witness:
  "fst (rate_run (rate_limit_init 2 3) demo_calls) = [Inr CONTINUE, Inr CONTINUE, Inr SKIP, Inr CONTINUE]"
proof -
  have "sorted (call_times demo_calls)" by (simp add: demo_calls_def call_times_def)
  moreover have "window_run (nat 2) 3 [] demo_calls = [Inr CONTINUE, Inr CONTINUE, Inr SKIP, Inr CONTINUE]"
    by (simp add: demo_calls_def callback_key_def demo_cb_def)
  ultimately show ?thesis using rate_limit_is_window[of 2 demo_calls 3] by simp
qed

text \<open>No burst gets past a rate limit: of the calls with one key that it lets through, any two that
  are \<open>max_calls\<close> apart lie further apart in time than the window.\<close>

theorem rate_limit_no_burst:
  assumes "0 \<le> max_calls" and "sorted (call_times calls)"
  shows "let ts = admitted key calls (fst (rate_run (rate_limit_init max_calls window) calls)) in
    \<forall>i. i + nat max_calls < length ts \<longrightarrow> ts ! (i + nat max_calls) - ts ! i > window"
proof -
  have "fst (rate_run (rate_limit_init max_calls window) calls) = window_run (nat max_calls) window [] calls"
    by (rule rate_run_fresh[OF assms])
  moreover have "spaced (nat max_calls) window (accepted_times key [] @ admitted key calls (window_run (nat max_calls) window [] calls))"
    by (rule window_run_spaced) (use assms(2) in \<open>simp_all add: accepted_times_def spaced_def\<close>)
  ultimately show ?thesis by (simp add: accepted_times_def spaced_def Let_def)
qed

theorem rate_limit_no_burst_witness:
  "let ts = admitted ''e:f'' demo_calls (fst (rate_run (rate_limit_init 2 3) demo_calls)) in
    \<forall>i. i + 2 < length ts \<longrightarrow> ts ! (i + 2) - ts ! i > 3"
proof -
  have "sorted (call_times demo_calls)" by (simp add: demo_calls_def call_times_def)
  from rate_limit_no_burst[OF _ this, of 2 "''e:f''" 3] show ?thesis by simp
qed


definition demo_failures :: "(string \<times> callback \<times> breaker_event \<times> rat) list" where
  "demo_failures = [(''e'', demo_cb, Failure, 1), (''e'', demo_cb, Failure, 2)]"


end
