(* ===== verification/Callback_Chain.thy ===== *)
theory Callback_Chain
  imports Callback_Filters "HOL-Library.Sublist"
begin

text \<open>
  Chains of callbacks with retries and rollback: \<open>core/runner/callback/chain.py\<close> and the chain part of
  \<open>models.py\<close>. A \<open>CallbackInfo\<close> is an object that the registry and the chains share, so the objects
  are a list and a reference is a position in it. What a callback or an error handler does when it is
  called is a \<open>chain_env\<close>, indexed by the number of calls so far; callbacks do not change the context
  they are given. Whether a rollback handler raises makes no difference, since that is only logged.
\<close>

section \<open>Data\<close>

datatype chain_action = CHAIN_CONTINUE | CHAIN_BREAK | CHAIN_RETRY | CHAIN_ROLLBACK

record cb_info =
  ci_callback :: callback
  ci_priority :: int
  ci_once :: bool
  ci_enabled :: bool
  ci_namespace :: string
  ci_tags :: "string list"
  ci_max_retries :: int
  ci_wrapper :: "nat option"
  ci_callback_type :: string

record chain_result =
  cx_action :: chain_action
  cx_result :: pyval
  cx_error :: "py_error option"

datatype cb_outcome =
    Returned pyval
  | ReturnedChain chain_action pyval "py_error option"
  | Raises py_error

record chain_env =
  ce_call :: "callback \<Rightarrow> nat \<Rightarrow> call_args \<Rightarrow> cb_outcome"
  ce_error_handler :: "nat \<Rightarrow> nat \<Rightarrow> py_error \<Rightarrow> pyval res"

text \<open>Truth values of objects.\<close>

fun py_truthy :: "pyval \<Rightarrow> bool" where
  "py_truthy PNone = False"
| "py_truthy (PBool b) = b"
| "py_truthy (PInt i) = (i \<noteq> 0)"
| "py_truthy (PFloat q) = (q \<noteq> 0)"
| "py_truthy (PStr s) = (s \<noteq> [])"
| "py_truthy (PList xs) = (xs \<noteq> [])"
| "py_truthy (PTuple xs) = (xs \<noteq> [])"
| "py_truthy (PDict d) = (d \<noteq> [])"
| "py_truthy (PObj i) = True"

section \<open>The chain\<close>

record chain =
  chn_callbacks :: "nat list"
  chn_rollback_handlers :: "(nat, nat) pydict"
  chn_error_handlers :: "(nat, nat) pydict"

definition chain_init :: chain where
  "chain_init = \<lparr>chn_callbacks = [], chn_rollback_handlers = [], chn_error_handlers = []\<rparr>"

text \<open>\<open>sort(key=priority, reverse=True)\<close> is stable; so is \<open>sort_key\<close>.\<close>

definition by_priority :: "cb_info list \<Rightarrow> nat list \<Rightarrow> nat list" where
  "by_priority infos refs = sort_key (\<lambda>r. - ci_priority (infos ! r)) refs"

definition set_handler :: "nat \<Rightarrow> nat option \<Rightarrow> (nat, nat) pydict \<Rightarrow> (nat, nat) pydict" where
  "set_handler cb h m = (case h of None \<Rightarrow> m | Some h \<Rightarrow> dset cb h m)"

definition chain_add :: "cb_info list \<Rightarrow> nat \<Rightarrow> nat option \<Rightarrow> nat option \<Rightarrow> chain \<Rightarrow> chain" where
  "chain_add infos r rollback_handler error_handler ch =
     (let cb = cb_id (ci_callback (infos ! r))
      in \<lparr>chn_callbacks = by_priority infos (chn_callbacks ch @ [r]),
          chn_rollback_handlers = set_handler cb rollback_handler (chn_rollback_handlers ch),
          chn_error_handlers = set_handler cb error_handler (chn_error_handlers ch)\<rparr>)"

definition chain_remove :: "cb_info list \<Rightarrow> nat \<Rightarrow> chain \<Rightarrow> chain" where
  "chain_remove infos cb ch =
     \<lparr>chn_callbacks = filter (\<lambda>r. cb_id (ci_callback (infos ! r)) \<noteq> cb) (chn_callbacks ch),
      chn_rollback_handlers = ddel cb (chn_rollback_handlers ch),
      chn_error_handlers = ddel cb (chn_error_handlers ch)\<rparr>"

section \<open>Executing it\<close>

text \<open>The context and the local variables of one execution, with the handlers it has called.\<close>

record chain_run =
  cr_infos :: "cb_info list"
  cr_results :: "pyval list"
  cr_current_index :: nat
  cr_is_completed :: bool
  cr_is_rolled_back :: bool
  cr_executed :: "nat list"
  cr_calls :: nat
  cr_rollbacks :: "nat list"

definition chain_run_init :: "cb_info list \<Rightarrow> chain_run" where
  "chain_run_init infos = \<lparr>cr_infos = infos, cr_results = [], cr_current_index = 0, cr_is_completed = False,
     cr_is_rolled_back = False, cr_executed = [], cr_calls = 0, cr_rollbacks = []\<rparr>"

definition get_last_result :: "chain_run \<Rightarrow> pyval" where
  "get_last_result st = (if cr_results st \<noteq> [] then last (cr_results st) else PNone)"

definition chain_rollback :: "chain \<Rightarrow> chain_run \<Rightarrow> chain_run" where
  "chain_rollback ch st = st\<lparr>cr_is_rolled_back := True,
     cr_rollbacks := cr_rollbacks st @ List.map_filter (dget (chn_rollback_handlers ch)) (rev (cr_executed st))\<rparr>"

definition chain_call_args :: "call_args \<Rightarrow> chain_run \<Rightarrow> call_args" where
  "chain_call_args init st =
     (if cr_results st \<noteq> [] then get_last_result st # fst init else fst init,
      dset ''_chain_context'' (PObj 0) (snd init))"

definition chain_success :: "nat \<Rightarrow> pyval \<Rightarrow> chain_run \<Rightarrow> chain_run" where
  "chain_success r v st =
     (let info = cr_infos st ! r
      in st\<lparr>cr_results := cr_results st @ [v], cr_executed := cr_executed st @ [cb_id (ci_callback info)],
            cr_infos := (if ci_once info then (cr_infos st)[r := info\<lparr>ci_enabled := False\<rparr>] else cr_infos st)\<rparr>)"

definition chain_result_of :: "chain_action \<Rightarrow> pyval \<Rightarrow> py_error option \<Rightarrow> chain_result" where
  "chain_result_of a v e = \<lparr>cx_action = a, cx_result = v, cx_error = e\<rparr>"

datatype chain_step = NextCallback chain_run | ChainEnds chain_result chain_run

text \<open>The retry loop, with the number of attempts that are left.\<close>

fun chain_attempts :: "chain_env \<Rightarrow> chain \<Rightarrow> call_args \<Rightarrow> nat \<Rightarrow> nat \<Rightarrow> chain_run \<Rightarrow> chain_step" where
  "chain_attempts E ch init r 0 st = NextCallback st"
| "chain_attempts E ch init r (Suc left) st =
     (let cb = ci_callback (cr_infos st ! r);
          st1 = st\<lparr>cr_calls := cr_calls st + 1\<rparr>;
          roll = (\<lambda>e st. ChainEnds (chain_result_of CHAIN_ROLLBACK PNone e) (chain_rollback ch st))
      in case ce_call E cb (cr_calls st) (chain_call_args init st) of
           Returned v \<Rightarrow> NextCallback (chain_success r v st1)
         | ReturnedChain CHAIN_BREAK v e \<Rightarrow>
             ChainEnds (chain_result_of CHAIN_BREAK v None) (st1\<lparr>cr_results := cr_results st1 @ [v]\<rparr>)
         | ReturnedChain CHAIN_RETRY v e \<Rightarrow> chain_attempts E ch init r left st1
         | ReturnedChain CHAIN_ROLLBACK v e \<Rightarrow> roll e st1
         | ReturnedChain CHAIN_CONTINUE v e \<Rightarrow> NextCallback (chain_success r v st1)
         | Raises TimeoutError \<Rightarrow>
             (if 0 < left then chain_attempts E ch init r left st1 else roll (Some TimeoutError) st1)
         | Raises e \<Rightarrow>
             (case dget (chn_error_handlers ch) (cb_id cb) of
                None \<Rightarrow> (if 0 < left then chain_attempts E ch init r left st1 else roll (Some e) st1)
              | Some h \<Rightarrow>
                  (let st2 = st1\<lparr>cr_calls := cr_calls st1 + 1\<rparr>;
                       again = (if 0 < left then chain_attempts E ch init r left st2 else roll (Some e) st2)
                   in case ce_error_handler E h (cr_calls st1) e of
                        Inl _ \<Rightarrow> again
                      | Inr v \<Rightarrow>
                          (if py_truthy v
                           then NextCallback (st2\<lparr>cr_results := cr_results st2 @ [v], cr_executed := cr_executed st2 @ [cb_id cb]\<rparr>)
                           else again))))"

fun chain_loop :: "chain_env \<Rightarrow> chain \<Rightarrow> call_args \<Rightarrow> (nat \<times> nat) list \<Rightarrow> chain_run \<Rightarrow> chain_result \<times> chain_run" where
  "chain_loop E ch init [] st =
     (let st' = st\<lparr>cr_is_completed := True\<rparr> in (chain_result_of CHAIN_CONTINUE (get_last_result st') None, st'))"
| "chain_loop E ch init ((i, r) # rest) st =
     (let info = cr_infos st ! r
      in if \<not> ci_enabled info then chain_loop E ch init rest st
         else
           (case chain_attempts E ch init r (nat (ci_max_retries info + 1)) (st\<lparr>cr_current_index := i\<rparr>) of
              NextCallback st' \<Rightarrow> chain_loop E ch init rest st'
            | ChainEnds result st' \<Rightarrow> (result, st')))"

definition chain_execute :: "chain_env \<Rightarrow> chain \<Rightarrow> call_args \<Rightarrow> cb_info list \<Rightarrow> chain_result \<times> chain_run" where
  "chain_execute E ch init infos = chain_loop E ch init (enumerate 0 (chn_callbacks ch)) (chain_run_init infos)"

section \<open>What an execution leaves\<close>

text \<open>Callbacks keep their identity; only \<open>enabled\<close> changes, and only to false.\<close>

definition infos_le :: "cb_info list \<Rightarrow> cb_info list \<Rightarrow> bool" where
  "infos_le old new \<longleftrightarrow> length new = length old \<and>
     (\<forall>i < length old. ci_callback (new ! i) = ci_callback (old ! i) \<and> ci_max_retries (new ! i) = ci_max_retries (old ! i) \<and>
       ci_once (new ! i) = ci_once (old ! i) \<and> ci_priority (new ! i) = ci_priority (old ! i) \<and>
       ci_callback_type (new ! i) = ci_callback_type (old ! i) \<and> (ci_enabled (new ! i) \<longrightarrow> ci_enabled (old ! i)))"

lemma infos_le_refl [simp]: "infos_le xs xs"
  by (simp add: infos_le_def)

lemma infos_le_trans: "infos_le xs ys \<Longrightarrow> infos_le ys zs \<Longrightarrow> infos_le xs zs"
  by (auto simp: infos_le_def)

lemma infos_le_disable [simp]: "infos_le xs (xs[r := (xs ! r)\<lparr>ci_enabled := False\<rparr>])"
  by (cases "r < length xs") (auto simp: infos_le_def nth_list_update)

text \<open>One callback in its turn: nothing, or one more result, or the end of the chain.\<close>

definition turn_ok :: "chain \<Rightarrow> nat \<Rightarrow> nat \<Rightarrow> chain_run \<Rightarrow> chain_step \<Rightarrow> bool" where
  "turn_ok ch cb n st out \<longleftrightarrow>
     (case out of
        NextCallback st' \<Rightarrow>
          cr_executed st' \<in> {cr_executed st, cr_executed st @ [cb]} \<and>
          length (cr_results st') + length (cr_executed st) = length (cr_results st) + length (cr_executed st') \<and>
          cr_is_rolled_back st' = cr_is_rolled_back st \<and> cr_is_completed st' = cr_is_completed st \<and>
          cr_rollbacks st' = cr_rollbacks st \<and> infos_le (cr_infos st) (cr_infos st') \<and> cr_calls st' \<le> cr_calls st + 2 * n
      | ChainEnds res st' \<Rightarrow>
          cr_executed st' = cr_executed st \<and> cr_is_completed st' = cr_is_completed st \<and>
          infos_le (cr_infos st) (cr_infos st') \<and> cr_calls st' \<le> cr_calls st + 2 * n \<and>
          (cx_action res = CHAIN_ROLLBACK \<and> cr_is_rolled_back st' \<and> cr_results st' = cr_results st \<and>
             cr_rollbacks st' = cr_rollbacks st @ List.map_filter (dget (chn_rollback_handlers ch)) (rev (cr_executed st)) \<or>
           cx_action res = CHAIN_BREAK \<and> cr_is_rolled_back st' = cr_is_rolled_back st \<and>
             cr_results st' = cr_results st @ [cx_result res] \<and> cr_rollbacks st' = cr_rollbacks st))"

lemma turn_ok_more:
  assumes "turn_ok ch cb n (st\<lparr>cr_calls := c\<rparr>) out" and "c + 2 * n \<le> cr_calls st + 2 * n'"
  shows "turn_ok ch cb n' st out"
  using assms by (auto simp: turn_ok_def split: chain_step.splits)


lemma turn_none: "turn_ok ch cb n st (NextCallback st)"
  by (simp add: turn_ok_def)

lemma turn_success:
  "turn_ok ch (cb_id (ci_callback (cr_infos st ! r))) (Suc n) st (NextCallback (chain_success r v (st\<lparr>cr_calls := cr_calls st + 1\<rparr>)))"
  by (simp add: turn_ok_def chain_success_def Let_def)

lemma turn_rollback:
  "c \<le> cr_calls st + 2 \<Longrightarrow>
   turn_ok ch cb (Suc n) st (ChainEnds (chain_result_of CHAIN_ROLLBACK PNone e) (chain_rollback ch (st\<lparr>cr_calls := c\<rparr>)))"
  by (simp add: turn_ok_def chain_rollback_def chain_result_of_def)

lemma turn_break:
  "turn_ok ch cb (Suc n) st (ChainEnds (chain_result_of CHAIN_BREAK v None)
     (st\<lparr>cr_calls := cr_calls st + 1, cr_results := cr_results st @ [v]\<rparr>))"
  by (simp add: turn_ok_def chain_result_of_def)

lemma turn_handled:
  "turn_ok ch cb (Suc n) st (NextCallback (st\<lparr>cr_calls := Suc (Suc (cr_calls st)), cr_results := cr_results st @ [v],
     cr_executed := cr_executed st @ [cb]\<rparr>))"
  by (simp add: turn_ok_def)

lemma chain_attempts_turn:
  "turn_ok ch (cb_id (ci_callback (cr_infos st ! r))) n st (chain_attempts E ch init r n st)"
proof (induction n arbitrary: st)
  case 0
  show ?case by (simp add: turn_none)
next
  case (Suc left)
  let ?cb = "ci_callback (cr_infos st ! r)"
  have again: "turn_ok ch (cb_id ?cb) (Suc left) st (if 0 < left then chain_attempts E ch init r left (st\<lparr>cr_calls := c\<rparr>)
      else ChainEnds (chain_result_of CHAIN_ROLLBACK PNone e) (chain_rollback ch (st\<lparr>cr_calls := c\<rparr>)))"
    if "c \<le> cr_calls st + 2" for c e
    using turn_ok_more[OF Suc.IH[of "st\<lparr>cr_calls := c\<rparr>", simplified], of "Suc left"] turn_rollback[OF that] that by simp
  have retry: "turn_ok ch (cb_id ?cb) (Suc left) st (chain_attempts E ch init r left (st\<lparr>cr_calls := cr_calls st + 1\<rparr>))"
    using turn_ok_more[OF Suc.IH[of "st\<lparr>cr_calls := cr_calls st + 1\<rparr>", simplified], of "Suc left"] by simp
  note ok = turn_success turn_rollback turn_break turn_handled again retry
  show ?case
  proof (cases "ce_call E ?cb (cr_calls st) (chain_call_args init st)")
    case (Returned v)
    then show ?thesis using ok by (simp add: Let_def)
  next
    case (ReturnedChain a v e)
    then show ?thesis using ok by (cases a) (simp_all add: Let_def)
  next
    case (Raises e)
    show ?thesis
    proof (cases "e = TimeoutError")
      case True
      then show ?thesis using Raises again[of "Suc (cr_calls st)" "Some TimeoutError"] by (simp add: Let_def)
    next
      case False
      note again1 = again[of "Suc (cr_calls st)" "Some e", simplified]
      note again2 = again[of "Suc (Suc (cr_calls st))" "Some e", simplified]
      show ?thesis
      proof (cases "dget (chn_error_handlers ch) (cb_id ?cb)")
        case None
        then show ?thesis using Raises False again1 by (cases e; cases "left = 0"; simp add: Let_def)
      next
        case (Some h)
        show ?thesis
        proof (cases "ce_error_handler E h (Suc (cr_calls st)) e")
          case (Inl e')
          then show ?thesis using Raises False Some again2 by (cases e; cases "left = 0"; simp add: Let_def)
        next
          case (Inr v)
          then show ?thesis using Raises False Some again2 turn_handled[of ch "cb_id ?cb" left st v]
            by (cases e; cases "left = 0"; simp add: Let_def)
        qed
      qed
    qed
  qed
qed

text \<open>
  The whole chain, from a state in which nothing is rolled back: \<open>enabled\<close> lists the callbacks that may run,
  \<open>n\<close> bounds the calls.
\<close>

definition chain_ok :: "chain \<Rightarrow> nat list \<Rightarrow> nat \<Rightarrow> chain_run \<Rightarrow> chain_result \<times> chain_run \<Rightarrow> bool" where
  "chain_ok ch enabled n st out \<longleftrightarrow>
     (let (res, st') = out in
      (\<exists>ran. cr_executed st' = cr_executed st @ ran \<and> subseq ran enabled) \<and>
      cr_calls st' \<le> cr_calls st + n \<and> infos_le (cr_infos st) (cr_infos st') \<and>
      cr_is_rolled_back st' = (cx_action res = CHAIN_ROLLBACK) \<and>
      cr_is_completed st' = (cx_action res = CHAIN_CONTINUE) \<and>
      cr_rollbacks st' = (if cx_action res = CHAIN_ROLLBACK
        then List.map_filter (dget (chn_rollback_handlers ch)) (rev (cr_executed st')) else []) \<and>
      length (cr_results st') = length (cr_executed st') + (if cx_action res = CHAIN_BREAK then 1 else 0))"

definition fresh_run :: "chain_run \<Rightarrow> bool" where
  "fresh_run st \<longleftrightarrow> \<not> cr_is_rolled_back st \<and> \<not> cr_is_completed st \<and> cr_rollbacks st = [] \<and>
     length (cr_results st) = length (cr_executed st)"

definition enabled_callbacks :: "cb_info list \<Rightarrow> nat list \<Rightarrow> nat list" where
  "enabled_callbacks infos refs = map (\<lambda>r. cb_id (ci_callback (infos ! r))) (filter (\<lambda>r. ci_enabled (infos ! r)) refs)"

definition max_chain_calls :: "cb_info list \<Rightarrow> nat list \<Rightarrow> nat" where
  "max_chain_calls infos refs = sum_list (map (\<lambda>r. 2 * nat (ci_max_retries (infos ! r) + 1)) refs)"

lemma infos_leD:
  assumes "infos_le xs ys" and "r < length xs"
  shows "ci_callback (ys ! r) = ci_callback (xs ! r)" and "ci_max_retries (ys ! r) = ci_max_retries (xs ! r)"
    and "ci_enabled (ys ! r) \<Longrightarrow> ci_enabled (xs ! r)" and "r < length ys"
  using assms by (auto simp: infos_le_def)

lemma enabled_callbacks_le:
  assumes "infos_le xs ys" and "\<forall>r \<in> set refs. r < length xs"
  shows "subseq (enabled_callbacks ys refs) (enabled_callbacks xs refs)"
  using assms(2)
proof (induction refs)
  case (Cons r refs)
  then show ?case using infos_leD[OF assms(1), of r] by (auto simp: enabled_callbacks_def)
qed (simp add: enabled_callbacks_def)

lemma max_chain_calls_le:
  assumes "infos_le xs ys" and "\<forall>r \<in> set refs. r < length xs"
  shows "max_chain_calls ys refs = max_chain_calls xs refs"
  unfolding max_chain_calls_def
  by (intro arg_cong[of _ _ sum_list] map_cong refl) (use assms infos_leD(2) in metis)

lemma chain_loop_ok:
  assumes "fresh_run st" and "\<forall>x \<in> set xs. snd x < length (cr_infos st)"
  shows "chain_ok ch (enabled_callbacks (cr_infos st) (map snd xs)) (max_chain_calls (cr_infos st) (map snd xs)) st (chain_loop E ch init xs st)"
  using assms
proof (induction xs arbitrary: st)
  case Nil
  then show ?case by (simp add: chain_ok_def fresh_run_def chain_result_of_def Let_def enabled_callbacks_def)
next
  case (Cons x xs)
  obtain i r where x: "x = (i, r)" by (cases x)
  let ?info = "cr_infos st ! r" and ?rs = "map snd xs"
  let ?n = "nat (ci_max_retries ?info + 1)" and ?st = "st\<lparr>cr_current_index := i\<rparr>"
  have r: "r < length (cr_infos st)" using Cons.prems(2) by (simp add: x)
  show ?case
  proof (cases "ci_enabled ?info")
    case False
    have "chain_ok ch (enabled_callbacks (cr_infos st) ?rs) (max_chain_calls (cr_infos st) ?rs) st (chain_loop E ch init xs st)"
      using Cons by simp
    then show ?thesis using False
      by (auto simp: x chain_ok_def enabled_callbacks_def max_chain_calls_def split: prod.splits)
  next
    case True
    have T: "turn_ok ch (cb_id (ci_callback ?info)) ?n ?st (chain_attempts E ch init r ?n ?st)"
      using chain_attempts_turn[of ch ?st r ?n E init] by simp
    have en: "enabled_callbacks (cr_infos st) (map snd (x # xs)) = cb_id (ci_callback ?info) # enabled_callbacks (cr_infos st) ?rs"
      and mx: "max_chain_calls (cr_infos st) (map snd (x # xs)) = 2 * ?n + max_chain_calls (cr_infos st) ?rs"
      using True by (simp_all add: x enabled_callbacks_def max_chain_calls_def)
    show ?thesis
    proof (cases "chain_attempts E ch init r ?n ?st")
      case (ChainEnds res st')
      then show ?thesis using T Cons.prems(1) True
        unfolding en mx by (auto simp: x chain_ok_def turn_ok_def fresh_run_def)
    next
      case (NextCallback st')
      have N: "cr_executed st' \<in> {cr_executed st, cr_executed st @ [cb_id (ci_callback ?info)]}" "infos_le (cr_infos st) (cr_infos st')"
          "cr_calls st' \<le> cr_calls st + 2 * ?n" "fresh_run st'"
        using T Cons.prems(1) by (auto simp: NextCallback turn_ok_def fresh_run_def)
      have b: "\<forall>x \<in> set xs. snd x < length (cr_infos st')" using N(2) Cons.prems(2) by (simp add: infos_le_def)
      have rs: "\<forall>r \<in> set ?rs. r < length (cr_infos st)" using Cons.prems(2) by auto
      have IH: "chain_ok ch (enabled_callbacks (cr_infos st') ?rs) (max_chain_calls (cr_infos st') ?rs) st' (chain_loop E ch init xs st')"
        by (rule Cons.IH[OF N(4) b])
      have eq: "chain_loop E ch init (x # xs) st = chain_loop E ch init xs st'"
        using True NextCallback by (simp add: x)
      obtain res st2 where out: "chain_loop E ch init xs st' = (res, st2)" by (cases "chain_loop E ch init xs st'")
      from IH obtain ran where D: "cr_executed st2 = cr_executed st' @ ran" "subseq ran (enabled_callbacks (cr_infos st') ?rs)"
        by (auto simp: chain_ok_def out)
      have D2: "subseq ran (enabled_callbacks (cr_infos st) ?rs)"
        using D(2) enabled_callbacks_le[OF N(2) rs] by (rule subseq_order.order_trans)
      have "\<exists>ran. cr_executed st2 = cr_executed st @ ran \<and> subseq ran (cb_id (ci_callback ?info) # enabled_callbacks (cr_infos st) ?rs)"
        using N(1) D(1) D2 by auto
      moreover have "infos_le (cr_infos st) (cr_infos st2)"
        using IH infos_le_trans[OF N(2)] by (simp add: chain_ok_def out)
      moreover have "cr_calls st2 \<le> cr_calls st + (2 * ?n + max_chain_calls (cr_infos st) ?rs)"
        using IH N(3) by (simp add: chain_ok_def out max_chain_calls_le[OF N(2) rs])
      ultimately show ?thesis unfolding eq en mx using IH by (simp add: chain_ok_def out)
    qed
  qed
qed


lemma chain_attempts_action:
  "chain_attempts E ch init r n st = ChainEnds res st' \<Longrightarrow> cx_action res \<in> {CHAIN_ROLLBACK, CHAIN_BREAK}"
  using chain_attempts_turn[of ch st r n E init] by (auto simp: turn_ok_def)

lemma chain_loop_action: "cx_action (fst (chain_loop E ch init xs st)) \<in> {CHAIN_ROLLBACK, CHAIN_BREAK, CHAIN_CONTINUE}"
proof (induction xs arbitrary: st)
  case (Cons x xs)
  then show ?case
    by (cases x) (auto simp: Let_def split: chain_step.split dest: chain_attempts_action)
qed (simp add: chain_result_of_def Let_def)

section \<open>Chains in which nothing fails\<close>

text \<open>Every callback gets the result before it in front of the arguments of the chain.\<close>

fun pipeline :: "(callback \<Rightarrow> call_args \<Rightarrow> pyval) \<Rightarrow> call_args \<Rightarrow> callback list \<Rightarrow> pyval list \<Rightarrow> pyval list" where
  "pipeline g init [] results = results"
| "pipeline g init (cb # cbs) results =
     pipeline g init cbs (results @ [g cb
       ((if results = [] then [] else [last results]) @ fst init, dset ''_chain_context'' (PObj 0) (snd init))])"

lemma chain_call_args_eq:
  "chain_call_args init st = ((if cr_results st = [] then [] else [last (cr_results st)]) @ fst init,
     dset ''_chain_context'' (PObj 0) (snd init))"
  by (simp add: chain_call_args_def get_last_result_def)

lemma chain_loop_pipeline:
  assumes "\<And>cb n call. ce_call E cb n call = Returned (g cb call)"
    and "distinct (map snd xs)" and "\<forall>x \<in> set xs. 0 \<le> ci_max_retries (cr_infos st ! snd x)"
  shows "let (res, st') = chain_loop E ch init xs st;
             results = pipeline g init (map (\<lambda>r. ci_callback (cr_infos st ! r)) (filter (\<lambda>r. ci_enabled (cr_infos st ! r)) (map snd xs))) (cr_results st)
         in res = chain_result_of CHAIN_CONTINUE (if results = [] then PNone else last results) None \<and>
            cr_results st' = results \<and> cr_rollbacks st' = cr_rollbacks st"
  using assms(2,3)
proof (induction xs arbitrary: st)
  case Nil
  show ?case by (simp add: Let_def get_last_result_def)
next
  case (Cons x xs)
  obtain i r where x: "x = (i, r)" by (cases x)
  let ?info = "cr_infos st ! r"
  show ?case
  proof (cases "ci_enabled ?info")
    case False
    have "chain_loop E ch init (x # xs) st = chain_loop E ch init xs st" using False by (simp add: x)
    then show ?thesis using Cons False by (simp add: x)
  next
    case True
    let ?st = "st\<lparr>cr_current_index := i\<rparr>"
    let ?v = "g (ci_callback ?info) (chain_call_args init st)"
    let ?st' = "chain_success r ?v (?st\<lparr>cr_calls := cr_calls st + 1\<rparr>)"
    have "0 \<le> ci_max_retries ?info" using Cons.prems(2) by (simp add: x)
    then obtain k where k: "nat (ci_max_retries ?info + 1) = Suc k" by (cases "nat (ci_max_retries ?info + 1)") auto
    have ca: "chain_call_args init ?st = chain_call_args init st" by (simp add: chain_call_args_eq)
    have at: "chain_attempts E ch init r (nat (ci_max_retries ?info + 1)) ?st = NextCallback ?st'"
      by (simp add: k assms(1) Let_def ca)
    have eq: "chain_loop E ch init (x # xs) st = chain_loop E ch init xs ?st'"
      using True at by (simp add: x)
    have other: "cr_infos ?st' ! r' = cr_infos st ! r'" if "r' \<noteq> r" for r'
      using that by (simp add: chain_success_def Let_def)
    have rs: "r' \<noteq> r" if "r' \<in> set (map snd xs)" for r' using that Cons.prems(1) by (auto simp: x)
    have same: "map (\<lambda>r. ci_callback (cr_infos ?st' ! r)) (filter (\<lambda>r. ci_enabled (cr_infos ?st' ! r)) (map snd xs)) =
        map (\<lambda>r. ci_callback (cr_infos st ! r)) (filter (\<lambda>r. ci_enabled (cr_infos st ! r)) (map snd xs))"
      using rs other by (intro map_cong filter_cong) auto
    have "\<forall>x \<in> set xs. 0 \<le> ci_max_retries (cr_infos ?st' ! snd x)"
      using Cons.prems(2) rs other by auto
    moreover have "cr_results ?st' = cr_results st @ [?v]" "cr_rollbacks ?st' = cr_rollbacks st"
      by (simp_all add: chain_success_def Let_def)
    ultimately show ?thesis
      using Cons.IH[of ?st'] Cons.prems(1) True unfolding eq same by (simp add: x chain_call_args_eq)
  qed
qed

section \<open>Properties\<close>

text \<open>C29: a chain ends in one of three ways, whatever its callbacks and error handlers do: it rolls back,
  and then the rollback handlers of exactly the callbacks that had run are called, the last first; or
  it is broken off or completed, and no handler is called. The callbacks that ran are some of the
  enabled ones in the order of the chain, each has left one result, and the number of calls is
  bounded by the numbers of retries.\<close>

theorem chain_all_or_nothing:
  assumes "\<forall>r \<in> set (chn_callbacks ch). r < length infos"
  shows "let (res, st) = chain_execute E ch init infos in
    cx_action res \<in> {CHAIN_ROLLBACK, CHAIN_BREAK, CHAIN_CONTINUE} \<and>
    cr_rollbacks st = (if cx_action res = CHAIN_ROLLBACK
      then List.map_filter (dget (chn_rollback_handlers ch)) (rev (cr_executed st)) else []) \<and>
    cr_is_rolled_back st = (cx_action res = CHAIN_ROLLBACK) \<and> cr_is_completed st = (cx_action res = CHAIN_CONTINUE) \<and>
    subseq (cr_executed st) (enabled_callbacks infos (chn_callbacks ch)) \<and>
    length (cr_results st) = length (cr_executed st) + (if cx_action res = CHAIN_BREAK then 1 else 0) \<and>
    cr_calls st \<le> max_chain_calls infos (chn_callbacks ch)"
proof -
  have "\<forall>x \<in> set (enumerate 0 (chn_callbacks ch)). snd x < length (cr_infos (chain_run_init infos))"
    using assms by (auto simp: chain_run_init_def in_set_enumerate_eq)
  from chain_loop_ok[OF _ this] have "chain_ok ch (enabled_callbacks infos (chn_callbacks ch)) (max_chain_calls infos (chn_callbacks ch))
      (chain_run_init infos) (chain_execute E ch init infos)"
    by (simp add: chain_execute_def fresh_run_def) (simp add: chain_run_init_def)
  moreover have "cx_action (fst (chain_execute E ch init infos)) \<in> {CHAIN_ROLLBACK, CHAIN_BREAK, CHAIN_CONTINUE}"
    unfolding chain_execute_def by (rule chain_loop_action)
  ultimately show ?thesis
    by (auto simp: chain_ok_def chain_run_init_def split: prod.splits)
qed

definition demo_info :: "nat \<Rightarrow> int \<Rightarrow> cb_info" where
  "demo_info i retries = \<lparr>ci_callback = \<lparr>cb_id = i, cb_name = ''f''\<rparr>, ci_priority = 0, ci_once = False, ci_enabled = True,
     ci_namespace = ''default'', ci_tags = [], ci_max_retries = retries, ci_wrapper = None, ci_callback_type = []\<rparr>"

definition demo_chain :: chain where
  "demo_chain = \<lparr>chn_callbacks = [0, 1, 2], chn_rollback_handlers = [(0, 7), (1, 8)], chn_error_handlers = []\<rparr>"

text \<open>The third callback fails.\<close>

definition demo_chain_env :: chain_env where
  "demo_chain_env = \<lparr>ce_call = (\<lambda>cb n call. if cb_id cb = 2 then Raises ValueError else Returned (PInt 1)),
     ce_error_handler = (\<lambda>h n e. Inr PNone)\<rparr>"

theorem chain_all_or_nothing_witness:
  "let (res, st) = chain_execute demo_chain_env demo_chain ([], []) (map (\<lambda>i. demo_info i 0) [0, 1, 2]) in
    cx_action res = CHAIN_ROLLBACK \<and> cr_rollbacks st = [8, 7]"
proof -
  let ?out = "chain_execute demo_chain_env demo_chain ([], []) (map (\<lambda>i. demo_info i 0) [0, 1, 2])"
  have v: "\<forall>r \<in> set (chn_callbacks demo_chain). r < length (map (\<lambda>i. demo_info i 0) [0, 1, 2])" by (simp add: demo_chain_def)
  have a: "cx_action (fst ?out) = CHAIN_ROLLBACK" and e: "cr_executed (snd ?out) = [0, 1]" by code_simp+
  have h: "List.map_filter (dget (chn_rollback_handlers demo_chain)) (rev [0, 1]) = [8, 7]" by code_simp
  show ?thesis using chain_all_or_nothing[OF v, of demo_chain_env "([], [])"] a e h by (auto split: prod.splits)
qed

text \<open>C30: a chain whose callbacks all return plain values is the pipeline of its enabled callbacks: each is
  called once with the result before it, the last result is the chain's, and nothing is rolled back.\<close>

theorem chain_is_pipeline:
  assumes "\<And>cb n call. ce_call E cb n call = Returned (g cb call)"
    and "distinct (chn_callbacks ch)" and "\<forall>r \<in> set (chn_callbacks ch). 0 \<le> ci_max_retries (infos ! r)"
  shows "let (res, st) = chain_execute E ch init infos;
             results = pipeline g init (map (\<lambda>r. ci_callback (infos ! r)) (filter (\<lambda>r. ci_enabled (infos ! r)) (chn_callbacks ch))) []
         in res = chain_result_of CHAIN_CONTINUE (if results = [] then PNone else last results) None \<and>
            cr_results st = results \<and> cr_rollbacks st = []"
proof -
  have m: "map snd (enumerate 0 (chn_callbacks ch)) = chn_callbacks ch" by (rule map_snd_enumerate)
  have "\<forall>x \<in> set (enumerate 0 (chn_callbacks ch)). 0 \<le> ci_max_retries (cr_infos (chain_run_init infos) ! snd x)"
    using assms(3) by (auto simp: chain_run_init_def in_set_enumerate_eq)
  from chain_loop_pipeline[OF assms(1) _ this, where ch = ch and init = init] assms(2) show ?thesis
    unfolding m chain_execute_def by (simp add: chain_run_init_def)
qed

theorem chain_is_pipeline_witness:
  "cr_results (snd (chain_execute (demo_chain_env\<lparr>ce_call := \<lambda>cb n call. Returned (PList (fst call))\<rparr>) demo_chain ([PInt 5], [])
     (map (\<lambda>i. demo_info i 0) [0, 1, 2]))) =
   pipeline (\<lambda>cb call. PList (fst call)) ([PInt 5], []) (map (\<lambda>i. \<lparr>cb_id = i, cb_name = ''f''\<rparr>) [0, 1, 2]) []"
proof -
  let ?E = "demo_chain_env\<lparr>ce_call := \<lambda>cb n call. Returned (PList (fst call))\<rparr>"
  let ?infos = "map (\<lambda>i. demo_info i 0) [0, 1, 2]"
  have "distinct (chn_callbacks demo_chain)" "\<forall>r \<in> set (chn_callbacks demo_chain). 0 \<le> ci_max_retries (?infos ! r)"
    by (simp_all add: demo_chain_def demo_info_def nth_Cons split: nat.split)
  from chain_is_pipeline[OF _ this, of ?E "\<lambda>cb call. PList (fst call)" "([PInt 5], [])"]
  have "cr_results (snd (chain_execute ?E demo_chain ([PInt 5], []) ?infos)) =
      pipeline (\<lambda>cb call. PList (fst call)) ([PInt 5], [])
        (map (\<lambda>r. ci_callback (?infos ! r)) (filter (\<lambda>r. ci_enabled (?infos ! r)) (chn_callbacks demo_chain))) []"
    by (simp add: Let_def split_beta)
  moreover have "map (\<lambda>r. ci_callback (?infos ! r)) (filter (\<lambda>r. ci_enabled (?infos ! r)) (chn_callbacks demo_chain)) =
      map (\<lambda>i. \<lparr>cb_id = i, cb_name = ''f''\<rparr>) [0, 1, 2]"
    by (simp add: demo_chain_def demo_info_def)
  ultimately show ?thesis by simp
qed

section \<open>Facts of the code worth knowing\<close>

text \<open>A callback that asks for a retry on its last attempt is passed over: the chain counts as completed.\<close>

lemma retry_exhausted_completes:
  "let (res, st) = chain_execute (demo_chain_env\<lparr>ce_call := \<lambda>cb n call. ReturnedChain CHAIN_RETRY PNone None\<rparr>) demo_chain ([], [])
       (map (\<lambda>i. demo_info i 1) [0, 1, 2])
   in cx_action res = CHAIN_CONTINUE \<and> cr_is_completed st \<and> cr_results st = [] \<and> cr_calls st = 6"
  by code_simp

end
