(* ===== verification/Callback_Framework.thy ===== *)
theory Callback_Framework
  imports Callback_Chain
begin

text \<open>
  The registry of the callback framework: \<open>core/runner/callback/framework.py\<close>, the state of
  \<open>AsyncCallbackFramework\<close>, registering and unregistering, filters, hooks, metrics and the event
  history. \<open>CallbackInfo\<close> and filter objects are shared (a breaker sits in the filters of its event
  and in the table of breakers), so they live in two lists and everything else holds positions in
  them. What has been called is kept in a trace. The registration lock makes each operation one
  step; log messages are left out.
\<close>

section \<open>Metrics\<close>

record metrics =
  me_call_count :: nat
  me_total_time :: rat
  me_min_time :: "rat option"
  me_max_time :: rat
  me_error_count :: nat
  me_last_call_time :: "rat option"

definition metrics_init :: metrics where
  "metrics_init = \<lparr>me_call_count = 0, me_total_time = 0, me_min_time = None, me_max_time = 0, me_error_count = 0,
     me_last_call_time = None\<rparr>"

text \<open>An absent minimum is the infinity the code starts with.\<close>

definition metrics_update :: "rat \<Rightarrow> bool \<Rightarrow> rat \<Rightarrow> metrics \<Rightarrow> metrics" where
  "metrics_update execution_time is_error now me =
     \<lparr>me_call_count = me_call_count me + 1, me_total_time = me_total_time me + execution_time,
      me_min_time = Some (case me_min_time me of None \<Rightarrow> execution_time | Some t \<Rightarrow> min t execution_time),
      me_max_time = max (me_max_time me) execution_time,
      me_error_count = (if is_error then me_error_count me + 1 else me_error_count me),
      me_last_call_time = Some now\<rparr>"

definition avg_time :: "metrics \<Rightarrow> rat" where
  "avg_time me = (if me_call_count me > 0 then me_total_time me / of_nat (me_call_count me) else 0)"

record metrics_dict =
  md_call_count :: nat
  md_avg_time :: rat
  md_min_time :: rat
  md_max_time :: rat
  md_error_count :: nat
  md_error_rate :: rat
  md_last_call_time :: "rat option"

definition metrics_to_dict :: "metrics \<Rightarrow> metrics_dict" where
  "metrics_to_dict me =
     \<lparr>md_call_count = me_call_count me, md_avg_time = avg_time me,
      md_min_time = (case me_min_time me of None \<Rightarrow> 0 | Some t \<Rightarrow> t), md_max_time = me_max_time me,
      md_error_count = me_error_count me,
      md_error_rate = (if me_call_count me > 0 then of_nat (me_error_count me) / of_nat (me_call_count me) else 0),
      md_last_call_time = me_last_call_time me\<rparr>"

section \<open>The state\<close>

datatype hook_type = BEFORE | AFTER | ERROR | CLEANUP

text \<open>A hook with the arguments it was called with, or a callback with those and what came of it.\<close>

datatype fw_event =
    HookCalled hook_type nat call_args
  | CallbackCalled nat call_args
  | CallbackReturned nat pyval

record framework =
  fw_infos :: "cb_info list"
  fw_callbacks :: "(string, nat list) pydict"
  fw_chains :: "(string, chain) pydict"
  fw_filter_objs :: "filter_obj list"
  fw_filters :: "(string, nat list) pydict"
  fw_global_filters :: "nat list"
  fw_callback_filters :: "(nat, nat list) pydict"
  fw_hooks :: "(string, (hook_type, nat list) pydict) pydict"
  fw_enable_metrics :: bool
  fw_metrics :: "(string, metrics) pydict"
  fw_circuit_breakers :: "(string, nat) pydict"
  fw_history :: "(string \<times> call_args \<times> rat) list"
  fw_enable_history :: bool
  fw_ticks :: nat
  fw_trace :: "fw_event list"

definition framework_init :: "bool \<Rightarrow> framework" where
  "framework_init enable_metrics =
     \<lparr>fw_infos = [], fw_callbacks = [], fw_chains = [], fw_filter_objs = [], fw_filters = [], fw_global_filters = [],
      fw_callback_filters = [], fw_hooks = [], fw_enable_metrics = enable_metrics, fw_metrics = [],
      fw_circuit_breakers = [], fw_history = [], fw_enable_history = False, fw_ticks = 0, fw_trace = []\<rparr>"

text \<open>A value of \<open>event in d and d[event]\<close> for a dictionary of lists.\<close>

definition has_entries :: "('k, 'v list) pydict \<Rightarrow> 'k \<Rightarrow> bool" where
  "has_entries d k \<longleftrightarrow> dget_default [] d k \<noteq> []"

definition has_subscribers :: "string \<Rightarrow> framework \<Rightarrow> bool" where
  "has_subscribers event fw \<longleftrightarrow> fw_enable_history fw \<or> fw_global_filters fw \<noteq> [] \<or> has_entries (fw_callbacks fw) event \<or>
     has_entries (fw_filters fw) event \<or> has_entries (fw_hooks fw) event"

section \<open>Registering\<close>

record registration =
  rg_callback :: callback
  rg_priority :: int
  rg_once :: bool
  rg_namespace :: string
  rg_tags :: "string list"
  rg_filters :: "nat list"
  rg_rollback_handler :: "nat option"
  rg_error_handler :: "nat option"
  rg_max_retries :: int
  rg_callback_type :: string

definition new_info :: "registration \<Rightarrow> cb_info" where
  "new_info g = \<lparr>ci_callback = rg_callback g, ci_priority = rg_priority g, ci_once = rg_once g, ci_enabled = True,
     ci_namespace = rg_namespace g, ci_tags = rg_tags g, ci_max_retries = rg_max_retries g, ci_wrapper = None,
     ci_callback_type = rg_callback_type g\<rparr>"

definition register_sync :: "string \<Rightarrow> registration \<Rightarrow> framework \<Rightarrow> nat \<times> framework" where
  "register_sync event g fw =
     (let r = length (fw_infos fw);
          infos = fw_infos fw @ [new_info g];
          fw1 = fw\<lparr>fw_infos := infos,
                   fw_callbacks := dset event (by_priority infos (dget_default [] (fw_callbacks fw) event @ [r])) (fw_callbacks fw),
                   fw_callback_filters := (if rg_filters g \<noteq> [] then dset (cb_id (rg_callback g)) (rg_filters g) (fw_callback_filters fw)
                                           else fw_callback_filters fw)\<rparr>
      in (r,
          if rg_rollback_handler g \<noteq> None \<or> rg_error_handler g \<noteq> None
          then fw1\<lparr>fw_chains := dset event
                 (chain_add infos r (rg_rollback_handler g) (rg_error_handler g) (dget_default chain_init (fw_chains fw) event)) (fw_chains fw)\<rparr>
          else fw1))"

text \<open>The decorator notes the wrapper it returns in the entry it has made.\<close>

definition set_wrapper :: "nat \<Rightarrow> nat \<Rightarrow> framework \<Rightarrow> framework" where
  "set_wrapper r w fw = fw\<lparr>fw_infos := (fw_infos fw)[r := (fw_infos fw ! r)\<lparr>ci_wrapper := Some w\<rparr>]\<rparr>"

text \<open>\<open>wrapped\<close> is the \<open>__wrapped__\<close> of the function that is to be unregistered, if it has one.\<close>

definition matches_callback :: "nat \<Rightarrow> nat option \<Rightarrow> cb_info \<Rightarrow> bool" where
  "matches_callback cb wrapped info \<longleftrightarrow> cb_id (ci_callback info) = cb \<or> ci_wrapper info = Some cb \<or> wrapped = Some (cb_id (ci_callback info))"

definition without_callback :: "framework \<Rightarrow> nat \<Rightarrow> nat list \<Rightarrow> nat list" where
  "without_callback fw cb refs = filter (\<lambda>r. cb_id (ci_callback (fw_infos fw ! r)) \<noteq> cb) refs"

definition unregister_sync :: "string \<Rightarrow> nat \<Rightarrow> nat option \<Rightarrow> framework \<Rightarrow> framework" where
  "unregister_sync event cb wrapped fw =
     (case dget (fw_callbacks fw) event of
        None \<Rightarrow> fw
      | Some refs \<Rightarrow>
          (case find (\<lambda>r. matches_callback cb wrapped (fw_infos fw ! r)) refs of
             None \<Rightarrow> fw
           | Some r \<Rightarrow>
               (let callback_to_remove = cb_id (ci_callback (fw_infos fw ! r));
                    fw1 = fw\<lparr>fw_callbacks := dset event (without_callback fw callback_to_remove refs) (fw_callbacks fw),
                             fw_callback_filters := ddel callback_to_remove (fw_callback_filters fw)\<rparr>
                in case dget (fw_chains fw) event of
                     None \<Rightarrow> fw1
                   | Some ch \<Rightarrow> fw1\<lparr>fw_chains := dset event (chain_remove (fw_infos fw) callback_to_remove ch) (fw_chains fw)\<rparr>)))"

definition keep_callbacks :: "(cb_info \<Rightarrow> bool) \<Rightarrow> framework \<Rightarrow> framework" where
  "keep_callbacks P fw =
     fw\<lparr>fw_callbacks := map (\<lambda>(event, refs). (event, filter (\<lambda>r. P (fw_infos fw ! r)) refs)) (fw_callbacks fw)\<rparr>"

definition unregister_namespace :: "string \<Rightarrow> framework \<Rightarrow> framework" where
  "unregister_namespace namespace fw = keep_callbacks (\<lambda>ci. ci_namespace ci \<noteq> namespace) fw"

definition unregister_by_tags :: "string list \<Rightarrow> framework \<Rightarrow> framework" where
  "unregister_by_tags tags fw = keep_callbacks (\<lambda>ci. sinter (ci_tags ci) tags = []) fw"

definition unregister_event :: "string \<Rightarrow> framework \<Rightarrow> framework" where
  "unregister_event event fw =
     (let cbs = map (\<lambda>r. ci_callback (fw_infos fw ! r)) (dget_default [] (fw_callbacks fw) event)
      in fw\<lparr>fw_callbacks := ddel event (fw_callbacks fw),
            fw_callback_filters := fold ddel (map cb_id cbs) (fw_callback_filters fw),
            fw_circuit_breakers := fold ddel (map (callback_key event) cbs) (fw_circuit_breakers fw),
            fw_chains := ddel event (fw_chains fw), fw_hooks := ddel event (fw_hooks fw), fw_filters := ddel event (fw_filters fw)\<rparr>)"

section \<open>Filters and hooks\<close>

text \<open>Making a filter object, whose position stands for it.\<close>

definition new_filter :: "filter_obj \<Rightarrow> framework \<Rightarrow> nat \<times> framework" where
  "new_filter f fw = (length (fw_filter_objs fw), fw\<lparr>fw_filter_objs := fw_filter_objs fw @ [f]\<rparr>)"

definition add_filter :: "string \<Rightarrow> nat \<Rightarrow> framework \<Rightarrow> framework" where
  "add_filter event f fw = fw\<lparr>fw_filters := dset event (dget_default [] (fw_filters fw) event @ [f]) (fw_filters fw)\<rparr>"

definition add_global_filter :: "nat \<Rightarrow> framework \<Rightarrow> framework" where
  "add_global_filter f fw = fw\<lparr>fw_global_filters := fw_global_filters fw @ [f]\<rparr>"

definition add_circuit_breaker :: "string \<Rightarrow> callback \<Rightarrow> int \<Rightarrow> rat \<Rightarrow> framework \<Rightarrow> framework" where
  "add_circuit_breaker event cb failure_threshold timeout fw =
     (let key = callback_key event cb;
          (b, fw1) = new_filter (CircuitBreakerFilter (breaker_init failure_threshold timeout)) fw
      in add_filter event b (fw1\<lparr>fw_circuit_breakers := dset key b (fw_circuit_breakers fw1)\<rparr>))"

definition add_hook :: "string \<Rightarrow> hook_type \<Rightarrow> nat \<Rightarrow> framework \<Rightarrow> framework" where
  "add_hook event t hook fw =
     (let hs = dget_default [] (fw_hooks fw) event
      in fw\<lparr>fw_hooks := dset event (dset t (dget_default [] hs t @ [hook]) hs) (fw_hooks fw)\<rparr>)"

text \<open>Looking the hooks up stores empty defaults. A hook that raises is only logged.\<close>

definition execute_hooks :: "string \<Rightarrow> hook_type \<Rightarrow> call_args \<Rightarrow> framework \<Rightarrow> framework" where
  "execute_hooks event t call fw =
     (let hs = dget_default [] (fw_hooks fw) event;
          hooks = dget_default [] hs t
      in fw\<lparr>fw_hooks := dset event (dset t hooks hs) (fw_hooks fw),
            fw_trace := fw_trace fw @ map (\<lambda>h. HookCalled t h call) hooks\<rparr>)"

section \<open>Queries\<close>

text \<open>\<open>key.split(":", 1)\<close> of a metrics key, which always has a colon.\<close>

definition split_key :: "string \<Rightarrow> string \<times> string" where
  "split_key key = (takeWhile (\<lambda>c. c \<noteq> CHR '':'') key, drop 1 (dropWhile (\<lambda>c. c \<noteq> CHR '':'') key))"

definition get_metrics :: "string option \<Rightarrow> string option \<Rightarrow> framework \<Rightarrow> (string, metrics_dict) pydict" where
  "get_metrics event callback fw =
     map (\<lambda>(key, me). (key, metrics_to_dict me))
       (filter (\<lambda>(key, me). (event \<in> {None, Some []} \<or> event = Some (fst (split_key key))) \<and>
           (callback \<in> {None, Some []} \<or> callback = Some (snd (split_key key)))) (fw_metrics fw))"

definition reset_metrics :: "framework \<Rightarrow> framework" where
  "reset_metrics fw = fw\<lparr>fw_metrics := []\<rparr>"

record slow_callback =
  sl_callback :: string
  sl_avg_time :: rat
  sl_max_time :: rat
  sl_call_count :: nat

definition get_slow_callbacks :: "rat \<Rightarrow> framework \<Rightarrow> slow_callback list" where
  "get_slow_callbacks threshold fw =
     sort_key (\<lambda>s. - sl_avg_time s)
       (map (\<lambda>(key, me). \<lparr>sl_callback = key, sl_avg_time = avg_time me, sl_max_time = me_max_time me, sl_call_count = me_call_count me\<rparr>)
         (filter (\<lambda>(key, me). avg_time me > threshold) (fw_metrics fw)))"

definition enable_event_history :: "bool \<Rightarrow> framework \<Rightarrow> framework" where
  "enable_event_history enabled fw = fw\<lparr>fw_enable_history := enabled\<rparr>"

definition get_event_history :: "string option \<Rightarrow> rat option \<Rightarrow> framework \<Rightarrow> (string \<times> call_args \<times> rat) list" where
  "get_event_history event since fw =
     filter (\<lambda>(e, call, t). (event \<in> {None, Some []} \<or> event = Some e) \<and> (case since of None \<Rightarrow> True | Some s \<Rightarrow> s \<le> t)) (fw_history fw)"

definition list_events :: "string option \<Rightarrow> framework \<Rightarrow> string list" where
  "list_events namespace fw =
     (if namespace \<in> {None, Some []} then dkeys (fw_callbacks fw)
      else filter (\<lambda>event. list_ex (\<lambda>r. Some (ci_namespace (fw_infos fw ! r)) = namespace) (dget_default [] (fw_callbacks fw) event))
        (dkeys (fw_callbacks fw)))"

record callback_listing =
  li_name :: string
  li_priority :: int
  li_enabled :: bool
  li_namespace :: string
  li_tags :: "string list"
  li_once :: bool
  li_max_retries :: int

definition list_callbacks :: "string \<Rightarrow> framework \<Rightarrow> callback_listing list" where
  "list_callbacks event fw =
     map (\<lambda>r. let ci = fw_infos fw ! r
           in \<lparr>li_name = cb_name (ci_callback ci), li_priority = ci_priority ci, li_enabled = ci_enabled ci,
               li_namespace = ci_namespace ci, li_tags = ci_tags ci, li_once = ci_once ci, li_max_retries = ci_max_retries ci\<rparr>)
       (dget_default [] (fw_callbacks fw) event)"

end
