(* ===== verification/Callback_Trigger.thy ===== *)
theory Callback_Trigger
  imports Callback_Framework
begin

text \<open>
  Triggering an event: the second half of \<open>core/runner/callback/framework.py\<close>. What callbacks do, what
  their signatures are and what the clock shows are a \<open>fw_env\<close>; callbacks and hooks do not use the
  framework themselves. An async generator that a callback returns is its value. The concurrent and
  the streaming variants of \<open>trigger\<close> are not modelled.
\<close>

section \<open>The environment\<close>

datatype param_kind = Positional | KeywordOnly | VarPositional | VarKeyword

text \<open>A callback can abort the event, with or without an exception to be raised in its place.\<close>

datatype call_outcome = Value pyval | Abort "py_error option" | Failed py_error

record fw_env =
  we_filters :: filter_env
  we_signature :: "callback \<Rightarrow> (string \<times> param_kind) list option"
  we_call :: "callback \<Rightarrow> nat \<Rightarrow> call_args \<Rightarrow> call_outcome"
  we_clock :: "nat \<Rightarrow> rat"
  we_session :: pyval

section \<open>Arguments\<close>

definition has_kind :: "param_kind \<Rightarrow> (string \<times> param_kind) list \<Rightarrow> bool" where
  "has_kind k sig \<longleftrightarrow> list_ex (\<lambda>(name, kind). kind = k) sig"

definition narrow_call :: "fw_env \<Rightarrow> callback \<Rightarrow> call_args \<Rightarrow> call_args" where
  "narrow_call E cb call =
     (case we_signature E cb of
        None \<Rightarrow> call
      | Some sig \<Rightarrow>
          (let positional_count = length (filter (\<lambda>(name, kind). kind = Positional) sig);
               accepted = map fst (filter (\<lambda>(name, kind). kind \<noteq> VarPositional \<and> kind \<noteq> VarKeyword) sig)
           in (if has_kind VarPositional sig then fst call else take positional_count (fst call),
               if has_kind VarKeyword sig then snd call else filter (\<lambda>(k, v). k \<in> set accepted) (snd call))))"

definition need_session :: "fw_env \<Rightarrow> callback \<Rightarrow> bool" where
  "need_session E cb =
     (case we_signature E cb of
        None \<Rightarrow> False
      | Some sig \<Rightarrow> ''session'' \<in> fst ` set sig \<or> has_kind VarKeyword sig)"

definition inject_session :: "fw_env \<Rightarrow> callback \<Rightarrow> call_args \<Rightarrow> call_args" where
  "inject_session E cb call =
     (if need_session E cb \<and> \<not> py_truthy (dget_default PNone (snd call) ''session'')
      then (fst call, dset ''session'' (we_session E) (snd call)) else call)"

text \<open>A callback with \<open>**kwargs\<close> or no signature is given the very dictionary of the caller.\<close>

definition shares_kwargs :: "fw_env \<Rightarrow> callback \<Rightarrow> bool" where
  "shares_kwargs E cb = (case we_signature E cb of None \<Rightarrow> True | Some sig \<Rightarrow> has_kind VarKeyword sig)"

section \<open>Filters\<close>

definition tick :: "fw_env \<Rightarrow> framework \<Rightarrow> rat \<times> framework" where
  "tick E fw = (we_clock E (fw_ticks fw), fw\<lparr>fw_ticks := fw_ticks fw + 1\<rparr>)"

definition all_filters :: "string \<Rightarrow> callback \<Rightarrow> framework \<Rightarrow> nat list" where
  "all_filters event cb fw = fw_global_filters fw @ dget_default [] (fw_filters fw) event @ dget_default [] (fw_callback_filters fw) (cb_id cb)"

text \<open>
  The result comes with a flag: whether the keyword arguments are still the dictionary of the caller.
\<close>

fun apply_filter_list :: "fw_env \<Rightarrow> string \<Rightarrow> callback \<Rightarrow> nat list \<Rightarrow> call_args \<Rightarrow> bool \<Rightarrow> framework \<Rightarrow>
    (filter_result \<times> bool) res \<times> framework" where
  "apply_filter_list E event cb [] call same fw =
     (Inr (\<lparr>fr_action = CONTINUE, fr_modified_args = Some (fst call), fr_modified_kwargs = Some (snd call)\<rparr>, same), fw)"
| "apply_filter_list E event cb (f # fs) call same fw =
     (let (now, fw1) = tick E fw;
          (r, obj) = run_filter (we_filters E) event cb now call (fw_filter_objs fw1 ! f);
          fw2 = fw1\<lparr>fw_filter_objs := (fw_filter_objs fw1)[f := obj]\<rparr>
      in case r of
           Inl e \<Rightarrow> (Inl e, fw2)
         | Inr fr \<Rightarrow>
             (case fr_action fr of
                STOP \<Rightarrow> (Inr (fr, same), fw2)
              | SKIP \<Rightarrow> (Inr (fr, same), fw2)
              | CONTINUE \<Rightarrow> apply_filter_list E event cb fs call same fw2
              | MODIFY \<Rightarrow>
                  apply_filter_list E event cb fs
                    (case fr_modified_args fr of None \<Rightarrow> fst call | Some a \<Rightarrow> a,
                     case fr_modified_kwargs fr of None \<Rightarrow> snd call | Some k \<Rightarrow> k)
                    (same \<and> fr_modified_kwargs fr = None) fw2))"

definition apply_filters :: "fw_env \<Rightarrow> string \<Rightarrow> callback \<Rightarrow> call_args \<Rightarrow> framework \<Rightarrow> (filter_result \<times> bool) res \<times> framework" where
  "apply_filters E event cb call fw = apply_filter_list E event cb (all_filters event cb fw) call True fw"

text \<open>\<open>result.modified_args or args\<close>: an empty replacement counts as none.\<close>

definition final_call :: "filter_result \<Rightarrow> call_args \<Rightarrow> call_args" where
  "final_call fr call =
     (case fr_modified_args fr of Some (a # as) \<Rightarrow> a # as | _ \<Rightarrow> fst call,
      case fr_modified_kwargs fr of Some (k # ks) \<Rightarrow> k # ks | _ \<Rightarrow> snd call)"

definition final_same :: "filter_result \<Rightarrow> bool \<Rightarrow> bool" where
  "final_same fr same \<longleftrightarrow> same \<or> fr_modified_kwargs fr = Some [] \<or> fr_modified_kwargs fr = None"

section \<open>Calling one callback\<close>

definition update_metrics :: "fw_env \<Rightarrow> string \<Rightarrow> rat \<Rightarrow> bool \<Rightarrow> framework \<Rightarrow> framework" where
  "update_metrics E key execution_time is_error fw =
     (if fw_enable_metrics fw
      then (let (now, fw1) = tick E fw
            in fw1\<lparr>fw_metrics := dset key (metrics_update execution_time is_error now (dget_default metrics_init (fw_metrics fw1) key))
                     (fw_metrics fw1)\<rparr>)
      else fw)"

definition on_breaker :: "(breaker \<Rightarrow> breaker) \<Rightarrow> nat \<Rightarrow> framework \<Rightarrow> framework" where
  "on_breaker g b fw =
     (case fw_filter_objs fw ! b of
        CircuitBreakerFilter br \<Rightarrow> fw\<lparr>fw_filter_objs := (fw_filter_objs fw)[b := CircuitBreakerFilter (g br)]\<rparr>
      | _ \<Rightarrow> fw)"

definition breaker_success :: "string \<Rightarrow> callback \<Rightarrow> framework \<Rightarrow> framework" where
  "breaker_success event cb fw =
     (case dget (fw_circuit_breakers fw) (callback_key event cb) of
        None \<Rightarrow> fw | Some b \<Rightarrow> on_breaker (record_success event cb) b fw)"

definition breaker_failure :: "fw_env \<Rightarrow> string \<Rightarrow> callback \<Rightarrow> framework \<Rightarrow> framework" where
  "breaker_failure E event cb fw =
     (case dget (fw_circuit_breakers fw) (callback_key event cb) of
        None \<Rightarrow> fw
      | Some b \<Rightarrow> (let (now, fw1) = tick E fw in on_breaker (record_failure event cb now) b fw1))"

definition disable_once :: "nat \<Rightarrow> framework \<Rightarrow> framework" where
  "disable_once r fw =
     (if ci_once (fw_infos fw ! r) then fw\<lparr>fw_infos := (fw_infos fw)[r := (fw_infos fw ! r)\<lparr>ci_enabled := False\<rparr>]\<rparr> else fw)"

definition trace_event :: "fw_event \<Rightarrow> framework \<Rightarrow> framework" where
  "trace_event e fw = fw\<lparr>fw_trace := fw_trace fw @ [e]\<rparr>"

text \<open>The call itself; the keyword arguments of the caller change with a session put into them.\<close>

definition call_callback :: "fw_env \<Rightarrow> nat \<Rightarrow> call_args \<Rightarrow> bool \<Rightarrow> pdict \<Rightarrow> framework \<Rightarrow> call_outcome \<times> pdict \<times> framework" where
  "call_callback E r final same kwargs fw =
     (let cb = ci_callback (fw_infos fw ! r);
          call = inject_session E cb (narrow_call E cb final);
          kwargs' = (if same \<and> shares_kwargs E cb then snd call else kwargs)
      in (we_call E cb (length (fw_trace fw)) call, kwargs', trace_event (CallbackCalled r call) fw))"

section \<open>Triggering\<close>

text \<open>The local variables of the loop: \<open>start_time\<close> is unbound until a first callback was called.\<close>

record trigger_vars =
  tv_start :: "rat option"
  tv_results :: "pyval list"
  tv_kwargs :: pdict

datatype trigger_step = NextOne trigger_vars framework | BreakLoop trigger_vars framework | RaiseOut py_error framework

definition abort_error :: py_error where
  "abort_error = BaseError ''CALLBACK_EXECUTION_ABORTED''"

text \<open>The two exception handlers: an abort leaves the loop, any other exception does not.\<close>

definition handle_failure :: "fw_env \<Rightarrow> string \<Rightarrow> pyval list \<Rightarrow> nat \<Rightarrow> call_outcome \<Rightarrow> trigger_vars \<Rightarrow> framework \<Rightarrow> trigger_step" where
  "handle_failure E event args r out v fw =
     (let cb = ci_callback (fw_infos fw ! r);
          (now, fw1) = tick E fw
      in case tv_start v of
           None \<Rightarrow> RaiseOut UnboundLocalError fw1
         | Some start \<Rightarrow>
             (let fw2 = update_metrics E (callback_key event cb) (now - start) True fw1;
                  fw3 = breaker_failure E event cb fw2;
                  fw4 = execute_hooks event ERROR (PObj 0 # args, tv_kwargs v) fw3
              in case out of
                   Abort (Some cause) \<Rightarrow> RaiseOut cause fw4
                 | Abort None \<Rightarrow> RaiseOut abort_error fw4
                 | _ \<Rightarrow> NextOne v fw4))"

text \<open>The history holds the very dictionary of the keyword arguments, so it shows what is put into them later.\<close>

definition share_history :: "pdict \<Rightarrow> framework \<Rightarrow> framework" where
  "share_history kwargs fw =
     (if fw_enable_history fw \<and> fw_history fw \<noteq> []
      then fw\<lparr>fw_history := butlast (fw_history fw) @
             [case last (fw_history fw) of (event, (args, _), t) \<Rightarrow> (event, (args, kwargs), t)]\<rparr>
      else fw)"

definition call_recorded :: "fw_env \<Rightarrow> nat \<Rightarrow> call_args \<Rightarrow> bool \<Rightarrow> pdict \<Rightarrow> framework \<Rightarrow> call_outcome \<times> pdict \<times> framework" where
  "call_recorded E r final same kwargs fw =
     (let (out, kwargs', fw') = call_callback E r final same kwargs fw in (out, kwargs', share_history kwargs' fw'))"

definition trigger_one :: "fw_env \<Rightarrow> string \<Rightarrow> pyval list \<Rightarrow> nat \<Rightarrow> trigger_vars \<Rightarrow> framework \<Rightarrow> trigger_step" where
  "trigger_one E event args r v fw =
     (let info = fw_infos fw ! r; cb = ci_callback info
      in if \<not> ci_enabled info \<or> ci_callback_type info = ''transform'' then NextOne v fw
         else
           (case apply_filters E event cb (args, tv_kwargs v) fw of
              (Inl e, fw1) \<Rightarrow>
                handle_failure E event args r (if e = abort_error then Abort None else Failed e) v fw1
            | (Inr (fr, same), fw1) \<Rightarrow>
                (case fr_action fr of
                   STOP \<Rightarrow> BreakLoop v fw1
                 | SKIP \<Rightarrow> NextOne v fw1
                 | _ \<Rightarrow>
                     (let (start, fw2) = tick E fw1;
                          (out, kwargs, fw3) =
                            call_recorded E r (final_call fr (args, tv_kwargs v)) (final_same fr same) (tv_kwargs v) fw2;
                          v1 = v\<lparr>tv_start := Some start, tv_kwargs := kwargs\<rparr>
                      in case out of
                           Value x \<Rightarrow>
                             (let (now, fw4) = tick E fw3;
                                  fw5 = update_metrics E (callback_key event cb) (now - start) False fw4;
                                  fw6 = disable_once r (breaker_success event cb fw5)
                              in NextOne (v1\<lparr>tv_results := tv_results v1 @ [x]\<rparr>) (trace_event (CallbackReturned r x) fw6))
                         | _ \<Rightarrow> handle_failure E event args r out v1 fw3))))"

fun trigger_loop :: "fw_env \<Rightarrow> string \<Rightarrow> pyval list \<Rightarrow> nat list \<Rightarrow> trigger_vars \<Rightarrow> framework \<Rightarrow> trigger_step" where
  "trigger_loop E event args [] v fw = BreakLoop v fw"
| "trigger_loop E event args (r # rs) v fw =
     (case trigger_one E event args r v fw of
        NextOne v' fw' \<Rightarrow> trigger_loop E event args rs v' fw'
      | out \<Rightarrow> out)"

definition history_limit :: nat where
  "history_limit = 1000"

definition record_history :: "fw_env \<Rightarrow> string \<Rightarrow> call_args \<Rightarrow> framework \<Rightarrow> framework" where
  "record_history E event call fw =
     (if fw_enable_history fw
      then (let (now, fw1) = tick E fw; h = fw_history fw1 @ [(event, call, now)]
            in fw1\<lparr>fw_history := drop (length h - history_limit) h\<rparr>)
      else fw)"

definition trigger :: "fw_env \<Rightarrow> string \<Rightarrow> call_args \<Rightarrow> framework \<Rightarrow> pyval list res \<times> framework" where
  "trigger E event call fw =
     (let fw1 = execute_hooks event BEFORE call (record_history E event call fw);
          refs = dget_default [] (fw_callbacks fw1) event
      in case trigger_loop E event (fst call) refs \<lparr>tv_start = None, tv_results = [], tv_kwargs = snd call\<rparr> fw1 of
           RaiseOut e fw2 \<Rightarrow> (Inl e, fw2)
         | NextOne v fw2 \<Rightarrow> (Inr (tv_results v), fw2)
         | BreakLoop v fw2 \<Rightarrow>
             (Inr (tv_results v), execute_hooks event AFTER (PList (tv_results v) # fst call, tv_kwargs v) fw2))"

section \<open>The other ways to trigger\<close>

text \<open>\<open>utils.trigger\<close>: nothing happens unless somebody subscribed.\<close>

definition util_trigger :: "fw_env \<Rightarrow> string \<Rightarrow> pdict \<Rightarrow> framework \<Rightarrow> unit res \<times> framework" where
  "util_trigger E event kwargs fw =
     (if \<not> has_subscribers event fw then (Inr (), fw)
      else (case trigger E event ([], kwargs) fw of (Inl e, fw') \<Rightarrow> (Inl e, fw') | (Inr _, fw') \<Rightarrow> (Inr (), fw')))"

text \<open>Only the transform callbacks, unfiltered; \<open>None\<close> is the sentinel for none of them.\<close>

fun transform_loop :: "fw_env \<Rightarrow> call_args \<Rightarrow> nat list \<Rightarrow> pyval option \<Rightarrow> framework \<Rightarrow> pyval option res \<times> framework" where
  "transform_loop E call [] result fw = (Inr result, fw)"
| "transform_loop E call (r # rs) result fw =
     (case call_callback E r call True (snd call) fw of
        (Value x, kwargs, fw1) \<Rightarrow> transform_loop E (fst call, kwargs) rs (Some x) fw1
      | (Abort _, _, fw1) \<Rightarrow> (Inl abort_error, fw1)
      | (Failed e, _, fw1) \<Rightarrow> (Inl e, fw1))"

definition trigger_transform :: "fw_env \<Rightarrow> string \<Rightarrow> call_args \<Rightarrow> framework \<Rightarrow> pyval option res \<times> framework" where
  "trigger_transform E event call fw =
     transform_loop E call
       (filter (\<lambda>r. ci_enabled (fw_infos fw ! r) \<and> ci_callback_type (fw_infos fw ! r) = ''transform'') (dget_default [] (fw_callbacks fw) event))
       None fw"

text \<open>\<open>condition\<close> is the caller's; an exception of it is caught like one of the callback.\<close>

fun until_loop :: "fw_env \<Rightarrow> string \<Rightarrow> (pyval \<Rightarrow> bool res) \<Rightarrow> pyval list \<Rightarrow> nat list \<Rightarrow> pdict \<Rightarrow> framework \<Rightarrow> pyval option \<times> framework" where
  "until_loop E event condition args [] kwargs fw = (None, fw)"
| "until_loop E event condition args (r # rs) kwargs fw =
     (if \<not> ci_enabled (fw_infos fw ! r) then until_loop E event condition args rs kwargs fw
      else
        (case apply_filters E event (ci_callback (fw_infos fw ! r)) (args, kwargs) fw of
           (Inl e, fw1) \<Rightarrow> until_loop E event condition args rs kwargs fw1
         | (Inr (fr, same), fw1) \<Rightarrow>
             (case fr_action fr of
                STOP \<Rightarrow> (None, fw1)
              | SKIP \<Rightarrow> until_loop E event condition args rs kwargs fw1
              | _ \<Rightarrow>
                  (case call_callback E r (final_call fr (args, kwargs)) (final_same fr same) kwargs fw1 of
                     (Value x, kwargs', fw2) \<Rightarrow>
                       (case condition x of
                          Inl e \<Rightarrow> until_loop E event condition args rs kwargs' fw2
                        | Inr True \<Rightarrow> (Some x, trace_event (CallbackReturned r x) (disable_once r fw2))
                        | Inr False \<Rightarrow>
                            until_loop E event condition args rs kwargs' (trace_event (CallbackReturned r x) (disable_once r fw2)))
                   | (_, kwargs', fw2) \<Rightarrow> until_loop E event condition args rs kwargs' fw2))))"

definition trigger_until :: "fw_env \<Rightarrow> string \<Rightarrow> (pyval \<Rightarrow> bool res) \<Rightarrow> call_args \<Rightarrow> framework \<Rightarrow> pyval option \<times> framework" where
  "trigger_until E event condition call fw =
     until_loop E event condition (fst call) (dget_default [] (fw_callbacks fw) event) (snd call) fw"

text \<open>A chain: the one that was registered, or a new one of the callbacks of the event.\<close>

definition trigger_chain :: "chain_env \<Rightarrow> string \<Rightarrow> call_args \<Rightarrow> framework \<Rightarrow> chain_result \<times> framework" where
  "trigger_chain E event call fw =
     (let ch = (case dget (fw_chains fw) event of
                  Some ch \<Rightarrow> ch
                | None \<Rightarrow> fold (\<lambda>r ch. chain_add (fw_infos fw) r None None ch) (dget_default [] (fw_callbacks fw) event) chain_init);
          (res, st) = chain_execute E ch call (fw_infos fw)
      in (res, fw\<lparr>fw_infos := cr_infos st\<rparr>))"

text \<open>Replaying stops with the first event that raises; the records are read before.\<close>

fun replay_records :: "fw_env \<Rightarrow> (string \<times> call_args \<times> rat) list \<Rightarrow> framework \<Rightarrow> unit res \<times> framework" where
  "replay_records E [] fw = (Inr (), fw)"
| "replay_records E ((event, call, t) # rest) fw =
     (case trigger E event call fw of
        (Inl e, fw') \<Rightarrow> (Inl e, fw')
      | (Inr _, fw') \<Rightarrow> replay_records E rest fw')"

definition replay_events :: "fw_env \<Rightarrow> rat option \<Rightarrow> framework \<Rightarrow> unit res \<times> framework" where
  "replay_events E since fw = replay_records E (get_event_history None since fw) fw"

end
