(* ===== verification/Callback_Runs.thy ===== *)
theory Callback_Runs
  imports Callback_Trigger
begin

text \<open>
  What holds of the callback framework over any run of its operations. Everything that triggering does to
  the state is made of a few steps; \<open>trigger_steps\<close> is the interface of a relation that all of them
  keep, and shows that every way to trigger keeps it. It is interpreted by the frame of a trigger and
  by the invariant of once-only callbacks.
\<close>

section \<open>The steps of a trigger\<close>

primrec step_state :: "trigger_step \<Rightarrow> framework" where
  "step_state (NextOne v fw) = fw"
| "step_state (BreakLoop v fw) = fw"
| "step_state (RaiseOut e fw) = fw"

lemma infos_steps [simp]:
  "fw_infos (snd (tick E fw)) = fw_infos fw" "fw_infos (update_metrics E key t is_error fw) = fw_infos fw"
  "fw_infos (on_breaker g b fw) = fw_infos fw" "fw_infos (breaker_success event cb fw) = fw_infos fw"
  "fw_infos (breaker_failure E event cb fw) = fw_infos fw" "fw_infos (trace_event e fw) = fw_infos fw"
  "fw_infos (execute_hooks event ht call fw) = fw_infos fw" "fw_infos (record_history E event call fw) = fw_infos fw"
  "fw_infos (snd (snd (call_callback E r call same kwargs fw))) = fw_infos fw"
  by (simp_all add: tick_def update_metrics_def on_breaker_def breaker_success_def breaker_failure_def trace_event_def
      execute_hooks_def record_history_def call_callback_def Let_def split: option.split filter_obj.split)

lemma infos_call_recorded [simp]: "fw_infos (snd (snd (call_recorded E r call same kwargs fw))) = fw_infos fw"
  by (simp add: call_recorded_def call_callback_def share_history_def trace_event_def Let_def)

lemma infos_apply_filter_list [simp]: "fw_infos (snd (apply_filter_list E event cb fs call same fw)) = fw_infos fw"
  by (induction E event cb fs call same fw rule: apply_filter_list.induct)
    (auto simp: tick_def Let_def split: prod.splits sum.splits filter_action.splits)

lemma infos_apply_filters [simp]: "fw_infos (snd (apply_filters E event cb call fw)) = fw_infos fw"
  by (simp add: apply_filters_def)

text \<open>One callback in its turn: passed over, rejected or stopped by a filter, or called.\<close>

abbreviation update_called :: "fw_env \<Rightarrow> string \<Rightarrow> callback \<Rightarrow> rat \<Rightarrow> framework \<Rightarrow> framework" where
  "update_called E event cb start fw \<equiv> breaker_success event cb
     (update_metrics E (callback_key event cb) (we_clock E (fw_ticks fw) - start) False (fw\<lparr>fw_ticks := fw_ticks fw + 1\<rparr>))"

definition runs :: "framework \<Rightarrow> nat \<Rightarrow> bool" where
  "runs fw r \<longleftrightarrow> ci_enabled (fw_infos fw ! r) \<and> ci_callback_type (fw_infos fw ! r) \<noteq> ''transform''"

definition registered :: "framework \<Rightarrow> nat \<Rightarrow> bool" where
  "registered fw r \<longleftrightarrow> (\<exists>event. r \<in> set (dget_default [] (fw_callbacks fw) event))"

lemma trigger_one_cases:
  fixes E event args r v fw
  defines "cb \<equiv> ci_callback (fw_infos fw ! r)" and "out \<equiv> trigger_one E event args r v fw"
  obtains (off) "\<not> runs fw r" "out = NextOne v fw"
    | (error) e fw1 c where "runs fw r" "apply_filters E event cb (args, tv_kwargs v) fw = (Inl e, fw1)"
        "c = (if e = abort_error then Abort None else Failed e)" "out = handle_failure E event args r c v fw1"
    | (stop) fr same fw1 where "runs fw r" "apply_filters E event cb (args, tv_kwargs v) fw = (Inr (fr, same), fw1)"
        "fr_action fr = STOP" "out = BreakLoop v fw1"
    | (skip) fr same fw1 where "runs fw r" "apply_filters E event cb (args, tv_kwargs v) fw = (Inr (fr, same), fw1)"
        "fr_action fr = SKIP" "out = NextOne v fw1"
    | (call) fr same fw1 c kwargs fw2 fw3 v1 where "runs fw r" "apply_filters E event cb (args, tv_kwargs v) fw = (Inr (fr, same), fw1)"
        "fr_action fr \<noteq> STOP" "fr_action fr \<noteq> SKIP" "fw2 = fw1\<lparr>fw_ticks := fw_ticks fw1 + 1\<rparr>"
        "call_recorded E r (final_call fr (args, tv_kwargs v)) (final_same fr same) (tv_kwargs v) fw2 = (c, kwargs, fw3)"
        "v1 = v\<lparr>tv_start := Some (we_clock E (fw_ticks fw1)), tv_kwargs := kwargs\<rparr>" "fw_infos fw3 = fw_infos fw"
        "out = (case c of
            Value x \<Rightarrow> NextOne (v1\<lparr>tv_results := tv_results v1 @ [x]\<rparr>)
              (trace_event (CallbackReturned r x) (disable_once r (update_called E event cb (we_clock E (fw_ticks fw1)) fw3)))
          | _ \<Rightarrow> handle_failure E event args r c v1 fw3)"
proof (cases "runs fw r")
  case False
  then show thesis by (intro off) (auto simp: out_def trigger_one_def Let_def runs_def)
next
  case on: True
  obtain res fw1 where ap: "apply_filters E event cb (args, tv_kwargs v) fw = (res, fw1)"
    by (cases "apply_filters E event cb (args, tv_kwargs v) fw")
  show thesis
  proof (cases res)
    case (Inl e)
    then show thesis using on ap by (intro error[OF on _ refl]) (simp_all add: out_def trigger_one_def Let_def runs_def cb_def)
  next
    case (Inr p)
    obtain fr same where p: "p = (fr, same)" by (cases p)
    let ?fw2 = "fw1\<lparr>fw_ticks := fw_ticks fw1 + 1\<rparr>"
    obtain c kwargs fw3 where called:
      "call_recorded E r (final_call fr (args, tv_kwargs v)) (final_same fr same) (tv_kwargs v) ?fw2 = (c, kwargs, fw3)"
      by (cases "call_recorded E r (final_call fr (args, tv_kwargs v)) (final_same fr same) (tv_kwargs v) ?fw2")
    have "fw_infos fw1 = fw_infos fw" using infos_apply_filters[of E event cb "(args, tv_kwargs v)" fw] unfolding ap by simp
    then have i: "fw_infos fw3 = fw_infos fw"
      using infos_call_recorded[of E r "final_call fr (args, tv_kwargs v)" "final_same fr same" "tv_kwargs v" ?fw2] unfolding called by simp
    show thesis
    proof (cases "fr_action fr")
      case STOP
      then show thesis using on ap Inr p by (intro stop) (simp_all add: out_def trigger_one_def Let_def runs_def cb_def)
    next
      case SKIP
      then show thesis using on ap Inr p by (intro skip) (simp_all add: out_def trigger_one_def Let_def runs_def cb_def)
    next
      case CONTINUE
      then show thesis using on ap Inr p called
        by (intro call[OF on _ _ _ refl called refl i]) (cases c; simp add: out_def trigger_one_def Let_def runs_def cb_def tick_def)+
    next
      case MODIFY
      then show thesis using on ap Inr p called
        by (intro call[OF on _ _ _ refl called refl i]) (cases c; simp add: out_def trigger_one_def Let_def runs_def cb_def tick_def)+
    qed
  qed
qed

locale trigger_steps =
  fixes E :: fw_env and R :: "framework \<Rightarrow> framework \<Rightarrow> bool"
  assumes refl: "R fw fw"
    and trans: "R fw1 fw2 \<Longrightarrow> R fw2 fw3 \<Longrightarrow> R fw1 fw3"
    and ticked: "R fw (fw\<lparr>fw_ticks := n\<rparr>)"
    and measured: "R fw (fw\<lparr>fw_metrics := dset key (metrics_update secs is_error now (dget_default metrics_init (fw_metrics fw) key)) (fw_metrics fw)\<rparr>)"
    and recorded: "R fw (fw\<lparr>fw_history := h\<rparr>)"
    and filtered: "R fw (fw\<lparr>fw_filter_objs := (fw_filter_objs fw)[f :=
        snd (run_filter (we_filters E) event cb (we_clock E n) call (fw_filter_objs fw ! f))]\<rparr>)"
    and succeeded: "R fw (on_breaker (record_success event cb) b fw)"
    and failed: "R fw (on_breaker (record_failure event cb (we_clock E n)) b fw)"
    and hooked: "R fw (execute_hooks event t call fw)"
    and called: "R fw (trace_event (CallbackCalled r call) fw)"
    and same: "R fw fw' \<Longrightarrow> fw_callbacks fw' = fw_callbacks fw"
    and returned: "registered fw r \<Longrightarrow> ci_enabled (fw_infos fw ! r) \<Longrightarrow> R fw (trace_event (CallbackReturned r x) (disable_once r fw))"
begin

lemma registered_R: "R fw fw' \<Longrightarrow> registered fw' r = registered fw r"
  by (simp add: registered_def same)

lemma apply_filter_list_R: "R fw (snd (apply_filter_list E event cb fs call same fw))"
proof (induction fs arbitrary: call same fw)
  case Nil
  show ?case by (simp add: refl)
next
  case (Cons f fs)
  obtain r obj where run: "run_filter (we_filters E) event cb (we_clock E (fw_ticks fw)) call (fw_filter_objs fw ! f) = (r, obj)"
    by (cases "run_filter (we_filters E) event cb (we_clock E (fw_ticks fw)) call (fw_filter_objs fw ! f)")
  let ?fw2 = "fw\<lparr>fw_ticks := fw_ticks fw + 1, fw_filter_objs := (fw_filter_objs fw)[f := obj]\<rparr>"
  have 2: "R fw ?fw2"
    using trans[OF ticked[of fw "fw_ticks fw + 1"] filtered[of _ f event cb "fw_ticks fw" call]] by (simp add: run)
  show ?case
  proof (cases r)
    case (Inl e)
    then show ?thesis using 2 by (simp add: tick_def run)
  next
    case (Inr fr)
    then show ?thesis using 2 trans[OF 2 Cons.IH] by (cases "fr_action fr") (simp_all add: tick_def run)
  qed
qed

lemma apply_filters_R: "R fw (snd (apply_filters E event cb call fw))"
  by (simp add: apply_filters_def apply_filter_list_R)

lemma update_metrics_R: "R fw (update_metrics E key t is_error fw)"
  using trans[OF ticked measured[of _ key t is_error "we_clock E (fw_ticks fw)"]] by (simp add: update_metrics_def tick_def Let_def refl)

lemma breaker_success_R: "R fw (breaker_success event cb fw)"
  by (simp add: breaker_success_def refl succeeded split: option.split)

lemma breaker_failure_R: "R fw (breaker_failure E event cb fw)"
  using trans[OF ticked failed] by (simp add: breaker_failure_def tick_def refl split: option.split)

lemma record_history_R: "R fw (record_history E event call fw)"
  using trans[OF ticked recorded] by (simp add: record_history_def tick_def Let_def refl)

lemma call_callback_R: "R fw (snd (snd (call_callback E r call same kwargs fw)))"
  by (simp add: call_callback_def Let_def called)

lemma call_recorded_R: "R fw (snd (snd (call_recorded E r call same kwargs fw)))"
proof -
  have h: "R fw' (share_history kwargs' fw')" for kwargs' fw' by (simp add: share_history_def refl recorded)
  show ?thesis using trans[OF call_callback_R h] by (simp add: call_recorded_def split_beta)
qed

lemma handle_failure_R: "R fw (step_state (handle_failure E event args r out v fw))"
proof -
  let ?fw1 = "fw\<lparr>fw_ticks := fw_ticks fw + 1\<rparr>"
  have "R fw (execute_hooks event ERROR call (breaker_failure E event cb (update_metrics E key t True ?fw1)))" for call cb key t
    by (rule trans[OF ticked trans[OF update_metrics_R trans[OF breaker_failure_R hooked]]])
  then show ?thesis
    by (auto simp: handle_failure_def tick_def Let_def ticked split: option.split call_outcome.split)
qed

lemma trigger_one_R:
  assumes "registered fw r"
  shows "R fw (step_state (trigger_one E event args r v fw))"
proof (rule trigger_one_cases[of fw r E event args v])
  fix e fw1 c
  assume "apply_filters E event (ci_callback (fw_infos fw ! r)) (args, tv_kwargs v) fw = (Inl e, fw1)"
    and out: "trigger_one E event args r v fw = handle_failure E event args r c v fw1"
  then have "R fw fw1" using apply_filters_R by (metis snd_conv)
  then show ?thesis unfolding out by (rule trans[OF _ handle_failure_R])
next
  fix fr same fw1 c kwargs fw2 fw3 v1
  let ?cb = "ci_callback (fw_infos fw ! r)"
  assume on: "runs fw r" and ap: "apply_filters E event ?cb (args, tv_kwargs v) fw = (Inr (fr, same), fw1)"
    and fw2: "fw2 = fw1\<lparr>fw_ticks := fw_ticks fw1 + 1\<rparr>"
    and call: "call_recorded E r (final_call fr (args, tv_kwargs v)) (final_same fr same) (tv_kwargs v) fw2 = (c, kwargs, fw3)"
    and i3: "fw_infos fw3 = fw_infos fw"
    and out: "trigger_one E event args r v fw = (case c of
        Value x \<Rightarrow> NextOne (v1\<lparr>tv_results := tv_results v1 @ [x]\<rparr>)
          (trace_event (CallbackReturned r x) (disable_once r (update_called E event ?cb (we_clock E (fw_ticks fw1)) fw3)))
      | _ \<Rightarrow> handle_failure E event args r c v1 fw3)"
  have "R fw fw1" using apply_filters_R ap by (metis snd_conv)
  moreover have "R fw2 fw3" using call_recorded_R call by (metis snd_conv)
  ultimately have 3: "R fw fw3" unfolding fw2 using trans ticked by blast
  have 6: "R fw (update_called E event ?cb t fw3)" for t
    by (rule trans[OF 3 trans[OF ticked trans[OF update_metrics_R breaker_success_R]]])
  have "ci_enabled (fw_infos (update_called E event ?cb t fw3) ! r)" for t using on by (simp add: i3 runs_def)
  moreover have "registered (update_called E event ?cb t fw3) r" for t using assms registered_R[OF 6] by simp
  ultimately show ?thesis unfolding out using trans[OF 6 returned] trans[OF 3 handle_failure_R] by (cases c) simp_all
qed (use apply_filters_R in \<open>metis refl step_state.simps snd_conv\<close>)+

lemma trigger_loop_R:
  "\<forall>r \<in> set refs. registered fw r \<Longrightarrow> R fw (step_state (trigger_loop E event args refs v fw))"
proof (induction refs arbitrary: v fw)
  case (Cons r refs)
  have 1: "R fw (step_state (trigger_one E event args r v fw))" by (rule trigger_one_R) (simp add: Cons.prems)
  show ?case
  proof (cases "trigger_one E event args r v fw")
    case (NextOne v' fw')
    then have "R fw fw'" using 1 by simp
    moreover have "R fw' (step_state (trigger_loop E event args refs v' fw'))"
      by (rule Cons.IH) (use registered_R[OF calculation] Cons.prems in simp)
    ultimately show ?thesis using trans NextOne by simp
  qed (use 1 in simp_all)
qed (simp add: refl)

lemma trigger_R: "R fw (snd (trigger E event call fw))"
proof -
  let ?fw1 = "execute_hooks event BEFORE call (record_history E event call fw)"
  let ?out = "trigger_loop E event (fst call) (dget_default [] (fw_callbacks ?fw1) event) \<lparr>tv_start = None, tv_results = [], tv_kwargs = snd call\<rparr> ?fw1"
  have "R ?fw1 (step_state ?out)" by (rule trigger_loop_R) (auto simp: registered_def)
  then have "R fw (step_state ?out)" by (rule trans[OF trans[OF record_history_R hooked]])
  then show ?thesis using trans[OF _ hooked] by (cases ?out) (auto simp: trigger_def Let_def)
qed

lemma util_trigger_R: "R fw (snd (util_trigger E event kwargs fw))"
  using trigger_R[of fw event "([], kwargs)"] by (auto simp: util_trigger_def refl split: prod.split sum.split)

lemma transform_loop_R: "R fw (snd (transform_loop E call refs result fw))"
proof (induction refs arbitrary: call result fw)
  case (Cons r refs)
  obtain out kwargs fw1 where c: "call_callback E r call True (snd call) fw = (out, kwargs, fw1)"
    by (cases "call_callback E r call True (snd call) fw")
  have "R fw fw1" using call_callback_R[of fw r call True "snd call"] by (simp add: c)
  then show ?case using trans Cons.IH by (cases out) (auto simp: c)
qed (simp add: refl)

lemma trigger_transform_R: "R fw (snd (trigger_transform E event call fw))"
  by (simp add: trigger_transform_def transform_loop_R)

lemma until_loop_R:
  "\<forall>r \<in> set refs. registered fw r \<Longrightarrow> R fw (snd (until_loop E event condition args refs kwargs fw))"
proof (induction refs arbitrary: kwargs fw)
  case (Cons r refs)
  have rest: "R fw' (snd (until_loop E event condition args refs kwargs fw'))" if "R fw fw'" for fw' kwargs
    by (rule Cons.IH) (use registered_R[OF that] Cons.prems in simp)
  show ?case
  proof (cases "ci_enabled (fw_infos fw ! r)")
    case on: True
    let ?cb = "ci_callback (fw_infos fw ! r)"
    obtain res fw1 where ap: "apply_filters E event ?cb (args, kwargs) fw = (res, fw1)" by (cases "apply_filters E event ?cb (args, kwargs) fw")
    have 1: "R fw fw1" and i1: "fw_infos fw1 = fw_infos fw"
      using apply_filters_R[of fw event ?cb] infos_apply_filters[of E event ?cb] by (metis ap snd_conv)+
    show ?thesis
    proof (cases res)
      case (Inl e)
      then show ?thesis using on trans[OF 1 rest[OF 1]] by (simp add: ap)
    next
      case (Inr p)
      obtain fr same where p: "p = (fr, same)" by (cases p)
      obtain out kwargs' fw2 where call:
        "call_callback E r (final_call fr (args, kwargs)) (final_same fr same) kwargs fw1 = (out, kwargs', fw2)"
        by (cases "call_callback E r (final_call fr (args, kwargs)) (final_same fr same) kwargs fw1")
      have 2: "R fw fw2"
        using trans[OF 1 call_callback_R] call by (metis snd_conv)
      have i2: "fw_infos fw2 = fw_infos fw"
        using infos_steps(9)[of E r "final_call fr (args, kwargs)" "final_same fr same" kwargs fw1] i1 unfolding call by simp
      have 3: "R fw (trace_event (CallbackReturned r x) (disable_once r fw2))" for x
        using trans[OF 2 returned] on i2 registered_R[OF 2] Cons.prems by simp
      have go: "R fw (snd (case (out, kwargs', fw2) of (Value x, kwargs', fw2) \<Rightarrow>
          (case condition x of
             Inl e \<Rightarrow> until_loop E event condition args refs kwargs' fw2
           | Inr True \<Rightarrow> (Some x, trace_event (CallbackReturned r x) (disable_once r fw2))
           | Inr False \<Rightarrow> until_loop E event condition args refs kwargs' (trace_event (CallbackReturned r x) (disable_once r fw2)))
        | (_, kwargs', fw2) \<Rightarrow> until_loop E event condition args refs kwargs' fw2))"
        using trans[OF 2 rest[OF 2]] trans[OF 3 rest[OF 3]] 3 by (auto split: call_outcome.split sum.split bool.split)
      show ?thesis
        using on 1 trans[OF 1 rest[OF 1]] go by (cases "fr_action fr") (simp_all add: ap Inr p call)
    qed
  qed (simp add: rest[OF refl])
qed (simp add: refl)

lemma trigger_until_R: "R fw (snd (trigger_until E event condition call fw))"
  unfolding trigger_until_def by (rule until_loop_R) (auto simp: registered_def)

lemma replay_records_R: "R fw (snd (replay_records E recs fw))"
proof (induction recs arbitrary: fw)
  case (Cons x recs)
  obtain event call t where x: "x = (event, call, t)" by (cases x)
  obtain res fw1 where tr: "trigger E event call fw = (res, fw1)" by (cases "trigger E event call fw")
  have "R fw fw1" using trigger_R[of fw event call] by (simp add: tr)
  then show ?case using trans Cons.IH by (cases res) (auto simp: x tr)
qed (simp add: refl)

lemma replay_events_R: "R fw (snd (replay_events E since fw))"
  by (simp add: replay_events_def replay_records_R)

lemmas triggers_R = trigger_R util_trigger_R trigger_transform_R trigger_until_R replay_events_R

end


section \<open>Runs\<close>

text \<open>An operation of a client, with the environment it meets. References a client passes are to objects it has.\<close>

datatype fw_op =
    Register string registration
  | SetWrapper nat nat
  | Unregister string nat "nat option"
  | UnregisterNamespace string
  | UnregisterTags "string list"
  | UnregisterEvent string
  | NewFilter filter_obj
  | AddFilter string nat
  | AddGlobalFilter nat
  | AddBreaker string callback int rat
  | AddHook string hook_type nat
  | ResetMetrics
  | EnableHistory bool
  | Trigger fw_env string call_args
  | UtilTrigger fw_env string pdict
  | TriggerTransform fw_env string call_args
  | TriggerUntil fw_env string "pyval \<Rightarrow> bool res" call_args
  | TriggerChain chain_env string call_args
  | Replay fw_env "rat option"

fun fw_step :: "fw_op \<Rightarrow> framework \<Rightarrow> framework" where
  "fw_step (Register event g) fw = snd (register_sync event g fw)"
| "fw_step (SetWrapper r w) fw = set_wrapper r w fw"
| "fw_step (Unregister event cb wrapped) fw = unregister_sync event cb wrapped fw"
| "fw_step (UnregisterNamespace ns) fw = unregister_namespace ns fw"
| "fw_step (UnregisterTags tags) fw = unregister_by_tags tags fw"
| "fw_step (UnregisterEvent event) fw = unregister_event event fw"
| "fw_step (NewFilter f) fw = snd (new_filter f fw)"
| "fw_step (AddFilter event f) fw = add_filter event f fw"
| "fw_step (AddGlobalFilter f) fw = add_global_filter f fw"
| "fw_step (AddBreaker event cb threshold timeout) fw = add_circuit_breaker event cb threshold timeout fw"
| "fw_step (AddHook event t hook) fw = add_hook event t hook fw"
| "fw_step ResetMetrics fw = reset_metrics fw"
| "fw_step (EnableHistory enabled) fw = enable_event_history enabled fw"
| "fw_step (Trigger E event call) fw = snd (trigger E event call fw)"
| "fw_step (UtilTrigger E event kwargs) fw = snd (util_trigger E event kwargs fw)"
| "fw_step (TriggerTransform E event call) fw = snd (trigger_transform E event call fw)"
| "fw_step (TriggerUntil E event condition call) fw = snd (trigger_until E event condition call fw)"
| "fw_step (TriggerChain E event call) fw = snd (trigger_chain E event call fw)"
| "fw_step (Replay E since) fw = snd (replay_events E since fw)"

fun fw_op_ok :: "fw_op \<Rightarrow> framework \<Rightarrow> bool" where
  "fw_op_ok (Register event g) fw \<longleftrightarrow> (\<forall>f \<in> set (rg_filters g). f < length (fw_filter_objs fw))"
| "fw_op_ok (SetWrapper r w) fw \<longleftrightarrow> r < length (fw_infos fw)"
| "fw_op_ok (AddFilter event f) fw \<longleftrightarrow> f < length (fw_filter_objs fw)"
| "fw_op_ok (AddGlobalFilter f) fw \<longleftrightarrow> f < length (fw_filter_objs fw)"
| "fw_op_ok op fw \<longleftrightarrow> True"

inductive fw_reachable :: "framework \<Rightarrow> bool" where
  start: "fw_reachable (framework_init enable_metrics)"
| step: "fw_reachable fw \<Longrightarrow> fw_op_ok op fw \<Longrightarrow> fw_reachable (fw_step op fw)"

section \<open>The frame of a trigger\<close>

fun is_breaker :: "filter_obj \<Rightarrow> bool" where
  "is_breaker (CircuitBreakerFilter b) = True"
| "is_breaker _ = False"

definition objs_kept :: "filter_obj list \<Rightarrow> filter_obj list \<Rightarrow> bool" where
  "objs_kept old new \<longleftrightarrow> length new = length old \<and>
     (\<forall>i < length old. is_breaker (new ! i) = is_breaker (old ! i))"

definition fw_frame :: "framework \<Rightarrow> framework \<Rightarrow> bool" where
  "fw_frame fw fw' \<longleftrightarrow> fw_callbacks fw' = fw_callbacks fw \<and> fw_chains fw' = fw_chains fw \<and> fw_filters fw' = fw_filters fw \<and>
     fw_global_filters fw' = fw_global_filters fw \<and> fw_callback_filters fw' = fw_callback_filters fw \<and>
     fw_circuit_breakers fw' = fw_circuit_breakers fw \<and> fw_enable_metrics fw' = fw_enable_metrics fw \<and>
     fw_enable_history fw' = fw_enable_history fw \<and> infos_le (fw_infos fw) (fw_infos fw') \<and>
     objs_kept (fw_filter_objs fw) (fw_filter_objs fw')"

lemma objs_kept_refl [simp]: "objs_kept xs xs"
  by (simp add: objs_kept_def)

lemma objs_kept_update:
  assumes "is_breaker y = is_breaker (xs ! i)"
  shows "objs_kept xs (xs[i := y])"
  using assms by (cases "i < length xs") (auto simp: objs_kept_def nth_list_update)

lemma run_filter_keeps: "is_breaker (snd (run_filter E event cb now call f)) = is_breaker f"
  by (cases f) (auto split: prod.split)

interpretation frame: trigger_steps E fw_frame for E
proof
  fix fw1 fw2 fw3 assume "fw_frame fw1 fw2" "fw_frame fw2 fw3"
  then show "fw_frame fw1 fw3" using infos_le_trans by (auto simp: fw_frame_def objs_kept_def)
next
  fix fw f event cb n call
  show "fw_frame fw (fw\<lparr>fw_filter_objs := (fw_filter_objs fw)[f := snd (run_filter (we_filters E) event cb (we_clock E n) call (fw_filter_objs fw ! f))]\<rparr>)"
    by (simp add: fw_frame_def objs_kept_update run_filter_keeps)
next
  fix fw event cb b
  show "fw_frame fw (on_breaker (record_success event cb) b fw)"
    by (auto simp: fw_frame_def on_breaker_def intro!: objs_kept_update split: filter_obj.split)
next
  fix fw event cb n b
  show "fw_frame fw (on_breaker (record_failure event cb (we_clock E n)) b fw)"
    by (auto simp: fw_frame_def on_breaker_def intro!: objs_kept_update split: filter_obj.split)
next
  fix fw r x
  show "fw_frame fw (trace_event (CallbackReturned r x) (disable_once r fw))"
    by (simp add: fw_frame_def trace_event_def disable_once_def)
qed (simp_all add: fw_frame_def execute_hooks_def trace_event_def Let_def)


section \<open>The order in which callbacks run\<close>

definition runs_before :: "cb_info list \<Rightarrow> nat \<Rightarrow> nat \<Rightarrow> bool" where
  "runs_before infos r s \<longleftrightarrow> ci_priority (infos ! s) < ci_priority (infos ! r) \<or> ci_priority (infos ! s) = ci_priority (infos ! r) \<and> r < s"

definition ordered_refs :: "cb_info list \<Rightarrow> nat list \<Rightarrow> bool" where
  "ordered_refs infos refs \<longleftrightarrow> (\<forall>r \<in> set refs. r < length infos) \<and> sorted_wrt (runs_before infos) refs"

lemma ordered_refs_Nil [simp]: "ordered_refs infos []"
  by (simp add: ordered_refs_def)

lemma ordered_refs_filter [simp]: "ordered_refs infos refs \<Longrightarrow> ordered_refs infos (filter P refs)"
  by (simp add: ordered_refs_def sorted_wrt_filter)

lemma ordered_refs_distinct: "ordered_refs infos refs \<Longrightarrow> distinct refs"
  unfolding ordered_refs_def distinct_conv_nth sorted_wrt_iff_nth_less runs_before_def by (metis less_irrefl nat_neq_iff)

text \<open>A stable sort: equal keys keep the order they came in.\<close>

lemma sorted_wrt_stable:
  fixes f :: "nat \<Rightarrow> 'k::linorder"
  assumes "sorted (map f xs)" and "\<And>k. sorted_wrt (<) (filter (\<lambda>x. f x = k) xs)"
  shows "sorted_wrt (\<lambda>r s. f r < f s \<or> f r = f s \<and> r < s) xs"
  using assms
proof (induction xs)
  case (Cons x xs)
  have "f x < f y \<or> f x = f y \<and> x < y" if "y \<in> set xs" for y
    using Cons.prems(1) Cons.prems(2)[of "f x"] that by (auto simp: less_le)
  moreover have "sorted_wrt (<) (filter (\<lambda>x. f x = k) xs)" for k
    using Cons.prems(2)[of k] by (auto split: if_splits)
  ultimately show ?case using Cons by auto
qed simp

lemma by_priority_ordered:
  assumes refs: "ordered_refs infos refs" and r: "\<forall>s \<in> set refs. s < r" "r < length infos"
  shows "ordered_refs infos (by_priority infos (refs @ [r]))"
proof -
  let ?f = "\<lambda>r. - ci_priority (infos ! r)"
  have "sorted_wrt (<) (filter (\<lambda>s. ?f s = k) refs)" for k
    using sorted_wrt_filter[of "runs_before infos" refs "\<lambda>s. ?f s = k"] refs
    by (auto simp: ordered_refs_def runs_before_def intro!: sorted_wrt_mono_rel[of "filter (\<lambda>s. ?f s = k) refs" "runs_before infos"])
  then have "sorted_wrt (<) (filter (\<lambda>s. ?f s = k) (sort_key ?f (refs @ [r])))" for k
    using r(1) unfolding sort_key_stable by (auto simp: sorted_wrt_append)
  from sorted_wrt_stable[OF sorted_sort_key this]
  have "sorted_wrt (runs_before infos) (by_priority infos (refs @ [r]))"
    unfolding by_priority_def by (rule sorted_wrt_mono_rel[rotated]) (auto simp: runs_before_def)
  then show ?thesis using refs r(2) by (auto simp: ordered_refs_def by_priority_def)
qed

text \<open>Entries may be added and disabled; priority and callback stay.\<close>

definition infos_grow :: "cb_info list \<Rightarrow> cb_info list \<Rightarrow> bool" where
  "infos_grow old new \<longleftrightarrow> length old \<le> length new \<and>
     (\<forall>r < length old. ci_priority (new ! r) = ci_priority (old ! r) \<and> ci_callback (new ! r) = ci_callback (old ! r))"

lemma infos_grow_refl [simp]: "infos_grow xs xs"
  by (simp add: infos_grow_def)

lemma infos_grow_le: "infos_le xs ys \<Longrightarrow> infos_grow xs ys"
  by (simp add: infos_grow_def infos_le_def)

lemma infos_grow_append [simp]: "infos_grow xs (xs @ ys)"
  by (simp add: infos_grow_def nth_append)

lemma ordered_refs_grow:
  assumes "infos_grow xs ys" and "ordered_refs xs refs"
  shows "ordered_refs ys refs"
proof -
  have "runs_before ys r s = runs_before xs r s" if "r \<in> set refs" "s \<in> set refs" for r s
    using assms that by (simp add: runs_before_def infos_grow_def ordered_refs_def)
  then have "sorted_wrt (runs_before ys) refs"
    using assms(2) by (auto simp: ordered_refs_def intro!: sorted_wrt_mono_rel[of refs "runs_before xs"])
  then show ?thesis using assms by (auto simp: ordered_refs_def infos_grow_def)
qed

section \<open>Well-formed states\<close>

definition handled :: "chain \<Rightarrow> nat set" where
  "handled ch = fst ` set (chn_rollback_handlers ch) \<union> fst ` set (chn_error_handlers ch)"

definition cb_ids :: "cb_info list \<Rightarrow> nat list \<Rightarrow> nat set" where
  "cb_ids infos refs = (\<lambda>r. cb_id (ci_callback (infos ! r))) ` set refs"

definition chain_wf :: "cb_info list \<Rightarrow> chain \<Rightarrow> bool" where
  "chain_wf infos ch \<longleftrightarrow> ordered_refs infos (chn_callbacks ch) \<and> handled ch \<subseteq> cb_ids infos (chn_callbacks ch)"

definition filter_ref :: "filter_obj list \<Rightarrow> nat \<Rightarrow> bool" where
  "filter_ref objs f \<longleftrightarrow> f < length objs"

definition breaker_ref :: "filter_obj list \<Rightarrow> nat \<Rightarrow> bool" where
  "breaker_ref objs b \<longleftrightarrow> b < length objs \<and> is_breaker (objs ! b)"

definition callbacks_wf :: "framework \<Rightarrow> bool" where
  "callbacks_wf fw \<longleftrightarrow> (\<forall>event. ordered_refs (fw_infos fw) (dget_default [] (fw_callbacks fw) event)) \<and>
     (\<forall>event ch. dget (fw_chains fw) event = Some ch \<longrightarrow> chain_wf (fw_infos fw) ch)"

definition filters_wf :: "framework \<Rightarrow> bool" where
  "filters_wf fw \<longleftrightarrow> (\<forall>f \<in> set (fw_global_filters fw). filter_ref (fw_filter_objs fw) f) \<and>
     (\<forall>event. \<forall>f \<in> set (dget_default [] (fw_filters fw) event). filter_ref (fw_filter_objs fw) f) \<and>
     (\<forall>cb. \<forall>f \<in> set (dget_default [] (fw_callback_filters fw) cb). filter_ref (fw_filter_objs fw) f) \<and>
     (\<forall>key b. dget (fw_circuit_breakers fw) key = Some b \<longrightarrow> breaker_ref (fw_filter_objs fw) b)"

lemma chain_init_wf [simp]: "chain_wf infos chain_init"
  by (simp add: chain_wf_def chain_init_def handled_def)

lemma chain_wf_grow:
  assumes "infos_grow xs ys" and "chain_wf xs ch"
  shows "chain_wf ys ch"
proof -
  have "cb_ids ys (chn_callbacks ch) = cb_ids xs (chn_callbacks ch)"
    unfolding cb_ids_def by (rule image_cong) (use assms in \<open>simp_all add: infos_grow_def chain_wf_def ordered_refs_def\<close>)
  then show ?thesis using assms ordered_refs_grow by (simp add: chain_wf_def)
qed

lemma set_handler_keys: "fst ` set (set_handler cb h m) \<subseteq> insert cb (fst ` set m)"
  by (auto simp: set_handler_def split: option.split)

lemma chain_add_wf:
  assumes ch: "chain_wf infos ch" and r: "\<forall>s \<in> set (chn_callbacks ch). s < r" "r < length infos"
  shows "chain_wf infos (chain_add infos r h h' ch)"
proof -
  let ?cb = "cb_id (ci_callback (infos ! r))"
  have "handled (chain_add infos r h h' ch) \<subseteq> insert ?cb (handled ch)"
    using set_handler_keys[of ?cb h "chn_rollback_handlers ch"] set_handler_keys[of ?cb h' "chn_error_handlers ch"]
    by (auto simp: handled_def chain_add_def Let_def)
  moreover have "cb_ids infos (chn_callbacks (chain_add infos r h h' ch)) = insert ?cb (cb_ids infos (chn_callbacks ch))"
    by (auto simp: cb_ids_def chain_add_def by_priority_def Let_def)
  ultimately show ?thesis
    using ch by_priority_ordered[OF _ r] by (auto simp: chain_wf_def chain_add_def Let_def)
qed

lemma chain_remove_wf:
  assumes "chain_wf infos ch"
  shows "chain_wf infos (chain_remove infos cb ch)"
proof -
  have "handled (chain_remove infos cb ch) = handled ch - {cb}" by (auto simp: handled_def chain_remove_def)
  moreover have "cb_ids infos (chn_callbacks (chain_remove infos cb ch)) = cb_ids infos (chn_callbacks ch) - {cb}"
    by (auto simp: cb_ids_def chain_remove_def)
  ultimately show ?thesis using assms by (auto simp: chain_wf_def chain_remove_def)
qed


section \<open>Every operation keeps them\<close>

lemma dget_default_map:
  "g [] = [] \<Longrightarrow> dget_default [] (map (\<lambda>(k, xs). (k, g xs)) d) k = g (dget_default [] d k)"
  by (induction d) (auto simp: dget_default_def)

lemma callbacks_wf_grow:
  assumes "callbacks_wf fw" and "infos_grow (fw_infos fw) (fw_infos fw')"
    and "fw_callbacks fw' = fw_callbacks fw" and "fw_chains fw' = fw_chains fw"
  shows "callbacks_wf fw'"
  using assms ordered_refs_grow chain_wf_grow unfolding callbacks_wf_def by metis

lemma register_callbacks_wf:
  assumes "callbacks_wf fw"
  shows "callbacks_wf (snd (register_sync event g fw))"
proof -
  let ?infos = "fw_infos fw @ [new_info g]" and ?r = "length (fw_infos fw)"
  have grow: "infos_grow (fw_infos fw) ?infos" by simp
  have refs: "ordered_refs (fw_infos fw) (dget_default [] (fw_callbacks fw) e)" for e
    using assms by (simp add: callbacks_wf_def)
  then have below: "\<forall>s \<in> set (dget_default [] (fw_callbacks fw) e). s < ?r" for e by (simp add: ordered_refs_def)
  have o: "ordered_refs ?infos (dget_default [] (fw_callbacks fw) e)" for e
    by (rule ordered_refs_grow[OF grow refs])
  have by_p: "ordered_refs ?infos (by_priority ?infos (dget_default [] (fw_callbacks fw) e @ [?r]))" for e
    by (rule by_priority_ordered[OF o below]) simp
  have c: "chain_wf (fw_infos fw) (dget_default chain_init (fw_chains fw) e)" for e
    using assms by (cases "dget (fw_chains fw) e") (simp_all add: callbacks_wf_def)
  then have ch: "chain_wf ?infos ch" if "dget (fw_chains fw) e = Some ch" for e ch
    using chain_wf_grow[OF grow] that by (metis dget_default_Some)
  have add: "chain_wf ?infos (chain_add ?infos ?r h h' (dget_default chain_init (fw_chains fw) e))" for e h h'
    by (rule chain_add_wf[OF chain_wf_grow[OF grow c]]) (use c[of e] in \<open>simp_all add: chain_wf_def ordered_refs_def\<close>)
  show ?thesis
    using o by_p ch add by (auto simp: callbacks_wf_def register_sync_def Let_def)
qed

lemma unregister_callbacks_wf:
  assumes "callbacks_wf fw"
  shows "callbacks_wf (unregister_sync event cb wrapped fw)"
proof (cases "dget (fw_callbacks fw) event")
  case (Some refs)
  then have "ordered_refs (fw_infos fw) refs" using assms unfolding callbacks_wf_def by (metis dget_default_Some)
  then show ?thesis using assms Some
    by (auto simp: unregister_sync_def callbacks_wf_def Let_def without_callback_def chain_remove_wf split: option.split)
qed (simp add: unregister_sync_def assms)

lemma keep_callbacks_wf: "callbacks_wf fw \<Longrightarrow> callbacks_wf (keep_callbacks P fw)"
  by (simp add: callbacks_wf_def keep_callbacks_def dget_default_map)

lemma unregister_event_callbacks_wf: "callbacks_wf fw \<Longrightarrow> callbacks_wf (unregister_event event fw)"
  by (auto simp: callbacks_wf_def unregister_event_def Let_def)

lemma set_wrapper_callbacks_wf: "callbacks_wf fw \<Longrightarrow> callbacks_wf (set_wrapper r w fw)"
proof (erule callbacks_wf_grow)
  show "infos_grow (fw_infos fw) (fw_infos (set_wrapper r w fw))"
    by (cases "r < length (fw_infos fw)") (auto simp: set_wrapper_def infos_grow_def nth_list_update)
qed (simp_all add: set_wrapper_def)

lemma same_callbacks_wf:
  "callbacks_wf fw \<Longrightarrow> fw_infos fw' = fw_infos fw \<Longrightarrow> fw_callbacks fw' = fw_callbacks fw \<Longrightarrow> fw_chains fw' = fw_chains fw \<Longrightarrow> callbacks_wf fw'"
  by (simp add: callbacks_wf_def)

lemma frame_callbacks_wf: "callbacks_wf fw \<Longrightarrow> fw_frame fw fw' \<Longrightarrow> callbacks_wf fw'"
  by (erule callbacks_wf_grow) (simp_all add: fw_frame_def infos_grow_le)

lemma chain_loop_infos: "infos_le (cr_infos st) (cr_infos (snd (chain_loop E ch init xs st)))"
proof (induction E ch init xs st rule: chain_loop.induct)
  case (2 E ch init i r rest st)
  let ?st = "st\<lparr>cr_current_index := i\<rparr>" and ?info = "cr_infos st ! r"
  show ?case
  proof (cases "ci_enabled ?info")
    case True
    have "turn_ok ch (cb_id (ci_callback ?info)) (nat (ci_max_retries ?info + 1)) ?st
        (chain_attempts E ch init r (nat (ci_max_retries ?info + 1)) ?st)"
      using chain_attempts_turn[of ch ?st r] by simp
    then show ?thesis
      using 2(2)[OF refl, simplified, OF True] infos_le_trans True
      by (cases "chain_attempts E ch init r (nat (ci_max_retries ?info + 1)) ?st") (auto simp: Let_def turn_ok_def)
  next
    case False
    then show ?thesis using 2(1) by simp
  qed
qed (simp add: Let_def)

lemma chain_frame: "fw_frame fw (snd (trigger_chain E event call fw))"
proof -
  have "infos_le (fw_infos fw) (cr_infos (snd (chain_execute E ch call (fw_infos fw))))" for ch
    using chain_loop_infos[of "chain_run_init (fw_infos fw)" E ch call "enumerate 0 (chn_callbacks ch)"]
    by (simp add: chain_execute_def chain_run_init_def)
  then show ?thesis by (auto simp: trigger_chain_def Let_def fw_frame_def split: prod.split option.split)
      (metis snd_conv)+
qed

lemmas trigger_frames = frame.trigger_R frame.util_trigger_R frame.trigger_transform_R frame.trigger_until_R
  frame.replay_events_R chain_frame

fun is_trigger :: "fw_op \<Rightarrow> bool" where
  "is_trigger (Trigger E event call) = True"
| "is_trigger (UtilTrigger E event kwargs) = True"
| "is_trigger (TriggerTransform E event call) = True"
| "is_trigger (TriggerUntil E event condition call) = True"
| "is_trigger (TriggerChain CE event call) = True"
| "is_trigger (Replay E since) = True"
| "is_trigger op = False"

lemma trigger_step_frame: "is_trigger op \<Longrightarrow> fw_frame fw (fw_step op fw)"
  by (cases op) (simp_all add: trigger_frames)

text \<open>An operation is a trigger, leaves the callbacks alone, or is one of those that change them.\<close>

lemmas plain_steps = new_filter_def add_filter_def add_global_filter_def add_circuit_breaker_def add_hook_def reset_metrics_def
  enable_event_history_def Let_def

lemma callbacks_wf_step:
  assumes "callbacks_wf fw"
  shows "callbacks_wf (fw_step op fw)"
proof (cases "is_trigger op")
  case True
  then show ?thesis by (rule frame_callbacks_wf[OF assms trigger_step_frame])
next
  case False
  then show ?thesis using assms
    by (cases op) (simp_all add: register_callbacks_wf unregister_callbacks_wf keep_callbacks_wf unregister_event_callbacks_wf
        set_wrapper_callbacks_wf unregister_namespace_def unregister_by_tags_def same_callbacks_wf[OF assms] plain_steps)
qed

lemma reachable_callbacks_wf: "fw_reachable fw \<Longrightarrow> callbacks_wf fw"
proof (induction rule: fw_reachable.induct)
  case (start m)
  show ?case by (simp add: framework_init_def callbacks_wf_def dget_default_def)
qed (rule callbacks_wf_step)


lemma filter_ref_more: "objs_kept objs objs' \<Longrightarrow> filter_ref objs' f = filter_ref objs f"
  by (simp add: filter_ref_def objs_kept_def)

lemma breaker_ref_more: "objs_kept objs objs' \<Longrightarrow> breaker_ref objs' b = breaker_ref objs b"
  by (auto simp: breaker_ref_def objs_kept_def)

lemma refs_append: "filter_ref objs f \<Longrightarrow> filter_ref (objs @ xs) f" "breaker_ref objs b \<Longrightarrow> breaker_ref (objs @ xs) b"
  by (simp_all add: filter_ref_def breaker_ref_def nth_append)

lemma frame_filters_wf:
  assumes "filters_wf fw" and "fw_frame fw fw'"
  shows "filters_wf fw'"
proof -
  have "objs_kept (fw_filter_objs fw) (fw_filter_objs fw')" using assms(2) by (simp add: fw_frame_def)
  then have "filter_ref (fw_filter_objs fw') = filter_ref (fw_filter_objs fw)" "breaker_ref (fw_filter_objs fw') = breaker_ref (fw_filter_objs fw)"
    using filter_ref_more breaker_ref_more by blast+
  then show ?thesis using assms by (simp add: filters_wf_def fw_frame_def)
qed

lemma dget_fold_ddel_Some: "dget (fold ddel ks m) k = Some v \<Longrightarrow> dget m k = Some v"
  by (simp add: dget_fold_ddel split: if_splits)

lemma dget_default_fold_ddel: "dget_default v (fold ddel ks m) k = (if k \<in> set ks then v else dget_default v m k)"
  by (simp add: dget_default_def dget_fold_ddel)

lemma new_filter_wf: "filters_wf fw \<Longrightarrow> filters_wf (snd (new_filter f fw))"
  unfolding filters_wf_def new_filter_def using refs_append by fastforce

lemma add_breaker_wf:
  assumes "filters_wf fw"
  shows "filters_wf (add_circuit_breaker event cb threshold timeout fw)"
proof -
  let ?b = "CircuitBreakerFilter (breaker_init threshold timeout)" and ?n = "length (fw_filter_objs fw)"
  have "filters_wf (snd (new_filter ?b fw))" by (rule new_filter_wf[OF assms])
  moreover have "breaker_ref (fw_filter_objs fw @ [?b]) ?n" "filter_ref (fw_filter_objs fw @ [?b]) ?n"
    by (simp_all add: breaker_ref_def filter_ref_def)
  ultimately show ?thesis
    by (auto simp: filters_wf_def new_filter_def add_circuit_breaker_def add_filter_def Let_def)
qed

lemma filters_wf_step:
  assumes "filters_wf fw" and "fw_op_ok op fw"
  shows "filters_wf (fw_step op fw)"
proof (cases "is_trigger op")
  case True
  then show ?thesis by (rule frame_filters_wf[OF assms(1) trigger_step_frame])
next
  case False
  then show ?thesis using assms
  proof (cases op)
    case (Register event g)
    then show ?thesis using assms by (auto simp: register_sync_def Let_def filters_wf_def filter_ref_def)
  next
    case (Unregister event cb wrapped)
    then show ?thesis using assms by (auto simp: unregister_sync_def Let_def filters_wf_def split: option.split)
  next
    case (UnregisterEvent event)
    then show ?thesis using assms
      by (auto simp: unregister_event_def Let_def filters_wf_def dget_default_fold_ddel dest!: dget_fold_ddel_Some)
  next
    case (NewFilter f)
    then show ?thesis using new_filter_wf[OF assms(1)] by simp
  next
    case (AddBreaker event cb threshold timeout)
    then show ?thesis using add_breaker_wf[OF assms(1)] by simp
  qed (auto simp: filters_wf_def filter_ref_def set_wrapper_def keep_callbacks_def unregister_namespace_def unregister_by_tags_def
      add_filter_def add_global_filter_def add_hook_def reset_metrics_def enable_event_history_def Let_def)
qed

lemma reachable_filters_wf: "fw_reachable fw \<Longrightarrow> filters_wf fw"
proof (induction rule: fw_reachable.induct)
  case (start m)
  show ?case by (simp add: framework_init_def filters_wf_def dget_default_def)
qed (rule filters_wf_step)

section \<open>Once-only callbacks\<close>

text \<open>The results of an entry that were taken, by a trigger that went on with them.\<close>

definition taken :: "nat \<Rightarrow> framework \<Rightarrow> pyval list" where
  "taken r fw = List.map_filter (\<lambda>e. case e of CallbackReturned s x \<Rightarrow> if s = r then Some x else None | _ \<Rightarrow> None) (fw_trace fw)"

definition once_inv :: "framework \<Rightarrow> bool" where
  "once_inv fw \<longleftrightarrow>
     (\<forall>r. (length (fw_infos fw) \<le> r \<longrightarrow> taken r fw = []) \<and>
       (r < length (fw_infos fw) \<and> ci_once (fw_infos fw ! r) \<longrightarrow> length (taken r fw) \<le> (if ci_enabled (fw_infos fw ! r) then 0 else 1)))"

lemma map_filter_append: "List.map_filter f (xs @ ys) = List.map_filter f xs @ List.map_filter f ys"
  by (simp add: List.map_filter_def)

lemma taken_trace:
  "taken r (trace_event e fw) = taken r fw @ (case e of CallbackReturned s x \<Rightarrow> if s = r then [x] else [] | _ \<Rightarrow> [])"
  by (simp add: taken_def trace_event_def map_filter_append List.map_filter_def split: fw_event.split)

lemma taken_hooks [simp]: "taken r (execute_hooks event t call fw) = taken r fw"
  by (simp add: taken_def execute_hooks_def Let_def map_filter_append List.map_filter_def filter_empty_conv)

lemma taken_same: "fw_trace fw' = fw_trace fw \<Longrightarrow> taken r fw' = taken r fw"
  by (simp add: taken_def)

lemma taken_disable: "taken s (disable_once r fw) = taken s fw"
  by (rule taken_same) (simp add: disable_once_def)

lemma once_same:
  assumes "once_inv fw" and "infos_le (fw_infos fw) (fw_infos fw')" and "\<And>r. taken r fw' = taken r fw"
  shows "once_inv fw'"
  unfolding once_inv_def assms(3)
proof (intro allI conjI impI)
  fix r assume "length (fw_infos fw') \<le> r"
  then show "taken r fw = []" using assms(1,2) by (simp add: once_inv_def infos_le_def)
next
  fix r assume "r < length (fw_infos fw') \<and> ci_once (fw_infos fw' ! r)"
  then have "length (taken r fw) \<le> (if ci_enabled (fw_infos fw ! r) then 0 else 1)"
    and "ci_enabled (fw_infos fw' ! r) \<Longrightarrow> ci_enabled (fw_infos fw ! r)"
    using assms(1,2) by (auto simp: once_inv_def infos_le_def)
  then show "length (taken r fw) \<le> (if ci_enabled (fw_infos fw' ! r) then 0 else 1)" by (auto split: if_splits)
qed

definition keeps_once :: "framework \<Rightarrow> framework \<Rightarrow> bool" where
  "keeps_once fw fw' \<longleftrightarrow> fw_frame fw fw' \<and> (callbacks_wf fw \<and> once_inv fw \<longrightarrow> once_inv fw')"

lemma keeps_onceI:
  assumes "fw_frame fw fw'" and "\<And>r. taken r fw' = taken r fw"
  shows "keeps_once fw fw'"
  using assms once_same by (auto simp: keeps_once_def fw_frame_def)

lemma registered_below: "callbacks_wf fw \<Longrightarrow> registered fw r \<Longrightarrow> r < length (fw_infos fw)"
  by (auto simp: callbacks_wf_def registered_def ordered_refs_def)

lemma once_returned:
  assumes "callbacks_wf fw" "once_inv fw" and r: "registered fw r" "ci_enabled (fw_infos fw ! r)"
  shows "once_inv (trace_event (CallbackReturned r x) (disable_once r fw))"
proof -
  have b: "r < length (fw_infos fw)" by (rule registered_below[OF assms(1) r(1)])
  have t: "taken s (trace_event (CallbackReturned r x) (disable_once r fw)) = taken s fw @ (if s = r then [x] else [])" for s
    by (simp add: taken_trace taken_disable)
  let ?infos = "fw_infos fw"
  have i: "fw_infos (trace_event (CallbackReturned r x) (disable_once r fw)) =
      (if ci_once (?infos ! r) then ?infos[r := (?infos ! r)\<lparr>ci_enabled := False\<rparr>] else ?infos)"
    by (simp add: disable_once_def)
  have o: "length ?infos \<le> s \<Longrightarrow> taken s fw = []"
    "s < length ?infos \<Longrightarrow> ci_once (?infos ! s) \<Longrightarrow> length (taken s fw) \<le> (if ci_enabled (?infos ! s) then 0 else 1)" for s
    using assms(2) by (simp_all add: once_inv_def)
  show ?thesis
    unfolding once_inv_def t i
  proof (intro allI conjI impI, goal_cases)
    case (1 s)
    then show ?case using b o(1)[of s] by (auto split: if_splits)
  next
    case (2 s)
    then show ?case using b r(2) o(2)[of s] by (cases "s = r") (auto split: if_splits)
  qed
qed

interpretation once: trigger_steps E keeps_once for E
proof
  fix fw1 fw2 fw3 assume "keeps_once fw1 fw2" "keeps_once fw2 fw3"
  then show "keeps_once fw1 fw3" unfolding keeps_once_def using frame.trans frame_callbacks_wf by blast
next
  fix fw r x assume "registered fw r" "ci_enabled (fw_infos fw ! r)"
  then show "keeps_once fw (trace_event (CallbackReturned r x) (disable_once r fw))"
    using frame.returned once_returned by (simp add: keeps_once_def)
next
  show "keeps_once fw (fw\<lparr>fw_filter_objs := (fw_filter_objs fw)[f :=
      snd (run_filter (we_filters E) event cb (we_clock E n) call (fw_filter_objs fw ! f))]\<rparr>)" for fw f event cb n call
    by (rule keeps_onceI[OF frame.filtered]) (simp add: taken_def)
  show "keeps_once fw (on_breaker (record_success event cb) b fw)" for fw event cb b
    by (rule keeps_onceI[OF frame.succeeded]) (simp add: taken_def on_breaker_def split: filter_obj.split)
  show "keeps_once fw (on_breaker (record_failure event cb (we_clock E n)) b fw)" for fw event cb n b
    by (rule keeps_onceI[OF frame.failed]) (simp add: taken_def on_breaker_def split: filter_obj.split)
  show "keeps_once fw (execute_hooks event t call fw)" for fw event t call
    by (rule keeps_onceI[OF frame.hooked]) simp
  show "keeps_once fw (trace_event (CallbackCalled r call) fw)" for fw r call
    by (rule keeps_onceI[OF frame.called]) (simp add: taken_trace)
  show "keeps_once fw (fw\<lparr>fw_ticks := n\<rparr>)" for fw n
    by (rule keeps_onceI[OF frame.ticked]) (simp add: taken_def)
  show "keeps_once fw (fw\<lparr>fw_metrics := dset key (metrics_update secs is_error now (dget_default metrics_init (fw_metrics fw) key)) (fw_metrics fw)\<rparr>)"
    for fw key secs is_error now
    by (rule keeps_onceI[OF frame.measured]) (simp add: taken_def)
  show "keeps_once fw (fw\<lparr>fw_history := h\<rparr>)" for fw h
    by (rule keeps_onceI[OF frame.recorded]) (simp add: taken_def)
qed (simp_all add: keeps_once_def frame.refl frame.same)

lemma same_once: "once_inv fw \<Longrightarrow> fw_infos fw' = fw_infos fw \<Longrightarrow> fw_trace fw' = fw_trace fw \<Longrightarrow> once_inv fw'"
  by (simp add: once_inv_def taken_def)

lemma chain_keeps_once: "keeps_once fw (snd (trigger_chain E event call fw))"
  by (rule keeps_onceI[OF chain_frame]) (simp add: taken_def trigger_chain_def Let_def split: prod.split)

lemma trigger_step_once: "is_trigger op \<Longrightarrow> keeps_once fw (fw_step op fw)"
  by (cases op) (simp_all add: once.triggers_R chain_keeps_once)

lemma once_step:
  assumes "callbacks_wf fw" "once_inv fw"
  shows "once_inv (fw_step op fw)"
proof (cases "is_trigger op")
  case True
  then show ?thesis using trigger_step_once[of op fw] assms by (simp add: keeps_once_def)
next
  case False
  have t: "fw_trace (fw_step op fw) = fw_trace fw"
    using False by (cases op) (simp_all add: register_sync_def unregister_sync_def unregister_namespace_def unregister_by_tags_def
        keep_callbacks_def unregister_event_def set_wrapper_def plain_steps split: option.split)
  show ?thesis
  proof (cases op)
    case (Register event g)
    then show ?thesis using assms(2) taken_same[OF t]
      by (auto simp: once_inv_def register_sync_def Let_def nth_append less_Suc_eq)
  next
    case (SetWrapper r w)
    then show ?thesis using assms(2) taken_same[OF t] by (cases "r < length (fw_infos fw)")
        (auto simp: once_inv_def set_wrapper_def nth_list_update)
  qed ((rule same_once[OF assms(2) _ t]; use False in \<open>simp add: unregister_sync_def unregister_namespace_def
      unregister_by_tags_def keep_callbacks_def unregister_event_def plain_steps split: option.split\<close>)+)
qed

lemma reachable_once: "fw_reachable fw \<Longrightarrow> once_inv fw"
proof (induction rule: fw_reachable.induct)
  case (start m)
  show ?case by (simp add: framework_init_def once_inv_def taken_def List.map_filter_def)
qed (rule once_step[OF reachable_callbacks_wf])


section \<open>Metrics\<close>

definition metrics_ok :: "metrics \<Rightarrow> bool" where
  "metrics_ok me \<longleftrightarrow> me_error_count me \<le> me_call_count me \<and> 0 \<le> me_max_time me \<and>
     (case me_min_time me of
        None \<Rightarrow> me_call_count me = 0 \<and> me_total_time me = 0
      | Some t \<Rightarrow> 0 < me_call_count me \<and> of_nat (me_call_count me) * t \<le> me_total_time me \<and>
          me_total_time me \<le> of_nat (me_call_count me) * me_max_time me)"

lemma metrics_init_ok [simp]: "metrics_ok metrics_init"
  by (simp add: metrics_ok_def metrics_init_def)

lemma metrics_update_ok:
  assumes "metrics_ok me"
  shows "metrics_ok (metrics_update t is_error now me) \<and> 0 < me_call_count (metrics_update t is_error now me)"
proof (cases "me_min_time me")
  case None
  then show ?thesis using assms by (simp add: metrics_ok_def metrics_update_def le_max_iff_disj)
next
  case (Some m)
  let ?n = "of_nat (me_call_count me) :: rat" and ?x = "me_max_time me"
  have b: "?n * m \<le> me_total_time me" "me_total_time me \<le> ?n * ?x" "0 \<le> ?x" "me_error_count me \<le> me_call_count me"
    using assms by (simp_all add: metrics_ok_def Some)
  have "?n * min m t \<le> ?n * m" "?n * ?x \<le> ?n * max ?x t" by (simp_all add: mult_left_mono)
  moreover have "min m t \<le> t" "t \<le> max ?x t" by simp_all
  ultimately have "?n * min m t + min m t \<le> me_total_time me + t" "me_total_time me + t \<le> ?n * max ?x t + max ?x t"
    using b by linarith+
  then show ?thesis using b by (simp add: metrics_ok_def metrics_update_def Some algebra_simps le_max_iff_disj)
qed

definition metrics_wf :: "framework \<Rightarrow> bool" where
  "metrics_wf fw \<longleftrightarrow> (\<forall>me \<in> snd ` set (fw_metrics fw). metrics_ok me \<and> 0 < me_call_count me)"

definition keeps_metrics :: "framework \<Rightarrow> framework \<Rightarrow> bool" where
  "keeps_metrics fw fw' \<longleftrightarrow> fw_frame fw fw' \<and> (metrics_wf fw \<longrightarrow> metrics_wf fw')"

lemma dset_values: "snd ` set (dset k v d) \<subseteq> insert v (snd ` set d)"
  by (induction d) auto

lemma measured_wf:
  assumes "metrics_wf fw"
  shows "metrics_wf (fw\<lparr>fw_metrics := dset key (metrics_update t is_error now (dget_default metrics_init (fw_metrics fw) key)) (fw_metrics fw)\<rparr>)"
proof -
  have "metrics_ok (dget_default metrics_init (fw_metrics fw) key)"
  proof (cases "dget (fw_metrics fw) key")
    case (Some me)
    then have "me \<in> snd ` set (fw_metrics fw)" by (force dest: map_of_SomeD)
    with assms have "metrics_ok me" unfolding metrics_wf_def by blast
    then show ?thesis using Some by simp
  qed simp
  from metrics_update_ok[OF this] show ?thesis
    using assms subsetD[OF dset_values] unfolding metrics_wf_def by fastforce
qed

lemma keeps_metricsI: "fw_frame fw fw' \<Longrightarrow> fw_metrics fw' = fw_metrics fw \<Longrightarrow> keeps_metrics fw fw'"
  by (simp add: keeps_metrics_def metrics_wf_def)

interpretation measure: trigger_steps E keeps_metrics for E
proof
  fix fw1 fw2 fw3 assume "keeps_metrics fw1 fw2" "keeps_metrics fw2 fw3"
  then show "keeps_metrics fw1 fw3" unfolding keeps_metrics_def using frame.trans by blast
next
  show "keeps_metrics fw (fw\<lparr>fw_metrics := dset key (metrics_update secs is_error now (dget_default metrics_init (fw_metrics fw) key)) (fw_metrics fw)\<rparr>)"
    for fw key secs is_error now
    unfolding keeps_metrics_def using frame.measured measured_wf by blast
  show "keeps_metrics fw (fw\<lparr>fw_filter_objs := (fw_filter_objs fw)[f :=
      snd (run_filter (we_filters E) event cb (we_clock E n) call (fw_filter_objs fw ! f))]\<rparr>)" for fw f event cb n call
    by (rule keeps_metricsI[OF frame.filtered]) simp
  show "keeps_metrics fw (on_breaker (record_success event cb) b fw)" for fw event cb b
    by (rule keeps_metricsI[OF frame.succeeded]) (simp add: on_breaker_def split: filter_obj.split)
  show "keeps_metrics fw (on_breaker (record_failure event cb (we_clock E n)) b fw)" for fw event cb n b
    by (rule keeps_metricsI[OF frame.failed]) (simp add: on_breaker_def split: filter_obj.split)
  show "keeps_metrics fw (execute_hooks event t call fw)" for fw event t call
    by (rule keeps_metricsI[OF frame.hooked]) (simp add: execute_hooks_def Let_def)
  show "keeps_metrics fw (trace_event (CallbackCalled r call) fw)" for fw r call
    by (rule keeps_metricsI[OF frame.called]) (simp add: trace_event_def)
  show "keeps_metrics fw (trace_event (CallbackReturned r x) (disable_once r fw))" if "registered fw r" "ci_enabled (fw_infos fw ! r)" for fw r x
    by (rule keeps_metricsI[OF frame.returned[OF that]]) (simp add: trace_event_def disable_once_def)
qed (simp_all add: keeps_metricsI frame.refl frame.ticked frame.recorded, simp add: keeps_metrics_def frame.same)

lemma metrics_step:
  assumes "metrics_wf fw"
  shows "metrics_wf (fw_step op fw)"
proof (cases "is_trigger op")
  case True
  then have "keeps_metrics fw (fw_step op fw)"
    by (cases op) (simp_all add: measure.triggers_R, rule keeps_metricsI[OF chain_frame],
        simp add: trigger_chain_def Let_def split: prod.split)
  then show ?thesis using assms by (simp add: keeps_metrics_def)
next
  case False
  then show ?thesis using assms
    by (cases op) (simp_all add: metrics_wf_def register_sync_def unregister_sync_def unregister_namespace_def unregister_by_tags_def
        keep_callbacks_def unregister_event_def set_wrapper_def plain_steps split: option.split)
qed

lemma reachable_metrics: "fw_reachable fw \<Longrightarrow> metrics_wf fw"
proof (induction rule: fw_reachable.induct)
  case (start m)
  show ?case by (simp add: framework_init_def metrics_wf_def)
qed (rule metrics_step)

lemma metrics_dict_ok:
  assumes "metrics_ok me" and "0 < me_call_count me"
  shows "let d = metrics_to_dict me in md_error_count d \<le> md_call_count d \<and> 0 < md_call_count d \<and> 0 \<le> md_error_rate d \<and> md_error_rate d \<le> 1 \<and>
    md_min_time d \<le> md_avg_time d \<and> md_avg_time d \<le> md_max_time d"
proof -
  obtain t where "me_min_time me = Some t" using assms by (cases "me_min_time me") (simp_all add: metrics_ok_def)
  then show ?thesis
    using assms by (simp add: metrics_ok_def metrics_to_dict_def avg_time_def Let_def pos_le_divide_eq pos_divide_le_eq mult.commute)
qed

section \<open>Properties\<close>


definition demo_reg :: "nat \<Rightarrow> int \<Rightarrow> bool \<Rightarrow> registration" where
  "demo_reg i p once = \<lparr>rg_callback = \<lparr>cb_id = i, cb_name = ''f''\<rparr>, rg_priority = p, rg_once = once, rg_namespace = ''default'',
     rg_tags = [], rg_filters = [], rg_rollback_handler = Some 7, rg_error_handler = None, rg_max_retries = 0, rg_callback_type = []\<rparr>"

definition demo_fw_env :: fw_env where
  "demo_fw_env = \<lparr>we_filters = \<lparr>fe_validator = \<lambda>i call. Inr True, fe_modifier = \<lambda>i call. Inr call,
       fe_condition = \<lambda>i event cb call. Inr True, fe_custom = \<lambda>i event cb call. Inr (filter_action_result CONTINUE)\<rparr>,
     we_signature = \<lambda>cb. None, we_call = \<lambda>cb n call. if cb_id cb = 9 then Failed ValueError else Value (PInt (int (cb_id cb))),
     we_clock = \<lambda>n. of_nat n, we_session = PNone\<rparr>"

definition demo_ops :: "fw_op list" where
  "demo_ops = [Register ''e'' (demo_reg 1 5 True), Register ''e'' (demo_reg 2 9 False), Register ''e'' (demo_reg 3 5 False),
     AddBreaker ''e'' \<lparr>cb_id = 1, cb_name = ''f''\<rparr> 2 60, AddHook ''e'' AFTER 4, Trigger demo_fw_env ''e'' ([], [])]"

lemma demo_fw_reachable: "fw_reachable (fold fw_step demo_ops (framework_init True))"
  unfolding demo_ops_def fold_simps
  by (intro fw_reachable.intros) (simp_all add: demo_reg_def)


text \<open>C32: after any run, the callbacks of an event and of a chain stand in the order in which they run:
  higher priority first, and of equal priority the one registered first; none stands there twice.\<close>

theorem callbacks_run_in_order:
  assumes "fw_reachable fw"
  shows "let before = (\<lambda>r s. ci_priority (fw_infos fw ! s) < ci_priority (fw_infos fw ! r) \<or>
           ci_priority (fw_infos fw ! s) = ci_priority (fw_infos fw ! r) \<and> r < s) in
    (\<forall>event. sorted_wrt before (dget_default [] (fw_callbacks fw) event) \<and> distinct (dget_default [] (fw_callbacks fw) event)) \<and>
    (\<forall>event ch. dget (fw_chains fw) event = Some ch \<longrightarrow> sorted_wrt before (chn_callbacks ch) \<and> distinct (chn_callbacks ch))"
proof -
  have b: "runs_before (fw_infos fw) = (\<lambda>r s. ci_priority (fw_infos fw ! s) < ci_priority (fw_infos fw ! r) \<or>
      ci_priority (fw_infos fw ! s) = ci_priority (fw_infos fw ! r) \<and> r < s)"
    by (simp add: fun_eq_iff runs_before_def)
  have "callbacks_wf fw" by (rule reachable_callbacks_wf[OF assms])
  then show ?thesis
    unfolding Let_def b[symmetric] callbacks_wf_def chain_wf_def using ordered_refs_distinct ordered_refs_def by metis
qed

theorem callbacks_run_in_order_witness:
  "distinct (dget_default [] (fw_callbacks (fold fw_step demo_ops (framework_init True))) ''e'') \<and>
   dget_default [] (fw_callbacks (fold fw_step demo_ops (framework_init True))) ''e'' = [1, 0, 2]"
proof
  show "distinct (dget_default [] (fw_callbacks (fold fw_step demo_ops (framework_init True))) ''e'')"
    using callbacks_run_in_order[OF demo_fw_reachable] by (simp add: Let_def)
  show "dget_default [] (fw_callbacks (fold fw_step demo_ops (framework_init True))) ''e'' = [1, 0, 2]" by code_simp
qed




text \<open>C34: the metrics reported after any run make sense: no more errors than calls, at least one call, an
  error rate between 0 and 1, and an average time between the minimum and the maximum.\<close>

theorem metrics_are_sane:
  assumes "fw_reachable fw" and "(key, d) \<in> set (get_metrics event callback fw)"
  shows "md_error_count d \<le> md_call_count d \<and> 0 < md_call_count d \<and> 0 \<le> md_error_rate d \<and> md_error_rate d \<le> 1 \<and>
    md_min_time d \<le> md_avg_time d \<and> md_avg_time d \<le> md_max_time d"
proof -
  obtain me where me: "(key, me) \<in> set (fw_metrics fw)" and d: "d = metrics_to_dict me"
    using assms(2) by (auto simp: get_metrics_def)
  then have "metrics_ok me \<and> 0 < me_call_count me"
    using reachable_metrics[OF assms(1)] unfolding metrics_wf_def by force
  then show ?thesis using metrics_dict_ok[of me] by (simp add: d Let_def)
qed

theorem metrics_are_sane_witness:
  "\<exists>d. (''e:f'', d) \<in> set (get_metrics None None (fold fw_step demo_ops (framework_init True))) \<and> md_call_count d = 3 \<and>
     md_min_time d \<le> md_avg_time d"
proof -
  let ?fw = "fold fw_step demo_ops (framework_init True)"
  obtain d where d: "get_metrics None None ?fw = [(''e:f'', d)]" and n: "md_call_count d = 3"
  proof -
    have "map (\<lambda>(k, d). (k, md_call_count d)) (get_metrics None None ?fw) = [(''e:f'', 3)]" by code_simp
    then show thesis using that by (auto simp: map_eq_Cons_conv)
  qed
  have "(''e:f'', d) \<in> set (get_metrics None None ?fw)" by (simp only: d list.set insertI1)
  from metrics_are_sane[OF demo_fw_reachable this] n this show ?thesis by blast
qed

end
