(* ===== verification/Callback_Contract.thy ===== *)
theory Callback_Contract
  imports Callback_Runs
begin

text \<open>
  What one call of \<open>trigger\<close> does with the callbacks of an event: which it calls, in which order and with
  what, what it returns and which hooks it runs around them; and that a callback behind an open
  circuit breaker is not called.
\<close>

section \<open>Reading a trace\<close>

definition calls :: "fw_event list \<Rightarrow> (nat \<times> call_args) list" where
  "calls es = List.map_filter (\<lambda>e. case e of CallbackCalled r c \<Rightarrow> Some (r, c) | _ \<Rightarrow> None) es"

definition returns :: "fw_event list \<Rightarrow> pyval list" where
  "returns es = List.map_filter (\<lambda>e. case e of CallbackReturned r x \<Rightarrow> Some x | _ \<Rightarrow> None) es"

definition hooks_of :: "framework \<Rightarrow> string \<Rightarrow> hook_type \<Rightarrow> nat list" where
  "hooks_of fw event t = dget_default [] (dget_default [] (fw_hooks fw) event) t"

definition hook_calls :: "framework \<Rightarrow> string \<Rightarrow> hook_type \<Rightarrow> call_args \<Rightarrow> fw_event list" where
  "hook_calls fw event t call = map (\<lambda>h. HookCalled t h call) (hooks_of fw event t)"

lemma calls_append [simp]: "calls (xs @ ys) = calls xs @ calls ys" and returns_append [simp]: "returns (xs @ ys) = returns xs @ returns ys"
  by (simp_all add: calls_def returns_def map_filter_append)

lemma calls_simps [simp]:
  "calls [] = []" "calls (CallbackCalled r c # es) = (r, c) # calls es" "calls (CallbackReturned r x # es) = calls es"
  "returns [] = []" "returns (CallbackCalled r c # es) = returns es" "returns (CallbackReturned r x # es) = x # returns es"
  by (simp_all add: calls_def returns_def List.map_filter_def)

lemma calls_hooks [simp]: "calls (hook_calls fw event t call) = []" and returns_hooks [simp]: "returns (hook_calls fw event t call) = []"
  by (simp_all add: calls_def returns_def List.map_filter_def hook_calls_def filter_empty_conv)

lemma trace_hooks: "fw_trace (execute_hooks event t call fw) = fw_trace fw @ hook_calls fw event t call"
  by (simp add: execute_hooks_def hook_calls_def hooks_of_def Let_def)

lemma trace_steps [simp]:
  "fw_trace (update_metrics E key secs is_error fw) = fw_trace fw" "fw_trace (on_breaker g b fw) = fw_trace fw"
  "fw_trace (breaker_success event cb fw) = fw_trace fw" "fw_trace (breaker_failure E event cb fw) = fw_trace fw"
  "fw_trace (record_history E event call fw) = fw_trace fw" "fw_trace (disable_once r fw) = fw_trace fw"
  "fw_trace (trace_event e fw) = fw_trace fw @ [e]"
  by (simp_all add: tick_def update_metrics_def on_breaker_def breaker_success_def breaker_failure_def trace_event_def disable_once_def
      record_history_def Let_def split: option.split filter_obj.split)

lemma trace_apply_filter_list: "fw_trace (snd (apply_filter_list E event cb fs call same fw)) = fw_trace fw"
  by (induction E event cb fs call same fw rule: apply_filter_list.induct)
    (auto simp: tick_def Let_def split: prod.splits sum.splits filter_action.splits)

lemma trace_apply_filters: "apply_filters E event cb call fw = (res, fw') \<Longrightarrow> fw_trace fw' = fw_trace fw"
  using trace_apply_filter_list[of E event cb "all_filters event cb fw" call True fw] by (simp add: apply_filters_def)

section \<open>Hooks stay\<close>

definition keeps_hooks :: "framework \<Rightarrow> framework \<Rightarrow> bool" where
  "keeps_hooks fw fw' \<longleftrightarrow> fw_frame fw fw' \<and> hooks_of fw' = hooks_of fw"

lemma keeps_hooksI: "fw_frame fw fw' \<Longrightarrow> fw_hooks fw' = fw_hooks fw \<Longrightarrow> keeps_hooks fw fw'"
  by (simp add: keeps_hooks_def hooks_of_def fun_eq_iff)

interpretation hooks: trigger_steps E keeps_hooks for E
proof
  fix fw1 fw2 fw3 assume "keeps_hooks fw1 fw2" "keeps_hooks fw2 fw3"
  then show "keeps_hooks fw1 fw3" unfolding keeps_hooks_def using frame.trans by metis
next
  show "keeps_hooks fw (fw\<lparr>fw_filter_objs := (fw_filter_objs fw)[f :=
      snd (run_filter (we_filters E) event cb (we_clock E n) call (fw_filter_objs fw ! f))]\<rparr>)" for fw f event cb n call
    by (rule keeps_hooksI[OF frame.filtered]) simp
  show "keeps_hooks fw (on_breaker (record_success event cb) b fw)" for fw event cb b
    by (rule keeps_hooksI[OF frame.succeeded]) (simp add: on_breaker_def split: filter_obj.split)
  show "keeps_hooks fw (on_breaker (record_failure event cb (we_clock E n)) b fw)" for fw event cb n b
    by (rule keeps_hooksI[OF frame.failed]) (simp add: on_breaker_def split: filter_obj.split)
  show "keeps_hooks fw (execute_hooks event t call fw)" for fw event t call
    using frame.hooked by (auto simp: keeps_hooks_def hooks_of_def execute_hooks_def Let_def fun_eq_iff)
  show "keeps_hooks fw (trace_event (CallbackCalled r call) fw)" for fw r call
    by (rule keeps_hooksI[OF frame.called]) (simp add: trace_event_def)
  show "keeps_hooks fw (trace_event (CallbackReturned r x) (disable_once r fw))" if "registered fw r" "ci_enabled (fw_infos fw ! r)" for fw r x
    by (rule keeps_hooksI[OF frame.returned[OF that]]) (simp add: trace_event_def disable_once_def)
qed (simp_all add: keeps_hooksI frame.refl frame.ticked frame.recorded frame.measured, simp add: keeps_hooks_def frame.same)

section \<open>One callback\<close>

definition session_given :: "pdict \<Rightarrow> bool" where
  "session_given kwargs \<longleftrightarrow> py_truthy (dget_default PNone kwargs ''session'')"

definition plain_call :: "fw_env \<Rightarrow> framework \<Rightarrow> call_args \<Rightarrow> nat \<Rightarrow> nat \<times> call_args" where
  "plain_call E fw call r = (let cb = ci_callback (fw_infos fw ! r) in (r, inject_session E cb (narrow_call E cb call)))"

lemma fst_plain_call [simp]: "fst (plain_call E fw call r) = r"
  by (simp add: plain_call_def Let_def)

definition unfiltered :: "framework \<Rightarrow> string \<Rightarrow> nat \<Rightarrow> bool" where
  "unfiltered fw event r \<longleftrightarrow> all_filters event (ci_callback (fw_infos fw ! r)) fw = []"

definition aborted :: "fw_env \<Rightarrow> framework \<Rightarrow> nat \<times> call_args \<Rightarrow> py_error \<Rightarrow> bool" where
  "aborted E fw rc e \<longleftrightarrow> (\<exists>n cause. we_call E (ci_callback (fw_infos fw ! fst rc)) n (snd rc) = Abort cause \<and>
     e = (case cause of None \<Rightarrow> abort_error | Some e \<Rightarrow> e))"

text \<open>What one turn adds to the trace, in general and for a callback without filters.\<close>

definition turn_trace :: "nat \<Rightarrow> trigger_vars \<Rightarrow> framework \<Rightarrow> fw_event list \<Rightarrow> trigger_step \<Rightarrow> bool" where
  "turn_trace r v fw es out \<longleftrightarrow> fw_trace (step_state out) = fw_trace fw @ es \<and>
     (map fst (calls es) = [] \<or> runs fw r \<and> map fst (calls es) = [r]) \<and>
     (case out of NextOne v' fw' \<Rightarrow> tv_results v' = tv_results v @ returns es
      | BreakLoop v' fw' \<Rightarrow> v' = v \<and> es = [] | RaiseOut e fw' \<Rightarrow> True)"

definition plain_turn :: "fw_env \<Rightarrow> pyval list \<Rightarrow> nat \<Rightarrow> trigger_vars \<Rightarrow> framework \<Rightarrow> fw_event list \<Rightarrow> trigger_step \<Rightarrow> bool" where
  "plain_turn E args r v fw es out \<longleftrightarrow>
     calls es = (if runs fw r then [plain_call E fw (args, tv_kwargs v) r] else []) \<and>
     (case out of NextOne v' fw' \<Rightarrow> tv_kwargs v' = tv_kwargs v | BreakLoop v' fw' \<Rightarrow> False
      | RaiseOut e fw' \<Rightarrow> runs fw r \<and> aborted E fw (plain_call E fw (args, tv_kwargs v) r) e)"

lemma failure_trace:
  assumes "handle_failure E event args r c v fw = out"
  shows "\<exists>es. fw_trace (step_state out) = fw_trace fw @ es \<and> calls es = [] \<and> returns es = [] \<and>
    (\<forall>v' fw'. out \<noteq> BreakLoop v' fw') \<and> (\<forall>v' fw'. out = NextOne v' fw' \<longrightarrow> v' = v) \<and>
    (tv_start v \<noteq> None \<longrightarrow> (\<forall>e fw'. out = RaiseOut e fw' \<longrightarrow>
       (\<exists>cause. c = Abort cause \<and> e = (case cause of None \<Rightarrow> abort_error | Some e \<Rightarrow> e))))"
proof (cases "tv_start v")
  case None
  then show ?thesis using assms by (intro exI[of _ "[]"]) (auto simp: handle_failure_def tick_def)
next
  case (Some start)
  let ?fw3 = "breaker_failure E event (ci_callback (fw_infos fw ! r))
      (update_metrics E (callback_key event (ci_callback (fw_infos fw ! r))) (we_clock E (fw_ticks fw) - start) True (fw\<lparr>fw_ticks := fw_ticks fw + 1\<rparr>))"
  have "fw_trace (execute_hooks event ERROR (PObj 0 # args, tv_kwargs v) ?fw3) =
      fw_trace fw @ hook_calls ?fw3 event ERROR (PObj 0 # args, tv_kwargs v)"
    by (simp add: trace_hooks)
  then show ?thesis using assms Some
    by (intro exI[of _ "hook_calls ?fw3 event ERROR (PObj 0 # args, tv_kwargs v)"])
      (auto simp: handle_failure_def tick_def Let_def split: call_outcome.splits option.splits)
qed

lemma call_trace:
  assumes "call_recorded E r final same kwargs fw = (c, kwargs', fw')"
  shows "fw_trace fw' = fw_trace fw @ [CallbackCalled r (snd (plain_call E fw final r))]"
    and "c = we_call E (ci_callback (fw_infos fw ! r)) (length (fw_trace fw)) (snd (plain_call E fw final r))"
    and "kwargs' = (if same \<and> shares_kwargs E (ci_callback (fw_infos fw ! r)) then snd (snd (plain_call E fw final r)) else kwargs)"
  using assms by (auto simp: call_recorded_def call_callback_def share_history_def plain_call_def Let_def)

text \<open>A callback that shares the keyword arguments gets all of them, so with a session given nothing is put in.\<close>

lemma session_kept:
  assumes "session_given (snd call)" and "shares_kwargs E (ci_callback (fw_infos fw ! r))"
  shows "snd (snd (plain_call E fw call r)) = snd call"
  using assms by (auto simp: plain_call_def shares_kwargs_def narrow_call_def inject_session_def session_given_def Let_def split: option.splits)


lemma trigger_one_trace:
  assumes "trigger_one E event args r v fw = out"
  shows "\<exists>es. turn_trace r v fw es out \<and>
    (unfiltered fw event r \<and> session_given (tv_kwargs v) \<longrightarrow> plain_turn E args r v fw es out)"
proof (rule trigger_one_cases[of fw r E event args v])
  assume "\<not> runs fw r" "trigger_one E event args r v fw = NextOne v fw"
  then show ?thesis using assms by (intro exI[of _ "[]"]) (auto simp: turn_trace_def plain_turn_def)
next
  fix e fw1 c
  assume ap: "apply_filters E event (ci_callback (fw_infos fw ! r)) (args, tv_kwargs v) fw = (Inl e, fw1)"
    and o: "trigger_one E event args r v fw = handle_failure E event args r c v fw1"
  have f: "\<not> unfiltered fw event r" using ap by (auto simp: unfiltered_def apply_filters_def)
  obtain es where "fw_trace (step_state out) = fw_trace fw1 @ es" "calls es = []" "returns es = []" "\<forall>v' fw'. out \<noteq> BreakLoop v' fw'"
    "\<And>v' fw'. out = NextOne v' fw' \<Longrightarrow> v' = v"
    using failure_trace[of E event args r c v fw1 out] assms o by auto
  then show ?thesis using f trace_apply_filters[OF ap]
    by (intro exI[of _ es]) (cases out; simp add: turn_trace_def)
next
  fix fr same fw1
  assume on: "runs fw r" and ap: "apply_filters E event (ci_callback (fw_infos fw ! r)) (args, tv_kwargs v) fw = (Inr (fr, same), fw1)"
    and a: "fr_action fr = STOP" and o: "trigger_one E event args r v fw = BreakLoop v fw1"
  have f: "\<not> unfiltered fw event r" using ap a by (auto simp: unfiltered_def apply_filters_def)
  then show ?thesis using assms o trace_apply_filters[OF ap] by (intro exI[of _ "[]"]) (auto simp: turn_trace_def)
next
  fix fr same fw1
  assume on: "runs fw r" and ap: "apply_filters E event (ci_callback (fw_infos fw ! r)) (args, tv_kwargs v) fw = (Inr (fr, same), fw1)"
    and a: "fr_action fr = SKIP" and o: "trigger_one E event args r v fw = NextOne v fw1"
  have f: "\<not> unfiltered fw event r" using ap a by (auto simp: unfiltered_def apply_filters_def)
  then show ?thesis using assms o trace_apply_filters[OF ap] by (intro exI[of _ "[]"]) (auto simp: turn_trace_def)
next
  fix fr same fw1 c kwargs fw2 fw3 v1
  let ?cb = "ci_callback (fw_infos fw ! r)"
  assume on: "runs fw r" and ap: "apply_filters E event ?cb (args, tv_kwargs v) fw = (Inr (fr, same), fw1)"
    and fw2: "fw2 = fw1\<lparr>fw_ticks := fw_ticks fw1 + 1\<rparr>"
    and call: "call_recorded E r (final_call fr (args, tv_kwargs v)) (final_same fr same) (tv_kwargs v) fw2 = (c, kwargs, fw3)"
    and v1: "v1 = v\<lparr>tv_start := Some (we_clock E (fw_ticks fw1)), tv_kwargs := kwargs\<rparr>" and i3: "fw_infos fw3 = fw_infos fw"
    and o: "trigger_one E event args r v fw = (case c of
        Value x \<Rightarrow> NextOne (v1\<lparr>tv_results := tv_results v1 @ [x]\<rparr>)
          (trace_event (CallbackReturned r x) (disable_once r (update_called E event ?cb (we_clock E (fw_ticks fw1)) fw3)))
      | _ \<Rightarrow> handle_failure E event args r c v1 fw3)"
  have i2: "fw_infos fw2 = fw_infos fw"
    using infos_apply_filters[of E event ?cb "(args, tv_kwargs v)" fw] unfolding ap fw2 by simp
  let ?called = "plain_call E fw2 (final_call fr (args, tv_kwargs v)) r"
  have t3: "fw_trace fw3 = fw_trace fw @ [CallbackCalled r (snd ?called)]"
    using call_trace(1)[OF call] trace_apply_filters[OF ap] by (simp add: fw2)
  have plain: "final_call fr (args, tv_kwargs v) = (args, tv_kwargs v)" if "unfiltered fw event r"
    using ap that by (auto simp: unfiltered_def apply_filters_def final_call_def split: list.split)
  have pc: "plain_call E fw2 call r = plain_call E fw call r" for call by (simp add: plain_call_def i2)
  have rc: "(r, snd (plain_call E fw call r)) = plain_call E fw call r" for call by (metis fst_plain_call prod.collapse)
  have kw: "kwargs = tv_kwargs v" if "unfiltered fw event r" "session_given (tv_kwargs v)"
    using call_trace(3)[OF call] session_kept[of "(args, tv_kwargs v)" E fw2 r] plain[OF that(1)] that(2) by auto
  show ?thesis
  proof (cases "\<exists>x. c = Value x")
    case True
    then obtain x where x: "c = Value x" by blast
    then show ?thesis
      using assms o t3 on kw v1 plain
      by (intro exI[of _ "[CallbackCalled r (snd ?called), CallbackReturned r x]"]) (auto simp: turn_trace_def plain_turn_def pc rc)
  next
    case False
    then have h: "handle_failure E event args r c v1 fw3 = out" using assms o by (cases c) auto
    obtain es where es: "fw_trace (step_state out) = fw_trace fw3 @ es" "calls es = []" "returns es = []" "\<forall>v' fw'. out \<noteq> BreakLoop v' fw'"
      "\<And>v' fw'. out = NextOne v' fw' \<Longrightarrow> v' = v1"
      "\<And>e fw'. out = RaiseOut e fw' \<Longrightarrow> \<exists>cause. c = Abort cause \<and> e = (case cause of None \<Rightarrow> abort_error | Some e \<Rightarrow> e)"
      using failure_trace[OF h] v1 by auto
    have ab: "aborted E fw ?called e" if out: "out = RaiseOut e fw'" for e fw'
    proof -
      obtain cause where "c = Abort cause" "e = (case cause of None \<Rightarrow> abort_error | Some e \<Rightarrow> e)" using es(6)[OF out] by blast
      then show ?thesis using call_trace(2)[OF call] i2 by (auto simp: aborted_def intro!: exI[of _ "length (fw_trace fw2)"] exI[of _ cause])
    qed
    show ?thesis
      using es ab on kw v1 plain t3
      by (intro exI[of _ "CallbackCalled r (snd ?called) # es"]) (cases out; auto simp: turn_trace_def plain_turn_def pc rc)
  qed
qed


section \<open>All callbacks of an event\<close>

lemma trigger_one_infos:
  assumes "s \<noteq> r"
  shows "fw_infos (step_state (trigger_one E event args r v fw)) ! s = fw_infos fw ! s"
proof -
  have h: "fw_infos (step_state (handle_failure E event args r c v fw)) = fw_infos fw" for c v fw
    by (auto simp: handle_failure_def tick_def Let_def split: option.split call_outcome.split)
  have a: "fw_infos fw1 = fw_infos fw" if "apply_filters E event cb call fw = (res, fw1)" for cb call res fw1
    using infos_apply_filters[of E event cb call fw] that by simp
  show ?thesis
    by (rule trigger_one_cases[of fw r E event args v])
      (auto simp: h disable_once_def nth_list_update_neq[OF assms[symmetric]] dest!: a split: call_outcome.split)
qed

text \<open>The callbacks after one turn are the callbacks before it.\<close>

lemma after_turn:
  assumes "trigger_one E event args r v fw = NextOne v' fw'" and "registered fw r" and "s \<noteq> r"
  shows "runs fw' s = runs fw s" and "plain_call E fw' call s = plain_call E fw call s" and "unfiltered fw' event s = unfiltered fw event s"
    and "registered fw' s = registered fw s" and "fst rc = s \<Longrightarrow> aborted E fw' rc e = aborted E fw rc e"
proof -
  have f: "fw_frame fw fw'" using frame.trigger_one_R[OF assms(2), of E event args v] assms(1) by simp
  have i: "fw_infos fw' ! s = fw_infos fw ! s" using trigger_one_infos[OF assms(3), of E event args v fw] assms(1) by simp
  show "runs fw' s = runs fw s" "plain_call E fw' call s = plain_call E fw call s" "unfiltered fw' event s = unfiltered fw event s"
    "registered fw' s = registered fw s" "fst rc = s \<Longrightarrow> aborted E fw' rc e = aborted E fw rc e"
    using f by (auto simp: runs_def plain_call_def unfiltered_def registered_def aborted_def fw_frame_def all_filters_def i)
qed

definition loop_trace :: "nat list \<Rightarrow> trigger_vars \<Rightarrow> framework \<Rightarrow> fw_event list \<Rightarrow> trigger_step \<Rightarrow> bool" where
  "loop_trace refs v fw es out \<longleftrightarrow> fw_trace (step_state out) = fw_trace fw @ es \<and>
     subseq (map fst (calls es)) (filter (runs fw) refs) \<and> (\<forall>v' fw'. out \<noteq> NextOne v' fw') \<and>
     (\<forall>v' fw'. out = BreakLoop v' fw' \<longrightarrow> tv_results v' = tv_results v @ returns es)"

definition plain_loop :: "fw_env \<Rightarrow> call_args \<Rightarrow> nat list \<Rightarrow> framework \<Rightarrow> fw_event list \<Rightarrow> py_error option \<Rightarrow> bool" where
  "plain_loop E call refs fw es err \<longleftrightarrow>
     (case err of
        None \<Rightarrow> calls es = map (plain_call E fw call) (filter (runs fw) refs)
      | Some e \<Rightarrow> (\<exists>done' r rest. filter (runs fw) refs = done' @ r # rest \<and> calls es = map (plain_call E fw call) (done' @ [r]) \<and>
          aborted E fw (plain_call E fw call r) e))"

primrec step_error :: "trigger_step \<Rightarrow> py_error option" where
  "step_error (NextOne v fw) = None"
| "step_error (BreakLoop v fw) = None"
| "step_error (RaiseOut e fw) = Some e"

lemma trigger_loop_trace:
  assumes "distinct refs" and "\<forall>r \<in> set refs. registered fw r"
  shows "\<exists>es. loop_trace refs v fw es (trigger_loop E event args refs v fw) \<and>
    ((\<forall>r \<in> set refs. unfiltered fw event r) \<and> session_given (tv_kwargs v) \<longrightarrow>
       plain_loop E (args, tv_kwargs v) refs fw es (step_error (trigger_loop E event args refs v fw)))"
  using assms
proof (induction refs arbitrary: v fw)
  case Nil
  show ?case by (intro exI[of _ "[]"]) (simp add: loop_trace_def plain_loop_def)
next
  case (Cons r refs)
  let ?out = "trigger_one E event args r v fw"
  obtain es1 where t: "turn_trace r v fw es1 ?out"
    and p: "unfiltered fw event r \<Longrightarrow> session_given (tv_kwargs v) \<Longrightarrow> plain_turn E args r v fw es1 ?out"
    using trigger_one_trace[OF refl] by blast
  show ?case
  proof (cases ?out)
    case (BreakLoop v' fw')
    then show ?thesis using t p
      by (intro exI[of _ es1]) (auto simp: turn_trace_def plain_turn_def loop_trace_def)
  next
    case (RaiseOut e fw')
    have "plain_loop E (args, tv_kwargs v) (r # refs) fw es1 (Some e)" if "unfiltered fw event r" "session_given (tv_kwargs v)"
      using p[OF that] by (auto simp: plain_turn_def plain_loop_def RaiseOut intro!: exI[of _ "[]"])
    then show ?thesis using t RaiseOut
      by (intro exI[of _ es1]) (auto simp: turn_trace_def loop_trace_def)
  next
    case (NextOne v' fw')
    have r: "registered fw r" using Cons.prems(2) by simp
    have ne: "s \<noteq> r" if "s \<in> set refs" for s using Cons.prems(1) that by auto
    note after = after_turn[OF NextOne r ne]
    have "\<forall>s \<in> set refs. registered fw' s" using after(4) Cons.prems(2) by auto
    with Cons.IH[of fw' v'] Cons.prems(1) obtain es2 where
      l: "loop_trace refs v' fw' es2 (trigger_loop E event args refs v' fw')" and
      q: "(\<forall>r \<in> set refs. unfiltered fw' event r) \<Longrightarrow> session_given (tv_kwargs v') \<Longrightarrow>
        plain_loop E (args, tv_kwargs v') refs fw' es2 (step_error (trigger_loop E event args refs v' fw'))" by auto
    have fl: "filter (runs fw') refs = filter (runs fw) refs" by (rule filter_cong) (use after(1) in auto)
    have "loop_trace (r # refs) v fw (es1 @ es2) (trigger_loop E event args (r # refs) v fw)"
      using t l fl by (auto simp: loop_trace_def turn_trace_def NextOne)
    moreover have "plain_loop E (args, tv_kwargs v) (r # refs) fw (es1 @ es2) (step_error (trigger_loop E event args (r # refs) v fw))"
      if u: "\<forall>r \<in> set (r # refs). unfiltered fw event r" and sg: "session_given (tv_kwargs v)"
    proof -
      have P: "plain_turn E args r v fw es1 ?out" using p u sg by simp
      then have kw: "tv_kwargs v' = tv_kwargs v" by (simp add: plain_turn_def NextOne)
      have Q: "plain_loop E (args, tv_kwargs v) refs fw' es2 (step_error (trigger_loop E event args refs v' fw'))"
        using q u sg after(3) by (simp add: kw)
      have pc: "map (plain_call E fw' call) xs = map (plain_call E fw call) xs" if "set xs \<subseteq> set refs" for xs call
        by (cases call; rule map_cong) (use after(2) that in auto)
      show ?thesis
      proof (cases "step_error (trigger_loop E event args refs v' fw')")
        case None
        then show ?thesis using P Q pc[of "filter (runs fw) refs"] by (simp add: plain_loop_def plain_turn_def NextOne fl)
      next
        case (Some e)
        then obtain xs s rest where S: "filter (runs fw) refs = xs @ s # rest"
          "calls es2 = map (plain_call E fw' (args, tv_kwargs v)) (xs @ [s])" "aborted E fw' (plain_call E fw' (args, tv_kwargs v) s) e"
          using Q by (auto simp: plain_loop_def fl)
        have sub: "set (xs @ [s]) \<subseteq> set refs" using arg_cong[OF S(1), of set] by auto
        have "aborted E fw (plain_call E fw (args, tv_kwargs v) s) e"
          using S(3) after(2,5)[of s] sub by simp
        then show ?thesis using P S pc[OF sub] Some
          by (auto simp: plain_loop_def plain_turn_def NextOne split: if_splits intro: exI[of _ "r # xs"] exI[of _ xs])
      qed
    qed
    ultimately show ?thesis by blast
  qed
qed


section \<open>Behind an open circuit\<close>

definition clock_within :: "fw_env \<Rightarrow> rat \<Rightarrow> rat \<Rightarrow> bool" where
  "clock_within E t timeout \<longleftrightarrow> (\<forall>n. t \<le> we_clock E n \<and> we_clock E n - t \<le> timeout)"

definition circuit_open :: "string \<Rightarrow> rat \<Rightarrow> rat \<Rightarrow> filter_obj \<Rightarrow> bool" where
  "circuit_open key t timeout f \<longleftrightarrow>
     (\<exists>br n t'. f = CircuitBreakerFilter br \<and> br_timeout br = timeout \<and> circuit key br = (True, n, Some t') \<and> t \<le> t')"

lemma circuit_open_step:
  assumes "circuit_open key t timeout (CircuitBreakerFilter br)" and "t \<le> now" "now - t \<le> timeout"
  shows "circuit_open key t timeout (CircuitBreakerFilter (breaker_step (event, cb, e, now) br))"
proof -
  obtain n t' where c: "br_timeout br = timeout" "circuit key br = (True, n, Some t')" "t \<le> t'"
    using assms(1) by (auto simp: circuit_open_def)
  then show ?thesis using assms(2,3)
    by (cases e) (auto simp: circuit_open_def circuit_breaker_step simp del: breaker_step.simps)
qed

lemma circuit_open_filter:
  assumes "circuit_open key t timeout f" and "t \<le> now" "now - t \<le> timeout"
  shows "circuit_open key t timeout (snd (run_filter FE event cb now call f))"
proof -
  obtain br where f: "f = CircuitBreakerFilter br" using assms(1) by (auto simp: circuit_open_def)
  show ?thesis using circuit_open_step[of key t timeout br now event cb Ask] assms by (simp add: f split_beta)
qed

lemma circuit_open_skips:
  assumes "circuit_open (callback_key event cb) t timeout f" and "t \<le> now" "now - t \<le> timeout"
  shows "fst (run_filter FE event cb now call f) = Inr (filter_action_result SKIP)"
  using assms by (auto simp: circuit_open_def circuit_def breaker_filter_def Let_def)

definition shielded :: "nat \<Rightarrow> string \<Rightarrow> rat \<Rightarrow> rat \<Rightarrow> framework \<Rightarrow> bool" where
  "shielded b key t timeout fw \<longleftrightarrow> b < length (fw_filter_objs fw) \<and> circuit_open key t timeout (fw_filter_objs fw ! b)"

definition keeps_shield :: "nat \<Rightarrow> string \<Rightarrow> rat \<Rightarrow> rat \<Rightarrow> fw_env \<Rightarrow> framework \<Rightarrow> framework \<Rightarrow> bool" where
  "keeps_shield b key t timeout E fw fw' \<longleftrightarrow> fw_frame fw fw' \<and>
     (clock_within E t timeout \<and> shielded b key t timeout fw \<longrightarrow> shielded b key t timeout fw')"

lemma keeps_shieldI: "fw_frame fw fw' \<Longrightarrow> fw_filter_objs fw' = fw_filter_objs fw \<Longrightarrow> keeps_shield b key t timeout E fw fw'"
  by (simp add: keeps_shield_def shielded_def)

lemma shield_breaker:
  assumes "\<And>br. circuit_open key t timeout (CircuitBreakerFilter br) \<Longrightarrow> circuit_open key t timeout (CircuitBreakerFilter (g br))"
    and "shielded b key t timeout fw"
  shows "shielded b key t timeout (on_breaker g b' fw)"
  using assms by (cases "b' = b") (auto simp: shielded_def on_breaker_def split: filter_obj.split)

interpretation shield: trigger_steps E "keeps_shield b key t timeout E" for b key t timeout E
proof
  fix fw1 fw2 fw3 assume "keeps_shield b key t timeout E fw1 fw2" "keeps_shield b key t timeout E fw2 fw3"
  then show "keeps_shield b key t timeout E fw1 fw3" unfolding keeps_shield_def using frame.trans by blast
next
  show "keeps_shield b key t timeout E fw (fw\<lparr>fw_filter_objs := (fw_filter_objs fw)[f :=
      snd (run_filter (we_filters E) event cb (we_clock E n) call (fw_filter_objs fw ! f))]\<rparr>)" for fw f event cb n call
    using frame.filtered[where n = n and call = call] circuit_open_filter[where call = call]
    by (cases "f = b") (simp_all add: keeps_shield_def shielded_def clock_within_def)
  show "keeps_shield b key t timeout E fw (on_breaker (record_success event cb) b' fw)" for fw event cb b'
  proof -
    have "circuit_open key t timeout (CircuitBreakerFilter (record_success event cb br))"
      if "circuit_open key t timeout (CircuitBreakerFilter br)" "clock_within E t timeout" for br
      using circuit_open_step[OF that(1), of "we_clock E 0" event cb Success] that(2) by (simp add: clock_within_def)
    then show ?thesis using frame.succeeded by (auto simp: keeps_shield_def intro!: shield_breaker)
  qed
  show "keeps_shield b key t timeout E fw (on_breaker (record_failure event cb (we_clock E n)) b' fw)" for fw event cb n b'
  proof -
    have "circuit_open key t timeout (CircuitBreakerFilter (record_failure event cb (we_clock E n) br))"
      if "circuit_open key t timeout (CircuitBreakerFilter br)" "clock_within E t timeout" for br
      using circuit_open_step[OF that(1), of "we_clock E n" event cb Failure] that(2) by (simp add: clock_within_def)
    then show ?thesis using frame.failed by (auto simp: keeps_shield_def intro!: shield_breaker)
  qed
  show "keeps_shield b key t timeout E fw (execute_hooks event ht call fw)" for fw event ht call
    by (rule keeps_shieldI[OF frame.hooked]) (simp add: execute_hooks_def Let_def)
  show "keeps_shield b key t timeout E fw (trace_event (CallbackCalled r call) fw)" for fw r call
    by (rule keeps_shieldI[OF frame.called]) (simp add: trace_event_def)
  show "keeps_shield b key t timeout E fw (trace_event (CallbackReturned r x) (disable_once r fw))"
    if "registered fw r" "ci_enabled (fw_infos fw ! r)" for fw r x
    by (rule keeps_shieldI[OF frame.returned[OF that]]) (simp add: trace_event_def disable_once_def)
qed (simp_all add: keeps_shieldI frame.refl frame.ticked frame.recorded frame.measured, simp add: keeps_shield_def frame.same)

lemma shielded_filters_block:
  assumes "b \<in> set fs" and "shielded b (callback_key event cb) t timeout fw" and "clock_within E t timeout"
    and "apply_filter_list E event cb fs call same fw = (Inr (fr, same'), fw')"
  shows "fr_action fr = STOP \<or> fr_action fr = SKIP"
  using assms
proof (induction fs arbitrary: call same fw)
  case (Cons f fs)
  let ?run = "run_filter (we_filters E) event cb (we_clock E (fw_ticks fw)) call (fw_filter_objs fw ! f)"
  let ?fw1 = "fw\<lparr>fw_ticks := fw_ticks fw + 1\<rparr>"
  let ?fw2 = "?fw1\<lparr>fw_filter_objs := (fw_filter_objs fw)[f := snd ?run]\<rparr>"
  have now: "t \<le> we_clock E (fw_ticks fw)" "we_clock E (fw_ticks fw) - t \<le> timeout" using Cons.prems(3) by (simp_all add: clock_within_def)
  show ?case
  proof (cases "f = b")
    case True
    then have "fst ?run = Inr (filter_action_result SKIP)"
      using circuit_open_skips[OF _ now] Cons.prems(2) by (simp add: shielded_def)
    then show ?thesis using Cons.prems(4) by (cases ?run) (auto simp: tick_def filter_action_result_def)
  next
    case False
    then have "b \<in> set fs" using Cons.prems(1) by simp
    moreover have "shielded b (callback_key event cb) t timeout ?fw2"
      using Cons.prems(2) False by (simp add: shielded_def)
    ultimately have IH: "apply_filter_list E event cb fs c s ?fw2 = (Inr (fr, same'), fw') \<Longrightarrow> fr_action fr = STOP \<or> fr_action fr = SKIP" for c s
      using Cons.IH Cons.prems(3) by blast
    show ?thesis
    proof (cases "fst ?run")
      case (Inl e)
      then show ?thesis using Cons.prems(4) by (cases ?run) (simp add: tick_def)
    next
      case (Inr fr')
      then show ?thesis using Cons.prems(4) IH by (cases ?run; cases "fr_action fr'") (auto simp: tick_def)
    qed
  qed
qed simp

lemma shielded_turn:
  assumes "shielded b (callback_key event (ci_callback (fw_infos fw ! r))) t timeout fw" and "clock_within E t timeout"
    and "b \<in> set (dget_default [] (fw_filters fw) event)" and "trigger_one E event args r v fw = out"
  shows "\<exists>es. fw_trace (step_state out) = fw_trace fw @ es \<and> calls es = []"
proof -
  have block: "fr_action fr = STOP \<or> fr_action fr = SKIP"
    if "apply_filters E event (ci_callback (fw_infos fw ! r)) call fw = (Inr (fr, same), fw1)" for call fr same fw1
    by (rule shielded_filters_block[OF _ assms(1,2) that[unfolded apply_filters_def]]) (use assms(3) in \<open>simp add: all_filters_def\<close>)
  show ?thesis
  proof (rule trigger_one_cases[of fw r E event args v])
    fix e fw1 c
    assume ap: "apply_filters E event (ci_callback (fw_infos fw ! r)) (args, tv_kwargs v) fw = (Inl e, fw1)"
      and o: "trigger_one E event args r v fw = handle_failure E event args r c v fw1"
    then have "handle_failure E event args r c v fw1 = out" using assms(4) by simp
    from failure_trace[OF this] trace_apply_filters[OF ap] show ?thesis by auto
  qed (use assms(4) in \<open>auto dest: trace_apply_filters block intro!: exI[of _ "[]"]\<close>)
qed

definition avoids :: "string \<Rightarrow> string \<Rightarrow> framework \<Rightarrow> fw_event list \<Rightarrow> bool" where
  "avoids event key fw es \<longleftrightarrow> (\<forall>r \<in> fst ` set (calls es). callback_key event (ci_callback (fw_infos fw ! r)) \<noteq> key)"

lemma shielded_loop:
  assumes "distinct refs" and "\<forall>r \<in> set refs. registered fw r" and "shielded b key t timeout fw" and "clock_within E t timeout"
    and "b \<in> set (dget_default [] (fw_filters fw) event)"
  shows "\<exists>es. fw_trace (step_state (trigger_loop E event args refs v fw)) = fw_trace fw @ es \<and> avoids event key fw es \<and>
    fst ` set (calls es) \<subseteq> set refs"
  using assms
proof (induction refs arbitrary: v fw)
  case Nil
  show ?case by (intro exI[of _ "[]"]) (simp add: avoids_def)
next
  case (Cons r refs)
  let ?out = "trigger_one E event args r v fw"
  have "\<exists>es. fw_trace (step_state ?out) = fw_trace fw @ es \<and> avoids event key fw es \<and> fst ` set (calls es) \<subseteq> {r}"
  proof (cases "callback_key event (ci_callback (fw_infos fw ! r)) = key")
    case True
    then show ?thesis
      using shielded_turn[OF _ Cons.prems(4,5) refl, where r = r and args = args and v = v] Cons.prems(3) by (auto simp: avoids_def)
  next
    case False
    obtain es where t: "turn_trace r v fw es ?out" using trigger_one_trace[OF refl] by blast
    then have "set (map fst (calls es)) \<subseteq> {r}" unfolding turn_trace_def by auto
    then have "fst ` set (calls es) \<subseteq> {r}" by simp
    then show ?thesis using t False by (intro exI[of _ es]) (auto simp: turn_trace_def avoids_def)
  qed
  then obtain es1 where es1: "fw_trace (step_state ?out) = fw_trace fw @ es1" "avoids event key fw es1" "fst ` set (calls es1) \<subseteq> {r}"
    by blast
  have R: "keeps_shield b key t timeout E fw (step_state ?out)" by (rule shield.trigger_one_R) (simp add: Cons.prems)
  show ?case
  proof (cases ?out)
    case (NextOne v' fw')
    have f: "fw_frame fw fw'" and s: "shielded b key t timeout fw'"
      using R Cons.prems(3,4) by (simp_all add: NextOne keeps_shield_def)
    have i: "fw_infos fw' ! s = fw_infos fw ! s" if "s \<in> set refs" for s
      using trigger_one_infos[of s r E event args v fw] NextOne Cons.prems(1) that by auto
    have "\<forall>s \<in> set refs. registered fw' s" using f Cons.prems(2) by (simp add: registered_def fw_frame_def)
    moreover have "b \<in> set (dget_default [] (fw_filters fw') event)" using f Cons.prems(5) by (simp add: fw_frame_def)
    ultimately obtain es2 where es2: "fw_trace (step_state (trigger_loop E event args refs v' fw')) = fw_trace fw' @ es2"
      "avoids event key fw' es2" "fst ` set (calls es2) \<subseteq> set refs"
      using Cons.IH[of fw' v'] Cons.prems(1,4) s by auto
    have "avoids event key fw es2"
      unfolding avoids_def
    proof
      fix s assume s: "s \<in> fst ` set (calls es2)"
      then have "s \<in> set refs" by (rule subsetD[OF es2(3)])
      then show "callback_key event (ci_callback (fw_infos fw ! s)) \<noteq> key" using bspec[OF es2(2)[unfolded avoids_def] s] i by simp
    qed
    then show ?thesis using es1 es2 NextOne
      by (intro exI[of _ "es1 @ es2"]) (auto simp: avoids_def)
  qed (use es1 in \<open>auto intro!: exI[of _ es1]\<close>)
qed

section \<open>Properties\<close>

text \<open>The state in which the loop starts.\<close>

lemma trigger_start:
  defines "fw0 \<equiv> \<lambda>E event call fw. record_history E event call fw"
    and "fw1 \<equiv> \<lambda>E event call fw. execute_hooks event BEFORE call (record_history E event call fw)"
  shows "keeps_hooks fw (fw1 E event call fw)" and "fw_callbacks (fw1 E event call fw) = fw_callbacks fw"
    and "hook_calls (fw0 E event call fw) event BEFORE call = hook_calls fw event BEFORE call"
    and "runs (fw1 E event call fw) = runs fw" and "plain_call E (fw1 E event call fw) = plain_call E fw"
    and "aborted E (fw1 E event call fw) = aborted E fw" and "unfiltered (fw1 E event call fw) = unfiltered fw"
proof -
  have k: "keeps_hooks fw (fw0 E event call fw)" unfolding fw0_def by (rule hooks.record_history_R)
  show k1: "keeps_hooks fw (fw1 E event call fw)" unfolding fw1_def by (rule hooks.trans[OF hooks.record_history_R hooks.hooked])
  show "fw_callbacks (fw1 E event call fw) = fw_callbacks fw" using k1 by (simp add: keeps_hooks_def fw_frame_def)
  show "hook_calls (fw0 E event call fw) event BEFORE call = hook_calls fw event BEFORE call"
    using k by (simp add: keeps_hooks_def hook_calls_def)
  show "runs (fw1 E event call fw) = runs fw" "plain_call E (fw1 E event call fw) = plain_call E fw"
    "aborted E (fw1 E event call fw) = aborted E fw"
    by (simp_all add: fun_eq_iff runs_def plain_call_def aborted_def fw1_def)
  show "unfiltered (fw1 E event call fw) = unfiltered fw"
    using k1 by (simp add: fun_eq_iff unfiltered_def all_filters_def keeps_hooks_def fw_frame_def) (simp add: fw1_def)
qed

text \<open>C35: what \<open>trigger\<close> does, in any state the framework can be in. It runs the BEFORE hooks, then calls some of the
  enabled callbacks that are no transforms, in the order they stand and each at most once, then runs the AFTER
  hooks with what it returns: the results of the calls that returned, in their order; if it raises, the AFTER
  hooks are left out. Without filters, and with a session in the call, it calls them all, each with what its
  signature takes of the call, whether others fail or not; unless one of them aborts: then it is the last one
  called, and \<open>trigger\<close> raises what it aborts with.\<close>

theorem trigger_contract:
  assumes "fw_reachable fw"
  shows "\<exists>es kwargs. let (res, fw') = trigger E event call fw; refs = filter (runs fw) (dget_default [] (fw_callbacks fw) event) in
    (case res of
       Inr results \<Rightarrow> results = returns es \<and> fw_trace fw' = fw_trace fw @ hook_calls fw event BEFORE call @ es @
         hook_calls fw event AFTER (PList results # fst call, kwargs)
     | Inl e \<Rightarrow> fw_trace fw' = fw_trace fw @ hook_calls fw event BEFORE call @ es) \<and>
    subseq (map fst (calls es)) refs \<and>
    ((\<forall>r \<in> set (dget_default [] (fw_callbacks fw) event). unfiltered fw event r) \<and> session_given (snd call) \<longrightarrow>
       (case res of
          Inr results \<Rightarrow> calls es = map (plain_call E fw call) refs
        | Inl e \<Rightarrow> \<exists>ran r rest. refs = ran @ r # rest \<and> calls es = map (plain_call E fw call) (ran @ [r]) \<and>
            aborted E fw (plain_call E fw call r) e))"
proof -
  let ?fw0 = "record_history E event call fw"
  let ?fw1 = "execute_hooks event BEFORE call ?fw0"
  let ?all = "dget_default [] (fw_callbacks fw) event"
  let ?v = "\<lparr>tv_start = None, tv_results = [], tv_kwargs = snd call\<rparr>"
  let ?out = "trigger_loop E event (fst call) ?all ?v ?fw1"
  note start = trigger_start[where E = E and event = event and call = call and fw = fw] and k1 = trigger_start(1)[where E = E and event = event and call = call and fw = fw] and cbs = trigger_start(2)[where E = E and event = event and call = call and fw = fw]
  have reg: "\<forall>r \<in> set ?all. registered ?fw1 r" by (auto simp: registered_def cbs)
  have dist: "distinct ?all"
    using reachable_callbacks_wf[OF assms] ordered_refs_distinct by (auto simp: callbacks_wf_def)
  obtain es where l: "loop_trace ?all ?v ?fw1 es ?out" and
    p: "(\<forall>r \<in> set ?all. unfiltered ?fw1 event r) \<Longrightarrow> session_given (snd call) \<Longrightarrow> plain_loop E call ?all ?fw1 es (step_error ?out)"
    using trigger_loop_trace[OF dist reg, of ?v E event "fst call"] by auto
  have k2: "keeps_hooks ?fw1 (step_state ?out)" by (rule hooks.trigger_loop_R[OF reg])
  have h2: "hook_calls (step_state ?out) event AFTER c = hook_calls fw event AFTER c" for c
    using hooks.trans[OF k1 k2] by (simp add: keeps_hooks_def hook_calls_def)
  have t: "fw_trace (step_state ?out) = fw_trace fw @ hook_calls fw event BEFORE call @ es"
    using l by (simp add: loop_trace_def trace_hooks start)
  let ?refs = "filter (runs fw) ?all"
  have sub: "subseq (map fst (calls es)) ?refs" using l by (simp add: loop_trace_def start)
  show ?thesis
  proof (cases ?out)
    case (NextOne v fw')
    then show ?thesis using l by (simp add: loop_trace_def)
  next
    case (RaiseOut e fw')
    then have tr: "trigger E event call fw = (Inl e, fw')" by (simp add: trigger_def cbs)
    then show ?thesis using t sub p RaiseOut
      by (intro exI[of _ es]) (auto simp: plain_loop_def start)
  next
    case (BreakLoop v fw')
    then have tr: "trigger E event call fw =
        (Inr (tv_results v), execute_hooks event AFTER (PList (tv_results v) # fst call, tv_kwargs v) fw')"
      by (simp add: trigger_def cbs)
    have "tv_results v = returns es" using l BreakLoop by (simp add: loop_trace_def)
    then show ?thesis using t sub p BreakLoop h2 tr
      by (intro exI[of _ es] exI[of _ "tv_kwargs v"]) (simp add: plain_loop_def start trace_hooks)
  qed
qed

definition demo_fw :: framework where
  "demo_fw = fold fw_step [Register ''e'' (demo_reg 9 5 False), Register ''e'' (demo_reg 2 7 False), Register ''e'' (demo_reg 3 1 True),
     AddHook ''e'' AFTER 4] (framework_init True)"

lemma demo_fw_is_reachable: "fw_reachable demo_fw"
  unfolding demo_fw_def fold_simps
  by (intro fw_reachable.intros) (simp_all add: demo_reg_def)

text \<open>Of three callbacks the second fails.\<close>

theorem trigger_contract_witness:
  "\<exists>es. map fst (calls es) = [1, 0, 2] \<and> returns es = [PInt 2, PInt 3]"
proof -
  let ?call = "([], [(''session'', PInt 1)])"
  have r: "fst (trigger demo_fw_env ''e'' ?call demo_fw) = Inr [PInt 2, PInt 3]"
    and refs: "filter (runs demo_fw) (dget_default [] (fw_callbacks demo_fw) ''e'') = [1, 0, 2]"
    and u: "\<forall>r \<in> set (dget_default [] (fw_callbacks demo_fw) ''e''). unfiltered demo_fw ''e'' r"
    and s: "session_given (snd ?call)" by code_simp+
  obtain fw' where tr: "trigger demo_fw_env ''e'' ?call demo_fw = (Inr [PInt 2, PInt 3], fw')"
    using r by (cases "trigger demo_fw_env ''e'' ?call demo_fw") simp
  obtain es where "returns es = [PInt 2, PInt 3]" "calls es = map (plain_call demo_fw_env demo_fw ?call) [1, 0, 2]"
    using trigger_contract[OF demo_fw_is_reachable, of demo_fw_env "''e''" ?call] u s
    unfolding tr refs by (auto simp: Let_def)
  then show ?thesis by (intro exI[of _ es]) simp
qed

text \<open>A circuit breaker of an event whose circuit is open keeps the callbacks it guards from being called by
  \<open>trigger\<close> as long as the clock shows no more than its timeout after the failure that opened it, whatever the
  other filters and callbacks of the event do, with arguments changed by filters or not.\<close>

theorem open_circuit_blocks:
  assumes "fw_reachable fw" and "b \<in> set (dget_default [] (fw_filters fw) event)"
    and "fw_filter_objs fw ! b = CircuitBreakerFilter br" and "circuit key br = (True, n, Some t)"
    and "\<forall>m. t \<le> we_clock E m \<and> we_clock E m - t \<le> br_timeout br"
  shows "\<exists>es. fw_trace (snd (trigger E event call fw)) = fw_trace fw @ es \<and>
    (\<forall>r \<in> fst ` set (calls es). callback_key event (ci_callback (fw_infos fw ! r)) \<noteq> key)"
proof -
  let ?fw1 = "execute_hooks event BEFORE call (record_history E event call fw)"
  let ?all = "dget_default [] (fw_callbacks fw) event" and ?v = "\<lparr>tv_start = None, tv_results = [], tv_kwargs = snd call\<rparr>"
  let ?out = "trigger_loop E event (fst call) ?all ?v ?fw1"
  note start = trigger_start[where E = E and event = event and call = call and fw = fw]
  have clock: "clock_within E t (br_timeout br)" using assms(5) by (simp add: clock_within_def)
  have fb: "filter_ref (fw_filter_objs fw) b" using reachable_filters_wf[OF assms(1)] assms(2) by (simp add: filters_wf_def)
  then have "shielded b key t (br_timeout br) fw"
    using assms(3,4) by (auto simp: shielded_def circuit_open_def filter_ref_def)
  then have s: "shielded b key t (br_timeout br) ?fw1"
    using shield.trans[OF shield.record_history_R shield.hooked] clock unfolding keeps_shield_def by blast
  have f: "b \<in> set (dget_default [] (fw_filters ?fw1) event)" using start(1) assms(2) by (simp add: keeps_hooks_def fw_frame_def)
  have reg: "\<forall>r \<in> set ?all. registered ?fw1 r" by (auto simp: registered_def start(2))
  have dist: "distinct ?all" using reachable_callbacks_wf[OF assms(1)] ordered_refs_distinct by (auto simp: callbacks_wf_def)
  obtain es where es: "fw_trace (step_state ?out) = fw_trace ?fw1 @ es" "avoids event key ?fw1 es"
    using shielded_loop[OF dist reg s clock f] by blast
  then have "avoids event key fw (hook_calls fw event BEFORE call @ es)" by (simp add: avoids_def)
  moreover have "fw_trace (step_state ?out) = fw_trace fw @ hook_calls fw event BEFORE call @ es" using es(1) start(3) by (simp add: trace_hooks)
  ultimately show ?thesis
    by (cases ?out) (auto simp: trigger_def start(2) trace_hooks avoids_def intro!: exI)
qed

definition demo_breaker_fw :: framework where
  "demo_breaker_fw = fold fw_step [Register ''e'' (demo_reg 9 5 False), AddBreaker ''e'' \<lparr>cb_id = 9, cb_name = ''f''\<rparr> 2 60,
     Trigger demo_fw_env ''e'' ([], []), Trigger demo_fw_env ''e'' ([], [])] (framework_init True)"

lemma demo_breaker_fw_reachable: "fw_reachable demo_breaker_fw"
  unfolding demo_breaker_fw_def fold_simps
  by (intro fw_reachable.intros) (simp_all add: demo_reg_def)

text \<open>Two failures have opened the circuit; the clock stands at 20 then.\<close>

theorem open_circuit_blocks_witness:
  "\<exists>es. fw_trace (snd (trigger (demo_fw_env\<lparr>we_clock := \<lambda>n. 20\<rparr>) ''e'' ([], []) demo_breaker_fw)) = fw_trace demo_breaker_fw @ es \<and>
    0 \<notin> fst ` set (calls es)"
proof -
  let ?br = "case fw_filter_objs demo_breaker_fw ! 0 of CircuitBreakerFilter br \<Rightarrow> br"
  have "fw_filter_objs demo_breaker_fw ! 0 = CircuitBreakerFilter ?br" and "0 \<in> set (dget_default [] (fw_filters demo_breaker_fw) ''e'')"
    and "br_timeout ?br = 60" by code_simp+
  moreover obtain n t where "circuit ''e:f'' ?br = (True, n, Some t)" and "t \<le> 20" "20 - t \<le> 60"
  proof -
    have "(case circuit ''e:f'' ?br of (True, n, Some t) \<Rightarrow> t \<le> 20 \<and> 20 - t \<le> 60 | _ \<Rightarrow> False)" by code_simp
    then show thesis using that by (auto split: prod.splits bool.splits option.splits)
  qed
  moreover have "callback_key ''e'' (ci_callback (fw_infos demo_breaker_fw ! 0)) = ''e:f''" by code_simp
  ultimately show ?thesis
    using open_circuit_blocks[OF demo_breaker_fw_reachable, of 0 "''e''" ?br "''e:f''" n t "demo_fw_env\<lparr>we_clock := \<lambda>n. 20\<rparr>"] by fastforce
qed


section \<open>Observations\<close>

text \<open>Triggering an event nobody subscribed to makes it look subscribed: the lookup of its hooks stores defaults.\<close>

lemma trigger_makes_subscriber:
  "\<not> has_subscribers ''e'' (framework_init True) \<and>
   has_subscribers ''e'' (snd (trigger demo_fw_env ''e'' ([], []) (framework_init True)))"
  by code_simp

text \<open>A filter that raises before a callback was called: the handler reads an unbound variable.\<close>

lemma filter_error_is_unbound:
  "fst (trigger (demo_fw_env\<lparr>we_filters := (we_filters demo_fw_env)\<lparr>fe_custom := \<lambda>u event cb call. Inl ValueError\<rparr>\<rparr>) ''e'' ([], [])
     (fold fw_step [NewFilter (CustomFilter 0), AddFilter ''e'' 0, Register ''e'' (demo_reg 1 5 False)] (framework_init True))) =
   Inl UnboundLocalError"
  by code_simp

text \<open>Unregistering a namespace leaves its callbacks in the chains.\<close>

lemma namespace_chain_survives:
  "let fw = unregister_namespace ''default'' demo_fw in
   list_callbacks ''e'' fw = [] \<and> map_option (\<lambda>ch. length (chn_callbacks ch)) (dget (fw_chains fw) ''e'') = Some 3"
  by code_simp

text \<open>A callback that is unregistered from one event loses its own filters for the other events it listens to.\<close>

lemma other_event_loses_filters:
  "let g = (demo_reg 1 5 False)\<lparr>rg_filters := [0]\<rparr>;
       fw = fold fw_step [NewFilter (AuthFilter ''admin''), Register ''e'' g, Register ''d'' g] (framework_init True)
   in all_filters ''d'' (rg_callback g) fw = [0] \<and> all_filters ''d'' (rg_callback g) (unregister_sync ''e'' 1 None fw) = []"
  by code_simp

text \<open>The metrics of an event with a colon in its name are found under the part before the colon only.\<close>

lemma colon_event_metrics:
  "let fw = fold fw_step [Register ''a:b'' (demo_reg 1 5 False), Trigger demo_fw_env ''a:b'' ([], [])] (framework_init True)
   in dkeys (get_metrics (Some ''a:b'') None fw) = [] \<and> dkeys (get_metrics (Some ''a'') None fw) = [''a:b:f'']"
  by code_simp

text \<open>A filter that replaces the arguments by none is ignored.\<close>

lemma empty_replacement_ignored:
  "let E = demo_fw_env\<lparr>we_filters := (we_filters demo_fw_env)\<lparr>fe_modifier := \<lambda>i call. Inr ([], [])\<rparr>\<rparr>;
       fw = fold fw_step [NewFilter (ParamModifyFilter 0), AddFilter ''e'' 0, Register ''e'' (demo_reg 1 5 False)] (framework_init True)
   in calls (fw_trace (snd (trigger E ''e'' ([PInt 1], []) fw))) = [(0, [PInt 1], [])]"
  by code_simp

end
