(* ===== verification/RW_Lock.thy ===== *)
theory RW_Lock
  imports Prelude
begin

text \<open>
  The hybrid reader-writer lock of \<open>core/sys_operation/local/_async_read_write_lock.py\<close>: the tasks of a process
  are coordinated by a condition and two counters, the processes by a file lock. A task is where it awaits; what
  it does between two awaits is one step. The file lock is not under \<open>src/\<close>: whether it grants a mode to a process,
  given what the processes hold, is the parameter \<open>grant\<close>. Timeouts and cancellations may come at any await; a
  second cancellation of a task that is still handling the first is left out, and so are other exceptions of the
  file lock.
\<close>

section \<open>State\<close>

datatype rw_mode = ReadMode | WriteMode

text \<open>
  Where a task is: outside, waiting for the condition's lock on entering, asleep in \<open>wait\<close>, woken up, giving up after
  a timeout, acquiring the file lock while it holds the condition, inside, waiting for the condition's lock on
  leaving, releasing the file lock.
\<close>

datatype rw_pc =
    Outside
  | ReadEnter | ReadSleep | ReadWake | ReadGiveUp | ReadFile | Reading | ReadExit | ReadRelease
  | WriteEnter | WriteSleep | WriteWake | WriteGiveUp | WriteFile | Writing | WriteExit | WriteRelease

text \<open>The fields of the lock of one process; \<open>rp_cond\<close> is the task that holds the condition across an await, and
  \<open>rp_leaked\<close> remembers that a cancellation skipped a part of a release.\<close>

record rw_proc =
  rp_pc :: "nat \<Rightarrow> rw_pc"
  rp_cond :: "nat option"
  rp_readers :: int
  rp_writer :: bool
  rp_writers_waiting :: int
  rp_closed :: bool
  rp_leaked :: bool

definition rw_init :: rw_proc where
  "rw_init = \<lparr>rp_pc = \<lambda>t. Outside, rp_cond = None, rp_readers = 0, rp_writer = False, rp_writers_waiting = 0, rp_closed = False,
     rp_leaked = False\<rparr>"

definition goto :: "nat \<Rightarrow> rw_pc \<Rightarrow> rw_proc \<Rightarrow> rw_proc" where
  "goto t c pr = pr\<lparr>rp_pc := (rp_pc pr)(t := c)\<rparr>"

definition hold_cond :: "nat \<Rightarrow> rw_pc \<Rightarrow> rw_proc \<Rightarrow> rw_proc" where
  "hold_cond t c pr = goto t c (pr\<lparr>rp_cond := Some t\<rparr>)"

definition drop_cond :: "nat \<Rightarrow> rw_pc \<Rightarrow> rw_proc \<Rightarrow> rw_proc" where
  "drop_cond t c pr = goto t c (pr\<lparr>rp_cond := None\<rparr>)"

fun woken :: "rw_pc \<Rightarrow> rw_pc" where
  "woken ReadSleep = ReadWake"
| "woken WriteSleep = WriteWake"
| "woken c = c"

definition notify_all :: "rw_proc \<Rightarrow> rw_proc" where
  "notify_all pr = pr\<lparr>rp_pc := woken \<circ> rp_pc pr\<rparr>"

section \<open>Steps of a task\<close>

definition may_read :: "rw_proc \<Rightarrow> bool" where
  "may_read pr \<longleftrightarrow> \<not> rp_writer pr \<and> rp_writers_waiting pr = 0"

definition may_write :: "rw_proc \<Rightarrow> bool" where
  "may_write pr \<longleftrightarrow> \<not> rp_writer pr \<and> rp_readers pr = 0"

text \<open>\<open>wait_for\<close> with the condition's lock, and what comes after it up to the next await.\<close>

definition read_check :: "nat \<Rightarrow> rw_proc \<Rightarrow> rw_proc" where
  "read_check t pr =
     (if \<not> may_read pr then goto t ReadSleep pr
      else if rp_readers pr = 0 then hold_cond t ReadFile pr
      else goto t Reading (pr\<lparr>rp_readers := rp_readers pr + 1\<rparr>))"

definition write_check :: "nat \<Rightarrow> rw_proc \<Rightarrow> rw_proc" where
  "write_check t pr =
     (if \<not> may_write pr then goto t WriteSleep pr
      else hold_cond t WriteFile (pr\<lparr>rp_writers_waiting := rp_writers_waiting pr - 1\<rparr>))"

type_synonym rw_local = "rw_proc \<times> rw_mode option"

text \<open>A task goes on; the second component is what the process holds of the file lock.\<close>

definition rw_proceed :: "nat \<Rightarrow> (rw_mode \<Rightarrow> bool) \<Rightarrow> rw_proc \<Rightarrow> rw_mode option \<Rightarrow> rw_local option" where
  "rw_proceed t granted pr f =
     (let free = (rp_cond pr = None)
      in case rp_pc pr t of
           ReadEnter \<Rightarrow> if free then Some (read_check t pr, f) else None
         | ReadWake \<Rightarrow> if free then Some (read_check t pr, f) else None
         | ReadGiveUp \<Rightarrow> if free then Some (goto t Outside pr, f) else None
         | ReadFile \<Rightarrow>
             if granted ReadMode then Some (drop_cond t Reading (pr\<lparr>rp_readers := rp_readers pr + 1\<rparr>), Some ReadMode) else None
         | Reading \<Rightarrow> Some (goto t ReadExit pr, f)
         | ReadExit \<Rightarrow>
             if free
             then (let pr1 = pr\<lparr>rp_readers := rp_readers pr - 1\<rparr>
                   in if rp_readers pr1 = 0 then Some (hold_cond t ReadRelease pr1, f)
                      else Some (notify_all (goto t Outside pr1), f))
             else None
         | ReadRelease \<Rightarrow> Some (notify_all (drop_cond t Outside pr), None)
         | WriteEnter \<Rightarrow>
             if free then Some (write_check t (pr\<lparr>rp_writers_waiting := rp_writers_waiting pr + 1\<rparr>), f) else None
         | WriteWake \<Rightarrow> if free then Some (write_check t pr, f) else None
         | WriteGiveUp \<Rightarrow>
             if free then Some (goto t Outside (pr\<lparr>rp_writers_waiting := rp_writers_waiting pr - 1\<rparr>), f) else None
         | WriteFile \<Rightarrow>
             if granted WriteMode then Some (drop_cond t Writing (pr\<lparr>rp_writer := True\<rparr>), Some WriteMode) else None
         | Writing \<Rightarrow> Some (goto t WriteExit pr, f)
         | WriteExit \<Rightarrow> if free then Some (hold_cond t WriteRelease pr, f) else None
         | WriteRelease \<Rightarrow> Some (notify_all (drop_cond t Outside (pr\<lparr>rp_writer := False\<rparr>)), None)
         | _ \<Rightarrow> None)"

text \<open>The deadline of a task is over. On entering, that is seen once the condition's lock is there.\<close>

definition rw_expire :: "nat \<Rightarrow> rw_proc \<Rightarrow> rw_mode option \<Rightarrow> rw_local option" where
  "rw_expire t pr f =
     (case rp_pc pr t of
        ReadEnter \<Rightarrow> if rp_cond pr = None then Some (goto t Outside pr, f) else None
      | WriteEnter \<Rightarrow> if rp_cond pr = None then Some (goto t Outside pr, f) else None
      | ReadSleep \<Rightarrow> Some (goto t ReadGiveUp pr, f)
      | ReadWake \<Rightarrow> Some (goto t ReadGiveUp pr, f)
      | WriteSleep \<Rightarrow> Some (goto t WriteGiveUp pr, f)
      | WriteWake \<Rightarrow> Some (goto t WriteGiveUp pr, f)
      | ReadFile \<Rightarrow> Some (drop_cond t Outside pr, f)
      | WriteFile \<Rightarrow> Some (drop_cond t Outside pr, f)
      | _ \<Rightarrow> None)"

text \<open>A task is cancelled. While it acquires the file lock the attempt is undone; while it waits to leave, its part of
  the counters stays; while it releases the file lock, the release is finished but what comes after it is not.\<close>

definition rw_cancel :: "nat \<Rightarrow> rw_proc \<Rightarrow> rw_mode option \<Rightarrow> rw_local option" where
  "rw_cancel t pr f =
     (case rp_pc pr t of
        ReadEnter \<Rightarrow> Some (goto t Outside pr, f)
      | WriteEnter \<Rightarrow> Some (goto t Outside pr, f)
      | ReadSleep \<Rightarrow> Some (goto t ReadGiveUp pr, f)
      | ReadWake \<Rightarrow> Some (goto t ReadGiveUp pr, f)
      | WriteSleep \<Rightarrow> Some (goto t WriteGiveUp pr, f)
      | WriteWake \<Rightarrow> Some (goto t WriteGiveUp pr, f)
      | ReadFile \<Rightarrow> Some (drop_cond t Outside pr, f)
      | WriteFile \<Rightarrow> Some (drop_cond t Outside pr, f)
      | Reading \<Rightarrow> Some (goto t ReadExit pr, f)
      | Writing \<Rightarrow> Some (goto t WriteExit pr, f)
      | ReadExit \<Rightarrow> Some (goto t Outside (pr\<lparr>rp_leaked := True\<rparr>), f)
      | WriteExit \<Rightarrow> Some (goto t Outside (pr\<lparr>rp_leaked := True\<rparr>), f)
      | ReadRelease \<Rightarrow> Some (drop_cond t Outside pr, None)
      | WriteRelease \<Rightarrow> Some (drop_cond t Outside (pr\<lparr>rp_leaked := True\<rparr>), None)
      | _ \<Rightarrow> None)"

definition rw_start :: "rw_mode \<Rightarrow> nat \<Rightarrow> rw_proc \<Rightarrow> rw_mode option \<Rightarrow> rw_local option" where
  "rw_start m t pr f =
     (if rp_pc pr t = Outside then Some (goto t (case m of ReadMode \<Rightarrow> ReadEnter | WriteMode \<Rightarrow> WriteEnter) pr, f) else None)"

text \<open>\<open>close\<close>, with its error; shutting the file lock and its executor down is left out.\<close>

definition rw_close :: "rw_proc \<Rightarrow> unit res \<times> rw_proc" where
  "rw_close pr =
     (if rp_readers pr \<noteq> 0 \<or> rp_writer pr then (Inl RuntimeError, pr)
      else (Inr (), pr\<lparr>rp_closed := True\<rparr>))"

section \<open>All processes\<close>

datatype rw_action = Start rw_mode | Proceed | Expire | Cancel | Close

record rw_state =
  rw_procs :: "nat \<Rightarrow> rw_proc"
  rw_file :: "(nat, rw_mode) pydict"

definition rw_start_state :: rw_state where
  "rw_start_state = \<lparr>rw_procs = \<lambda>p. rw_init, rw_file = []\<rparr>"

text \<open>The file lock grants a mode to a process or not, by who holds it.\<close>

type_synonym file_lock = "rw_mode \<Rightarrow> nat \<Rightarrow> (nat, rw_mode) pydict \<Rightarrow> bool"

definition set_held :: "nat \<Rightarrow> rw_mode option \<Rightarrow> (nat, rw_mode) pydict \<Rightarrow> (nat, rw_mode) pydict" where
  "set_held p f held = (case f of None \<Rightarrow> ddel p held | Some m \<Rightarrow> dset p m held)"

lemma dget_set_held [simp]: "dget (set_held p f held) q = (if q = p then f else dget held q)"
  by (simp add: set_held_def split: option.split)

definition rw_local_step :: "(rw_mode \<Rightarrow> bool) \<Rightarrow> nat \<Rightarrow> rw_action \<Rightarrow> rw_proc \<Rightarrow> rw_mode option \<Rightarrow> rw_local option" where
  "rw_local_step granted t a pr f =
     (case a of
        Start m \<Rightarrow> rw_start m t pr f
      | Proceed \<Rightarrow> rw_proceed t granted pr f
      | Expire \<Rightarrow> rw_expire t pr f
      | Cancel \<Rightarrow> rw_cancel t pr f
      | Close \<Rightarrow> if rp_cond pr = None then Some (snd (rw_close pr), f) else None)"

definition rw_step :: "file_lock \<Rightarrow> nat \<times> nat \<times> rw_action \<Rightarrow> rw_state \<Rightarrow> rw_state option" where
  "rw_step grant = (\<lambda>(p, t, a) s.
     map_option (\<lambda>(pr, f). s\<lparr>rw_procs := (rw_procs s)(p := pr), rw_file := set_held p f (rw_file s)\<rparr>)
       (rw_local_step (\<lambda>m. grant m p (rw_file s)) t a (rw_procs s p) (dget (rw_file s) p)))"

inductive rw_reachable :: "file_lock \<Rightarrow> rw_state \<Rightarrow> bool" for grant where
  start: "rw_reachable grant rw_start_state"
| step: "rw_reachable grant s \<Longrightarrow> rw_step grant pta s = Some s' \<Longrightarrow> rw_reachable grant s'"

fun rw_run :: "file_lock \<Rightarrow> (nat \<times> nat \<times> rw_action) list \<Rightarrow> rw_state \<Rightarrow> rw_state option" where
  "rw_run grant [] s = Some s"
| "rw_run grant (pta # rest) s = (case rw_step grant pta s of None \<Rightarrow> None | Some s' \<Rightarrow> rw_run grant rest s')"

lemma rw_run_reachable: "rw_reachable grant s \<Longrightarrow> rw_run grant ptas s = Some s' \<Longrightarrow> rw_reachable grant s'"
  by (induction ptas arbitrary: s) (auto split: option.splits intro: rw_reachable.step)

text \<open>What is relied on of the file lock: nobody gets it while another process writes, and no writer while another
  process holds it.\<close>

definition file_lock_excludes :: "file_lock \<Rightarrow> bool" where
  "file_lock_excludes grant \<longleftrightarrow>
     (\<forall>m p held. grant m p held \<longrightarrow> (\<forall>q. q \<noteq> p \<longrightarrow> dget held q \<noteq> Some WriteMode \<and> (m = WriteMode \<longrightarrow> dget held q = None)))"


section \<open>Counting tasks\<close>

definition tasks_at :: "rw_pc set \<Rightarrow> rw_proc \<Rightarrow> nat set" where
  "tasks_at C pr = {t. rp_pc pr t \<in> C}"

abbreviation at_count :: "rw_pc set \<Rightarrow> rw_proc \<Rightarrow> int" where
  "at_count C pr \<equiv> int (card (tasks_at C pr))"

definition busy :: "rw_proc \<Rightarrow> bool" where
  "busy pr \<longleftrightarrow> finite {t. rp_pc pr t \<noteq> Outside}"

lemma busy_finite: "busy pr \<Longrightarrow> Outside \<notin> C \<Longrightarrow> finite (tasks_at C pr)"
  unfolding busy_def tasks_at_def by (rule finite_subset[rotated]) auto

lemma pc_simps [simp]:
  "rp_pc (goto t c pr) = (rp_pc pr)(t := c)" "rp_pc (hold_cond t c pr) = (rp_pc pr)(t := c)" "rp_pc (drop_cond t c pr) = (rp_pc pr)(t := c)"
  "rp_pc (notify_all pr) = woken \<circ> rp_pc pr"
  "rp_cond (goto t c pr) = rp_cond pr" "rp_cond (hold_cond t c pr) = Some t" "rp_cond (drop_cond t c pr) = None"
  "rp_cond (notify_all pr) = rp_cond pr"
  "rp_readers (goto t c pr) = rp_readers pr" "rp_readers (hold_cond t c pr) = rp_readers pr" "rp_readers (drop_cond t c pr) = rp_readers pr"
  "rp_readers (notify_all pr) = rp_readers pr"
  "rp_writer (goto t c pr) = rp_writer pr" "rp_writer (hold_cond t c pr) = rp_writer pr" "rp_writer (drop_cond t c pr) = rp_writer pr"
  "rp_writer (notify_all pr) = rp_writer pr"
  "rp_writers_waiting (goto t c pr) = rp_writers_waiting pr" "rp_writers_waiting (hold_cond t c pr) = rp_writers_waiting pr"
  "rp_writers_waiting (drop_cond t c pr) = rp_writers_waiting pr" "rp_writers_waiting (notify_all pr) = rp_writers_waiting pr"
  "rp_leaked (goto t c pr) = rp_leaked pr" "rp_leaked (hold_cond t c pr) = rp_leaked pr" "rp_leaked (drop_cond t c pr) = rp_leaked pr"
  "rp_leaked (notify_all pr) = rp_leaked pr"
  by (simp_all add: goto_def hold_cond_def drop_cond_def notify_all_def)

lemma at_count_goto:
  assumes "busy pr" and "Outside \<notin> C" and "rp_pc pr' = (rp_pc pr)(t := c)"
  shows "at_count C pr' = at_count C pr - (if rp_pc pr t \<in> C then 1 else 0) + (if c \<in> C then 1 else 0)"
proof -
  have f: "finite (tasks_at C pr)" using assms(1,2) by (rule busy_finite)
  have "tasks_at C pr' = (if c \<in> C then insert t (tasks_at C pr - {t}) else tasks_at C pr - {t})"
    using assms(3) by (auto simp: tasks_at_def)
  moreover have "t \<in> tasks_at C pr \<longleftrightarrow> rp_pc pr t \<in> C" by (simp add: tasks_at_def)
  moreover have "rp_pc pr t \<in> C \<Longrightarrow> 0 < card (tasks_at C pr)" using f by (auto simp: card_gt_0_iff tasks_at_def)
  ultimately show ?thesis using f by (auto simp: card_Diff_singleton_if of_nat_diff insert_absorb)
qed

lemma woken_at: "woken c \<in> C \<longleftrightarrow> c \<in> C" if "ReadSleep \<notin> C" "ReadWake \<notin> C" "WriteSleep \<in> C \<longleftrightarrow> WriteWake \<in> C"
  using that by (cases c) auto

lemma at_count_woken:
  assumes "rp_pc pr' = woken \<circ> rp_pc pr" and "ReadSleep \<notin> C" "ReadWake \<notin> C" "WriteSleep \<in> C \<longleftrightarrow> WriteWake \<in> C"
  shows "tasks_at C pr' = tasks_at C pr"
  using assms(1) woken_at[OF assms(2-4)] by (simp add: tasks_at_def)

lemma busy_goto [simp]: "rp_pc pr' = (rp_pc pr)(t := c) \<Longrightarrow> busy pr \<Longrightarrow> busy pr'"
  unfolding busy_def by (rule finite_subset[of _ "insert t {t. rp_pc pr t \<noteq> Outside}"]) auto

lemma woken_Outside [simp]: "woken c = Outside \<longleftrightarrow> c = Outside"
  by (cases c) auto

lemma busy_woken [simp]: "rp_pc pr' = woken \<circ> rp_pc pr \<Longrightarrow> busy pr \<Longrightarrow> busy pr'"
  by (simp add: busy_def)

section \<open>The invariant of one process\<close>

abbreviation "holding \<equiv> {ReadFile, ReadRelease, WriteFile, WriteRelease}"
abbreviation "inside_read \<equiv> {Reading, ReadExit}"
abbreviation "inside_write \<equiv> {Writing, WriteExit, WriteRelease}"
abbreviation "waiting_write \<equiv> {WriteSleep, WriteWake, WriteGiveUp}"

definition counts_ok :: "rw_proc \<Rightarrow> bool" where
  "counts_ok pr \<longleftrightarrow> busy pr \<and> (\<forall>t. rp_pc pr t \<in> holding \<longleftrightarrow> rp_cond pr = Some t) \<and>
     at_count inside_read pr \<le> rp_readers pr \<and> (\<not> rp_leaked pr \<longrightarrow> rp_readers pr = at_count inside_read pr) \<and>
     rp_writers_waiting pr = at_count waiting_write pr"

definition writer_ok :: "rw_proc \<Rightarrow> rw_mode option \<Rightarrow> bool" where
  "writer_ok pr f \<longleftrightarrow>
     (\<forall>t. rp_pc pr t \<in> inside_write \<longrightarrow> rp_writer pr \<and> f = Some WriteMode) \<and>
     (\<forall>t u. rp_pc pr t \<in> inside_write \<and> rp_pc pr u \<in> inside_write \<longrightarrow> t = u) \<and>
     (rp_writer pr \<longrightarrow> rp_readers pr = 0) \<and>
     (rp_writer pr \<and> \<not> rp_leaked pr \<longrightarrow> (\<exists>t. rp_pc pr t \<in> inside_write))"

definition file_ok :: "rw_proc \<Rightarrow> rw_mode option \<Rightarrow> bool" where
  "file_ok pr f \<longleftrightarrow>
     (rp_readers pr \<noteq> 0 \<longrightarrow> f = Some ReadMode) \<and>
     (f = Some WriteMode \<longrightarrow> rp_writer pr) \<and>
     (f = Some ReadMode \<longrightarrow> rp_readers pr \<noteq> 0 \<or> (\<exists>t. rp_pc pr t = ReadRelease)) \<and>
     (\<forall>t. rp_pc pr t = ReadRelease \<longrightarrow> rp_readers pr = 0 \<and> f = Some ReadMode \<and> \<not> rp_writer pr) \<and>
     (\<forall>t. rp_pc pr t \<in> {ReadFile, WriteFile} \<longrightarrow> rp_readers pr = 0 \<and> f = None \<and> \<not> rp_writer pr)"

definition rw_inv :: "rw_proc \<Rightarrow> rw_mode option \<Rightarrow> bool" where
  "rw_inv pr f \<longleftrightarrow> counts_ok pr \<and> writer_ok pr f \<and> file_ok pr f"


lemma at_count_moves [simp]:
  assumes "busy pr" and "Outside \<notin> C"
  shows "at_count C (goto t c pr) = at_count C pr - (if rp_pc pr t \<in> C then 1 else 0) + (if c \<in> C then 1 else 0)"
    and "at_count C (hold_cond t c pr) = at_count C pr - (if rp_pc pr t \<in> C then 1 else 0) + (if c \<in> C then 1 else 0)"
    and "at_count C (drop_cond t c pr) = at_count C pr - (if rp_pc pr t \<in> C then 1 else 0) + (if c \<in> C then 1 else 0)"
  using assms by (simp_all add: at_count_goto)

lemma tasks_at_fields [simp]:
  "tasks_at C (pr\<lparr>rp_readers := n\<rparr>) = tasks_at C pr" "tasks_at C (pr\<lparr>rp_writer := w\<rparr>) = tasks_at C pr"
  "tasks_at C (pr\<lparr>rp_writers_waiting := n\<rparr>) = tasks_at C pr" "tasks_at C (pr\<lparr>rp_leaked := w\<rparr>) = tasks_at C pr"
  "tasks_at C (pr\<lparr>rp_closed := w\<rparr>) = tasks_at C pr"
  "busy (pr\<lparr>rp_readers := n\<rparr>) = busy pr" "busy (pr\<lparr>rp_writer := w\<rparr>) = busy pr"
  "busy (pr\<lparr>rp_writers_waiting := n\<rparr>) = busy pr" "busy (pr\<lparr>rp_leaked := w\<rparr>) = busy pr" "busy (pr\<lparr>rp_closed := w\<rparr>) = busy pr"
  by (simp_all add: tasks_at_def busy_def)

lemma busy_moves [simp]: "busy pr \<Longrightarrow> busy (goto t c pr)" "busy pr \<Longrightarrow> busy (hold_cond t c pr)" "busy pr \<Longrightarrow> busy (drop_cond t c pr)"
  "busy pr \<Longrightarrow> busy (notify_all pr)"
  by (simp_all add: busy_goto[of _ pr t c] busy_woken[of _ pr])

lemma woken_eqs [simp]:
  "woken c = ReadFile \<longleftrightarrow> c = ReadFile" "woken c = ReadRelease \<longleftrightarrow> c = ReadRelease" "woken c = WriteFile \<longleftrightarrow> c = WriteFile"
  "woken c = WriteRelease \<longleftrightarrow> c = WriteRelease" "woken c = Writing \<longleftrightarrow> c = Writing" "woken c = WriteExit \<longleftrightarrow> c = WriteExit"
  "woken c = Reading \<longleftrightarrow> c = Reading" "woken c = ReadExit \<longleftrightarrow> c = ReadExit"
  by (cases c; simp)+

lemma at_count_notify [simp]:
  "tasks_at inside_read (notify_all pr) = tasks_at inside_read pr" "tasks_at waiting_write (notify_all pr) = tasks_at waiting_write pr"
  by (simp_all add: at_count_woken)

lemma counts_notify: "counts_ok pr \<Longrightarrow> counts_ok (notify_all pr)"
  by (simp add: counts_ok_def)

lemma writer_notify: "writer_ok pr f \<Longrightarrow> writer_ok (notify_all pr) f"
  by (simp add: writer_ok_def)

lemma file_notify: "file_ok pr f \<Longrightarrow> file_ok (notify_all pr) f"
  by (simp only: file_ok_def pc_simps o_apply woken_eqs insert_iff empty_iff)

lemma rw_inv_notify: "rw_inv pr f \<Longrightarrow> rw_inv (notify_all pr) f"
  by (simp add: rw_inv_def counts_notify writer_notify file_notify)

text \<open>At least one reader is counted while a task is inside.\<close>

lemma counted: "busy pr \<Longrightarrow> Outside \<notin> C \<Longrightarrow> rp_pc pr t \<in> C \<Longrightarrow> 1 \<le> at_count C pr"
  using busy_finite[of pr C] by (auto simp: Suc_le_eq card_gt_0_iff tasks_at_def)

lemma nobody_reads:
  assumes "counts_ok pr" and "rp_readers pr = 0"
  shows "rp_pc pr t \<noteq> Reading" "rp_pc pr t \<noteq> ReadExit"
  using assms counted[of pr inside_read t] by (auto simp: counts_ok_def)

text \<open>One task moves. The counters follow it, unless a cancellation leaves a reader counted.\<close>

definition cond_follows :: "nat \<Rightarrow> rw_pc \<Rightarrow> rw_proc \<Rightarrow> rw_proc \<Rightarrow> bool" where
  "cond_follows t c pr pr' \<longleftrightarrow>
     (if c \<in> holding then rp_cond pr' = Some t \<and> rp_cond pr \<in> {None, Some t}
      else if rp_pc pr t \<in> holding then rp_cond pr' = None else rp_cond pr' = rp_cond pr)"

lemma cond_move:
  assumes "\<forall>u. rp_pc pr u \<in> holding \<longleftrightarrow> rp_cond pr = Some u" and "rp_pc pr' = (rp_pc pr)(t := c)" and "cond_follows t c pr pr'"
  shows "\<forall>u. rp_pc pr' u \<in> holding \<longleftrightarrow> rp_cond pr' = Some u"
proof
  fix u
  have t: "rp_pc pr t \<in> holding \<longleftrightarrow> rp_cond pr = Some t" and u: "rp_pc pr u \<in> holding \<longleftrightarrow> rp_cond pr = Some u"
    using assms(1) by blast+
  show "rp_pc pr' u \<in> holding \<longleftrightarrow> rp_cond pr' = Some u"
  proof (cases "u = t")
    case True
    then show ?thesis using assms(2,3) t by (cases "c \<in> holding"; cases "rp_pc pr t \<in> holding") (simp_all add: cond_follows_def)
  next
    case False
    then have "rp_pc pr' u = rp_pc pr u" using assms(2) by simp
    then show ?thesis using assms(3) t u False
      by (cases "c \<in> holding"; cases "rp_pc pr t \<in> holding") (auto simp: cond_follows_def)
  qed
qed

lemma counts_move:
  assumes I: "counts_ok pr" and m: "rp_pc pr' = (rp_pc pr)(t := c)" and "cond_follows t c pr pr'"
    and d: "dr = (if c \<in> inside_read then 1 else 0) - (if rp_pc pr t \<in> inside_read then 1 else 0 :: int)"
    and r: "rp_readers pr' = rp_readers pr + dr \<or> rp_leaked pr' \<and> rp_readers pr + dr \<le> rp_readers pr'"
    and w: "rp_writers_waiting pr' = rp_writers_waiting pr + (if c \<in> waiting_write then 1 else 0) - (if rp_pc pr t \<in> waiting_write then 1 else 0)"
    and l: "rp_leaked pr \<longrightarrow> rp_leaked pr'"
  shows "counts_ok pr'"
proof -
  have b: "busy pr" using I by (simp add: counts_ok_def)
  have "busy pr'" by (rule busy_goto[OF m b])
  moreover have "\<forall>u. rp_pc pr' u \<in> holding \<longleftrightarrow> rp_cond pr' = Some u"
    by (rule cond_move[OF _ m assms(3)]) (use I in \<open>unfold counts_ok_def, blast\<close>)
  moreover have "at_count inside_read pr' = at_count inside_read pr + dr" using at_count_goto[OF b _ m, of inside_read] d by simp
  moreover have "at_count waiting_write pr' = at_count waiting_write pr + (if c \<in> waiting_write then 1 else 0) - (if rp_pc pr t \<in> waiting_write then 1 else 0)"
    using at_count_goto[OF b _ m, of waiting_write] by simp
  moreover have "at_count inside_read pr \<le> rp_readers pr" "\<not> rp_leaked pr \<Longrightarrow> rp_readers pr = at_count inside_read pr"
    "rp_writers_waiting pr = at_count waiting_write pr" using I by (simp_all add: counts_ok_def)
  ultimately show ?thesis using r w l unfolding counts_ok_def by auto
qed

text \<open>A task moves outside what writes.\<close>

lemma writer_move:
  assumes "writer_ok pr f" and "rp_pc pr' = (rp_pc pr)(t := c)" and "c \<notin> inside_write" "rp_pc pr t \<notin> inside_write"
    and "rp_writer pr' = rp_writer pr" and "rp_writer pr \<longrightarrow> rp_readers pr' = 0 \<and> f' = f" and "rp_leaked pr \<longrightarrow> rp_leaked pr'"
  shows "writer_ok pr' f'"
proof -
  have i: "rp_pc pr' u \<in> inside_write \<longleftrightarrow> rp_pc pr u \<in> inside_write" for u using assms(2-4) by auto
  show ?thesis using assms(1,5-7) unfolding writer_ok_def i by auto
qed


text \<open>What \<open>file_ok\<close> says when nobody holds the condition, and when a task does.\<close>

lemma nobody_holds: "counts_ok pr \<Longrightarrow> rp_cond pr = None \<Longrightarrow> rp_pc pr t \<notin> holding"
  unfolding counts_ok_def by (metis option.distinct(1))

lemma only_holder: "counts_ok pr \<Longrightarrow> rp_cond pr = Some t \<Longrightarrow> rp_pc pr u \<in> holding \<longleftrightarrow> u = t"
  unfolding counts_ok_def by (metis option.inject)

lemma file_free:
  assumes "counts_ok pr" and "rp_cond pr = None"
  shows "file_ok pr f \<longleftrightarrow> (rp_readers pr \<noteq> 0 \<longleftrightarrow> f = Some ReadMode) \<and> (f = Some WriteMode \<longrightarrow> rp_writer pr)"
proof -
  have "rp_pc pr t \<noteq> ReadRelease" "rp_pc pr t \<noteq> ReadFile" "rp_pc pr t \<noteq> WriteFile" for t
    using nobody_holds[OF assms, of t] by auto
  then show ?thesis unfolding file_ok_def by auto
qed

lemma file_held:
  assumes "counts_ok pr" and "rp_cond pr = Some t"
  shows "file_ok pr f \<longleftrightarrow> (rp_readers pr \<noteq> 0 \<longrightarrow> f = Some ReadMode) \<and> (f = Some WriteMode \<longrightarrow> rp_writer pr) \<and>
     (f = Some ReadMode \<longrightarrow> rp_readers pr \<noteq> 0 \<or> rp_pc pr t = ReadRelease) \<and>
     (rp_pc pr t = ReadRelease \<longrightarrow> rp_readers pr = 0 \<and> f = Some ReadMode \<and> \<not> rp_writer pr) \<and>
     (rp_pc pr t \<in> {ReadFile, WriteFile} \<longrightarrow> rp_readers pr = 0 \<and> f = None \<and> \<not> rp_writer pr)"
proof -
  have "rp_pc pr u = ReadRelease \<Longrightarrow> u = t" "rp_pc pr u \<in> {ReadFile, WriteFile} \<Longrightarrow> u = t" for u
    using only_holder[OF assms, of u] by auto
  moreover have "rp_pc pr t \<in> holding" using only_holder[OF assms, of t] by simp
  ultimately show ?thesis unfolding file_ok_def by blast
qed

lemma file_move:
  assumes "file_ok pr f" and m: "rp_pc pr' = (rp_pc pr)(t := c)" and "c \<notin> holding" "rp_pc pr t \<notin> holding"
    and "rp_readers pr' = rp_readers pr" and "rp_writer pr' = rp_writer pr"
  shows "file_ok pr' f"
proof -
  have e: "rp_pc pr' u = ReadRelease \<longleftrightarrow> rp_pc pr u = ReadRelease" "rp_pc pr' u \<in> {ReadFile, WriteFile} \<longleftrightarrow> rp_pc pr u \<in> {ReadFile, WriteFile}" for u
    using assms(2-4) by auto
  show ?thesis using assms(1) by (simp only: file_ok_def assms(5,6) e)
qed

section \<open>Every step keeps it\<close>

lemma plain_move:
  assumes "rw_inv pr f" and "rp_pc pr' = (rp_pc pr)(t := c)" and "c \<notin> holding \<union> inside_write" "rp_pc pr t \<notin> holding \<union> inside_write"
    and "c \<in> inside_read \<longleftrightarrow> rp_pc pr t \<in> inside_read" and "rp_cond pr' = rp_cond pr" and "rp_readers pr' = rp_readers pr" and "rp_writer pr' = rp_writer pr"
    and "rp_writers_waiting pr' = rp_writers_waiting pr + (if c \<in> waiting_write then 1 else 0) - (if rp_pc pr t \<in> waiting_write then 1 else 0)"
    and "rp_leaked pr' = rp_leaked pr"
  shows "rw_inv pr' f"
proof -
  have I: "counts_ok pr" "writer_ok pr f" "file_ok pr f" using assms(1) by (simp_all add: rw_inv_def)
  have "counts_ok pr'"
    by (rule counts_move[OF I(1) assms(2) _ refl]) (use assms(3-10) in \<open>auto simp: cond_follows_def\<close>)
  moreover have "writer_ok pr' f"
    by (rule writer_move[OF I(2) assms(2)]) (use assms(3-10) I(2) in \<open>auto simp: writer_ok_def\<close>)
  moreover have "file_ok pr' f"
    by (rule file_move[OF I(3) assms(2)]) (use assms(3-10) in auto)
  ultimately show ?thesis by (simp add: rw_inv_def)
qed

lemma read_check_inv:
  assumes "rw_inv pr f" and "rp_cond pr = None" and pc: "rp_pc pr t \<in> {ReadEnter, ReadWake}"
  shows "rw_inv (read_check t pr) f"
proof (cases "may_read pr")
  case False
  then have "read_check t pr = goto t ReadSleep pr" by (simp add: read_check_def)
  then show ?thesis by (simp only:) (rule plain_move[OF assms(1), of _ t ReadSleep], use pc in auto)
next
  case True
  have I: "counts_ok pr" "writer_ok pr f" "file_ok pr f" using assms(1) by (simp_all add: rw_inv_def)
  have f: "(rp_readers pr \<noteq> 0 \<longleftrightarrow> f = Some ReadMode)" "f \<noteq> Some WriteMode"
    using I(3) True by (auto simp: file_free[OF I(1) assms(2)] may_read_def)
  show ?thesis
  proof (cases "rp_readers pr = 0")
    case 0: True
    let ?pr = "hold_cond t ReadFile pr"
    have "counts_ok ?pr" by (rule counts_move[OF I(1), of _ t ReadFile]) (use pc assms(2) in \<open>auto simp: cond_follows_def\<close>)
    moreover have "writer_ok ?pr f" by (rule writer_move[OF I(2), of _ t ReadFile]) (use pc 0 in auto)
    moreover have "f = None" using f 0 by (cases f; cases "the f") auto
    ultimately show ?thesis
      using True 0 by (simp add: rw_inv_def read_check_def may_read_def file_held[of ?pr t])
  next
    case False
    let ?pr = "goto t Reading (pr\<lparr>rp_readers := rp_readers pr + 1\<rparr>)"
    have c: "counts_ok ?pr" by (rule counts_move[OF I(1), of _ t Reading]) (use pc assms(2) in \<open>auto simp: cond_follows_def\<close>)
    moreover have "writer_ok ?pr f" by (rule writer_move[OF I(2), of _ t Reading]) (use pc True in \<open>auto simp: may_read_def\<close>)
    moreover have "0 \<le> rp_readers pr" using I(1) by (simp add: counts_ok_def)
    ultimately show ?thesis
      using True False f assms(2) by (simp add: rw_inv_def read_check_def file_free[OF c])
  qed
qed


lemma write_check_inv:
  assumes I: "counts_ok pr" "writer_ok pr f" "file_ok pr f" and free: "rp_cond pr = None"
    and pc: "rp_pc pr t = WriteEnter \<and> w = 1 \<or> rp_pc pr t = WriteWake \<and> w = 0"
  shows "rw_inv (write_check t (pr\<lparr>rp_writers_waiting := rp_writers_waiting pr + w\<rparr>)) f"
proof (cases "may_write pr")
  case False
  let ?pr = "goto t WriteSleep (pr\<lparr>rp_writers_waiting := rp_writers_waiting pr + w\<rparr>)"
  have "rw_inv ?pr f" by (rule plain_move[of pr f _ t WriteSleep]) (use I pc in \<open>auto simp: rw_inv_def\<close>)
  then show ?thesis using False by (simp add: write_check_def may_write_def)
next
  case True
  let ?pr = "hold_cond t WriteFile (pr\<lparr>rp_writers_waiting := rp_writers_waiting pr + w - 1\<rparr>)"
  have c: "counts_ok ?pr" by (rule counts_move[OF I(1), of _ t WriteFile]) (use pc free in \<open>auto simp: cond_follows_def\<close>)
  moreover have "writer_ok ?pr f" by (rule writer_move[OF I(2), of _ t WriteFile]) (use pc True in \<open>auto simp: may_write_def\<close>)
  moreover have "f = None"
    using I(3) True by (cases f; cases "the f") (auto simp: file_free[OF I(1) free] may_write_def)
  ultimately show ?thesis
    using True by (simp add: rw_inv_def write_check_def may_write_def file_held[OF c])
qed

text \<open>Who holds the condition does so alone.\<close>

lemma holder:
  assumes "counts_ok pr" and "rp_pc pr t \<in> holding"
  shows "rp_cond pr = Some t" and "rp_pc pr u \<in> holding \<longleftrightarrow> u = t"
  using assms only_holder[OF assms(1)] unfolding counts_ok_def by metis+

lemma read_granted_inv:
  assumes "rw_inv pr f" and pc: "rp_pc pr t = ReadFile"
  shows "rw_inv (drop_cond t Reading (pr\<lparr>rp_readers := rp_readers pr + 1\<rparr>)) (Some ReadMode)"
proof -
  let ?pr = "drop_cond t Reading (pr\<lparr>rp_readers := rp_readers pr + 1\<rparr>)"
  have I: "counts_ok pr" "writer_ok pr f" "file_ok pr f" using assms(1) by (simp_all add: rw_inv_def)
  have s: "rp_cond pr = Some t" using holder[OF I(1), of t] pc by simp
  have r: "rp_readers pr = 0" "\<not> rp_writer pr" using I(3) pc by (simp_all add: file_held[OF I(1) s])
  have c: "counts_ok ?pr" by (rule counts_move[OF I(1), of _ t Reading]) (use pc in \<open>auto simp: cond_follows_def\<close>)
  moreover have "writer_ok ?pr (Some ReadMode)" by (rule writer_move[OF I(2), of _ t Reading]) (use pc r in auto)
  moreover have "file_ok ?pr (Some ReadMode)" by (subst file_free[OF c]) (use r in simp_all)
  ultimately show ?thesis unfolding rw_inv_def by blast
qed

lemma write_granted_inv:
  assumes "rw_inv pr f" and pc: "rp_pc pr t = WriteFile"
  shows "rw_inv (drop_cond t Writing (pr\<lparr>rp_writer := True\<rparr>)) (Some WriteMode)"
proof -
  let ?pr = "drop_cond t Writing (pr\<lparr>rp_writer := True\<rparr>)"
  have I: "counts_ok pr" "writer_ok pr f" "file_ok pr f" using assms(1) by (simp_all add: rw_inv_def)
  have s: "rp_cond pr = Some t" using holder[OF I(1), of t] pc by simp
  have r: "rp_readers pr = 0" "\<not> rp_writer pr" using I(3) pc by (simp_all add: file_held[OF I(1) s])
  have c: "counts_ok ?pr" by (rule counts_move[OF I(1), of _ t Writing]) (use pc in \<open>auto simp: cond_follows_def\<close>)
  have n: "rp_pc pr u \<notin> inside_write" for u using I(2) r(2) unfolding writer_ok_def by blast
  have p: "rp_pc ?pr u \<in> inside_write \<longleftrightarrow> u = t" for u using n[of u] by simp
  have "writer_ok ?pr (Some WriteMode)" unfolding writer_ok_def p using r by auto
  with c show ?thesis using r by (simp add: rw_inv_def file_free[OF c])
qed

text \<open>An attempt on the file lock that fails, or is cancelled.\<close>

lemma file_fail_inv:
  assumes "rw_inv pr f" and pc: "rp_pc pr t \<in> {ReadFile, WriteFile}"
  shows "rw_inv (drop_cond t Outside pr) f"
proof -
  let ?pr = "drop_cond t Outside pr"
  have I: "counts_ok pr" "writer_ok pr f" "file_ok pr f" using assms(1) by (simp_all add: rw_inv_def)
  have s: "rp_cond pr = Some t" using holder[OF I(1), of t] pc by auto
  have r: "rp_readers pr = 0" "\<not> rp_writer pr" "f = None" using I(3) pc unfolding file_held[OF I(1) s] by blast+
  have c: "counts_ok ?pr" by (rule counts_move[OF I(1), of _ t Outside]) (use pc in \<open>auto simp: cond_follows_def\<close>)
  moreover have "writer_ok ?pr f" by (rule writer_move[OF I(2), of _ t Outside]) (use pc r in auto)
  ultimately show ?thesis using r by (simp add: rw_inv_def file_free[OF c])
qed

lemma read_exit_inv:
  assumes "rw_inv pr f" and free: "rp_cond pr = None" and pc: "rp_pc pr t = ReadExit"
  shows "rp_readers pr - 1 = 0 \<Longrightarrow> rw_inv (hold_cond t ReadRelease (pr\<lparr>rp_readers := rp_readers pr - 1\<rparr>)) f"
    and "rp_readers pr - 1 \<noteq> 0 \<Longrightarrow> rw_inv (notify_all (goto t Outside (pr\<lparr>rp_readers := rp_readers pr - 1\<rparr>))) f"
proof -
  have I: "counts_ok pr" "writer_ok pr f" "file_ok pr f" using assms(1) by (simp_all add: rw_inv_def)
  have "1 \<le> at_count inside_read pr" using counted[of pr inside_read t] I(1) pc by (simp add: counts_ok_def)
  then have r: "1 \<le> rp_readers pr" using I(1) by (simp add: counts_ok_def)
  then have nw: "\<not> rp_writer pr" using I(2) by (auto simp: writer_ok_def)
  have f: "f = Some ReadMode" using I(3) r by (simp add: file_free[OF I(1) free])
  let ?hold = "hold_cond t ReadRelease (pr\<lparr>rp_readers := rp_readers pr - 1\<rparr>)"
  let ?out = "goto t Outside (pr\<lparr>rp_readers := rp_readers pr - 1\<rparr>)"
  have ch: "counts_ok ?hold" by (rule counts_move[OF I(1), of _ t ReadRelease]) (use pc free in \<open>auto simp: cond_follows_def\<close>)
  have co: "counts_ok ?out" by (rule counts_move[OF I(1), of _ t Outside]) (use pc free in \<open>auto simp: cond_follows_def\<close>)
  have "writer_ok ?hold f" by (rule writer_move[OF I(2), of _ t ReadRelease]) (use pc nw in auto)
  moreover have "rp_readers pr - 1 = 0 \<Longrightarrow> file_ok ?hold f" by (subst file_held[OF ch, of t]) (use nw f in simp_all)
  ultimately show "rp_readers pr - 1 = 0 \<Longrightarrow> rw_inv ?hold f" using ch unfolding rw_inv_def by blast
  have "writer_ok ?out f" by (rule writer_move[OF I(2), of _ t Outside]) (use pc nw in auto)
  then show "rp_readers pr - 1 \<noteq> 0 \<Longrightarrow> rw_inv (notify_all ?out) f"
    by (intro rw_inv_notify) (use co nw f free in \<open>simp add: rw_inv_def file_free[OF co]\<close>)
qed

lemma read_release_inv:
  assumes "rw_inv pr f" and pc: "rp_pc pr t = ReadRelease"
  shows "rw_inv (drop_cond t Outside pr) None"
proof -
  let ?pr = "drop_cond t Outside pr"
  have I: "counts_ok pr" "writer_ok pr f" "file_ok pr f" using assms(1) by (simp_all add: rw_inv_def)
  have s: "rp_cond pr = Some t" using holder[OF I(1), of t] pc by auto
  have r: "rp_readers pr = 0" "\<not> rp_writer pr" using I(3) pc by (simp_all add: file_held[OF I(1) s])
  have c: "counts_ok ?pr" by (rule counts_move[OF I(1), of _ t Outside]) (use pc in \<open>auto simp: cond_follows_def\<close>)
  moreover have "writer_ok ?pr None" by (rule writer_move[OF I(2), of _ t Outside]) (use pc r in auto)
  ultimately show ?thesis using r by (simp add: rw_inv_def file_free[OF c])
qed

lemma write_stays_inv:
  assumes "rw_inv pr f" and pc: "rp_pc pr t = Writing \<and> c = WriteExit \<and> pr' = goto t c pr \<or>
      rp_pc pr t = WriteExit \<and> c = WriteRelease \<and> rp_cond pr = None \<and> pr' = hold_cond t c pr"
  shows "rw_inv pr' f"
proof -
  have I: "counts_ok pr" "writer_ok pr f" "file_ok pr f" using assms(1) by (simp_all add: rw_inv_def)
  have m: "rp_pc pr' = (rp_pc pr)(t := c)" and fields: "rp_readers pr' = rp_readers pr" "rp_writer pr' = rp_writer pr"
    "rp_leaked pr' = rp_leaked pr" "rp_writers_waiting pr' = rp_writers_waiting pr" using pc by auto
  have c: "counts_ok pr'" by (rule counts_move[OF I(1) m _ refl]) (use pc in \<open>auto simp: cond_follows_def\<close>)
  have "rp_pc pr' u \<in> inside_write \<longleftrightarrow> rp_pc pr u \<in> inside_write" for u using pc by (auto simp: m)
  then have "writer_ok pr' f" using I(2) unfolding writer_ok_def fields by metis
  moreover have "file_ok pr' f"
  proof -
    have "rp_pc pr' u = ReadRelease \<longleftrightarrow> rp_pc pr u = ReadRelease"
      and "rp_pc pr' u \<in> {ReadFile, WriteFile} \<longleftrightarrow> rp_pc pr u \<in> {ReadFile, WriteFile}" for u using pc by (auto simp: m)
    then show ?thesis using I(3) by (simp only: file_ok_def fields)
  qed
  ultimately show ?thesis using c by (simp add: rw_inv_def)
qed

lemma write_release_inv:
  assumes "rw_inv pr f" and pc: "rp_pc pr t = WriteRelease"
    and fields: "rp_writer pr' = w" "rp_leaked pr' = (rp_leaked pr \<or> w)" "rp_readers pr' = rp_readers pr"
      "rp_writers_waiting pr' = rp_writers_waiting pr" "rp_pc pr' = (rp_pc pr)(t := Outside)" "rp_cond pr' = None"
  shows "rw_inv pr' None"
proof -
  have I: "counts_ok pr" "writer_ok pr f" "file_ok pr f" using assms(1) by (simp_all add: rw_inv_def)
  have r: "rp_readers pr = 0" using I(2) pc by (auto simp: writer_ok_def)
  have c: "counts_ok pr'" by (rule counts_move[OF I(1) fields(5) _ refl]) (use pc fields in \<open>auto simp: cond_follows_def\<close>)
  have n: "rp_pc pr' u \<notin> inside_write" for u using I(2) pc unfolding writer_ok_def by (cases "u = t") (auto simp: fields(5))
  have "writer_ok pr' None" unfolding writer_ok_def using n r fields by auto
  then show ?thesis using c r fields by (simp add: rw_inv_def file_free[OF c])
qed

text \<open>A cancellation that leaves the counters behind.\<close>

lemma leak_inv:
  assumes "rw_inv pr f" and pc: "rp_pc pr t \<in> {ReadExit, WriteExit}"
  shows "rw_inv (goto t Outside (pr\<lparr>rp_leaked := True\<rparr>)) f"
proof -
  let ?pr = "goto t Outside (pr\<lparr>rp_leaked := True\<rparr>)"
  have I: "counts_ok pr" "writer_ok pr f" "file_ok pr f" using assms(1) by (simp_all add: rw_inv_def)
  have "counts_ok ?pr" by (rule counts_move[OF I(1), of _ t Outside, OF _ _ refl]) (use pc in \<open>auto simp: cond_follows_def\<close>)
  moreover have "writer_ok ?pr f" using I(2) unfolding writer_ok_def by auto
  moreover have "file_ok ?pr f" by (rule file_move[OF I(3), of _ t Outside]) (use pc in auto)
  ultimately show ?thesis by (simp add: rw_inv_def)
qed


lemma rw_proceed_inv:
  assumes I: "rw_inv pr f" and step: "rw_proceed t granted pr f = Some (pr', f')"
  shows "rw_inv pr' f'"
proof -
  have J: "counts_ok pr" "writer_ok pr f" "file_ok pr f" using I by (simp_all add: rw_inv_def)
  note d = rw_proceed_def Let_def
  show ?thesis
  proof (cases "rp_pc pr t")
    case ReadEnter
    then show ?thesis using step read_check_inv[OF I] by (auto simp: d split: if_splits)
  next
    case ReadWake
    then show ?thesis using step read_check_inv[OF I] by (auto simp: d split: if_splits)
  next
    case ReadGiveUp
    then have "pr' = goto t Outside pr" "f' = f" using step by (auto simp: d split: if_splits)
    then show ?thesis using plain_move[OF I, of pr' t Outside] ReadGiveUp by simp
  next
    case ReadFile
    then show ?thesis using step read_granted_inv[OF I] by (auto simp: d split: if_splits)
  next
    case Reading
    then have "pr' = goto t ReadExit pr" "f' = f" using step by (auto simp: d)
    then show ?thesis using plain_move[OF I, of pr' t ReadExit] Reading by simp
  next
    case ReadExit
    then show ?thesis using step read_exit_inv[OF I _ ReadExit] by (auto simp: d split: if_splits)
  next
    case ReadRelease
    then show ?thesis using step rw_inv_notify[OF read_release_inv[OF I]] by (auto simp: d)
  next
    case WriteEnter
    then show ?thesis using step write_check_inv[OF J, of t 1] by (auto simp: d split: if_splits)
  next
    case WriteWake
    then show ?thesis using step write_check_inv[OF J, of t 0] by (auto simp: d split: if_splits)
  next
    case WriteGiveUp
    then have "pr' = goto t Outside (pr\<lparr>rp_writers_waiting := rp_writers_waiting pr - 1\<rparr>)" "f' = f"
      using step by (auto simp: d split: if_splits)
    then show ?thesis using plain_move[OF I, of pr' t Outside] WriteGiveUp by simp
  next
    case WriteFile
    then show ?thesis using step write_granted_inv[OF I] by (auto simp: d split: if_splits)
  next
    case Writing
    then show ?thesis using step write_stays_inv[OF I, of t WriteExit] by (auto simp: d)
  next
    case WriteExit
    then show ?thesis using step write_stays_inv[OF I, of t WriteRelease] by (auto simp: d split: if_splits)
  next
    case WriteRelease
    let ?pr = "drop_cond t Outside (pr\<lparr>rp_writer := False\<rparr>)"
    have "rw_inv ?pr None" by (rule write_release_inv[OF I WriteRelease, where w = False]) simp_all
    then show ?thesis using step WriteRelease rw_inv_notify[of ?pr None] by (auto simp: d)
  qed (use step in \<open>simp_all add: d\<close>)
qed

text \<open>A task that waits goes away, or starts to give up.\<close>

lemma leave_inv:
  assumes I: "rw_inv pr f" and "rp_pc pr t \<in> {ReadEnter, WriteEnter} \<and> c = Outside \<or> rp_pc pr t \<in> {ReadSleep, ReadWake} \<and> c = ReadGiveUp \<or>
    rp_pc pr t \<in> {WriteSleep, WriteWake} \<and> c = WriteGiveUp"
  shows "rw_inv (goto t c pr) f"
  by (rule plain_move[OF I, of _ t c]) (use assms(2) in auto)

lemma rw_expire_inv:
  assumes I: "rw_inv pr f" and step: "rw_expire t pr f = Some (pr', f')"
  shows "rw_inv pr' f'"
  using step leave_inv[OF I, of t] file_fail_inv[OF I, of t]
  by (cases "rp_pc pr t") (auto simp: rw_expire_def split: if_splits)

lemma rw_cancel_inv:
  assumes I: "rw_inv pr f" and step: "rw_cancel t pr f = Some (pr', f')"
  shows "rw_inv pr' f'"
proof (cases "rp_pc pr t \<in> {Reading, ReadRelease, Writing, WriteRelease}")
  case False
  then show ?thesis using step leave_inv[OF I, of t] file_fail_inv[OF I, of t] leak_inv[OF I, of t]
    by (cases "rp_pc pr t") (auto simp: rw_cancel_def)
next
  case True
  have r: "rp_pc pr t = Reading \<Longrightarrow> rw_inv (goto t ReadExit pr) f" by (rule plain_move[OF I, of _ t ReadExit]) simp_all
  have w: "rp_pc pr t = Writing \<Longrightarrow> rw_inv (goto t WriteExit pr) f" using write_stays_inv[OF I, of t WriteExit] by blast
  have rr: "rp_pc pr t = ReadRelease \<Longrightarrow> rw_inv (drop_cond t Outside pr) None" by (rule read_release_inv[OF I])
  have wr: "rp_pc pr t = WriteRelease \<Longrightarrow> rw_inv (drop_cond t Outside (pr\<lparr>rp_leaked := True\<rparr>)) None"
  proof -
    assume pc: "rp_pc pr t = WriteRelease"
    have "rp_writer pr" using I pc by (auto simp: rw_inv_def writer_ok_def)
    then show ?thesis by (intro write_release_inv[OF I pc, where w = True]) simp_all
  qed
  from True show ?thesis using step r w rr wr by (auto simp: rw_cancel_def)
qed

lemma closed_fields:
  "rp_pc (pr\<lparr>rp_closed := b\<rparr>) = rp_pc pr" "rp_cond (pr\<lparr>rp_closed := b\<rparr>) = rp_cond pr" "rp_readers (pr\<lparr>rp_closed := b\<rparr>) = rp_readers pr"
  "rp_writer (pr\<lparr>rp_closed := b\<rparr>) = rp_writer pr" "rp_writers_waiting (pr\<lparr>rp_closed := b\<rparr>) = rp_writers_waiting pr"
  "rp_leaked (pr\<lparr>rp_closed := b\<rparr>) = rp_leaked pr"
  by simp_all

lemma rw_local_step_inv:
  assumes I: "rw_inv pr f" and step: "rw_local_step granted t a pr f = Some (pr', f')"
  shows "rw_inv pr' f'"
proof (cases a)
  case (Start m)
  then have "rp_pc pr t = Outside" "pr' = goto t (case m of ReadMode \<Rightarrow> ReadEnter | WriteMode \<Rightarrow> WriteEnter) pr" "f' = f"
    using step by (auto simp: rw_local_step_def rw_start_def split: if_splits)
  then show ?thesis
    using plain_move[OF I, of pr' t "case m of ReadMode \<Rightarrow> ReadEnter | WriteMode \<Rightarrow> WriteEnter"] by (cases m) simp_all
next
  case Close
  have "rw_inv (pr\<lparr>rp_closed := b\<rparr>) f = rw_inv pr f" for b
    by (simp only: rw_inv_def counts_ok_def writer_ok_def file_ok_def tasks_at_fields closed_fields)
  then show ?thesis using Close step I by (auto simp: rw_local_step_def rw_close_def split: if_splits)
qed (use step rw_proceed_inv[OF I] rw_expire_inv[OF I] rw_cancel_inv[OF I] in \<open>simp_all add: rw_local_step_def\<close>)

section \<open>All processes\<close>

text \<open>The file lock changes hands only as it grants.\<close>

lemma local_step_file:
  assumes "rw_local_step granted t a pr f = Some (pr', f')"
  shows "f' = f \<or> f' = None \<or> (\<exists>m. f' = Some m \<and> granted m)"
proof (cases a)
  case Proceed
  then show ?thesis using assms by (cases "rp_pc pr t") (auto simp: rw_local_step_def rw_proceed_def Let_def split: if_splits)
next
  case Expire
  then show ?thesis using assms by (cases "rp_pc pr t") (auto simp: rw_local_step_def rw_expire_def split: if_splits)
next
  case Cancel
  then show ?thesis using assms by (cases "rp_pc pr t") (auto simp: rw_local_step_def rw_cancel_def split: if_splits)
qed (use assms in \<open>auto simp: rw_local_step_def rw_start_def split: if_splits\<close>)

definition file_exclusive :: "(nat, rw_mode) pydict \<Rightarrow> bool" where
  "file_exclusive held \<longleftrightarrow> (\<forall>p q. p \<noteq> q \<and> dget held p = Some WriteMode \<longrightarrow> dget held q = None)"

lemma file_exclusive_step:
  assumes "file_exclusive held" and "f = dget held p \<or> f = None \<or> (\<exists>m. f = Some m \<and> grant m p held)" and "file_lock_excludes grant"
  shows "file_exclusive (set_held p f held)"
  using assms(2)
proof (elim disjE exE conjE)
  fix m assume m: "f = Some m" "grant m p held"
  then have "\<And>q. q \<noteq> p \<Longrightarrow> dget held q \<noteq> Some WriteMode \<and> (m = WriteMode \<longrightarrow> dget held q = None)"
    using assms(3) by (simp add: file_lock_excludes_def)
  then show ?thesis using assms(1) m(1) by (auto simp: file_exclusive_def)
qed (use assms(1) in \<open>auto simp: file_exclusive_def\<close>)

lemma reachable_rw_inv:
  assumes "rw_reachable grant s"
  shows "rw_inv (rw_procs s p) (dget (rw_file s) p)"
  using assms
proof (induction arbitrary: p rule: rw_reachable.induct)
  case start
  show ?case
    by (simp add: rw_start_state_def rw_init_def rw_inv_def counts_ok_def writer_ok_def file_ok_def busy_def tasks_at_def)
next
  case (step s pta s')
  obtain q t a where a: "pta = (q, t, a)" by (cases pta)
  obtain pr f where l: "rw_local_step (\<lambda>m. grant m q (rw_file s)) t a (rw_procs s q) (dget (rw_file s) q) = Some (pr, f)"
    and s': "s' = s\<lparr>rw_procs := (rw_procs s)(q := pr), rw_file := set_held q f (rw_file s)\<rparr>"
    using step.hyps(2) by (auto simp: a rw_step_def)
  then show ?case using step.IH rw_local_step_inv[OF step.IH l] by simp
qed

lemma reachable_file_exclusive:
  assumes "rw_reachable grant s" and "file_lock_excludes grant"
  shows "file_exclusive (rw_file s)"
  using assms
proof (induction rule: rw_reachable.induct)
  case start
  show ?case by (simp add: rw_start_state_def file_exclusive_def)
next
  case (step s pta s')
  obtain q t a where a: "pta = (q, t, a)" by (cases pta)
  obtain pr f where l: "rw_local_step (\<lambda>m. grant m q (rw_file s)) t a (rw_procs s q) (dget (rw_file s) q) = Some (pr, f)"
    and s': "s' = s\<lparr>rw_procs := (rw_procs s)(q := pr), rw_file := set_held q f (rw_file s)\<rparr>"
    using step.hyps(2) by (auto simp: a rw_step_def)
  then show ?case using file_exclusive_step[OF step.IH[OF step.prems] local_step_file[OF l] step.prems] by simp
qed

section \<open>Properties\<close>

text \<open>C37: mutual exclusion, across tasks and processes: in any state that can be reached, with timeouts and
  cancellations at any await, no task reads or writes while another one writes, if the file lock excludes
  other processes as it should.\<close>

theorem rw_mutual_exclusion:
  assumes "rw_reachable grant s" and "file_lock_excludes grant"
    and "rp_pc (rw_procs s p) t = Writing" and "(q, u) \<noteq> (p, t)"
  shows "rp_pc (rw_procs s q) u \<notin> {Reading, Writing}"
proof -
  note I = reachable_rw_inv[OF assms(1)]
  have w: "rp_writer (rw_procs s p)" "dget (rw_file s) p = Some WriteMode" "rp_readers (rw_procs s p) = 0"
    using I[of p] assms(3) by (auto simp: rw_inv_def writer_ok_def)
  show ?thesis
  proof (cases "q = p")
    case True
    then have "u \<noteq> t" using assms(4) by simp
    moreover have "rp_pc (rw_procs s p) u = Writing \<Longrightarrow> u = t" using I[of p] assms(3) by (auto simp: rw_inv_def writer_ok_def)
    ultimately show ?thesis using nobody_reads[OF _ w(3), of u] I[of p] True by (auto simp: rw_inv_def)
  next
    case False
    then have n: "dget (rw_file s) q = None" using reachable_file_exclusive[OF assms(1,2)] w(2) unfolding file_exclusive_def by metis
    then have "rp_readers (rw_procs s q) = 0" using I[of q] by (auto simp: rw_inv_def file_ok_def)
    then have "rp_pc (rw_procs s q) u \<noteq> Reading" using nobody_reads I[of q] by (simp add: rw_inv_def)
    moreover have "rp_pc (rw_procs s q) u \<noteq> Writing" using I[of q] n by (auto simp: rw_inv_def writer_ok_def)
    ultimately show ?thesis by simp
  qed
qed

text \<open>A file lock that grants what is compatible with what the others hold.\<close>

definition demo_file_lock :: file_lock where
  "demo_file_lock m p held = list_all (\<lambda>(q, m'). q = p \<or> m = ReadMode \<and> m' = ReadMode) held"

lemma demo_file_lock_excludes: "file_lock_excludes demo_file_lock"
  unfolding file_lock_excludes_def demo_file_lock_def list_all_iff
  by (metis (mono_tags, lifting) case_prodD map_of_SomeD not_None_eq rw_mode.distinct(1))

theorem rw_mutual_exclusion_witness:
  "\<exists>s. rw_run demo_file_lock [(0, 5, Start WriteMode), (0, 5, Proceed), (0, 5, Proceed), (1, 5, Start ReadMode), (1, 5, Proceed)]
      rw_start_state = Some s \<and> rp_pc (rw_procs s 0) 5 = Writing \<and> rp_pc (rw_procs s 1) 5 \<noteq> Reading"
proof -
  let ?run = "rw_run demo_file_lock [(0, 5, Start WriteMode), (0, 5, Proceed), (0, 5, Proceed), (1, 5, Start ReadMode), (1, 5, Proceed)] rw_start_state"
  have "map_option (\<lambda>s. rp_pc (rw_procs s 0) 5) ?run = Some Writing" by code_simp
  then obtain s where s: "?run = Some s" "rp_pc (rw_procs s 0) 5 = Writing" by auto
  have "rw_reachable demo_file_lock s" by (rule rw_run_reachable[OF rw_reachable.start s(1)])
  from rw_mutual_exclusion[OF this demo_file_lock_excludes s(2), of 1 5] s show ?thesis by auto
qed


text \<open>C38: the lock is given back: once all tasks of a process are outside again, however they were delayed or timed
  out, its condition is free and no writer is counted as waiting; and unless a task was cancelled while leaving,
  no reader is counted, no writer is noted and the process holds nothing of the file lock.\<close>

theorem rw_lock_given_back:
  assumes "rw_reachable grant s" and "rp_pc (rw_procs s p) = (\<lambda>t. Outside)"
  shows "let pr = rw_procs s p in rp_cond pr = None \<and> rp_writers_waiting pr = 0 \<and>
    (rp_leaked pr \<or> rp_readers pr = 0 \<and> \<not> rp_writer pr \<and> dget (rw_file s) p = None)"
proof -
  let ?pr = "rw_procs s p" and ?f = "dget (rw_file s) p"
  have I: "counts_ok ?pr" "writer_ok ?pr ?f" "file_ok ?pr ?f" using reachable_rw_inv[OF assms(1), of p] by (simp_all add: rw_inv_def)
  have n: "tasks_at inside_read ?pr = {}" "tasks_at waiting_write ?pr = {}" by (simp_all add: tasks_at_def assms(2))
  have c: "rp_cond ?pr = None" using I(1) assms(2) by (cases "rp_cond ?pr") (auto simp: counts_ok_def)
  have "rp_readers ?pr = 0 \<and> \<not> rp_writer ?pr" if "\<not> rp_leaked ?pr"
    using I that assms(2) by (simp add: counts_ok_def writer_ok_def n)
  moreover have "?f = None" if "rp_readers ?pr = 0" "\<not> rp_writer ?pr"
    using I(3) that unfolding file_free[OF I(1) c] by (cases ?f; cases "the ?f") auto
  ultimately show ?thesis using I(1) c n by (auto simp: Let_def counts_ok_def)
qed

definition demo_rw_run :: "(nat \<times> nat \<times> rw_action) list" where
  "demo_rw_run = [(0, 1, Start ReadMode), (0, 1, Proceed), (0, 1, Proceed), (0, 2, Start WriteMode), (0, 2, Proceed), (0, 2, Expire),
     (0, 2, Proceed), (0, 1, Cancel), (0, 1, Proceed), (0, 1, Proceed)]"

text \<open>A reader that is cancelled while it reads, and a writer that times out.\<close>

theorem rw_lock_given_back_witness:
  "\<exists>s. rw_run demo_file_lock demo_rw_run rw_start_state = Some s \<and> rp_readers (rw_procs s 0) = 0 \<and> dget (rw_file s) 0 = None"
proof -
  let ?run = "rw_run demo_file_lock demo_rw_run rw_start_state"
  have "map_option (\<lambda>s. (rp_pc (rw_procs s 0) 1, rp_pc (rw_procs s 0) 2, rp_leaked (rw_procs s 0))) ?run = Some (Outside, Outside, False)"
    by code_simp
  then obtain s where s: "?run = Some s" "rp_pc (rw_procs s 0) 1 = Outside" "rp_pc (rw_procs s 0) 2 = Outside" "\<not> rp_leaked (rw_procs s 0)"
    by auto
  have "rp_pc (rw_procs s 0) t = Outside" for t
    using s(1) unfolding demo_rw_run_def
    by (auto simp: rw_step_def rw_local_step_def rw_start_def rw_proceed_def rw_expire_def rw_cancel_def read_check_def write_check_def
        may_read_def may_write_def goto_def hold_cond_def drop_cond_def notify_all_def demo_file_lock_def rw_start_state_def rw_init_def Let_def
        split: if_splits)
  then have "rp_pc (rw_procs s 0) = (\<lambda>t. Outside)" by blast
  from rw_lock_given_back[OF rw_run_reachable[OF rw_reachable.start s(1)] this] s show ?thesis by (auto simp: Let_def)
qed

section \<open>Observations\<close>

text \<open>A writer that gives up does not wake the readers that slept because of it: task 3 sleeps although it could read.\<close>

lemma readers_left_asleep:
  "map_option (\<lambda>s. (rp_pc (rw_procs s 0) 3, rp_cond (rw_procs s 0), may_read (rw_procs s 0)))
     (rw_run demo_file_lock [(0, 1, Start ReadMode), (0, 1, Proceed), (0, 1, Proceed), (0, 2, Start WriteMode), (0, 2, Proceed),
        (0, 3, Start ReadMode), (0, 3, Proceed), (0, 2, Expire), (0, 2, Proceed)] rw_start_state) =
   Some (ReadSleep, None, True)"
  by code_simp

text \<open>A writer that is cancelled while the file lock is released leaves its mark: nobody is inside, but nobody may read.\<close>

lemma cancelled_writer_blocks:
  "map_option (\<lambda>s. (rp_pc (rw_procs s 0) 1, rw_file s, may_read (rw_procs s 0), may_write (rw_procs s 0)))
     (rw_run demo_file_lock [(0, 1, Start WriteMode), (0, 1, Proceed), (0, 1, Proceed), (0, 1, Proceed), (0, 1, Proceed), (0, 1, Cancel)]
       rw_start_state) =
   Some (Outside, [], False, False)"
  by code_simp

text \<open>A reader that is cancelled while it waits to leave stays counted, and the file lock is kept.\<close>

lemma cancelled_reader_counted:
  "map_option (\<lambda>s. (rp_pc (rw_procs s 0) 1, rp_readers (rw_procs s 0), rw_file s))
     (rw_run demo_file_lock [(0, 1, Start ReadMode), (0, 1, Proceed), (0, 1, Proceed), (0, 1, Proceed), (0, 1, Cancel)] rw_start_state) =
   Some (Outside, 1, [(0, ReadMode)])"
  by code_simp

end
