(* ===== verification/Session_Path.thy ===== *)
theory Session_Path
  imports Pyval Decimal
begin

text \<open>
  The nested paths of a session's state: \<open>core/session/utils.py\<close>. A path like \<open>a.b[0].c\<close> leads into a value of
  dictionaries and lists. The code hands out the container at the end of a path and changes it in place; the
  containers of a value form a tree, so here a container is the steps that lead to it. Deep copies are the
  values themselves, and the recursion limit of Python is not reached.
\<close>

section \<open>Paths\<close>

datatype pstep = PKey string | PIdx int

abbreviation quote :: char where
  "quote \<equiv> CHR 0x27"

text \<open>One match of the pattern for an index, \<open>[-12]\<close> or \<open>['key']\<close>, at the start of a text.\<close>

definition match_number :: "string \<Rightarrow> (int \<times> string) option" where
  "match_number s =
     (let (neg, s1) = (case s of [] \<Rightarrow> (False, s) | c # cs \<Rightarrow> if c = CHR ''-'' then (True, cs) else (False, s));
          digits = takeWhile is_decimal s1
      in case dropWhile is_decimal s1 of
           [] \<Rightarrow> None
         | c # rest \<Rightarrow>
             if digits \<noteq> [] \<and> c = CHR '']'' then Some (if neg then - int (digits_val digits) else int (digits_val digits), rest) else None)"

definition match_quoted :: "string \<Rightarrow> (string \<times> string) option" where
  "match_quoted s =
     (case s of
        [] \<Rightarrow> None
      | c # cs \<Rightarrow>
          if c \<noteq> quote then None
          else
            (let key = takeWhile (\<lambda>x. x \<noteq> quote) cs; rest = drop 1 (dropWhile (\<lambda>x. x \<noteq> quote) cs)
             in if key \<noteq> [] \<and> rest \<noteq> [] \<and> hd rest = CHR '']'' \<and> quote \<in> set cs then Some (key, tl rest) else None))"

definition match_index :: "string \<Rightarrow> (pstep \<times> string) option" where
  "match_index s =
     (case s of
        [] \<Rightarrow> None
      | c # cs \<Rightarrow>
          if c \<noteq> CHR ''['' then None
          else (case match_number cs of
                  Some (i, rest) \<Rightarrow> Some (PIdx i, rest)
                | None \<Rightarrow> map_option (\<lambda>(key, rest). (PKey key, rest)) (match_quoted cs)))"

lemma dropWhile_shorter: "dropWhile P xs = y # ys \<Longrightarrow> length ys < length xs"
  by (metis Suc_le_eq length_Cons length_dropWhile_le)

lemma match_index_shorter: "match_index s = Some (p, rest) \<Longrightarrow> length rest < length s"
proof -
  have n: "match_number cs = Some (i, rest) \<Longrightarrow> length rest \<le> length cs" for cs i
    by (auto simp: match_number_def Let_def split: list.splits if_splits dest!: dropWhile_shorter)
  have q: "match_quoted cs = Some (k, rest) \<Longrightarrow> length rest \<le> length cs" for cs k
  proof -
    assume "match_quoted cs = Some (k, rest)"
    then obtain cs' where cs': "cs = quote # cs'" and r: "rest = tl (drop 1 (dropWhile (\<lambda>x. x \<noteq> quote) cs'))"
      by (auto simp: match_quoted_def Let_def split: list.splits if_splits)
    show "length rest \<le> length cs" using length_dropWhile_le[of "\<lambda>x. x \<noteq> quote" cs'] by (simp add: cs' r)
  qed
  assume "match_index s = Some (p, rest)"
  then show ?thesis
    by (auto simp: match_index_def split: list.splits if_splits option.splits dest!: n q)
qed

function find_indexes :: "string \<Rightarrow> pstep list" where
  "find_indexes [] = []"
| "find_indexes (c # s) = (case match_index (c # s) of Some (p, rest) \<Rightarrow> p # find_indexes rest | None \<Rightarrow> find_indexes s)"
  by pat_completeness auto
termination
  by (relation "measure length") (auto dest: match_index_shorter)

definition split_param :: "string \<Rightarrow> pstep list" where
  "split_param param =
     (if CHR ''['' \<in> set param
      then (let base_part = takeWhile (\<lambda>c. c \<noteq> CHR ''['') param
            in (if base_part \<noteq> [] then [PKey base_part] else []) @ find_indexes param)
      else [PKey param])"

definition split_nested_path :: "string \<Rightarrow> pstep list" where
  "split_nested_path nested_key =
     (if CHR ''.'' \<notin> set nested_key \<and> CHR ''['' \<notin> set nested_key then []
      else concat (map split_param (split_on (CHR ''.'') nested_key)))"

section \<open>Containers\<close>

text \<open>The element of a list at an index that may be negative.\<close>

definition list_pos :: "int \<Rightarrow> pyval list \<Rightarrow> nat option" where
  "list_pos i xs =
     (let j = (if i < 0 then i + int (length xs) else i)
      in if 0 \<le> j \<and> j < int (length xs) then Some (nat j) else None)"

type_synonym container = "pstep list"

type_synonym location = "(container \<times> pstep) option"

definition location_under :: "pstep \<Rightarrow> location res \<Rightarrow> location res" where
  "location_under p r = map_sum id (map_option (\<lambda>(path, key). (p # path, key))) r"

text \<open>
  \<open>root_to_path\<close>: the container of the last step and its key there. Walking may create what is absent, so the
  value comes back changed. The steps to a container are positions: a list index is never negative in them.
\<close>

fun walk_path :: "bool \<Rightarrow> pstep list \<Rightarrow> pyval \<Rightarrow> location res \<times> pyval" where
  "walk_path create [] v = (Inr None, v)"
| "walk_path create (PKey k # ps) (PDict d) =
     (case dget d k of
        None \<Rightarrow>
          if \<not> create then (Inr None, PDict d)
          else
            (let child = (case ps of PIdx i # _ \<Rightarrow> PList [] | _ \<Rightarrow> PDict [])
             in if ps = [] then (Inr (Some ([], PKey k)), PDict (dset k child d))
                else (let (r, child') = walk_path create ps child
                      in (location_under (PKey k) r, PDict (dset k child' d))))
      | Some child \<Rightarrow>
          if ps = [] then (Inr (Some ([], PKey k)), PDict d)
          else if \<not> create \<and> child = PNone then (Inr None, PDict d)
          else (let (r, child') = walk_path create ps child
                in (location_under (PKey k) r, PDict (dset k child' d))))"
| "walk_path create (PIdx i # ps) (PList xs) =
     (if i \<ge> int (length xs) \<and> \<not> create then (Inr None, PList xs)
      else
        (let xs1 = xs @ replicate (nat (i + 1 - int (length xs))) PNone
         in if ps = [] then (Inr (Some ([], PIdx i)), PList xs1)
            else
              (case list_pos i xs1 of
                 None \<Rightarrow> (Inl IndexError, PList xs1)
               | Some j \<Rightarrow>
                   if \<not> create \<and> xs1 ! j = PNone then (Inr None, PList xs1)
                   else (let (r, child') = walk_path create ps (xs1 ! j)
                         in (location_under (PIdx (int j)) r, PList (xs1[j := child']))))))"
| "walk_path create (p # ps) v = (Inr None, v)"

definition root_to_path :: "string \<Rightarrow> pyval \<Rightarrow> bool \<Rightarrow> location res \<times> pyval" where
  "root_to_path nested_path source create_if_absent =
     (let paths = split_nested_path nested_path
      in if paths = [] then (Inr (Some ([], PKey nested_path)), source)
         else walk_path create_if_absent paths source)"

text \<open>What stands at a container's steps, and replacing it.\<close>

fun value_at :: "container \<Rightarrow> pyval \<Rightarrow> pyval option" where
  "value_at [] v = Some v"
| "value_at (PKey k # ps) (PDict d) = (case dget d k of None \<Rightarrow> None | Some child \<Rightarrow> value_at ps child)"
| "value_at (PIdx i # ps) (PList xs) = (if 0 \<le> i \<and> i < int (length xs) then value_at ps (xs ! nat i) else None)"
| "value_at (p # ps) v = None"

fun put_at :: "container \<Rightarrow> pyval \<Rightarrow> pyval \<Rightarrow> pyval" where
  "put_at [] x v = x"
| "put_at (PKey k # ps) x (PDict d) = (case dget d k of None \<Rightarrow> PDict d | Some child \<Rightarrow> PDict (dset k (put_at ps x child) d))"
| "put_at (PIdx i # ps) x (PList xs) = (if 0 \<le> i \<and> i < int (length xs) then PList (xs[nat i := put_at ps x (xs ! nat i)]) else PList xs)"
| "put_at (p # ps) x v = v"

text \<open>\<open>container[key] = x\<close>, with the step the element has now.\<close>

definition set_item :: "pyval \<Rightarrow> pstep \<Rightarrow> pyval \<Rightarrow> (pyval \<times> pstep) res" where
  "set_item c key x =
     (case (c, key) of
        (PDict d, PKey k) \<Rightarrow> Inr (PDict (dset k x d), PKey k)
      | (PList xs, PIdx i) \<Rightarrow>
          (case list_pos i xs of None \<Rightarrow> Inl IndexError | Some j \<Rightarrow> Inr (PList (xs[j := x]), PIdx (int j)))
      | _ \<Rightarrow> Inl TypeError)"

definition set_at :: "location \<Rightarrow> pyval \<Rightarrow> pyval \<Rightarrow> (pyval \<times> container) res" where
  "set_at loc x v =
     (case loc of
        None \<Rightarrow> Inl TypeError
      | Some (path, key) \<Rightarrow>
          (case value_at path v of
             None \<Rightarrow> Inl TypeError
           | Some c \<Rightarrow> map_sum id (\<lambda>(c', key'). (put_at path c' v, path @ [key'])) (set_item c key x)))"

section \<open>Reading\<close>

text \<open>\<open>int(s)\<close>: white space around, a sign, digits with single underscores between them.\<close>

definition py_int :: "string \<Rightarrow> int option" where
  "py_int s =
     (let t = strip s;
          (neg, u) = (case t of [] \<Rightarrow> (False, t) | c # cs \<Rightarrow> if c = CHR ''-'' then (True, cs) else if c = CHR ''+'' then (False, cs) else (False, t));
          parts = split_on (CHR ''_'') u
      in if list_all (\<lambda>p. p \<noteq> [] \<and> list_all is_decimal p) parts
         then Some (if neg then - int (digits_val (concat parts)) else int (digits_val (concat parts))) else None)"

text \<open>An exception of the subscription is caught, one of \<open>root_to_path\<close> is not.\<close>

definition get_item :: "pyval \<Rightarrow> pstep \<Rightarrow> pyval" where
  "get_item c key =
     (case c of
        PList xs \<Rightarrow>
          (case (case key of PIdx i \<Rightarrow> Some i | PKey s \<Rightarrow> py_int s) of
             None \<Rightarrow> PNone
           | Some index \<Rightarrow> (case list_pos index xs of None \<Rightarrow> PNone | Some j \<Rightarrow> xs ! j))
      | PDict d \<Rightarrow> (case key of PKey k \<Rightarrow> dget_default PNone d k | PIdx i \<Rightarrow> PNone)
      | _ \<Rightarrow> PNone)"

definition get_value_by_nested_path :: "string \<Rightarrow> pyval \<Rightarrow> pyval res" where
  "get_value_by_nested_path nested_key source =
     (case fst (root_to_path nested_key source False) of
        Inl e \<Rightarrow> Inl e
      | Inr None \<Rightarrow> Inr PNone
      | Inr (Some (path, key)) \<Rightarrow>
          (case value_at path source of None \<Rightarrow> Inr PNone | Some c \<Rightarrow> Inr (get_item c key)))"

definition is_ref_path :: "string \<Rightarrow> bool" where
  "is_ref_path path \<longleftrightarrow> length path > 3 \<and> take 2 path = ''${'' \<and> last path = CHR ''}''"

text \<open>The first \<open>${...}\<close> in the first thousand characters.\<close>

fun search_ref :: "string \<Rightarrow> string option" where
  "search_ref [] = None"
| "search_ref (c # s) =
     (let body = takeWhile (\<lambda>x. x \<noteq> CHR ''{'' \<and> x \<noteq> CHR ''}'') (drop 1 s);
          rest = dropWhile (\<lambda>x. x \<noteq> CHR ''{'' \<and> x \<noteq> CHR ''}'') (drop 1 s)
      in if c = CHR ''$'' \<and> take 1 s = ''{'' \<and> take 1 rest = ''}'' then Some body else search_ref s)"

definition extract_origin_key :: "string \<Rightarrow> string" where
  "extract_origin_key key =
     (if CHR ''$'' \<notin> set key then key
      else (case search_ref (take 1000 key) of None \<Rightarrow> key | Some s \<Rightarrow> s))"

fun get_by_schema :: "bool \<Rightarrow> pyval \<Rightarrow> pyval \<Rightarrow> pyval res"
  and get_by_schema_list :: "pyval list \<Rightarrow> pyval \<Rightarrow> pyval list res"
  and get_by_schema_dict :: "pdict \<Rightarrow> pyval \<Rightarrow> pdict \<Rightarrow> pdict res"
where
  "get_by_schema is_root schema PNone = Inr PNone"
| "get_by_schema is_root PNone data = Inr PNone"
| "get_by_schema is_root (PStr s) data =
     (let origin_key = extract_origin_key s
      in if origin_key = s \<and> \<not> is_root then Inr (PStr s) else get_value_by_nested_path origin_key data)"
| "get_by_schema is_root (PDict d) data = map_sum id PDict (get_by_schema_dict d data [])"
| "get_by_schema is_root (PList xs) data = map_sum id PList (get_by_schema_list xs data)"
| "get_by_schema is_root schema data = Inr schema"
| "get_by_schema_list [] data = Inr []"
| "get_by_schema_list (x # xs) data =
     (case get_by_schema False x data of
        Inl e \<Rightarrow> Inl e
      | Inr v \<Rightarrow> map_sum id (\<lambda>vs. v # vs) (get_by_schema_list xs data))"
| "get_by_schema_dict [] data result = Inr result"
| "get_by_schema_dict ((k, x) # items) data result =
     (case (case x of
              PStr s \<Rightarrow> if is_ref_path s then get_by_schema False x data else Inr x
            | PDict _ \<Rightarrow> get_by_schema False x data
            | PList _ \<Rightarrow> get_by_schema False x data
            | _ \<Rightarrow> Inr x) of
        Inl e \<Rightarrow> Inl e
      | Inr v \<Rightarrow> get_by_schema_dict items data (dset k v result))"

definition get_prefixed :: "pyval \<Rightarrow> string \<Rightarrow> pyval \<Rightarrow> pyval res" where
  "get_prefixed schema nested_path data =
     (if nested_path = [] then get_by_schema True schema data
      else (case get_value_by_nested_path nested_path data of
              Inl e \<Rightarrow> Inl e
            | Inr data' \<Rightarrow> get_by_schema True schema data'))"

end
