(* ===== verification/Session_State.thy ===== *)
theory Session_State
  imports Session_Path
begin

text \<open>
  The state of a session: updating nested values (the rest of \<open>core/session/utils.py\<close>) and the states built on
  it, \<open>core/session/state/base.py\<close>, \<open>workflow_state.py\<close> and \<open>agent_state.py\<close>. An exception leaves what was
  changed before it. The traces of the nodes are left out.
\<close>

section \<open>Expanding a value\<close>

text \<open>Paths among the keys of a dictionary become nested containers; tuples become lists.\<close>

fun expand_nested_structure :: "pyval \<Rightarrow> pyval res"
  and expand_list :: "pyval list \<Rightarrow> pyval list res"
  and expand_items :: "pdict \<Rightarrow> pyval \<Rightarrow> pyval res"
where
  "expand_nested_structure (PList xs) = map_sum id PList (expand_list xs)"
| "expand_nested_structure (PTuple xs) = map_sum id PList (expand_list xs)"
| "expand_nested_structure (PDict d) = expand_items d (PDict [])"
| "expand_nested_structure v = Inr v"
| "expand_list [] = Inr []"
| "expand_list (x # xs) =
     (case expand_nested_structure x of
        Inl e \<Rightarrow> Inl e
      | Inr y \<Rightarrow> map_sum id (\<lambda>ys. y # ys) (expand_list xs))"
| "expand_items [] result = Inr result"
| "expand_items ((key, value) # items) result =
     (case root_to_path key result True of
        (Inl e, _) \<Rightarrow> Inl e
      | (Inr loc, result1) \<Rightarrow>
          (case expand_nested_structure value of
             Inl e \<Rightarrow> Inl e
           | Inr x \<Rightarrow>
               (case set_at loc x result1 of
                  Inl e \<Rightarrow> Inl e
                | Inr (result2, _) \<Rightarrow> expand_items items result2)))"

section \<open>Updating\<close>

text \<open>\<open>key in container\<close>: for a list that is a search for the index among its elements.\<close>

definition key_in :: "pstep \<Rightarrow> pyval \<Rightarrow> bool" where
  "key_in key c =
     (case (c, key) of
        (PDict d, PKey k) \<Rightarrow> dget d k \<noteq> None
      | (PList xs, PIdx i) \<Rightarrow> list_ex (\<lambda>x. py_eq x (PInt i)) xs
      | _ \<Rightarrow> False)"

definition is_container :: "pyval \<Rightarrow> bool" where
  "is_container c = (case c of PDict d \<Rightarrow> True | PList xs \<Rightarrow> True | _ \<Rightarrow> False)"

text \<open>
  An update says how it ended and what the value is now; and which steps were assigned or deleted, for the
  container that stood there is not the one that stands there now.
\<close>

type_synonym 'a update = "'a res \<times> pyval \<times> container list"

definition still_there :: "container list \<Rightarrow> location \<Rightarrow> bool" where
  "still_there replaced loc =
     (case loc of None \<Rightarrow> True | Some (path, key) \<Rightarrow> \<not> list_ex (\<lambda>q. take (length q) path = q) replaced)"

text \<open>\<open>delete_by_key\<close>: nothing is deleted from a list; a container that was replaced does not matter any more.\<close>

definition delete_by_key :: "location \<Rightarrow> pyval \<Rightarrow> unit update" where
  "delete_by_key loc src =
     (case loc of
        None \<Rightarrow> (Inl TypeError, src, [])
      | Some (path, key) \<Rightarrow>
          (case (value_at path src, key) of
             (Some (PDict d), PKey k) \<Rightarrow>
               if dget d k = None then (Inr (), src, []) else (Inr (), put_at path (PDict (ddel k d)) src, [path @ [key]])
           | _ \<Rightarrow> (Inr (), src, [])))"

fun delete_all :: "location list \<Rightarrow> pyval \<Rightarrow> unit update" where
  "delete_all [] src = (Inr (), src, [])"
| "delete_all (loc # locs) src =
     (case delete_by_key loc src of
        (Inl e, src1, replaced) \<Rightarrow> (Inl e, src1, replaced)
      | (Inr _, src1, replaced) \<Rightarrow>
          (let (r, src2, replaced') = delete_all (filter (still_there replaced) locs) src1 in (r, src2, replaced @ replaced')))"

text \<open>The new value at a location, which replaces what stands there.\<close>

definition assign :: "location \<Rightarrow> pyval \<Rightarrow> pyval \<Rightarrow> unit update" where
  "assign loc new_value src =
     (case expand_nested_structure new_value of
        Inl e \<Rightarrow> (Inl e, src, [])
      | Inr x \<Rightarrow> (case set_at loc x src of Inl e \<Rightarrow> (Inl e, src, []) | Inr (src', path) \<Rightarrow> (Inr (), src', [path])))"

text \<open>The element at a key that is there, with the steps that lead to it.\<close>

definition item_at :: "container \<Rightarrow> pstep \<Rightarrow> pyval \<Rightarrow> (container \<times> pyval) option" where
  "item_at path key src =
     (case (value_at path src, key) of
        (Some (PDict d), PKey k) \<Rightarrow> map_option (\<lambda>v. (path @ [PKey k], v)) (dget d k)
      | (Some (PList xs), PIdx i) \<Rightarrow> map_option (\<lambda>j. (path @ [PIdx (int j)], xs ! j)) (list_pos i xs)
      | _ \<Rightarrow> None)"

text \<open>
  \<open>update_dict\<close> and \<open>update_by_key\<close>. Deletions are put off to the end of the update that asks for them, to the
  containers that were found; those that were replaced since are dropped.
\<close>

lemma size_items: "size_list (\<lambda>(k, v). size v) d \<le> size_list (size_prod (\<lambda>x. 0) size) (d :: pdict)"
  by (rule size_list_pointwise) auto

function (sequential) update_items :: "bool \<Rightarrow> pdict \<Rightarrow> location list \<Rightarrow> pyval \<Rightarrow> location list update"
  and update_by_key :: "location \<Rightarrow> pyval \<Rightarrow> pyval \<Rightarrow> unit update"
  and update_dict :: "bool \<Rightarrow> pdict \<Rightarrow> pyval \<Rightarrow> unit update"
where
  "update_items ignore_delete [] removed src = (Inr removed, src, [])"
| "update_items ignore_delete ((key, value) # items) removed src =
     (case root_to_path key src True of
        (Inl e, src1) \<Rightarrow> (Inl e, src1, [])
      | (Inr loc, src1) \<Rightarrow>
          if value = PNone \<and> \<not> ignore_delete then update_items ignore_delete items (removed @ [loc]) src1
          else
            (case update_by_key loc value src1 of
               (Inl e, src2, replaced) \<Rightarrow> (Inl e, src2, replaced)
             | (Inr _, src2, replaced) \<Rightarrow>
                 (let (r, src3, replaced') = update_items ignore_delete items (filter (still_there replaced) removed) src2
                  in (r, src3, replaced @ replaced'))))"
| "update_by_key None new_value src = (Inl TypeError, src, [])"
| "update_by_key (Some (path, key)) new_value src =
     (case value_at path src of
        None \<Rightarrow> (Inl TypeError, src, [])
      | Some c \<Rightarrow>
          if \<not> is_container c then (Inl TypeError, src, [])
          else if \<not> key_in key c then assign (Some (path, key)) new_value src
          else
            (case item_at path key src of
               None \<Rightarrow> (Inl IndexError, src, [])
             | Some (steps, old) \<Rightarrow>
                 (case (old, new_value) of
                    (PDict _, PDict upd) \<Rightarrow>
                      (let (r, old', replaced) = update_dict False upd old
                       in (r, put_at steps old' src, map (\<lambda>q. steps @ q) replaced))
                  | _ \<Rightarrow> assign (Some (path, key)) new_value src)))"
| "update_dict ignore_delete upd src =
     (case update_items ignore_delete upd [] src of
        (Inl e, src1, replaced) \<Rightarrow> (Inl e, src1, replaced)
      | (Inr removed, src1, replaced) \<Rightarrow>
          if ignore_delete then (Inr (), src1, replaced)
          else (let (r, src2, replaced') = delete_all removed src1 in (r, src2, replaced @ replaced')))"
  by pat_completeness auto
termination
  by (relation "measure (\<lambda>a. case a of
        Inl (ign, items, removed, src) \<Rightarrow> 2 * size_list (\<lambda>(k, v). size v) items
      | Inr (Inl (loc, v, src)) \<Rightarrow> 2 * size v
      | Inr (Inr (ign, upd, src)) \<Rightarrow> 2 * size_list (\<lambda>(k, v). size v) upd + 1)")
    (use size_items in \<open>auto intro!: le_imp_less_Suc\<close>)


section \<open>A state and its staged updates\<close>

text \<open>\<open>InMemoryStateLike\<close> is its dictionary.\<close>

definition state_update :: "pdict \<Rightarrow> pyval \<Rightarrow> unit res \<times> pyval" where
  "state_update data st = (let (r, st', _) = update_dict False data st in (r, st'))"

definition state_set_state :: "pyval \<Rightarrow> pyval \<Rightarrow> pyval" where
  "state_set_state state st = (if state \<notin> {PNone, PDict []} then state else st)"

record commit_state =
  cs_state :: pyval
  cs_updates :: "(string, pdict list) pydict"

definition commit_state_init :: commit_state where
  "commit_state_init = \<lparr>cs_state = PDict [], cs_updates = []\<rparr>"

definition no_node_id :: py_error where
  "no_node_id = BaseError ''ERROR''"

definition update_by_id :: "string option \<Rightarrow> pdict \<Rightarrow> commit_state \<Rightarrow> unit res \<times> commit_state" where
  "update_by_id node_id data cs =
     (case node_id of
        None \<Rightarrow> (Inl no_node_id, cs)
      | Some n \<Rightarrow> (Inr (), cs\<lparr>cs_updates := dset n (dget_default [] (cs_updates cs) n @ [data]) (cs_updates cs)\<rparr>))"

definition update_by_id_and_commit :: "string option \<Rightarrow> pdict \<Rightarrow> commit_state \<Rightarrow> unit res \<times> commit_state" where
  "update_by_id_and_commit node_id data cs =
     (if node_id = None then (Inl no_node_id, cs)
      else (let (r, st) = state_update data (cs_state cs) in (r, cs\<lparr>cs_state := st\<rparr>)))"

fun apply_updates :: "pdict list \<Rightarrow> pyval \<Rightarrow> unit res \<times> pyval" where
  "apply_updates [] st = (Inr (), st)"
| "apply_updates (u # us) st =
     (case state_update u st of (Inl e, st') \<Rightarrow> (Inl e, st') | (Inr _, st') \<Rightarrow> apply_updates us st')"

text \<open>Updates that raise are not taken off, those before them included.\<close>

definition commit :: "string option \<Rightarrow> commit_state \<Rightarrow> unit res \<times> commit_state" where
  "commit node_id cs =
     (case node_id of
        None \<Rightarrow>
          (let (r, st) = apply_updates (concat (map snd (cs_updates cs))) (cs_state cs)
           in (r, cs\<lparr>cs_state := st, cs_updates := (case r of Inl e \<Rightarrow> cs_updates cs | Inr _ \<Rightarrow> [])\<rparr>))
      | Some n \<Rightarrow>
          (if dget_default [] (cs_updates cs) n = [] then (Inr (), cs)
           else (let (r, st) = apply_updates (dget_default [] (cs_updates cs) n) (cs_state cs)
                 in (r, cs\<lparr>cs_state := st, cs_updates := (case r of Inl e \<Rightarrow> cs_updates cs | Inr _ \<Rightarrow> dset n [] (cs_updates cs))\<rparr>))))"

definition rollback :: "string \<Rightarrow> commit_state \<Rightarrow> commit_state" where
  "rollback node_id cs = cs\<lparr>cs_updates := dset node_id [] (cs_updates cs)\<rparr>"

definition cs_get :: "pyval \<Rightarrow> commit_state \<Rightarrow> pyval res" where
  "cs_get key cs = get_by_schema True key (cs_state cs)"

definition cs_get_by_prefix :: "pyval \<Rightarrow> string \<Rightarrow> commit_state \<Rightarrow> pyval res" where
  "cs_get_by_prefix key nested_prefix cs = get_prefixed key nested_prefix (cs_state cs)"

definition cs_set_state :: "pyval \<Rightarrow> commit_state \<Rightarrow> commit_state" where
  "cs_set_state state cs = cs\<lparr>cs_state := state_set_state state (cs_state cs)\<rparr>"

definition cs_set_updates :: "(string, pdict list) pydict \<Rightarrow> commit_state \<Rightarrow> commit_state" where
  "cs_set_updates updates cs = (if updates \<noteq> [] then cs\<lparr>cs_updates := updates\<rparr> else cs)"

section \<open>The state of a workflow\<close>

text \<open>The four states are shared by the states of all nodes; a node's state is its view of them.\<close>

record session_states =
  ss_io :: commit_state
  ss_global :: commit_state
  ss_comp :: commit_state
  ss_workflow :: commit_state

record node_state =
  ns_parent_id :: string
  ns_node_id :: string
  ns_workflow_only :: bool

definition default_node_id :: string where
  "default_node_id = ''default''"

definition default_workflow_id :: string where
  "default_workflow_id = ''workflow''"

definition in_memory_state :: "commit_state option \<Rightarrow> node_state \<times> session_states" where
  "in_memory_state global_state =
     (\<lparr>ns_parent_id = [], ns_node_id = default_node_id, ns_workflow_only = (global_state = None)\<rparr>,
      \<lparr>ss_io = commit_state_init, ss_global = (case global_state of None \<Rightarrow> commit_state_init | Some g \<Rightarrow> g),
       ss_comp = commit_state_init, ss_workflow = commit_state_init\<rparr>)"

definition create_node_state :: "string \<Rightarrow> string \<Rightarrow> node_state \<Rightarrow> node_state" where
  "create_node_state node_id parent_id ns = \<lparr>ns_parent_id = parent_id, ns_node_id = node_id, ns_workflow_only = True\<rparr>"

definition in_io :: "(commit_state \<Rightarrow> 'a \<times> commit_state) \<Rightarrow> session_states \<Rightarrow> 'a \<times> session_states" where
  "in_io f ss = (let (r, cs) = f (ss_io ss) in (r, ss\<lparr>ss_io := cs\<rparr>))"

definition in_global :: "(commit_state \<Rightarrow> 'a \<times> commit_state) \<Rightarrow> session_states \<Rightarrow> 'a \<times> session_states" where
  "in_global f ss = (let (r, cs) = f (ss_global ss) in (r, ss\<lparr>ss_global := cs\<rparr>))"

definition in_comp :: "(commit_state \<Rightarrow> 'a \<times> commit_state) \<Rightarrow> session_states \<Rightarrow> 'a \<times> session_states" where
  "in_comp f ss = (let (r, cs) = f (ss_comp ss) in (r, ss\<lparr>ss_comp := cs\<rparr>))"

definition in_workflow :: "(commit_state \<Rightarrow> 'a \<times> commit_state) \<Rightarrow> session_states \<Rightarrow> 'a \<times> session_states" where
  "in_workflow f ss = (let (r, cs) = f (ss_workflow ss) in (r, ss\<lparr>ss_workflow := cs\<rparr>))"

text \<open>One operation after the other, as long as none raises.\<close>

definition and_then :: "(session_states \<Rightarrow> unit res \<times> session_states) \<Rightarrow> (session_states \<Rightarrow> unit res \<times> session_states) \<Rightarrow>
    session_states \<Rightarrow> unit res \<times> session_states" where
  "and_then f g ss = (case f ss of (Inl e, ss') \<Rightarrow> (Inl e, ss') | (Inr _, ss') \<Rightarrow> g ss')"

definition or_if_none :: "pyval res \<Rightarrow> pyval res \<Rightarrow> pyval res" where
  "or_if_none r r' = (if r = Inr PNone then r' else r)"

definition get_global :: "pyval \<Rightarrow> node_state \<Rightarrow> session_states \<Rightarrow> pyval res" where
  "get_global key ns ss =
     (if key = PNone then Inr PNone
      else or_if_none (cs_get key (ss_global ss))
             (or_if_none (cs_get_by_prefix key (ns_parent_id ns) (ss_io ss)) (cs_get_by_prefix key (ns_node_id ns) (ss_io ss))))"

definition update_global :: "pdict option \<Rightarrow> node_state \<Rightarrow> session_states \<Rightarrow> unit res \<times> session_states" where
  "update_global data ns ss =
     (case data of None \<Rightarrow> (Inr (), ss) | Some d \<Rightarrow> in_global (update_by_id (Some (ns_node_id ns)) d) ss)"

definition node_update :: "pyval \<Rightarrow> node_state \<Rightarrow> session_states \<Rightarrow> unit res \<times> session_states" where
  "node_update data ns ss = in_comp (update_by_id (Some (ns_node_id ns)) [(ns_node_id ns, data)]) ss"

definition node_get :: "pyval \<Rightarrow> node_state \<Rightarrow> session_states \<Rightarrow> pyval res" where
  "node_get key ns ss =
     (if key = PNone then cs_get (PStr (ns_node_id ns)) (ss_comp ss)
      else cs_get_by_prefix key (ns_node_id ns) (ss_comp ss))"

definition commit_cmp :: "node_state \<Rightarrow> session_states \<Rightarrow> unit res \<times> session_states" where
  "commit_cmp ns = and_then (in_comp (commit (Some (ns_node_id ns)))) (in_io (commit (Some (ns_node_id ns))))"

definition get_workflow_state :: "pyval \<Rightarrow> session_states \<Rightarrow> pyval res" where
  "get_workflow_state key ss = (if key = PNone then Inr PNone else cs_get key (ss_workflow ss))"

definition update_and_commit_workflow_state :: "pdict \<Rightarrow> session_states \<Rightarrow> unit res \<times> session_states" where
  "update_and_commit_workflow_state data =
     and_then (in_workflow (update_by_id (Some default_workflow_id) data)) (in_workflow (commit None))"

definition set_outputs :: "pyval \<Rightarrow> node_state \<Rightarrow> session_states \<Rightarrow> unit res \<times> session_states" where
  "set_outputs data ns ss =
     (if data = PNone then (Inr (), ss)
      else in_io (update_by_id (Some (ns_node_id ns)) [(ns_node_id ns, data)]) ss)"

definition get_inputs :: "pyval \<Rightarrow> node_state \<Rightarrow> session_states \<Rightarrow> pyval res" where
  "get_inputs schema ns ss =
     (if schema = PNone then cs_get (PStr (ns_node_id ns)) (ss_io ss)
      else cs_get_by_prefix schema (ns_parent_id ns) (ss_io ss))"

definition get_outputs :: "string option \<Rightarrow> node_state \<Rightarrow> session_states \<Rightarrow> pyval res" where
  "get_outputs node_id ns ss =
     cs_get_by_prefix (PStr (if node_id \<in> {None, Some []} then ns_node_id ns else the node_id)) (ns_parent_id ns) (ss_io ss)"

definition commit_user_inputs :: "pdict option \<Rightarrow> node_state \<Rightarrow> session_states \<Rightarrow> unit res \<times> session_states" where
  "commit_user_inputs inputs ns ss =
     (case inputs of
        None \<Rightarrow> (Inr (), ss)
      | Some d \<Rightarrow>
          and_then
            (in_io (update_by_id_and_commit (Some (ns_node_id ns)) (if ns_node_id ns \<noteq> default_node_id then [(ns_node_id ns, PDict d)] else d)))
            (in_global (update_by_id_and_commit (Some (ns_node_id ns)) d)) ss)"

definition commit_all :: "session_states \<Rightarrow> unit res \<times> session_states" where
  "commit_all = and_then (in_io (commit None)) (and_then (in_comp (commit None)) (and_then (in_global (commit None)) (in_workflow (commit None))))"

definition rollback_node :: "node_state \<Rightarrow> session_states \<Rightarrow> session_states" where
  "rollback_node ns ss =
     ss\<lparr>ss_comp := rollback (ns_node_id ns) (ss_comp ss), ss_io := rollback (ns_node_id ns) (ss_io ss),
        ss_global := rollback (ns_node_id ns) (ss_global ss), ss_workflow := rollback (ns_node_id ns) (ss_workflow ss)\<rparr>"

text \<open>What is saved of a workflow; the global state only when it is the workflow's own.\<close>

record saved_states =
  sv_io :: pyval
  sv_global :: "pyval option"
  sv_comp :: pyval
  sv_workflow :: pyval

definition get_state :: "node_state \<Rightarrow> session_states \<Rightarrow> saved_states" where
  "get_state ns ss =
     \<lparr>sv_io = cs_state (ss_io ss), sv_global = (if ns_workflow_only ns then Some (cs_state (ss_global ss)) else None),
      sv_comp = cs_state (ss_comp ss), sv_workflow = cs_state (ss_workflow ss)\<rparr>"

definition set_state :: "saved_states \<Rightarrow> session_states \<Rightarrow> session_states" where
  "set_state sv ss =
     ss\<lparr>ss_global := (case sv_global sv of None \<Rightarrow> ss_global ss | Some g \<Rightarrow> cs_set_state g (ss_global ss)),
        ss_io := cs_set_state (sv_io sv) (ss_io ss), ss_comp := cs_set_state (sv_comp sv) (ss_comp ss),
        ss_workflow := cs_set_state (sv_workflow sv) (ss_workflow ss)\<rparr>"

record saved_updates =
  su_io :: "(string, pdict list) pydict"
  su_global :: "(string, pdict list) pydict option"
  su_comp :: "(string, pdict list) pydict"
  su_workflow :: "(string, pdict list) pydict"

definition get_updates :: "node_state \<Rightarrow> session_states \<Rightarrow> saved_updates" where
  "get_updates ns ss =
     \<lparr>su_io = cs_updates (ss_io ss), su_global = (if ns_workflow_only ns then Some (cs_updates (ss_global ss)) else None),
      su_comp = cs_updates (ss_comp ss), su_workflow = cs_updates (ss_workflow ss)\<rparr>"

definition set_updates :: "saved_updates \<Rightarrow> session_states \<Rightarrow> session_states" where
  "set_updates su ss =
     ss\<lparr>ss_global := (case su_global su of None \<Rightarrow> ss_global ss | Some g \<Rightarrow> cs_set_updates g (ss_global ss)),
        ss_io := cs_set_updates (su_io su) (ss_io ss), ss_comp := cs_set_updates (su_comp su) (ss_comp ss),
        ss_workflow := cs_set_updates (su_workflow su) (ss_workflow ss)\<rparr>"


section \<open>The state of an agent\<close>

record agent_states =
  as_global :: pyval
  as_agent :: pyval

definition agent_states_init :: agent_states where
  "agent_states_init = \<lparr>as_global = PDict [], as_agent = PDict []\<rparr>"

definition agent_get :: "pyval \<Rightarrow> agent_states \<Rightarrow> pyval res" where
  "agent_get key st = (if key = PNone then Inr (as_agent st) else get_by_schema True key (as_agent st))"

definition agent_update :: "pdict \<Rightarrow> agent_states \<Rightarrow> unit res \<times> agent_states" where
  "agent_update data st = (let (r, v) = state_update data (as_agent st) in (r, st\<lparr>as_agent := v\<rparr>))"

definition agent_get_global :: "pyval \<Rightarrow> agent_states \<Rightarrow> pyval res" where
  "agent_get_global key st = (if key = PNone then Inr (as_global st) else get_by_schema True key (as_global st))"

definition agent_update_global :: "pdict \<Rightarrow> agent_states \<Rightarrow> unit res \<times> agent_states" where
  "agent_update_global data st = (let (r, v) = state_update data (as_global st) in (r, st\<lparr>as_global := v\<rparr>))"

definition agent_set_state :: "agent_states \<Rightarrow> agent_states \<Rightarrow> agent_states" where
  "agent_set_state saved st =
     \<lparr>as_global = state_set_state (as_global saved) (as_global st), as_agent = state_set_state (as_agent saved) (as_agent st)\<rparr>"

end
