(* ===== verification/Session_Props.thy ===== *)
theory Session_Props
  imports Session_State
begin

text \<open>
  What the state of a session promises: what is written at a path is read at it, and paths that part from it
  read what they read before.
\<close>

section \<open>Walking a path again\<close>

lemma list_pos_Some: "list_pos i xs = Some j \<longleftrightarrow> j < length xs \<and> (if i < 0 then int j = i + int (length xs) else int j = i)"
  by (auto simp: list_pos_def Let_def)

lemma list_pos_length: "length ys = length xs \<Longrightarrow> list_pos i ys = list_pos i xs"
  by (simp add: list_pos_def)

lemma list_pos_update [simp]: "list_pos i (xs[j := x]) = list_pos i xs"
  by (rule list_pos_length) simp

lemma location_under_Some:
  "location_under p r = Inr (Some (path, key)) \<longleftrightarrow> (\<exists>path'. r = Inr (Some (path', key)) \<and> path = p # path')"
proof (cases r)
  case (Inr loc)
  show ?thesis by (cases loc) (auto simp: location_under_def Inr)
qed (simp add: location_under_def)

text \<open>The child of a container at a step, and the step in its exact form.\<close>

definition child_at :: "pstep \<Rightarrow> pyval \<Rightarrow> (pstep \<times> pyval) option" where
  "child_at p v =
     (case (v, p) of
        (PDict d, PKey k) \<Rightarrow> map_option (\<lambda>c. (PKey k, c)) (dget d k)
      | (PList xs, PIdx i) \<Rightarrow> map_option (\<lambda>j. (PIdx (int j), xs ! j)) (list_pos i xs)
      | _ \<Rightarrow> None)"

lemma child_at_simps [simp]:
  "child_at (PKey k) (PDict d) = map_option (\<lambda>c. (PKey k, c)) (dget d k)"
  "child_at (PIdx i) (PList xs) = map_option (\<lambda>j. (PIdx (int j), xs ! j)) (list_pos i xs)"
  by (simp_all add: child_at_def)

lemma child_at_cases:
  assumes "child_at p v = Some (q, c)"
  obtains k d where "p = PKey k" "v = PDict d" "q = PKey k" "dget d k = Some c"
    | i xs j where "p = PIdx i" "v = PList xs" "q = PIdx (int j)" "list_pos i xs = Some j" "c = xs ! j" "j < length xs"
  using assms by (auto simp: child_at_def list_pos_Some split: pyval.splits pstep.splits)

lemma value_at_Cons: "child_at p v = Some (q, c) \<Longrightarrow> value_at (q # path) v = value_at path c"
  by (erule child_at_cases) auto

lemma child_at_put: "child_at p v = Some (q, c) \<Longrightarrow> child_at p (put_at (q # path) x v) = Some (q, put_at path x c)"
  by (erule child_at_cases) auto

lemma walk_step:
  assumes "walk_path create (p # ps) v = (Inr (Some (path, key)), v1)" and "ps \<noteq> []"
  shows "\<exists>q c c' path'. path = q # path' \<and> walk_path create ps c = (Inr (Some (path', key)), c') \<and> child_at p v1 = Some (q, c')"
  using assms by (cases p; cases v)
    (auto simp: Let_def location_under_Some list_pos_Some split: option.splits if_splits prod.splits; fastforce)+


text \<open>What is read along the steps of a path.\<close>

fun read_path :: "pstep list \<Rightarrow> pyval \<Rightarrow> pyval res" where
  "read_path [] v = Inr PNone"
| "read_path (PKey k # ps) (PDict d) =
     (case dget d k of
        None \<Rightarrow> Inr PNone
      | Some c \<Rightarrow> if ps = [] then Inr c else if c = PNone then Inr PNone else read_path ps c)"
| "read_path (PIdx i # ps) (PList xs) =
     (if i \<ge> int (length xs) then Inr PNone
      else
        (case list_pos i xs of
           None \<Rightarrow> if ps = [] then Inr PNone else Inl IndexError
         | Some j \<Rightarrow> if ps = [] then Inr (xs ! j) else if xs ! j = PNone then Inr PNone else read_path ps (xs ! j)))"
| "read_path (p # ps) v = Inr PNone"

definition steps_of :: "string \<Rightarrow> pstep list" where
  "steps_of k = (if split_nested_path k = [] then [PKey k] else split_nested_path k)"

definition read_location :: "location res \<Rightarrow> pyval \<Rightarrow> pyval res" where
  "read_location r v =
     (case r of
        Inl e \<Rightarrow> Inl e
      | Inr None \<Rightarrow> Inr PNone
      | Inr (Some (path, key)) \<Rightarrow> (case value_at path v of None \<Rightarrow> Inr PNone | Some c \<Rightarrow> Inr (get_item c key)))"

lemma read_location_under: "child_at p v = Some (q, c) \<Longrightarrow> read_location (location_under q r) v = read_location r c"
  by (auto simp: read_location_def location_under_def value_at_Cons split: sum.splits option.splits)

lemma walk_reads: "read_location (fst (walk_path False ps v)) v = read_path ps v"
proof (induction ps v rule: read_path.induct)
  case (2 k ps d)
  show ?case
  proof (cases "dget d k")
    case (Some c)
    then have "child_at (PKey k) (PDict d) = Some (PKey k, c)" by simp
    from read_location_under[OF this] show ?thesis using 2 Some
      by (auto simp: Let_def split_beta read_location_def get_item_def)
  qed (simp add: read_location_def)
next
  case (3 i ps xs)
  show ?case
  proof (cases "list_pos i xs")
    case (Some j)
    then have c: "child_at (PIdx i) (PList xs) = Some (PIdx (int j), xs ! j)" by simp
    from Some have "\<not> i \<ge> int (length xs)" by (auto simp: list_pos_Some split: if_splits)
    then show ?thesis using 3 Some read_location_under[OF c]
      by (auto simp: Let_def split_beta read_location_def get_item_def)
  next
    case None
    then show ?thesis by (auto simp: Let_def read_location_def get_item_def)
  qed
qed (simp_all add: read_location_def)

lemma get_reads:
  assumes "split_nested_path k = [] \<Longrightarrow> \<exists>d. v = PDict d"
  shows "get_value_by_nested_path k v = read_path (steps_of k) v"
proof (cases "split_nested_path k = []")
  case True
  then obtain d where "v = PDict d" using assms by blast
  then show ?thesis using True
    by (cases "dget d k") (simp_all add: get_value_by_nested_path_def root_to_path_def steps_of_def get_item_def)
next
  case False
  have "get_value_by_nested_path k v = read_location (fst (walk_path False (split_nested_path k) v)) v"
    using False by (simp add: get_value_by_nested_path_def root_to_path_def read_location_def)
  then show ?thesis using False by (simp add: walk_reads steps_of_def)
qed

lemma read_down:
  assumes "child_at p v = Some (q, c)" and "ps \<noteq> []"
  shows "read_path (p # ps) v = (if c = PNone then Inr PNone else read_path ps c)"
  using assms(1)
proof (cases rule: child_at_cases)
  case (2 i xs j)
  then have "\<not> i \<ge> int (length xs)" by (auto simp: list_pos_Some split: if_splits)
  then show ?thesis using 2 assms(2) by simp
qed (use assms(2) in simp)

lemma walk_last:
  assumes "walk_path create [p] v = (Inr (Some (path, key)), v1)"
  shows "path = [] \<and> key = p"
  using assms by (cases p; cases v) (auto simp: Let_def split: option.splits if_splits)

lemma value_put [simp]: "value_at path v = Some c \<Longrightarrow> value_at path (put_at path x v) = Some x"
  by (induction path v rule: value_at.induct) (auto split: option.splits if_splits)

lemma set_item_cases:
  assumes "set_item c key x = Inr (c', q)"
  obtains k d where "c = PDict d" "key = PKey k" "c' = PDict (dset k x d)" "q = PKey k"
    | i xs j where "c = PList xs" "key = PIdx i" "list_pos i xs = Some j" "j < length xs" "c' = PList (xs[j := x])" "q = PIdx (int j)"
  using assms by (cases c; cases key) (auto simp: set_item_def list_pos_Some split: option.splits)

lemma read_set_item:
  assumes "set_item c key x = Inr (c', q)"
  shows "read_path [key] c' = Inr x"
  using assms
proof (cases rule: set_item_cases)
  case (2 i xs j)
  then have "\<not> i \<ge> int (length xs)" by (auto simp: list_pos_Some split: if_splits)
  then show ?thesis using 2 by simp
qed simp

lemma set_at_cases:
  assumes "set_at loc x v = Inr (v', path')"
  obtains path key c c' q where "loc = Some (path, key)" "value_at path v = Some c" "set_item c key x = Inr (c', q)"
    "v' = put_at path c' v" "path' = path @ [q]"
proof -
  obtain path key where l: "loc = Some (path, key)" using assms by (cases loc) (auto simp: set_at_def)
  obtain c where c: "value_at path v = Some c" using assms by (cases "value_at path v") (auto simp: set_at_def l)
  obtain c' q where s: "set_item c key x = Inr (c', q)" using assms by (cases "set_item c key x") (auto simp: set_at_def l c)
  show thesis using that[OF l c s] assms by (simp add: set_at_def l c s)
qed

text \<open>A walk that found a container does not end in, or lead through, something else.\<close>

lemma walk_value:
  assumes "walk_path create (p # ps) v = (Inr (Some loc), v1)"
  shows "is_container v \<and> is_container v1"
  using assms by (cases p; cases v) (auto simp: is_container_def Let_def split: option.splits if_splits prod.splits)

lemma put_container: "is_container x \<Longrightarrow> is_container v \<Longrightarrow> is_container (put_at path x v)"
  by (cases path; cases "hd path"; cases v) (auto simp: is_container_def split: option.splits)

lemma container_not_None: "is_container v \<Longrightarrow> v \<noteq> PNone"
  by (auto simp: is_container_def)

text \<open>When the container at the end of a walk is replaced, what is read along the walk is read from the new one.\<close>

lemma read_again:
  assumes "walk_path create ps v = (Inr (Some (path, key)), v1)" and "is_container c'"
  shows "read_path ps (put_at path c' v1) = read_path [key] c'"
  using assms(1)
proof (induction ps arbitrary: v path v1)
  case (Cons p ps)
  show ?case
  proof (cases "ps = []")
    case True
    then show ?thesis using walk_last Cons.prems by fastforce
  next
    case False
    obtain q ch ch' path' where w: "path = q # path'" "walk_path create ps ch = (Inr (Some (path', key)), ch')" "child_at p v1 = Some (q, ch')"
      using walk_step[OF Cons.prems False] by blast
    have "is_container ch'" using walk_value w(2) False by (cases ps) auto
    then have "put_at path' c' ch' \<noteq> PNone" using put_container assms(2) container_not_None by blast
    then show ?thesis using read_down[OF child_at_put[OF w(3)] False] Cons.IH[OF w(2)] by (simp add: w(1))
  qed
qed simp


section \<open>One update\<close>

text \<open>
  The container at the end of a walk, and a container that may take its place: of the same kind, with the same
  elements at other keys.
\<close>

lemma walk_found:
  assumes "walk_path create ps v = (Inr (Some (path, key)), v1)"
  shows "\<exists>c. value_at path v1 = Some c \<and> is_container c \<and> (\<forall>k. key = PKey k \<longrightarrow> (\<exists>d. c = PDict d)) \<and> key = last ps"
  using assms
proof (induction ps arbitrary: v path v1)
  case (Cons p ps)
  show ?case
  proof (cases "ps = []")
    case True
    then show ?thesis using Cons.prems by (cases p; cases v) (auto simp: is_container_def Let_def split: option.splits if_splits)
  next
    case False
    obtain q ch ch' path' where w: "path = q # path'" "walk_path create ps ch = (Inr (Some (path', key)), ch')" "child_at p v1 = Some (q, ch')"
      using walk_step[OF Cons.prems False] by blast
    show ?thesis using Cons.IH[OF w(2)] value_at_Cons[OF w(3)] False by (simp add: w(1))
  qed
qed simp

definition same_but :: "pstep \<Rightarrow> pyval \<Rightarrow> pyval \<Rightarrow> bool" where
  "same_but key c c' \<longleftrightarrow>
     (case c of
        PDict d \<Rightarrow> (\<exists>d'. c' = PDict d' \<and> (\<forall>k. PKey k \<noteq> key \<longrightarrow> dget d' k = dget d k))
      | PList xs \<Rightarrow> (\<exists>ys. c' = PList ys)
      | _ \<Rightarrow> False)"

lemma same_but_container: "same_but key c c' \<Longrightarrow> is_container c \<and> is_container c'"
  by (auto simp: same_but_def is_container_def split: pyval.splits)

lemma same_but_refl [simp]: "is_container c \<Longrightarrow> same_but key c c"
  by (auto simp: same_but_def is_container_def split: pyval.splits)

lemma same_but_set: "set_item c key x = Inr (c', q) \<Longrightarrow> same_but key c c'"
  by (erule set_item_cases) (auto simp: same_but_def)

lemma same_but_trans: "same_but key a b \<Longrightarrow> same_but key b c \<Longrightarrow> same_but key a c"
  by (cases a; cases b; cases c) (auto simp: same_but_def)

lemma put_put [simp]: "put_at path y (put_at path x v) = put_at path y v"
  by (induction path x v rule: put_at.induct) (auto split: option.splits)

lemma put_same [simp]: "value_at path v = Some c \<Longrightarrow> put_at path c v = v"
  by (induction path v rule: value_at.induct) (auto split: option.splits if_splits simp: update_triv)

lemma put_append: "value_at path v = Some c \<Longrightarrow> put_at (path @ qs) x v = put_at path (put_at qs x c) v"
  by (induction path v rule: value_at.induct) (auto split: option.splits if_splits)

lemma root_found:
  assumes "root_to_path k (PDict d) True = (Inr (Some (path, key)), src1)"
  obtains c where "value_at path src1 = Some c" "is_container c" "\<And>a. key = PKey a \<Longrightarrow> \<exists>d. c = PDict d" "key = last (steps_of k)"
proof (cases "split_nested_path k = []")
  case True
  then have "path = []" "key = PKey k" "src1 = PDict d" using assms by (simp_all add: root_to_path_def)
  then show thesis by (intro that[of "PDict d"]) (simp_all add: steps_of_def is_container_def True)
next
  case False
  then have "walk_path True (split_nested_path k) (PDict d) = (Inr (Some (path, key)), src1)"
    using assms by (simp add: root_to_path_def)
  from walk_found[OF this] obtain c where "value_at path src1 = Some c" "is_container c"
    and c: "\<forall>a. key = PKey a \<longrightarrow> (\<exists>d. c = PDict d)" and l: "key = last (split_nested_path k)" by metis
  moreover have "key = last (steps_of k)" using l False by (simp add: steps_of_def)
  ultimately show thesis using that[of c] c by blast
qed

text \<open>What an update of one path that does not raise has done: another container stands at the end of the path.\<close>

definition updated :: "string \<Rightarrow> pyval \<Rightarrow> pyval \<Rightarrow> container \<Rightarrow> pstep \<Rightarrow> pyval \<Rightarrow> pyval \<Rightarrow> pyval \<Rightarrow> bool" where
  "updated k v src path key src1 c c' \<longleftrightarrow>
     root_to_path k src True = (Inr (Some (path, key)), src1) \<and> value_at path src1 = Some c \<and> same_but key c c' \<and>
     (v \<noteq> PNone \<and> (\<forall>u. v \<noteq> PDict u) \<longrightarrow> (\<exists>x q. expand_nested_structure v = Inr x \<and> set_item c key x = Inr (c', q))) \<and>
     (v = PNone \<longrightarrow> (\<forall>a. key = PKey a \<longrightarrow> (\<exists>d. c' = PDict d \<and> dget d a = None)))"

lemma delete_shape:
  assumes root: "root_to_path k (PDict d) True = (Inr loc, src1)" and del: "delete_by_key loc src1 = (Inr (), src', r)"
  shows "\<exists>path key c c'. updated k PNone (PDict d) path key src1 c c' \<and> src' = put_at path c' src1"
proof -
  obtain path key where l: "loc = Some (path, key)" using del by (cases loc) (auto simp: delete_by_key_def)
  obtain c where c: "value_at path src1 = Some c" "is_container c" "\<And>a. key = PKey a \<Longrightarrow> \<exists>d. c = PDict d"
    using root_found root l by metis
  show ?thesis
  proof (cases key)
    case (PKey a)
    then obtain e where e: "c = PDict e" using c(3) by blast
    have id: "dget e a = None \<Longrightarrow> ddel a e = e" by (simp add: dget_None_iff)
    have "src' = put_at path (PDict (ddel a e)) src1"
      using del c(1) by (cases "dget e a") (auto simp: delete_by_key_def l PKey e id)
    moreover have "updated k PNone (PDict d) path key src1 c (PDict (ddel a e))"
      using root c(1) by (simp add: updated_def l PKey e same_but_def)
    ultimately show ?thesis by blast
  next
    case (PIdx i)
    then have "src' = put_at path c src1" using del c(1) by (auto simp: delete_by_key_def l split: pyval.splits)
    moreover have "updated k PNone (PDict d) path key src1 c c"
      using root c(1,2) by (simp add: updated_def l PIdx)
    ultimately show ?thesis by blast
  qed
qed

lemma assign_cases:
  assumes "assign loc v src = (Inr (), src', r)"
  obtains x path key c c' q where "expand_nested_structure v = Inr x" "loc = Some (path, key)" "value_at path src = Some c"
    "set_item c key x = Inr (c', q)" "src' = put_at path c' src"
proof -
  obtain x where x: "expand_nested_structure v = Inr x" using assms by (auto simp: assign_def split: sum.splits)
  then obtain path' where "set_at loc x src = Inr (src', path')" using assms by (auto simp: assign_def split: sum.splits prod.splits)
  then show thesis by (rule set_at_cases) (use that[OF x] in blast)
qed

lemma assign_shape:
  assumes root: "root_to_path k (PDict d) True = (Inr loc, src1)" and "assign loc v src1 = (Inr (), src', r)" and "v \<noteq> PNone"
  shows "\<exists>path key c c'. updated k v (PDict d) path key src1 c c' \<and> src' = put_at path c' src1"
  using assms(2)
proof (cases rule: assign_cases)
  case (1 x path key c c' q)
  then have "updated k v (PDict d) path key src1 c c'"
    using root same_but_set[OF 1(4)] assms(3) by (auto simp: updated_def)
  then show ?thesis using 1(5) by blast
qed

lemma merge_shape:
  assumes root: "root_to_path k (PDict d) True = (Inr (Some (path, key)), src1)"
    and item: "item_at path key src1 = Some (steps, old)"
  shows "\<exists>c c'. updated k (PDict u) (PDict d) path key src1 c c' \<and> put_at steps old' src1 = put_at path c' src1"
proof (cases key)
  case (PKey a)
  obtain e where e: "value_at path src1 = Some (PDict e)" "dget e a = Some old" "steps = path @ [PKey a]"
    using item by (auto simp: item_at_def PKey split: option.splits pyval.splits)
  have "updated k (PDict u) (PDict d) path key src1 (PDict e) (PDict (dset a old' e))"
    using root e(1) by (simp add: updated_def PKey same_but_def)
  then show ?thesis using put_append[OF e(1)] by (fastforce simp: e)
next
  case (PIdx i)
  obtain xs j where e: "value_at path src1 = Some (PList xs)" "list_pos i xs = Some j" "steps = path @ [PIdx (int j)]"
    using item by (auto simp: item_at_def PIdx split: option.splits pyval.splits)
  have "updated k (PDict u) (PDict d) path key src1 (PList xs) (PList (xs[j := old']))"
    using root e(1) by (simp add: updated_def PIdx same_but_def)
  moreover have "put_at steps old' src1 = put_at path (PList (xs[j := old'])) src1"
    using e(2) by (simp add: e(3) put_append[OF e(1)] list_pos_Some)
  ultimately show ?thesis by blast
qed

lemma by_key_shape:
  assumes root: "root_to_path k (PDict d) True = (Inr loc, src1)" and upd: "update_by_key loc v src1 = (Inr (), src', r)" and "v \<noteq> PNone"
  shows "\<exists>path key c c'. updated k v (PDict d) path key src1 c c' \<and> src' = put_at path c' src1"
proof -
  obtain path key where l: "loc = Some (path, key)" using upd by (cases loc) auto
  obtain c where c: "value_at path src1 = Some c" "is_container c" using root_found root l by metis
  show ?thesis
  proof (cases "key_in key c")
    case False
    then show ?thesis using upd c assign_shape[OF root _ assms(3)] by (simp add: l)
  next
    case True
    obtain steps old where i: "item_at path key src1 = Some (steps, old)"
      using upd c True by (auto simp: l split: option.splits)
    show ?thesis
    proof (cases "(\<exists>e. old = PDict e) \<and> (\<exists>u. v = PDict u)")
      case True
      then obtain e u where eu: "old = PDict e" "v = PDict u" by blast
      have "src' = put_at steps (fst (snd (update_dict False u (PDict e)))) src1"
        using upd c \<open>key_in key c\<close> i by (simp add: l eu split_beta Let_def)
      then show ?thesis using merge_shape[OF root[unfolded l] i] unfolding eu by metis
    next
      case False
      then have "assign loc v src1 = (Inr (), src', r)"
        using upd c True i by (cases old; cases v) (simp_all add: l)
      from assign_shape[OF root this assms(3)] show ?thesis .
    qed
  qed
qed

lemma update_shape:
  assumes "update_dict False [(k, v)] (PDict d) = (Inr (), src', r)"
  shows "\<exists>path key src1 c c'. updated k v (PDict d) path key src1 c c' \<and> src' = put_at path c' src1"
proof -
  obtain loc src1 where root: "root_to_path k (PDict d) True = (Inr loc, src1)"
    using assms by (auto split: prod.splits sum.splits)
  show ?thesis
  proof (cases "v = PNone")
    case True
    have "delete_by_key loc src1 = (Inr (), src', r)"
      using assms by (auto simp: root True Let_def split: prod.splits sum.splits)
    from delete_shape[OF root this] show ?thesis unfolding True by blast
  next
    case False
    have "update_by_key loc v src1 = (Inr (), src', r)"
      using assms False by (auto simp: root Let_def split: prod.splits sum.splits)
    from by_key_shape[OF root this False] show ?thesis by blast
  qed
qed

section \<open>Other paths\<close>

text \<open>What a walk that creates did to the child on its way: nothing, or an empty container was put there.\<close>

lemma walk_step_before:
  assumes "walk_path True (p # ps) v = (Inr (Some (path, key)), v1)" and "ps \<noteq> []"
  shows "\<exists>q ch ch' path'. path = q # path' \<and> walk_path True ps ch = (Inr (Some (path', key)), ch') \<and> child_at p v1 = Some (q, ch') \<and>
    (child_at p v = Some (q, ch) \<or> (child_at p v = None \<and> (\<forall>qs. qs \<noteq> [] \<longrightarrow> read_path (p # qs) v = Inr PNone) \<and> ch = (case ps of PIdx i # _ \<Rightarrow> PList [] | _ \<Rightarrow> PDict [])))"
proof (cases p)
  case (PKey k)
  then obtain d where v: "v = PDict d" using assms(1) by (cases v) auto
  show ?thesis using assms
    by (cases "dget d k") (auto simp: PKey v Let_def location_under_Some split: prod.splits)
next
  case (PIdx i)
  then obtain xs where v: "v = PList xs" using assms(1) by (cases v) auto
  define xs1 where "xs1 = xs @ replicate (nat (i + 1 - int (length xs))) PNone"
  obtain j where j: "list_pos i xs1 = Some j"
    using assms by (auto simp: PIdx v xs1_def[symmetric] Let_def split: option.splits)
  have w: "walk_path True (p # ps) v = (let (r, child') = walk_path True ps (xs1 ! j) in (location_under (PIdx (int j)) r, PList (xs1[j := child'])))"
    using assms(2) j by (simp add: PIdx v xs1_def[symmetric] Let_def)
  then obtain path' ch' where c: "walk_path True ps (xs1 ! j) = (Inr (Some (path', key)), ch')" "path = PIdx (int j) # path'" "v1 = PList (xs1[j := ch'])"
    using assms(1) by (cases "walk_path True ps (xs1 ! j)") (auto simp: location_under_Some eq_commute[of "Inr (Some (path, key))" "location_under p r" for p r])
  then have "xs1 ! j \<noteq> PNone" using assms(2) walk_value container_not_None by (cases ps) auto
  then have "j < length xs" using j by (auto simp: xs1_def list_pos_Some nth_append split: if_splits)
  then have "list_pos i xs = Some j \<and> xs1 ! j = xs ! j"
    using j by (auto simp: xs1_def list_pos_Some nth_append split: if_splits)
  then show ?thesis using c j by (auto simp: PIdx v list_pos_Some)
qed

lemma read_created:
  assumes w: "walk_path True (pre @ PKey a # rest1) v = (Inr (Some loc), v1)"
    and v: "v = (case pre @ PKey a # rest1 of PIdx i # _ \<Rightarrow> PList [] | _ \<Rightarrow> PDict [])"
  shows "read_path (pre @ PKey b # rest2) v = Inr PNone"
proof (cases pre)
  case (Cons p ps)
  show ?thesis
  proof (cases p)
    case (PIdx i)
    then have l: "v = PList []" using v Cons by simp
    obtain path key where "loc = (path, key)" by (cases loc)
    then have "walk_path True (PIdx i # ps @ PKey a # rest1) v = (Inr (Some (path, key)), v1)" using w by (simp add: Cons PIdx)
    from walk_step_before[OF this] show ?thesis by (auto simp: Cons PIdx l list_pos_Some)
  qed (use v Cons in simp)
qed (use v in simp)

lemma walk_frame:
  assumes "walk_path True ps v = (Inr (Some (path, key)), v1)"
    and "ps = pre @ PKey a # rest1" and "qs = pre @ PKey b # rest2" and "a \<noteq> b"
    and "value_at path v1 = Some c" and "same_but key c c'"
  shows "read_path qs (put_at path c' v1) = read_path qs v"
  using assms
proof (induction pre arbitrary: ps qs v path v1)
  case Nil
  then obtain d where v: "v = PDict d" by (cases v) auto
  show ?case
  proof (cases "rest1 = []")
    case True
    then have "path = [] \<and> key = PKey a" using walk_last Nil.prems(1,2) by fastforce
    moreover obtain d1 where "v1 = PDict d1" "dget d1 b = dget d b"
      using Nil.prems(1,2,4) True by (auto simp: v Let_def split: option.splits)
    ultimately show ?thesis using Nil.prems by (auto simp: v same_but_def)
  next
    case False
    obtain path' ch' where "path = PKey a # path'" "v1 = PDict (dset a ch' d)"
      using Nil.prems(1,2) False by (cases "dget d a") (auto simp: v Let_def location_under_Some split: prod.splits)
    then show ?thesis using Nil.prems(3,4) by (simp add: v)
  qed
next
  case (Cons p pre)
  let ?ps = "pre @ PKey a # rest1" and ?qs = "pre @ PKey b # rest2"
  obtain q ch ch' path' where w: "path = q # path'" "walk_path True ?ps ch = (Inr (Some (path', key)), ch')" "child_at p v1 = Some (q, ch')"
    and before: "child_at p v = Some (q, ch) \<or> (child_at p v = None \<and> (\<forall>qs. qs \<noteq> [] \<longrightarrow> read_path (p # qs) v = Inr PNone) \<and> ch = (case ?ps of PIdx i # _ \<Rightarrow> PList [] | _ \<Rightarrow> PDict []))"
    using walk_step_before[of p ?ps v path key v1] Cons.prems(1,2) by auto
  have val: "value_at path' ch' = Some c" using Cons.prems(5) value_at_Cons[OF w(3)] by (simp add: w(1))
  have ih: "read_path ?qs (put_at path' c' ch') = read_path ?qs ch"
    by (rule Cons.IH[OF w(2) refl refl assms(4) val assms(6)])
  obtain p1 ps1 where ps1: "?ps = p1 # ps1" by (cases ?ps) auto
  have cont: "is_container ch'" "is_container ch" using walk_value w(2) unfolding ps1 by blast+
  have "put_at path' c' ch' \<noteq> PNone"
    using put_container[OF _ cont(1)] same_but_container[OF assms(6)] container_not_None by blast
  then have "read_path qs (put_at path c' v1) = read_path ?qs ch"
    using read_down[OF child_at_put[OF w(3)]] ih Cons.prems(3) by (simp add: w(1))
  also have "\<dots> = read_path qs v"
    using before
  proof
    assume "child_at p v = Some (q, ch)"
    from read_down[OF this] show ?thesis using container_not_None[OF cont(2)] Cons.prems(3) by simp
  next
    assume created: "child_at p v = None \<and> (\<forall>qs. qs \<noteq> [] \<longrightarrow> read_path (p # qs) v = Inr PNone) \<and> ch = (case ?ps of PIdx i # _ \<Rightarrow> PList [] | _ \<Rightarrow> PDict [])"
    then have "read_path ?qs ch = Inr PNone" using read_created[OF w(2)] by blast
    then show ?thesis using created Cons.prems(3) by simp
  qed
  finally show ?case .
qed

section \<open>Reading what was written\<close>

text \<open>A path of keys through what is there: dictionaries as far as there is something.\<close>

fun leads :: "pstep list \<Rightarrow> pyval \<Rightarrow> bool" where
  "leads [] v \<longleftrightarrow> False"
| "leads (PKey k # ps) (PDict d) \<longleftrightarrow> ps = [] \<or> (case dget d k of None \<Rightarrow> leads ps (PDict []) | Some c \<Rightarrow> leads ps c)"
| "leads (p # ps) v \<longleftrightarrow> False"

lemma leads_found: "leads ps v \<Longrightarrow> \<exists>path a v1. walk_path True ps v = (Inr (Some (path, PKey a)), v1)"
proof (induction ps v rule: leads.induct)
  case (2 k ps d)
  show ?case
  proof (cases "ps = []")
    case False
    define ch where "ch = (case dget d k of None \<Rightarrow> PDict [] | Some c \<Rightarrow> c)"
    have l: "leads ps ch" using 2(3) False by (cases "dget d k") (auto simp: ch_def)
    have "\<exists>path a v1. walk_path True ps ch = (Inr (Some (path, PKey a)), v1)"
      using 2(1,2) l False by (cases "dget d k") (auto simp: ch_def)
    moreover have "(case ps of PIdx i # _ \<Rightarrow> PList [] | _ \<Rightarrow> PDict []) = PDict []"
      using l by (cases ps; cases "hd ps"; cases ch) auto
    ultimately show ?thesis using False
      by (cases "dget d k") (auto simp: ch_def Let_def location_under_def)
  qed (cases "dget d k"; simp)
qed simp_all

lemma root_leads:
  assumes "leads (steps_of k) (PDict d)"
  obtains path a src1 where "root_to_path k (PDict d) True = (Inr (Some (path, PKey a)), src1)"
proof (cases "split_nested_path k = []")
  case True
  then show thesis using that by (simp add: root_to_path_def)
next
  case False
  then show thesis using that leads_found[OF assms] by (auto simp: root_to_path_def steps_of_def)
qed

lemma update_succeeds:
  assumes "leads (steps_of k) (PDict d)" and x: "expand_nested_structure v = Inr x" and v: "\<forall>u. v \<noteq> PDict u"
  shows "fst (update_dict False [(k, v)] (PDict d)) = Inr ()"
proof -
  obtain path a src1 where root: "root_to_path k (PDict d) True = (Inr (Some (path, PKey a)), src1)"
    using root_leads assms(1) by blast
  obtain e where e: "value_at path src1 = Some (PDict e)" using root_found[OF root] by metis
  show ?thesis
  proof (cases "v = PNone")
    case True
    then show ?thesis by (simp add: root e delete_by_key_def Let_def)
  next
    case False
    have s: "assign (Some (path, PKey a)) v src1 = (Inr (), put_at path (PDict (dset a x e)) src1, [path @ [PKey a]])"
      by (simp add: assign_def x set_at_def e set_item_def)
    have "update_by_key (Some (path, PKey a)) v src1 = assign (Some (path, PKey a)) v src1"
    proof (cases "dget e a")
      case (Some old)
      then show ?thesis using v by (cases old; cases v) (simp_all add: e is_container_def key_in_def item_at_def)
    qed (simp add: e is_container_def key_in_def)
    then show ?thesis using False by (simp add: root s Let_def)
  qed
qed

lemma read_written:
  assumes "updated k v (PDict d) path key src1 c c'" and "src' = put_at path c' src1"
  shows "\<exists>e. src' = PDict e" and "get_value_by_nested_path k src' = read_path [key] c'"
proof -
  have root: "root_to_path k (PDict d) True = (Inr (Some (path, key)), src1)" and c: "value_at path src1 = Some c" "same_but key c c'"
    using assms(1) by (simp_all add: updated_def)
  have r: "(\<exists>e. src' = PDict e) \<and> read_path (steps_of k) src' = read_path [key] c'"
  proof (cases "split_nested_path k = []")
    case True
    then show ?thesis using root c assms(2) by (auto simp: root_to_path_def steps_of_def same_but_def)
  next
    case False
    then have w: "walk_path True (steps_of k) (PDict d) = (Inr (Some (path, key)), src1)"
      using root by (simp add: root_to_path_def steps_of_def)
    from read_again[OF w] have "read_path (steps_of k) src' = read_path [key] c'"
      using same_but_container[OF c(2)] assms(2) by simp
    moreover have "\<exists>e. src' = PDict e"
    proof -
      obtain p ps where "steps_of k = p # ps" using False by (cases "steps_of k") (auto simp: steps_of_def)
      then have "\<exists>e. src1 = PDict e" using w by (cases p) (auto simp: Let_def split: option.splits if_splits prod.splits)
      then show ?thesis using c assms(2) by (cases path; cases "hd path") (auto simp: same_but_def split: option.splits)
    qed
    ultimately show ?thesis by blast
  qed
  then show "\<exists>e. src' = PDict e" by blast
  show "get_value_by_nested_path k src' = read_path [key] c'" using get_reads[of k src'] r by simp
qed

lemma read_elsewhere:
  assumes u: "updated k v (PDict d) path key src1 c c'" and s: "src' = put_at path c' src1"
    and k: "steps_of k = pre @ PKey a # rest1" and k2: "steps_of k2 = pre @ PKey b # rest2" and ab: "a \<noteq> b"
  shows "get_value_by_nested_path k2 src' = get_value_by_nested_path k2 (PDict d)"
proof -
  have root: "root_to_path k (PDict d) True = (Inr (Some (path, key)), src1)" and c: "value_at path src1 = Some c" "same_but key c c'"
    using u by (simp_all add: updated_def)
  have "read_path (steps_of k2) src' = read_path (steps_of k2) (PDict d)"
  proof (cases "split_nested_path k = []")
    case True
    then have "pre = []" "a = k" using k by (auto simp: steps_of_def Cons_eq_append_conv)
    then show ?thesis using True root c s ab k2 by (auto simp: root_to_path_def same_but_def)
  next
    case False
    then have w: "walk_path True (steps_of k) (PDict d) = (Inr (Some (path, key)), src1)"
      using root by (simp add: root_to_path_def steps_of_def)
    show ?thesis using walk_frame[OF w k k2 ab c] s by simp
  qed
  then show ?thesis using get_reads[of k2] read_written(1)[OF u s] by auto
qed



end
