(* ===== verification/Session_Log.thy ===== *)
theory Session_Log
  imports Session_Props
begin

text \<open>
  The states of a workflow as logs: a state is what its committed updates make of an empty dictionary, and what
  is staged by a node waits until that node or the whole state is committed, or is rolled back. What
  is saved of a workflow gives its states back.
\<close>

section \<open>A state stays a dictionary\<close>

definition is_dict :: "pyval \<Rightarrow> bool" where
  "is_dict v \<longleftrightarrow> (\<exists>d. v = PDict d)"

lemma is_dict_simps [simp]: "is_dict (PDict d)" "\<not> is_dict PNone"
  by (simp_all add: is_dict_def)

named_theorems keeps_dict

lemma walk_dict [keeps_dict]: "is_dict v \<Longrightarrow> is_dict (snd (walk_path create ps v))"
  by (cases ps; cases "hd ps") (auto simp: is_dict_def Let_def split: option.splits prod.splits)

lemma root_dict [keeps_dict]: "is_dict v \<Longrightarrow> is_dict (snd (root_to_path k v create))"
  by (simp add: root_to_path_def Let_def walk_dict)

lemma put_dict: "is_dict v \<Longrightarrow> (path = [] \<Longrightarrow> is_dict x) \<Longrightarrow> is_dict (put_at path x v)"
  by (cases path; cases "hd path") (auto simp: is_dict_def split: option.splits)

lemma set_at_dict [keeps_dict]:
  assumes "is_dict v" and "set_at loc x v = Inr (v', path')"
  shows "is_dict v'"
  using assms(2)
proof (cases rule: set_at_cases)
  case (1 path key c c' q)
  then have "is_dict c'" if "path = []" using that assms(1) by (auto simp: is_dict_def elim!: set_item_cases)
  then show ?thesis using put_dict[OF assms(1)] 1(4) by blast
qed

lemma assign_dict [keeps_dict]: "is_dict v \<Longrightarrow> is_dict (fst (snd (assign loc x v)))"
  by (auto simp: assign_def keeps_dict split: sum.splits)

lemma delete_dict [keeps_dict]: "is_dict v \<Longrightarrow> is_dict (fst (snd (delete_by_key loc v)))"
  by (auto simp: delete_by_key_def put_dict split: option.splits pyval.splits pstep.splits)

lemma delete_all_dict [keeps_dict]: "is_dict v \<Longrightarrow> is_dict (fst (snd (delete_all locs v)))"
proof (induction locs v rule: delete_all.induct)
  case (2 loc locs src)
  obtain r src1 replaced where d: "delete_by_key loc src = (r, src1, replaced)" by (cases "delete_by_key loc src")
  have "is_dict src1" using delete_dict[OF 2(2), of loc] by (simp add: d)
  then show ?case using 2(1)[OF d[symmetric]] d by (cases r) (auto simp: Let_def split_beta)
qed simp

lemma update_dict_dict:
  "is_dict src \<Longrightarrow> is_dict (fst (snd (update_items ignore_delete items removed src)))"
  "is_dict src \<Longrightarrow> is_dict (fst (snd (update_by_key loc new_value src)))"
  "is_dict src \<Longrightarrow> is_dict (fst (snd (update_dict ignore_delete upd src)))"
proof (induction ignore_delete items removed src and loc new_value src and ignore_delete upd src
    rule: update_items_update_by_key_update_dict.induct)
  case (2 ignore_delete key val items removed src)
  obtain r src1 where root: "root_to_path key src True = (r, src1)" by (cases "root_to_path key src True")
  have d: "is_dict src1" using root_dict[OF 2(4), of key True] by (simp add: root)
  show ?case
  proof (cases r)
    case (Inr loc)
    obtain r2 src2 rep where u: "update_by_key loc val src1 = (r2, src2, rep)" by (cases "update_by_key loc val src1")
    show ?thesis
    proof (cases "val = PNone \<and> \<not> ignore_delete")
      case True
      then show ?thesis using 2(1)[OF root[unfolded Inr, symmetric] refl True d] by (simp add: root Inr)
    next
      case False
      have "is_dict src2" using 2(2)[OF root[unfolded Inr, symmetric] refl False d] by (simp add: u)
      then show ?thesis using 2(3)[OF root[unfolded Inr, symmetric] refl False u[symmetric]] False
        by (cases r2) (auto simp: root Inr u Let_def split_beta)
    qed
  qed (use d in \<open>simp add: root\<close>)
next
  case (4 path key new_value src)
  have item: "is_dict (put_at steps x src)" if "item_at path key src = Some (steps, old)" for steps old x
  proof -
    have "steps \<noteq> []" using that by (auto simp: item_at_def split: option.splits pyval.splits pstep.splits)
    then show ?thesis using put_dict[OF 4(2)] by blast
  qed
  show ?case
    using 4(2) assign_dict[OF 4(2)] by (auto simp: Let_def split_beta item split: option.splits pyval.splits)
next
  case (5 ignore_delete upd src)
  obtain r src1 rep where u: "update_items ignore_delete upd [] src = (r, src1, rep)" by (cases "update_items ignore_delete upd [] src")
  have "is_dict src1" using 5 by (simp add: u)
  then show ?case using delete_all_dict by (cases r) (auto simp: u Let_def split_beta)
qed simp_all

section \<open>One state as a log\<close>

text \<open>
  The specification: the state at the start, the updates committed since, in order; what each node has staged, and
  the nodes in the order in which they came up since the whole was committed.
\<close>

record log_spec =
  sl_base :: pyval
  sl_log :: "pdict list"
  sl_staged :: "string \<Rightarrow> pdict list"
  sl_nodes :: "string list"

definition log_of :: "commit_state \<Rightarrow> log_spec" where
  "log_of cs = \<lparr>sl_base = cs_state cs, sl_log = [], sl_staged = dget_default [] (cs_updates cs), sl_nodes = dkeys (cs_updates cs)\<rparr>"

definition add_node :: "string \<Rightarrow> log_spec \<Rightarrow> log_spec" where
  "add_node n sp = (if n \<in> set (sl_nodes sp) then sp else sp\<lparr>sl_nodes := sl_nodes sp @ [n]\<rparr>)"

definition log_stage :: "string \<Rightarrow> pdict \<Rightarrow> log_spec \<Rightarrow> log_spec" where
  "log_stage n u sp = add_node n (sp\<lparr>sl_staged := (sl_staged sp)(n := sl_staged sp n @ [u])\<rparr>)"

definition log_now :: "pdict \<Rightarrow> log_spec \<Rightarrow> log_spec" where
  "log_now u sp = sp\<lparr>sl_log := sl_log sp @ [u]\<rparr>"

definition log_commit :: "string \<Rightarrow> log_spec \<Rightarrow> log_spec" where
  "log_commit n sp = sp\<lparr>sl_log := sl_log sp @ sl_staged sp n, sl_staged := (sl_staged sp)(n := [])\<rparr>"

definition log_commit_all :: "log_spec \<Rightarrow> log_spec" where
  "log_commit_all sp = sp\<lparr>sl_log := sl_log sp @ concat (map (sl_staged sp) (sl_nodes sp)), sl_staged := (\<lambda>n. []), sl_nodes := []\<rparr>"

definition log_rollback :: "string \<Rightarrow> log_spec \<Rightarrow> log_spec" where
  "log_rollback n sp = add_node n (sp\<lparr>sl_staged := (sl_staged sp)(n := [])\<rparr>)"

definition is_log :: "log_spec \<Rightarrow> commit_state \<Rightarrow> bool" where
  "is_log sp cs \<longleftrightarrow>
     apply_updates (sl_log sp) (sl_base sp) = (Inr (), cs_state cs) \<and>
     dget_default [] (cs_updates cs) = sl_staged sp \<and> dkeys (cs_updates cs) = sl_nodes sp"

definition cs_ok :: "commit_state \<Rightarrow> bool" where
  "cs_ok cs \<longleftrightarrow> is_dict (cs_state cs) \<and> dwf (cs_updates cs)"

lemma apply_append:
  "apply_updates (us @ vs) st = (case apply_updates us st of (Inl e, st') \<Rightarrow> (Inl e, st') | (Inr _, st') \<Rightarrow> apply_updates vs st')"
  by (induction us st rule: apply_updates.induct) (auto split: prod.splits sum.splits)

lemma state_update_dict: "is_dict st \<Longrightarrow> is_dict (snd (state_update u st))"
  using update_dict_dict(3)[of st False u] by (simp add: state_update_def split_beta)

lemma apply_dict: "is_dict st \<Longrightarrow> is_dict (snd (apply_updates us st))"
proof (induction us st rule: apply_updates.induct)
  case (2 u us st)
  obtain r st' where u: "state_update u st = (r, st')" by (cases "state_update u st")
  then have "is_dict st'" using state_update_dict[OF 2(2), of u] by simp
  then show ?case using 2(1)[OF u[symmetric]] by (cases r) (auto simp: u)
qed simp

lemma default_dset: "dget_default v (dset k x d) = (dget_default v d)(k := x)"
  by (rule ext) simp

lemma keys_dset: "dkeys (dset k x d) = (if k \<in> set (dkeys d) then dkeys d else dkeys d @ [k])"
  by (induction d) auto

text \<open>Every operation on one state keeps it well formed, and those that do not raise are the operations on the log.\<close>

lemma stage_log:
  "is_log sp cs \<Longrightarrow> update_by_id (Some n) u cs = (r, cs') \<Longrightarrow> r = Inr () \<and> is_log (log_stage n u sp) cs'"
  by (auto simp: is_log_def update_by_id_def log_stage_def add_node_def default_dset keys_dset)

lemma now_log:
  assumes "is_log sp cs" and "update_by_id_and_commit (Some n) u cs = (Inr (), cs')"
  shows "is_log (log_now u sp) cs'"
  using assms by (auto simp: is_log_def update_by_id_and_commit_def log_now_def apply_append Let_def split: prod.splits)

lemma commit_log:
  assumes "is_log sp cs" and "commit (Some n) cs = (Inr (), cs')"
  shows "is_log (log_commit n sp) cs'"
proof (cases "sl_staged sp n = []")
  case True
  then show ?thesis using assms by (auto simp: is_log_def commit_def log_commit_def fun_upd_idem)
next
  case False
  have "n \<in> set (dkeys (cs_updates cs))"
  proof (rule ccontr)
    assume "n \<notin> set (dkeys (cs_updates cs))"
    then have "dget (cs_updates cs) n = None" by (simp add: dget_None_iff)
    then have "dget_default [] (cs_updates cs) n = []" by simp
    then show False using False assms(1) by (auto simp: is_log_def)
  qed
  then have "dkeys (dset n [] (cs_updates cs)) = dkeys (cs_updates cs)" unfolding keys_dset by simp
  then show ?thesis using assms False
    by (auto simp: is_log_def commit_def log_commit_def apply_append Let_def default_dset split: prod.splits)
qed

lemma staged_in_order: "dwf d \<Longrightarrow> map (dget_default v d) (dkeys d) = map snd d"
proof (induction d)
  case (Cons kv d)
  have "dget_default v (kv # d) k = dget_default v d k" if "k \<in> set (dkeys d)" for k
    using Cons.prems that by (cases kv) (auto simp: dget_default_def)
  then have "map (dget_default v (kv # d)) (dkeys d) = map (dget_default v d) (dkeys d)" by (rule map_cong[OF refl])
  then show ?case using Cons by (simp add: dget_default_def)
qed simp

lemma commit_all_log:
  assumes "is_log sp cs" and "commit None cs = (Inr (), cs')" and "cs_ok cs"
  shows "is_log (log_commit_all sp) cs'"
proof -
  have "concat (map snd (cs_updates cs)) = concat (map (sl_staged sp) (sl_nodes sp))"
    using staged_in_order[of "cs_updates cs" "[]"] assms(1,3) unfolding is_log_def cs_ok_def by metis
  then show ?thesis using assms(1,2)
    by (auto simp: is_log_def commit_def log_commit_all_def apply_append Let_def dget_default_def fun_eq_iff split: prod.splits sum.splits)
qed

lemma rollback_log: "is_log sp cs \<Longrightarrow> is_log (log_rollback n sp) (rollback n cs)"
  by (auto simp: is_log_def rollback_def log_rollback_def add_node_def default_dset keys_dset)

lemma init_log: "is_log (log_of cs) cs"
  by (simp add: is_log_def log_of_def)

named_theorems keeps_ok

lemma stage_ok [keeps_ok]: "cs_ok cs \<Longrightarrow> cs_ok (snd (update_by_id n u cs))"
  by (auto simp: cs_ok_def update_by_id_def split: option.splits)

lemma now_ok [keeps_ok]: "cs_ok cs \<Longrightarrow> cs_ok (snd (update_by_id_and_commit n u cs))"
  using state_update_dict[of "cs_state cs" u] by (auto simp: cs_ok_def update_by_id_and_commit_def Let_def split_beta)

lemma commit_ok [keeps_ok]: "cs_ok cs \<Longrightarrow> cs_ok (snd (commit n cs))"
  using apply_dict[of "cs_state cs"] by (auto simp: cs_ok_def commit_def Let_def split_beta split: option.splits sum.splits)

lemma rollback_ok [keeps_ok]: "cs_ok cs \<Longrightarrow> cs_ok (rollback n cs)"
  by (auto simp: cs_ok_def rollback_def)

section \<open>A session as four logs\<close>

datatype session_op =
    SetOutputs node_state pyval
  | NodeUpdate node_state pyval
  | UpdateGlobal node_state "pdict option"
  | CommitCmp node_state
  | CommitUserInputs node_state "pdict option"
  | UpdateWorkflow pdict
  | CommitAll
  | RollbackNode node_state

fun session_step :: "session_op \<Rightarrow> session_states \<Rightarrow> unit res \<times> session_states" where
  "session_step (SetOutputs ns data) ss = set_outputs data ns ss"
| "session_step (NodeUpdate ns data) ss = node_update data ns ss"
| "session_step (UpdateGlobal ns data) ss = update_global data ns ss"
| "session_step (CommitCmp ns) ss = commit_cmp ns ss"
| "session_step (CommitUserInputs ns inputs) ss = commit_user_inputs inputs ns ss"
| "session_step (UpdateWorkflow data) ss = update_and_commit_workflow_state data ss"
| "session_step CommitAll ss = commit_all ss"
| "session_step (RollbackNode ns) ss = (Inr (), rollback_node ns ss)"

text \<open>Operations one after the other, up to the first that raises.\<close>

fun run_session :: "session_op list \<Rightarrow> session_states \<Rightarrow> unit res \<times> session_states" where
  "run_session [] ss = (Inr (), ss)"
| "run_session (op # ops) ss = and_then (session_step op) (run_session ops) ss"

record session_logs =
  lg_io :: log_spec
  lg_global :: log_spec
  lg_comp :: log_spec
  lg_workflow :: log_spec

definition logs_of :: "session_states \<Rightarrow> session_logs" where
  "logs_of ss = \<lparr>lg_io = log_of (ss_io ss), lg_global = log_of (ss_global ss), lg_comp = log_of (ss_comp ss), lg_workflow = log_of (ss_workflow ss)\<rparr>"

fun logs_step :: "session_op \<Rightarrow> session_logs \<Rightarrow> session_logs" where
  "logs_step (SetOutputs ns data) lg = (if data = PNone then lg else lg\<lparr>lg_io := log_stage (ns_node_id ns) [(ns_node_id ns, data)] (lg_io lg)\<rparr>)"
| "logs_step (NodeUpdate ns data) lg = lg\<lparr>lg_comp := log_stage (ns_node_id ns) [(ns_node_id ns, data)] (lg_comp lg)\<rparr>"
| "logs_step (UpdateGlobal ns data) lg = (case data of None \<Rightarrow> lg | Some d \<Rightarrow> lg\<lparr>lg_global := log_stage (ns_node_id ns) d (lg_global lg)\<rparr>)"
| "logs_step (CommitCmp ns) lg = lg\<lparr>lg_comp := log_commit (ns_node_id ns) (lg_comp lg), lg_io := log_commit (ns_node_id ns) (lg_io lg)\<rparr>"
| "logs_step (CommitUserInputs ns inputs) lg =
     (case inputs of
        None \<Rightarrow> lg
      | Some d \<Rightarrow>
          lg\<lparr>lg_io := log_now (if ns_node_id ns \<noteq> default_node_id then [(ns_node_id ns, PDict d)] else d) (lg_io lg),
             lg_global := log_now d (lg_global lg)\<rparr>)"
| "logs_step (UpdateWorkflow data) lg = lg\<lparr>lg_workflow := log_commit_all (log_stage default_workflow_id data (lg_workflow lg))\<rparr>"
| "logs_step CommitAll lg =
     lg\<lparr>lg_io := log_commit_all (lg_io lg), lg_comp := log_commit_all (lg_comp lg), lg_global := log_commit_all (lg_global lg),
        lg_workflow := log_commit_all (lg_workflow lg)\<rparr>"
| "logs_step (RollbackNode ns) lg =
     lg\<lparr>lg_comp := log_rollback (ns_node_id ns) (lg_comp lg), lg_io := log_rollback (ns_node_id ns) (lg_io lg),
        lg_global := log_rollback (ns_node_id ns) (lg_global lg), lg_workflow := log_rollback (ns_node_id ns) (lg_workflow lg)\<rparr>"

definition is_logs :: "session_logs \<Rightarrow> session_states \<Rightarrow> bool" where
  "is_logs lg ss \<longleftrightarrow>
     is_log (lg_io lg) (ss_io ss) \<and> is_log (lg_global lg) (ss_global ss) \<and> is_log (lg_comp lg) (ss_comp ss) \<and> is_log (lg_workflow lg) (ss_workflow ss)"

definition session_ok :: "session_states \<Rightarrow> bool" where
  "session_ok ss \<longleftrightarrow> cs_ok (ss_io ss) \<and> cs_ok (ss_global ss) \<and> cs_ok (ss_comp ss) \<and> cs_ok (ss_workflow ss)"

lemma and_then_done: "and_then f g ss = (Inr (), ss2) \<longleftrightarrow> (\<exists>ss1. f ss = (Inr (), ss1) \<and> g ss1 = (Inr (), ss2))"
  by (auto simp: and_then_def split: prod.splits sum.splits)

lemma in_done:
  "in_io f ss = (r, ss') \<longleftrightarrow> (\<exists>cs. f (ss_io ss) = (r, cs) \<and> ss' = ss\<lparr>ss_io := cs\<rparr>)"
  "in_global f ss = (r, ss') \<longleftrightarrow> (\<exists>cs. f (ss_global ss) = (r, cs) \<and> ss' = ss\<lparr>ss_global := cs\<rparr>)"
  "in_comp f ss = (r, ss') \<longleftrightarrow> (\<exists>cs. f (ss_comp ss) = (r, cs) \<and> ss' = ss\<lparr>ss_comp := cs\<rparr>)"
  "in_workflow f ss = (r, ss') \<longleftrightarrow> (\<exists>cs. f (ss_workflow ss) = (r, cs) \<and> ss' = ss\<lparr>ss_workflow := cs\<rparr>)"
  by (auto simp: in_io_def in_global_def in_comp_def in_workflow_def split: prod.splits)

lemma in_ok [keeps_ok]:
  assumes "session_ok ss" and "\<And>cs. cs_ok cs \<Longrightarrow> cs_ok (snd (f cs))"
  shows "session_ok (snd (in_io f ss)) \<and> session_ok (snd (in_global f ss)) \<and> session_ok (snd (in_comp f ss)) \<and> session_ok (snd (in_workflow f ss))"
  using assms by (simp add: session_ok_def in_io_def in_global_def in_comp_def in_workflow_def split_beta)

lemma and_then_ok:
  assumes "session_ok (snd (f ss))" and "\<And>ss1. session_ok ss1 \<Longrightarrow> session_ok (snd (g ss1))"
  shows "session_ok (snd (and_then f g ss))"
  using assms by (cases "f ss") (auto simp: and_then_def split: sum.splits)

lemma rollback_node_ok [keeps_ok]: "session_ok ss \<Longrightarrow> session_ok (rollback_node ns ss)"
  by (simp add: rollback_node_def session_ok_def rollback_ok)

lemma step_ok: "session_ok ss \<Longrightarrow> session_ok (snd (session_step op ss))"
  by (cases op)
    (auto simp: set_outputs_def node_update_def update_global_def commit_cmp_def commit_user_inputs_def
      update_and_commit_workflow_state_def commit_all_def keeps_ok
      split: option.splits intro!: and_then_ok)

lemma run_ok: "session_ok ss \<Longrightarrow> session_ok (snd (run_session ops ss))"
  by (induction ops arbitrary: ss) (auto intro!: and_then_ok step_ok)

text \<open>A step that does not raise is the step of the logs.\<close>

lemma step_logs:
  assumes "is_logs lg ss" and ok: "session_ok ss" and "session_step op ss = (Inr (), ss')"
  shows "is_logs (logs_step op lg) ss'"
proof (cases op)
  case (CommitUserInputs ns inputs)
  then show ?thesis using assms
    by (auto simp: is_logs_def commit_user_inputs_def and_then_done in_done intro: now_log split: option.splits)
next
  case (UpdateWorkflow data)
  have s: "cs_ok (snd (update_by_id n u (ss_workflow ss)))" for n u using ok stage_ok by (simp add: session_ok_def)
  obtain cs1 cs2 where c: "update_by_id (Some default_workflow_id) data (ss_workflow ss) = (Inr (), cs1)" "commit None cs1 = (Inr (), cs2)"
    "ss' = ss\<lparr>ss_workflow := cs2\<rparr>"
    using assms(3) by (auto simp: UpdateWorkflow update_and_commit_workflow_state_def and_then_done in_done)
  have "is_log (log_stage default_workflow_id data (lg_workflow lg)) cs1" using stage_log[OF _ c(1)] assms(1) by (simp add: is_logs_def)
  then show ?thesis using commit_all_log[OF _ c(2)] s[of "Some default_workflow_id" data] assms(1) c by (simp add: UpdateWorkflow is_logs_def)
next
  case CommitAll
  then show ?thesis using assms
    by (auto simp: is_logs_def session_ok_def commit_all_def and_then_done in_done intro: commit_all_log)
qed (use assms in \<open>auto simp: is_logs_def set_outputs_def node_update_def update_global_def commit_cmp_def rollback_node_def and_then_done
      in_done intro: commit_log rollback_log dest: stage_log split: option.splits if_splits\<close>)

lemma run_logs:
  "is_logs lg ss \<Longrightarrow> session_ok ss \<Longrightarrow> run_session ops ss = (Inr (), ss') \<Longrightarrow> is_logs (fold logs_step ops lg) ss'"
proof (induction ops arbitrary: lg ss)
  case (Cons op ops)
  obtain ss1 where s: "session_step op ss = (Inr (), ss1)" "run_session ops ss1 = (Inr (), ss')"
    using Cons.prems(3) by (auto simp: and_then_done)
  have "session_ok ss1" using step_ok[OF Cons.prems(2), of op] by (simp add: s)
  then show ?case using Cons.IH[OF step_logs[OF Cons.prems(1,2) s(1)] _ s(2)] by simp
qed simp

lemma new_session_ok: "session_ok (snd (in_memory_state None))"
  by (simp add: session_ok_def in_memory_state_def cs_ok_def commit_state_init_def)

lemma restored: "is_dict (cs_state cs) \<Longrightarrow> cs_set_updates (cs_updates cs) (cs_set_state (cs_state cs) commit_state_init) = cs"
  by (auto simp: cs_set_updates_def cs_set_state_def state_set_state_def commit_state_init_def)



section \<open>What the code does at the edges\<close>

text \<open>An index can only end a path of what is not there: what is put in the list is None, and nothing is created in it.\<close>

lemma nothing_in_new_elements:
  "update_dict False [(''l[0].b'', PInt 1)] (PDict []) = (Inl TypeError, PDict [(''l'', PList [PNone])], [])"
  by code_simp

text \<open>An update through a key that holds None raises.\<close>

lemma nothing_under_None:
  "fst (update_dict False [(''a.b'', PInt 1)] (PDict [(''a'', PNone)])) = Inl TypeError"
  by code_simp

text \<open>A dictionary is merged into one at a key, and replaces one at an index; unless the list has the index for an element.\<close>

lemma merged_at_keys_only:
  "snd (state_update [(''d'', PDict [(''y'', PInt 2)])] (PDict [(''d'', PDict [(''x'', PInt 1)])])) =
     PDict [(''d'', PDict [(''x'', PInt 1), (''y'', PInt 2)])]"
  "snd (state_update [(''l[0]'', PDict [(''y'', PInt 2)])] (PDict [(''l'', PList [PDict [(''x'', PInt 1)]])])) =
     PDict [(''l'', PList [PDict [(''y'', PInt 2)]])]"
  "snd (state_update [(''l[0]'', PDict [(''y'', PInt 2)])] (PDict [(''l'', PList [PDict [(''x'', PInt 1)], PInt 0])])) =
     PDict [(''l'', PList [PDict [(''x'', PInt 1), (''y'', PInt 2)], PInt 0])]"
  by code_simp+

text \<open>None deletes a key, but not an element of a list; inside a new dictionary it is stored; and at an absent path it
  creates what leads there.\<close>

lemma none_deletes_sometimes:
  "snd (state_update [(''a.b'', PNone)] (PDict [(''a'', PDict [(''b'', PInt 1)])])) = PDict [(''a'', PDict [])]"
  "snd (state_update [(''l[0]'', PNone)] (PDict [(''l'', PList [PInt 1])])) = PDict [(''l'', PList [PInt 1])]"
  "snd (state_update [(''a'', PDict [(''b'', PNone)])] (PDict [])) = PDict [(''a'', PDict [(''b'', PNone)])]"
  "snd (state_update [(''a'', PDict [(''b'', PNone)])] (PDict [(''a'', PDict [(''b'', PInt 1)])])) = PDict [(''a'', PDict [])]"
  "snd (state_update [(''a.b'', PNone)] (PDict [])) = PDict [(''a'', PDict [])]"
  by code_simp+

text \<open>A negative index beyond the list is nothing at the end of a path and an exception inside it.\<close>

lemma negative_index_inside:
  "get_value_by_nested_path ''l[-2]'' (PDict [(''l'', PList [PInt 1])]) = Inr PNone"
  "get_value_by_nested_path ''l[-2].x'' (PDict [(''l'', PList [PInt 1])]) = Inl IndexError"
  by code_simp+

text \<open>A commit that raises has applied what came before, and keeps all of it staged.\<close>

lemma failed_commit_keeps_all:
  "commit None \<lparr>cs_state = PDict [], cs_updates = [(''a'', [[(''x'', PInt 1)], [(''x.y'', PInt 2)]])]\<rparr> =
     (Inl TypeError, \<lparr>cs_state = PDict [(''x'', PInt 1)], cs_updates = [(''a'', [[(''x'', PInt 1)], [(''x.y'', PInt 2)]])]\<rparr>)"
  by code_simp

text \<open>An empty saved state does not clear what is there; a node of an agent's workflow saves the global state as its own.\<close>

lemma empty_state_not_restored: "cs_set_state (PDict []) cs = cs"
  by (simp add: cs_set_state_def state_set_state_def)

lemma node_owns_global:
  "ns_workflow_only (fst (in_memory_state (Some g))) = False"
  "ns_workflow_only (create_node_state n p (fst (in_memory_state (Some g)))) = True"
  by (simp_all add: in_memory_state_def create_node_state_def)

end
