(* ===== verification/Team_Status.thy ===== *)
theory Team_Status
  imports Prelude
begin

text \<open>
  The states of team members, of their executions and of team tasks, and the tables of the changes that are
  allowed: \<open>agent_teams/schema/status.py\<close>.
\<close>

section \<open>Members\<close>

datatype member_status =
    MUnstarted | MStarting | MReady | MBusy | MPaused | MStopped | MRestarting | MShutdownRequested | MShutdown | MError

definition member_departed :: "member_status list" where
  "member_departed = [MShutdownRequested, MShutdown]"

definition member_unreachable :: "member_status list" where
  "member_unreachable = [MShutdown]"

definition member_transitions :: "(member_status, member_status list) pydict" where
  "member_transitions =
     [(MUnstarted, [MStarting, MReady, MShutdown, MError]),
      (MStarting, [MReady, MUnstarted, MShutdown, MError]),
      (MReady, [MReady, MBusy, MPaused, MStopped, MShutdownRequested, MShutdown, MError]),
      (MBusy, [MReady, MPaused, MStopped, MShutdownRequested, MError]),
      (MPaused, [MReady, MRestarting, MStopped, MShutdownRequested, MShutdown, MError]),
      (MStopped, [MReady, MRestarting, MShutdownRequested, MShutdown, MError]),
      (MRestarting, [MReady, MStopped, MError, MShutdown]),
      (MShutdownRequested, [MShutdown, MError]),
      (MShutdown, [MRestarting]),
      (MError, [MRestarting, MReady, MStopped, MShutdownRequested, MShutdown])]"

definition member_settled :: "member_status list" where
  "member_settled = [MReady, MPaused, MStopped, MShutdown]"

definition member_quiescent :: "member_status list" where
  "member_quiescent = [MUnstarted, MReady, MPaused, MStopped, MShutdown, MError]"

datatype member_mode = BuildMode | PlanMode

section \<open>Executions\<close>

datatype execution_status =
    XIdle | XStarting | XRunning | XCancelRequested | XCancelling | XCancelled | XCompleting | XCompleted | XFailed | XTimedOut

definition execution_transitions :: "(execution_status, execution_status list) pydict" where
  "execution_transitions =
     [(XIdle, [XStarting]),
      (XStarting, [XRunning, XCancelRequested, XCancelling, XFailed, XTimedOut]),
      (XRunning, [XCancelRequested, XCancelling, XCompleting, XFailed, XTimedOut]),
      (XCancelRequested, [XCancelling, XCancelled, XFailed, XTimedOut]),
      (XCancelling, [XCancelled, XFailed, XTimedOut]),
      (XCancelled, [XIdle]),
      (XCompleting, [XCompleted, XFailed, XTimedOut]),
      (XCompleted, [XIdle]),
      (XFailed, [XIdle]),
      (XTimedOut, [XIdle])]"

section \<open>Tasks\<close>

datatype task_status = Pending | Blocked | Planning | InProgress | InReview | Completed | Cancelled

definition status_value :: "task_status \<Rightarrow> string" where
  "status_value s =
     (case s of Pending \<Rightarrow> ''pending'' | Blocked \<Rightarrow> ''blocked'' | Planning \<Rightarrow> ''planning'' | InProgress \<Rightarrow> ''in_progress''
      | InReview \<Rightarrow> ''in_review'' | Completed \<Rightarrow> ''completed'' | Cancelled \<Rightarrow> ''cancelled'')"

definition task_transitions :: "(task_status, task_status list) pydict" where
  "task_transitions =
     [(Pending, [Planning, InProgress, Blocked, Cancelled]),
      (Blocked, [Pending, Cancelled]),
      (Planning, [Planning, InProgress, Pending, Blocked, Cancelled]),
      (InProgress, [InReview, Completed, Pending, Blocked, Cancelled]),
      (InReview, [Completed, InProgress, Pending, Cancelled]),
      (Completed, []),
      (Cancelled, [])]"

definition task_reassignable :: "task_status list" where
  "task_reassignable = [Pending, Blocked, InProgress]"

definition is_valid_transition :: "'s \<Rightarrow> 's \<Rightarrow> ('s, 's list) pydict \<Rightarrow> bool" where
  "is_valid_transition current_status new_status transitions =
     (case dget transitions current_status of None \<Rightarrow> False | Some nexts \<Rightarrow> new_status \<in> set nexts)"

text \<open>From \<open>agent_teams/tools/database/graph.py\<close>.\<close>

definition task_terminal :: "task_status list" where
  "task_terminal = [Completed, Cancelled]"

definition task_dependency_reject :: "task_status list" where
  "task_dependency_reject = [Completed, Cancelled, Planning, InProgress, InReview]"

abbreviation finished :: "task_status \<Rightarrow> bool" where
  "finished s \<equiv> s \<in> set task_terminal"

lemma terminal_is_final: "finished s \<Longrightarrow> \<not> is_valid_transition s s' task_transitions"
  by (auto simp: task_terminal_def is_valid_transition_def task_transitions_def)

lemma execution_ends:
  "is_valid_transition s XIdle execution_transitions \<longleftrightarrow> s \<in> {XCancelled, XCompleted, XFailed, XTimedOut}"
  by (cases s) (simp_all add: is_valid_transition_def execution_transitions_def)

end
