(* ===== verification/Team_Cycle.thy ===== *)
theory Team_Cycle
  imports Prelude
begin

text \<open>
  The search for a cycle among the dependencies of team tasks: \<open>detect_cycle_in_adjacency\<close> of
  \<open>agent_teams/tools/database/graph.py\<close>. It is an iterative depth-first search with three colours; it ends,
  and finds a cycle exactly when there is one.
\<close>

section \<open>The search\<close>

datatype colour = White | Gray | Black

type_synonym adjacency = "(string, string list) pydict"

definition initial_colours :: "adjacency \<Rightarrow> (string, colour) pydict" where
  "initial_colours adjacency =
     fold (\<lambda>(node, deps) color. fold (\<lambda>dep col. if dget col dep = None then dset dep White col else col) deps (dset node White color))
       adjacency []"

abbreviation colour_of :: "(string, colour) pydict \<Rightarrow> string \<Rightarrow> colour" where
  "colour_of color n \<equiv> dget_default White color n"

abbreviation deps_of :: "adjacency \<Rightarrow> string \<Rightarrow> string list" where
  "deps_of adjacency n \<equiv> dget_default [] adjacency n"

definition unvisited :: "adjacency \<Rightarrow> (string, colour) pydict \<Rightarrow> (string \<times> string list) list \<Rightarrow> string set" where
  "unvisited adjacency color stack =
     {n. n \<in> set (concat (map snd adjacency)) \<union> set (concat (map snd stack)) \<and> colour_of color n = White}"

lemma finite_unvisited [simp]: "finite (unvisited adjacency color stack)"
  by (simp add: unvisited_def)

lemma deps_of_subset: "set (deps_of adjacency n) \<subseteq> set (concat (map snd adjacency))"
  by (auto simp: dget_default_def split: option.splits) (metis map_of_SomeD snd_conv)

definition stack_work :: "(string \<times> string list) list \<Rightarrow> nat" where
  "stack_work stack = sum_list (map (\<lambda>(n, ch). Suc (length ch)) stack)"

lemma stack_work_Cons [simp]: "stack_work ((n, ch) # stack) = Suc (length ch) + stack_work stack"
  by (simp add: stack_work_def)

lemma unvisited_pop: "card (unvisited adj (dset node Black color) stack) \<le> card (unvisited adj color ((node, children) # stack))"
  by (rule card_mono[OF finite_unvisited]) (auto simp: unvisited_def split: if_splits)

lemma unvisited_rest:
  "children \<noteq> [] \<Longrightarrow> card (unvisited adj color ((node, butlast children) # stack)) \<le> card (unvisited adj color ((node, children) # stack))"
  by (rule card_mono[OF finite_unvisited]) (auto simp: unvisited_def dest: in_set_butlastD)

lemma unvisited_push:
  assumes "children \<noteq> []" and "colour_of color (last children) = White"
  shows "card (unvisited adj (dset (last children) Gray color) ((last children, deps_of adj (last children)) # (node, butlast children) # stack))
    < card (unvisited adj color ((node, children) # stack))" (is "card ?new < card ?old")
proof (rule psubset_card_mono[OF finite_unvisited])
  have "?new \<subseteq> ?old - {last children}"
    using deps_of_subset[of adj "last children"] by (auto simp: unvisited_def dest: in_set_butlastD split: if_splits)
  moreover have "last children \<in> ?old" using assms by (auto simp: unvisited_def)
  ultimately show "?new \<subset> ?old" by blast
qed

text \<open>The loop for one root; the top of the stack is first. What is looked for in the path is there (lemma \<open>search_ok\<close>).\<close>

function cycle_search ::
  "adjacency \<Rightarrow> (string, colour) pydict \<Rightarrow> string list \<Rightarrow> (string \<times> string list) list \<Rightarrow> string list option \<times> (string, colour) pydict" where
  "cycle_search adjacency color path [] = (None, color)"
| "cycle_search adjacency color path ((node, children) # stack) =
     (if children = [] then cycle_search adjacency (dset node Black color) (butlast path) stack
      else
        (let nxt = last children; rest = butlast children; c = colour_of color nxt
         in if c = Gray then (Some (dropWhile (\<lambda>x. x \<noteq> nxt) path @ [nxt]), color)
            else if c = White
            then cycle_search adjacency (dset nxt Gray color) (path @ [nxt]) ((nxt, deps_of adjacency nxt) # (node, rest) # stack)
            else cycle_search adjacency color path ((node, rest) # stack)))"
  by pat_completeness auto

termination
  by (relation "measures [\<lambda>(adj, color, path, stack). card (unvisited adj color stack), \<lambda>(adj, color, path, stack). stack_work stack]")
    (use unvisited_pop unvisited_rest unvisited_push in \<open>auto simp: le_less\<close>)

fun search_roots :: "adjacency \<Rightarrow> (string, colour) pydict \<Rightarrow> string list \<Rightarrow> string list option" where
  "search_roots adjacency color [] = None"
| "search_roots adjacency color (start # others) =
     (if colour_of color start \<noteq> White then search_roots adjacency color others
      else (case cycle_search adjacency (dset start Gray color) [start] [(start, deps_of adjacency start)] of
              (Some cycle, _) \<Rightarrow> Some cycle
            | (None, color') \<Rightarrow> search_roots adjacency color' others))"

definition detect_cycle_in_adjacency :: "adjacency \<Rightarrow> string list option" where
  "detect_cycle_in_adjacency adjacency =
     search_roots adjacency (initial_colours adjacency) (dkeys (initial_colours adjacency))"

section \<open>What it finds\<close>

definition edges_of :: "adjacency \<Rightarrow> (string \<times> string) set" where
  "edges_of adjacency = {(a, b). b \<in> set (deps_of adjacency a)}"

text \<open>A walk, and a cycle as it is reported: the first node again at the end.\<close>

fun walk_of :: "(string \<times> string) set \<Rightarrow> string list \<Rightarrow> bool" where
  "walk_of E (a # b # ns) \<longleftrightarrow> (a, b) \<in> E \<and> walk_of E (b # ns)"
| "walk_of E ns \<longleftrightarrow> True"

definition cycle_of :: "(string \<times> string) set \<Rightarrow> string list \<Rightarrow> bool" where
  "cycle_of E c \<longleftrightarrow> length c \<ge> 2 \<and> hd c = last c \<and> walk_of E c"

lemma walk_append: "walk_of E (xs @ [b]) \<longleftrightarrow> walk_of E xs \<and> (xs = [] \<or> (last xs, b) \<in> E)"
proof (induction xs)
  case (Cons a xs)
  then show ?case by (cases xs) auto
qed simp

lemma walk_dropWhile: "walk_of E xs \<Longrightarrow> walk_of E (dropWhile P xs)"
proof (induction xs)
  case (Cons a xs)
  then show ?case by (cases xs) auto
qed simp

lemma walk_trancl: "walk_of E (a # ns) \<Longrightarrow> ns \<noteq> [] \<Longrightarrow> (a, last ns) \<in> E\<^sup>+"
proof (induction ns arbitrary: a)
  case (Cons b ns)
  then show ?case by (cases ns) (auto intro: trancl_into_trancl2)
qed simp

lemma cycle_not_acyclic: "cycle_of E c \<Longrightarrow> \<not> acyclic E"
proof -
  assume c: "cycle_of E c"
  then obtain a ns where "c = a # ns" "ns \<noteq> []" by (cases c) (auto simp: cycle_of_def Suc_le_eq)
  then have "(a, a) \<in> E\<^sup>+" using walk_trancl[of E a ns] c by (auto simp: cycle_of_def)
  then show ?thesis by (auto simp: acyclic_def)
qed

text \<open>
  What the search keeps: the path is the stack and the gray nodes and a walk; what a black node depends on is black, and
  no cycle goes through it; what a node on the stack depends on is still to be looked at, or black, or the next
  node of the path.
\<close>

fun stack_ok :: "adjacency \<Rightarrow> (string, colour) pydict \<Rightarrow> string set \<Rightarrow> (string \<times> string list) list \<Rightarrow> bool" where
  "stack_ok adj color nexts [] \<longleftrightarrow> True"
| "stack_ok adj color nexts ((n, ch) # stack) \<longleftrightarrow>
     set ch \<subseteq> set (deps_of adj n) \<and> (\<forall>m \<in> set (deps_of adj n). m \<in> set ch \<or> colour_of color m = Black \<or> m \<in> nexts) \<and>
     stack_ok adj color {n} stack"

definition black_ok :: "adjacency \<Rightarrow> (string, colour) pydict \<Rightarrow> bool" where
  "black_ok adj color \<longleftrightarrow>
     (\<forall>a. colour_of color a = Black \<longrightarrow> (a, a) \<notin> (edges_of adj)\<^sup>+ \<and> (\<forall>b \<in> set (deps_of adj a). colour_of color b = Black))"

definition search_inv :: "adjacency \<Rightarrow> (string, colour) pydict \<Rightarrow> string list \<Rightarrow> (string \<times> string list) list \<Rightarrow> bool" where
  "search_inv adj color path stack \<longleftrightarrow>
     path = rev (map fst stack) \<and> distinct path \<and> (\<forall>n. colour_of color n = Gray \<longleftrightarrow> n \<in> set path) \<and> walk_of (edges_of adj) path \<and>
     stack_ok adj color {} stack \<and> black_ok adj color"

lemma stack_ok_mono:
  "stack_ok adj color nexts stack \<Longrightarrow> (\<And>m. colour_of color m = Black \<Longrightarrow> colour_of color' m = Black) \<Longrightarrow>
   (\<And>m. m \<in> nexts \<Longrightarrow> m \<in> nexts' \<or> colour_of color' m = Black) \<Longrightarrow> stack_ok adj color' nexts' stack"
proof (induction adj color nexts stack arbitrary: nexts' rule: stack_ok.induct)
  case (2 adj color nexts n ch stack)
  have "stack_ok adj color' {n} stack" using 2 by auto
  then show ?case using 2(2-4) by fastforce
qed simp

lemma black_reaches_black:
  assumes "black_ok adj color" and "(a, b) \<in> (edges_of adj)\<^sup>*" and "colour_of color a = Black"
  shows "colour_of color b = Black"
  using assms(2,3,1) by (induction rule: rtrancl_induct) (auto simp: black_ok_def edges_of_def)

lemma black_ok_finish:
  assumes b: "black_ok adj color" and n: "colour_of color n = Gray" and deps: "\<forall>m \<in> set (deps_of adj n). colour_of color m = Black"
  shows "black_ok adj (dset n Black color)"
proof -
  have "(n, n) \<notin> (edges_of adj)\<^sup>+"
  proof
    assume "(n, n) \<in> (edges_of adj)\<^sup>+"
    then obtain m where m: "(n, m) \<in> edges_of adj" "(m, n) \<in> (edges_of adj)\<^sup>*" by (blast dest: tranclD)
    then have "colour_of color n = Black" using black_reaches_black[OF b m(2)] deps by (auto simp: edges_of_def)
    then show False using n by simp
  qed
  then show ?thesis using b deps by (auto simp: black_ok_def)
qed

lemma search_invD:
  assumes "search_inv adj color path ((n, ch) # stack)"
  shows "path = rev (map fst stack) @ [n]" and "distinct path" and "\<And>m. colour_of color m = Gray \<longleftrightarrow> m \<in> set path"
    and "walk_of (edges_of adj) path" and "stack_ok adj color {} ((n, ch) # stack)" and "black_ok adj color"
proof -
  have "path = rev (map fst ((n, ch) # stack))" using assms unfolding search_inv_def by blast
  then show "path = rev (map fst stack) @ [n]" by simp
qed (use assms in \<open>unfold search_inv_def, blast+\<close>)

lemma search_finish:
  assumes "search_inv adj color path ((n, []) # stack)"
  shows "search_inv adj (dset n Black color) (butlast path) stack"
proof -
  note i = search_invD[OF assms]
  have n: "n \<notin> set (rev (map fst stack))" using i(2) unfolding i(1) by simp
  have "colour_of color n = Gray" using i(3)[of n] unfolding i(1) by simp
  then have "black_ok adj (dset n Black color)" using i(5) black_ok_finish[OF i(6)] by auto
  moreover have "stack_ok adj (dset n Black color) {} stack"
    by (rule stack_ok_mono[of adj color "{n}"]) (use i(5) in auto)
  moreover have "colour_of (dset n Black color) m = Gray \<longleftrightarrow> m \<in> set (butlast path)" for m
    using i(3)[of m] n unfolding i(1) by (cases "m = n") simp_all
  moreover have "butlast path = rev (map fst stack)" "distinct (butlast path)" "walk_of (edges_of adj) (butlast path)"
    using i(2,4) walk_append unfolding i(1) by simp_all
  ultimately show ?thesis unfolding search_inv_def by blast
qed

lemma search_down:
  assumes "search_inv adj color path ((n, ch @ [m]) # stack)" and m: "colour_of color m = White"
  shows "search_inv adj (dset m Gray color) (path @ [m]) ((m, deps_of adj m) # (n, ch) # stack)"
proof -
  note i = search_invD[OF assms(1)]
  have "m \<notin> set path" using i(3)[of m] m by simp
  then have "distinct (path @ [m])" using i(2) by simp
  moreover have "walk_of (edges_of adj) (path @ [m])" using i(4,5) unfolding walk_append i(1) by (simp add: edges_of_def)
  moreover have "stack_ok adj (dset m Gray color) {n} stack"
    by (rule stack_ok_mono[of adj color "{n}"]) (use i(5) m in auto)
  then have "stack_ok adj (dset m Gray color) {} ((m, deps_of adj m) # (n, ch) # stack)" using i(5) m by auto
  moreover have "black_ok adj (dset m Gray color)"
    using i(6) m unfolding black_ok_def by (metis colour.distinct dget_default_dset)
  moreover have "colour_of (dset m Gray color) k = Gray \<longleftrightarrow> k \<in> set (path @ [m])" for k using i(3)[of k] by simp
  moreover have "path @ [m] = rev (map fst ((m, deps_of adj m) # (n, ch) # stack))" using i(1) by simp
  ultimately show ?thesis unfolding search_inv_def by blast
qed

lemma search_skip:
  assumes "search_inv adj color path ((n, ch @ [m]) # stack)" and "colour_of color m = Black"
  shows "search_inv adj color path ((n, ch) # stack)"
proof -
  note i = search_invD[OF assms(1)]
  have "stack_ok adj color {} ((n, ch) # stack)" using i(5) assms(2) by auto
  moreover have "path = rev (map fst ((n, ch) # stack))" using i(1) by simp
  ultimately show ?thesis using i(2,3,4,6) unfolding search_inv_def by blast
qed

lemma search_back:
  assumes "search_inv adj color path ((n, ch @ [m]) # stack)" and "colour_of color m = Gray"
  shows "cycle_of (edges_of adj) (dropWhile (\<lambda>x. x \<noteq> m) path @ [m])"
proof -
  let ?c = "dropWhile (\<lambda>x. x \<noteq> m) path"
  note inv = search_invD[OF assms(1)]
  have i: "path = rev (map fst stack) @ [n]" "m \<in> set path" "walk_of (edges_of adj) path" "m \<in> set (deps_of adj n)"
    using inv(1) inv(3)[of m] inv(4,5) assms(2) by simp_all
  have ne: "?c \<noteq> []" using i(2) by (auto simp: dropWhile_eq_Nil_conv)
  then have "hd ?c = m" using hd_dropWhile[of "\<lambda>x. x \<noteq> m" path] by auto
  moreover have "last ?c = n" using i(1,2) ne by (metis dropWhile_eq_self_iff last_appendR last_snoc takeWhile_dropWhile_id)
  moreover have "walk_of (edges_of adj) ?c" using walk_dropWhile[OF i(3)] .
  moreover have "(n, m) \<in> edges_of adj" using i(4) by (simp add: edges_of_def)
  moreover have "length (?c @ [m]) \<ge> 2" using ne by (cases ?c) simp_all
  ultimately show ?thesis using ne by (simp add: cycle_of_def walk_append)
qed

text \<open>The loop for one root: it finds a cycle, or all it came to is black.\<close>

lemma search_ok:
  "search_inv adj color path stack \<Longrightarrow>
   (case cycle_search adj color path stack of
      (Some c, _) \<Rightarrow> cycle_of (edges_of adj) c
    | (None, color') \<Rightarrow> search_inv adj color' [] [] \<and> (\<forall>n. colour_of color n \<noteq> White \<longrightarrow> colour_of color' n = Black))"
proof (induction adj color path stack rule: cycle_search.induct)
  case (1 adj color path)
  then have "path = []" by (simp add: search_inv_def)
  moreover have "colour_of color n = Black" if "colour_of color n \<noteq> White" for n
    using 1 that \<open>path = []\<close> by (cases "colour_of color n") (auto simp: search_inv_def)
  ultimately show ?case using 1 by simp
next
  case (2 adj color path node children stack)
  show ?case
  proof (cases "children = []")
    case True
    then have "search_inv adj (dset node Black color) (butlast path) stack" using 2(4) search_finish by simp
    from 2(1)[OF True this] show ?thesis using True by (auto split: prod.splits option.splits)
  next
    case False
    let ?nxt = "last children" and ?rest = "butlast children"
    have ch: "children = ?rest @ [?nxt]" using False by simp
    then have inv: "search_inv adj color path ((node, ?rest @ [?nxt]) # stack)" using 2(4) by simp
    show ?thesis
    proof (cases "colour_of color ?nxt")
      case White
      have "search_inv adj (dset ?nxt Gray color) (path @ [?nxt]) ((?nxt, deps_of adj ?nxt) # (node, ?rest) # stack)"
        by (rule search_down[OF inv White])
      note ih = 2(2)[OF False refl refl refl _ White this]
      let ?call = "cycle_search adj (dset ?nxt Gray color) (path @ [?nxt]) ((?nxt, deps_of adj ?nxt) # (node, ?rest) # stack)"
      have eq: "cycle_search adj color path ((node, children) # stack) = ?call" using False White by (simp add: Let_def)
      obtain r color' where call: "?call = (r, color')" by (cases ?call)
      show ?thesis
      proof (cases r)
        case None
        have "search_inv adj color' [] []" and black: "\<forall>n. colour_of (dset ?nxt Gray color) n \<noteq> White \<longrightarrow> colour_of color' n = Black"
          using ih White unfolding call None by simp_all
        moreover have "colour_of color' n = Black" if "colour_of color n \<noteq> White" for n
          using black that White by (cases "n = ?nxt") auto
        ultimately show ?thesis unfolding eq call None by simp
      next
        case (Some c)
        then show ?thesis using ih White unfolding eq call Some by simp
      qed
    next
      case Gray
      then show ?thesis using search_back[OF inv Gray] False by (simp add: Let_def)
    next
      case Black
      from 2(3)[OF False refl refl refl _ _ search_skip[OF inv Black]] show ?thesis using False Black
        by (simp add: Let_def)
    qed
  qed
qed

lemma search_roots_ok:
  "search_inv adj color [] [] \<Longrightarrow>
   (case search_roots adj color starts of
      Some c \<Rightarrow> cycle_of (edges_of adj) c
    | None \<Rightarrow> \<exists>color'. search_inv adj color' [] [] \<and> (\<forall>n. colour_of color n \<noteq> White \<or> n \<in> set starts \<longrightarrow> colour_of color' n = Black))"
proof (induction starts arbitrary: color)
  case Nil
  have "colour_of color n = Black" if "colour_of color n \<noteq> White" for n
    using Nil that by (cases "colour_of color n") (auto simp: search_inv_def)
  then show ?case using Nil by auto
next
  case (Cons start others)
  show ?case
  proof (cases "colour_of color start = White")
    case False
    then have "colour_of color start = Black" using Cons.prems by (cases "colour_of color start") (auto simp: search_inv_def)
    moreover have "search_roots adj color (start # others) = search_roots adj color others" using False by simp
    ultimately show ?thesis using Cons.IH[OF Cons.prems] by (cases "search_roots adj color others") auto
  next
    case True
    let ?color = "dset start Gray color"
    have b: "black_ok adj ?color"
      using Cons.prems True unfolding search_inv_def black_ok_def by (metis colour.distinct dget_default_dset)
    have "colour_of ?color n = Gray \<longleftrightarrow> n \<in> set [start]" for n using Cons.prems by (auto simp: search_inv_def)
    then have inv: "search_inv adj ?color [start] [(start, deps_of adj start)]" using b by (simp add: search_inv_def)
    obtain r color' where c: "cycle_search adj ?color [start] [(start, deps_of adj start)] = (r, color')"
      by (cases "cycle_search adj ?color [start] [(start, deps_of adj start)]")
    show ?thesis
    proof (cases r)
      case None
      have inv': "search_inv adj color' [] []" and black: "\<And>n. colour_of ?color n \<noteq> White \<Longrightarrow> colour_of color' n = Black"
        using search_ok[OF inv, unfolded c None] by simp_all
      have "colour_of color' n = Black" if "colour_of color n \<noteq> White \<or> n = start" for n
        using black[of n] that by (cases "n = start") simp_all
      moreover have "search_roots adj color (start # others) = search_roots adj color' others" using True c None by simp
      ultimately show ?thesis using Cons.IH[OF inv'] black by (cases "search_roots adj color' others") auto
    next
      case (Some cyc)
      then show ?thesis using search_ok[OF inv, unfolded c] True c by simp
    qed
  qed
qed

abbreviation add_deps :: "string list \<Rightarrow> (string, colour) pydict \<Rightarrow> (string, colour) pydict" where
  "add_deps \<equiv> fold (\<lambda>dep col. if dget col dep = None then dset dep White col else col)"

lemma initial_colours_ok: "colour_of (initial_colours adj) n = White"
proof -
  have inner: "(\<And>n. colour_of color n = White) \<Longrightarrow> colour_of (add_deps deps color) n = White" for deps color n
    by (induction deps arbitrary: color) auto
  have "(\<And>n. colour_of color n = White) \<Longrightarrow> colour_of (fold (\<lambda>(node, deps) color. add_deps deps (dset node White color)) adj color) n = White" for color
  proof (induction adj arbitrary: color)
    case (Cons nd adj)
    obtain node deps where nd: "nd = (node, deps)" by (cases nd)
    have "colour_of (add_deps deps (dset node White color)) n = White" for n
      by (rule inner) (use Cons.prems in simp)
    from Cons.IH[OF this] show ?case by (simp add: nd)
  qed simp
  then show ?thesis by (simp add: initial_colours_def)
qed

lemma initial_colours_keys: "fst ` set adj \<subseteq> fst ` set (initial_colours adj)"
proof -
  have inner: "fst ` set color \<subseteq> fst ` set (add_deps deps color)" for deps and color :: "(string, colour) pydict"
  proof (induction deps arbitrary: color)
    case (Cons dep deps)
    show ?case using Cons[of color] Cons[of "dset dep White color"] by auto
  qed simp
  have "fst ` set color \<union> fst ` set adj \<subseteq> fst ` set (fold (\<lambda>(node, deps) color. add_deps deps (dset node White color)) adj color)" for color :: "(string, colour) pydict"
  proof (induction adj arbitrary: color)
    case (Cons nd adj)
    obtain node deps where "nd = (node, deps)" by (cases nd)
    then show ?case using inner[of "dset node White color" deps] Cons[of "add_deps deps (dset node White color)"]
      by auto
  qed simp
  then show ?thesis by (auto simp: initial_colours_def)
qed

lemma detect_cycle_exact:
  "(case detect_cycle_in_adjacency adj of None \<Rightarrow> acyclic (edges_of adj) | Some c \<Rightarrow> cycle_of (edges_of adj) c)"
proof -
  let ?color = "initial_colours adj"
  have "search_inv adj ?color [] []" by (simp add: search_inv_def black_ok_def initial_colours_ok)
  note ok = search_roots_ok[OF this, of "dkeys ?color"]
  show ?thesis
  proof (cases "detect_cycle_in_adjacency adj")
    case None
    then obtain color' where c: "search_inv adj color' [] []" "\<And>n. n \<in> set (dkeys ?color) \<Longrightarrow> colour_of color' n = Black"
      using ok by (auto simp: detect_cycle_in_adjacency_def)
    have "(a, a) \<notin> (edges_of adj)\<^sup>+" for a
    proof
      assume a: "(a, a) \<in> (edges_of adj)\<^sup>+"
      then obtain b where "b \<in> set (deps_of adj a)" by (auto simp: edges_of_def dest: tranclD)
      then have "dget adj a \<noteq> None" by (cases "dget adj a") simp_all
      then have "a \<in> fst ` set adj" unfolding in_keys_iff .
      then have "a \<in> set (dkeys ?color)" using initial_colours_keys[of adj] unfolding set_map by (rule rev_subsetD)
      then show False using c a by (auto simp: search_inv_def black_ok_def)
    qed
    then show ?thesis by (simp add: None acyclic_def)
  next
    case (Some c)
    then show ?thesis using ok by (simp add: detect_cycle_in_adjacency_def)
  qed
qed


text \<open>C13: the search for a cycle among the dependencies of the tasks ends on every graph; it finds none exactly when
  there is none, and what it reports is a cycle: a walk along dependencies that ends where it began.
\<close>

theorem cycle_search_exact:
  "(detect_cycle_in_adjacency adj = None \<longleftrightarrow> acyclic (edges_of adj)) \<and>
   (case detect_cycle_in_adjacency adj of None \<Rightarrow> True | Some c \<Rightarrow> length c \<ge> 2 \<and> hd c = last c \<and> walk_of (edges_of adj) c)"
  using detect_cycle_exact[of adj] cycle_not_acyclic[of "edges_of adj"]
  by (cases "detect_cycle_in_adjacency adj") (auto simp: cycle_of_def)

end
