(* ===== verification/Team_Board.thy ===== *)
theory Team_Board
  imports Team_Status Team_Cycle
begin

text \<open>
  The task board of an agent team: the tables of tasks, dependencies and review votes and every operation of
  \<open>TaskDao\<close> (\<open>agent_teams/tools/database/task_dao.py\<close>). A table is a dictionary from its primary key to the other
  columns; a query without an order gives the rows in the order of the table. A write holds the lock of the
  database from its first to its last statement, so it is one step; a rollback gives back the tables. The bodies
  of tasks are spilled to files of the session (\<open>team_workspace/session_file_store.py\<close>), which no rollback gives
  back. Statuses are values of the enumeration, and the row of the team is there. What a foreign key of a
  dependency deletes is deleted, as SQLite is told to.
\<close>

section \<open>Tables\<close>

text \<open>An entry of a task's reviewers as it stands in the JSON text of the column, of the new form or a bare name.\<close>

datatype reviewer_entry = ReviewerObject "string option" string string | ReviewerName string

record team_task =
  tt_team :: string
  tt_title :: string
  tt_content :: string
  tt_status :: task_status
  tt_assignee :: "string option"
  tt_reviewer :: "reviewer_entry list option"
  tt_round :: int
  tt_max_rounds :: "int option"
  tt_updated :: int

record task_dependency =
  dp_team :: string
  dp_resolved :: bool

record review_vote =
  rv_team :: string
  rv_task :: string
  rv_round :: int
  rv_reviewer :: string
  rv_decision :: string
  rv_feedback :: "string option"
  rv_created :: int

record board =
  bd_tasks :: "(string, team_task) pydict"
  bd_deps :: "(string \<times> string, task_dependency) pydict"
  bd_votes :: "review_vote list"
  bd_files :: "(string \<times> string, string) pydict"

type_synonym task_row = "string \<times> team_task"

definition board_init :: board where
  "board_init = \<lparr>bd_tasks = [], bd_deps = [], bd_votes = [], bd_files = []\<rparr>"

abbreviation task_at :: "board \<Rightarrow> string \<Rightarrow> team_task option" where
  "task_at b tid \<equiv> dget (bd_tasks b) tid"

definition put_task :: "string \<Rightarrow> team_task \<Rightarrow> board \<Rightarrow> board" where
  "put_task tid t b = b\<lparr>bd_tasks := dset tid t (bd_tasks b)\<rparr>"

text \<open>The names and the types of the reviewers of a task.\<close>

definition reviewers :: "team_task \<Rightarrow> string list" where
  "reviewers t =
     (case tt_reviewer t of
        None \<Rightarrow> []
      | Some entries \<Rightarrow>
          concat (map (\<lambda>e. case e of ReviewerObject ty rid instruction \<Rightarrow> if rid = [] then [] else [rid] | ReviewerName n \<Rightarrow> [n]) entries))"

definition reviewer_details :: "team_task \<Rightarrow> (string \<times> string) list" where
  "reviewer_details t =
     (case tt_reviewer t of
        None \<Rightarrow> []
      | Some entries \<Rightarrow>
          map (\<lambda>e. case e of
                 ReviewerObject ty rid instruction \<Rightarrow> (rid, case ty of None \<Rightarrow> ''verifier'' | Some s \<Rightarrow> s)
               | ReviewerName n \<Rightarrow> (n, ''verifier'')) entries)"

section \<open>Bodies in files\<close>

text \<open>Whether there is a store and a session, and which files can be written and read.\<close>

record file_env =
  fe_store :: bool
  fe_session :: bool
  fe_put :: "string \<Rightarrow> bool"
  fe_get :: "string \<Rightarrow> bool"

definition content_in_file :: string where
  "content_in_file = ''#file#''"

definition to_stored :: "file_env \<Rightarrow> string \<Rightarrow> string \<Rightarrow> string \<Rightarrow> board \<Rightarrow> string \<times> board" where
  "to_stored env team_name content task_id b =
     (if content = [] \<or> \<not> fe_store env \<or> \<not> fe_session env \<or> \<not> fe_put env task_id then (content, b)
      else (content_in_file, b\<lparr>bd_files := dset (team_name, task_id) content (bd_files b)\<rparr>))"

definition hydrate :: "file_env \<Rightarrow> board \<Rightarrow> task_row \<Rightarrow> task_row res" where
  "hydrate env b row =
     (let t = snd row
      in if tt_content t \<noteq> content_in_file \<or> \<not> fe_session env then Inr row
         else if \<not> fe_store env then Inl AttributeError
         else (case dget (bd_files b) (tt_team t, fst row) of
                 Some body \<Rightarrow> Inr (fst row, if fe_get env (fst row) then t\<lparr>tt_content := body\<rparr> else t)
               | None \<Rightarrow> Inr row))"

fun hydrate_rows :: "file_env \<Rightarrow> board \<Rightarrow> task_row list \<Rightarrow> task_row list res" where
  "hydrate_rows env b [] = Inr []"
| "hydrate_rows env b (row # rows) =
     (case hydrate env b row of
        Inl e \<Rightarrow> Inl e
      | Inr row' \<Rightarrow> map_sum id (\<lambda>rows'. row' # rows') (hydrate_rows env b rows))"

section \<open>Inside a transaction\<close>

definition unresolved_count :: "board \<Rightarrow> string \<Rightarrow> nat" where
  "unresolved_count b tid = length (filter (\<lambda>((src, dst), d). src = tid \<and> \<not> dp_resolved d) (bd_deps b))"

definition refreshed_status :: "board \<Rightarrow> string \<Rightarrow> team_task \<Rightarrow> task_status option" where
  "refreshed_status b tid t =
     (if tt_status t = Pending \<and> unresolved_count b tid > 0 then Some Blocked
      else if tt_status t = Blocked \<and> unresolved_count b tid = 0 then Some Pending
      else None)"

definition refresh_row :: "string list \<Rightarrow> int \<Rightarrow> board \<Rightarrow> string \<Rightarrow> team_task \<Rightarrow> team_task option" where
  "refresh_row ids now b tid t =
     (if tid \<in> set ids \<and> tid \<noteq> [] then map_option (\<lambda>s. t\<lparr>tt_status := s, tt_updated := now\<rparr>) (refreshed_status b tid t) else None)"

definition refresh_status :: "string list \<Rightarrow> int \<Rightarrow> board \<Rightarrow> task_row list \<times> board" where
  "refresh_status task_ids now b =
     (let row = refresh_row task_ids now b
      in (List.map_filter (\<lambda>(tid, t). map_option (Pair tid) (row tid t)) (bd_tasks b),
          b\<lparr>bd_tasks := map (\<lambda>(tid, t). (tid, case row tid t of None \<Rightarrow> t | Some t' \<Rightarrow> t')) (bd_tasks b)\<rparr>))"

definition terminable_predecessors :: "task_status \<Rightarrow> task_status list" where
  "terminable_predecessors s = (if s = Completed then [InProgress, InReview] else [Pending, Blocked, Planning, InProgress, InReview])"

definition resolve_dependencies :: "string \<Rightarrow> board \<Rightarrow> board" where
  "resolve_dependencies tid b =
     b\<lparr>bd_deps := map (\<lambda>((src, dst), d). ((src, dst), if dst = tid then d\<lparr>dp_resolved := True\<rparr> else d)) (bd_deps b)\<rparr>"

definition downstream :: "string \<Rightarrow> board \<Rightarrow> string list" where
  "downstream tid b = pyset (map (fst \<circ> fst) (filter (\<lambda>((src, dst), d). dst = tid) (bd_deps b)))"

text \<open>None when the task is missing or cannot go there from its status.\<close>

definition terminate_task :: "string \<Rightarrow> task_status \<Rightarrow> int \<Rightarrow> board \<Rightarrow> (team_task \<times> task_row list) option res \<times> board" where
  "terminate_task tid new_status now b =
     (if new_status \<notin> set task_terminal then (Inl ValueError, b)
      else
        (case task_at b tid of
           None \<Rightarrow> (Inr None, b)
         | Some t \<Rightarrow>
             if tt_status t \<in> set (terminable_predecessors new_status)
             then
               (let t' = t\<lparr>tt_status := new_status, tt_updated := now\<rparr>;
                    b1 = resolve_dependencies tid (put_task tid t' b);
                    (refreshed, b2) = refresh_status (downstream tid b1) now b1
                in (Inr (Some (t', refreshed)), b2))
             else if tt_status t = new_status then (Inr (Some (t, [])), b)
             else (Inr None, b)))"

section \<open>Changing the graph\<close>

record new_task_spec =
  nt_id :: string
  nt_title :: string
  nt_content :: string
  nt_status :: task_status
  nt_assignee :: "string option"
  nt_reviewer :: "reviewer_entry list option"
  nt_max_rounds :: "int option"

datatype mutation_failure =
    TaskExists "string list"
  | DuplicateTask string
  | TaskNotFound string
  | TargetNotFound string
  | SourceStatus string task_status
  | CircularDependency "string list"
  | IntegrityError

type_synonym 'a mutation = "mutation_failure + 'a"

definition row_of_spec :: "string \<Rightarrow> int \<Rightarrow> new_task_spec \<Rightarrow> team_task" where
  "row_of_spec team_name now spec =
     \<lparr>tt_team = team_name, tt_title = nt_title spec, tt_content = nt_content spec, tt_status = nt_status spec,
      tt_assignee = nt_assignee spec, tt_reviewer = nt_reviewer spec, tt_round = 0, tt_max_rounds = nt_max_rounds spec, tt_updated = now\<rparr>"

fun stage_rows :: "string \<Rightarrow> int \<Rightarrow> new_task_spec list \<Rightarrow> string list \<Rightarrow> board \<Rightarrow> board mutation" where
  "stage_rows team_name now [] seen b = Inr b"
| "stage_rows team_name now (spec # specs) seen b =
     (if nt_id spec \<in> set seen then Inl (DuplicateTask (nt_id spec))
      else stage_rows team_name now specs (sadd (nt_id spec) seen) (put_task (nt_id spec) (row_of_spec team_name now spec) b))"

definition stage_new_tasks :: "string \<Rightarrow> new_task_spec list \<Rightarrow> int \<Rightarrow> board \<Rightarrow> board mutation" where
  "stage_new_tasks team_name new_tasks now b =
     (let existing = pyset (filter (\<lambda>tid. task_at b tid \<noteq> None) (map nt_id new_tasks))
      in if existing \<noteq> [] then Inl (TaskExists (sort existing)) else stage_rows team_name now new_tasks [] b)"

text \<open>Both ends of every edge are there, and its source has not started.\<close>

fun validate_edges :: "(string \<times> string) list \<Rightarrow> board \<Rightarrow> unit mutation" where
  "validate_edges [] b = Inr ()"
| "validate_edges ((tid, dep_id) # edges) b =
     (case (task_at b tid, task_at b dep_id) of
        (None, _) \<Rightarrow> Inl (TaskNotFound tid)
      | (Some _, None) \<Rightarrow> Inl (TargetNotFound dep_id)
      | (Some t, Some _) \<Rightarrow>
          if tt_status t \<in> set task_dependency_reject then Inl (SourceStatus tid (tt_status t)) else validate_edges edges b)"

definition add_adjacent :: "(string \<times> string) \<Rightarrow> adjacency \<Rightarrow> adjacency" where
  "add_adjacent e adj = dset (fst e) (deps_of adj (fst e) @ [snd e]) adj"

fun collect_edges :: "(string \<times> string) list \<Rightarrow> (string \<times> string) list \<Rightarrow> (string \<times> string) list \<Rightarrow> adjacency \<Rightarrow> (string \<times> string) list \<times> adjacency" where
  "collect_edges [] existing new_edges adj = (new_edges, adj)"
| "collect_edges (e # edges) existing new_edges adj =
     (if e \<in> set existing \<or> e \<in> set new_edges then collect_edges edges existing new_edges adj
      else collect_edges edges existing (sadd e new_edges) (add_adjacent e adj))"

definition team_edges :: "string \<Rightarrow> board \<Rightarrow> (string \<times> string) list" where
  "team_edges team_name b = map fst (filter (\<lambda>(e, d). dp_team d = team_name) (bd_deps b))"

text \<open>\<open>order\<close> is the order in which Python goes through a set of edges.\<close>

definition check_cycle_and_compute_new_edges ::
  "((string \<times> string) list \<Rightarrow> (string \<times> string) list) \<Rightarrow> string \<Rightarrow> (string \<times> string) list \<Rightarrow> board \<Rightarrow> (string \<times> string) list mutation" where
  "check_cycle_and_compute_new_edges order team_name add_edges b =
     (if add_edges = [] then Inr []
      else
        (let existing = pyset (team_edges team_name b);
             (new_edges, adj) = collect_edges add_edges existing [] (fold add_adjacent (order existing) [])
         in case detect_cycle_in_adjacency adj of
              Some cycle \<Rightarrow> Inl (CircularDependency cycle)
            | None \<Rightarrow> Inr new_edges))"

text \<open>An edge that stands in the table for another team breaks the primary key.\<close>

fun apply_new_edges :: "string \<Rightarrow> (string \<times> string) list \<Rightarrow> board \<Rightarrow> board mutation" where
  "apply_new_edges team_name [] b = Inr b"
| "apply_new_edges team_name (e # edges) b =
     (if dget (bd_deps b) e \<noteq> None then Inl IntegrityError
      else
        (let resolved = (case task_at b (snd e) of None \<Rightarrow> False | Some t \<Rightarrow> tt_status t \<in> set task_terminal)
         in apply_new_edges team_name edges
              (b\<lparr>bd_deps := dset e \<lparr>dp_team = team_name, dp_resolved = resolved\<rparr> (bd_deps b)\<rparr>)))"

fun spill_specs :: "file_env \<Rightarrow> string \<Rightarrow> new_task_spec list \<Rightarrow> board \<Rightarrow> new_task_spec list \<times> board" where
  "spill_specs env team_name [] b = ([], b)"
| "spill_specs env team_name (spec # specs) b =
     (let (content, b1) = to_stored env team_name (nt_content spec) (nt_id spec) b;
          (specs', b2) = spill_specs env team_name specs b1
      in (spec\<lparr>nt_content := content\<rparr> # specs', b2))"

text \<open>The steps inside the transaction.\<close>

definition mutate_tables ::
  "((string \<times> string) list \<Rightarrow> (string \<times> string) list) \<Rightarrow> int \<Rightarrow> string \<Rightarrow> new_task_spec list \<Rightarrow> (string \<times> string) list \<Rightarrow> board \<Rightarrow>
    (task_row list \<times> board) mutation" where
  "mutate_tables order now team_name new_tasks add_edges b =
     (case stage_new_tasks team_name new_tasks now b of
        Inl f \<Rightarrow> Inl f
      | Inr b1 \<Rightarrow>
          (case validate_edges add_edges b1 of
             Inl f \<Rightarrow> Inl f
           | Inr _ \<Rightarrow>
               (case check_cycle_and_compute_new_edges order team_name add_edges b1 of
                  Inl f \<Rightarrow> Inl f
                | Inr new_edges \<Rightarrow>
                    (case apply_new_edges team_name (order new_edges) b1 of
                       Inl f \<Rightarrow> Inl f
                     | Inr b2 \<Rightarrow> Inr (refresh_status (pyset (map nt_id new_tasks @ map fst new_edges)) now b2)))))"

definition mutate_dependency_graph ::
  "file_env \<Rightarrow> ((string \<times> string) list \<Rightarrow> (string \<times> string) list) \<Rightarrow> int \<Rightarrow> string \<Rightarrow> new_task_spec list \<Rightarrow> (string \<times> string) list \<Rightarrow> board \<Rightarrow>
    task_row list mutation \<times> board" where
  "mutate_dependency_graph env order now team_name new_tasks add_edges b =
     (if new_tasks = [] \<and> add_edges = [] then (Inr [], b)
      else
        (let (specs, b0) = spill_specs env team_name new_tasks b
         in case mutate_tables order now team_name specs add_edges b0 of
              Inl f \<Rightarrow> (Inl f, b0)
            | Inr (refreshed, b') \<Rightarrow> (Inr refreshed, b')))"

section \<open>The operations\<close>

definition create_task :: "file_env \<Rightarrow> string \<Rightarrow> string \<Rightarrow> string \<Rightarrow> string \<Rightarrow> task_status \<Rightarrow> int \<Rightarrow> board \<Rightarrow> bool \<times> board" where
  "create_task env task_id team_name title content status now b =
     (let (stored, b0) = to_stored env team_name content task_id b
      in if task_at b0 task_id \<noteq> None then (False, b0)
         else
           (True, put_task task_id
              \<lparr>tt_team = team_name, tt_title = title, tt_content = stored, tt_status = status, tt_assignee = None, tt_reviewer = None,
               tt_round = 0, tt_max_rounds = None, tt_updated = now\<rparr> b0))"

definition get_task :: "file_env \<Rightarrow> string \<Rightarrow> board \<Rightarrow> team_task option res" where
  "get_task env task_id b =
     (case task_at b task_id of None \<Rightarrow> Inr None | Some t \<Rightarrow> map_sum id (\<lambda>row. Some (snd row)) (hydrate env b (task_id, t)))"

definition get_team_tasks :: "file_env \<Rightarrow> string \<Rightarrow> task_status option \<Rightarrow> board \<Rightarrow> task_row list res" where
  "get_team_tasks env team_name status b =
     hydrate_rows env b (filter (\<lambda>(tid, t). tt_team t = team_name \<and> (case status of None \<Rightarrow> True | Some s \<Rightarrow> tt_status t = s)) (bd_tasks b))"

definition count_tasks_terminality :: "string \<Rightarrow> board \<Rightarrow> nat \<times> nat" where
  "count_tasks_terminality team_name b =
     (let rows = filter (\<lambda>(tid, t). tt_team t = team_name) (bd_tasks b)
      in (length rows, length (filter (\<lambda>(tid, t). tt_status t \<notin> set task_terminal) rows)))"

definition get_tasks_by_assignee :: "file_env \<Rightarrow> string \<Rightarrow> string \<Rightarrow> task_status option \<Rightarrow> board \<Rightarrow> task_row list res" where
  "get_tasks_by_assignee env team_name assignee_id status b =
     hydrate_rows env b
       (filter (\<lambda>(tid, t). tt_team t = team_name \<and> tt_assignee t = Some assignee_id \<and> (case status of None \<Rightarrow> True | Some s \<Rightarrow> tt_status t = s))
          (bd_tasks b))"

definition get_other_active_task_id :: "string \<Rightarrow> string \<Rightarrow> string \<Rightarrow> board \<Rightarrow> string option" where
  "get_other_active_task_id team_name member_name exclude_task_id b =
     map_option fst
       (find (\<lambda>(tid, t). tt_team t = team_name \<and> tt_assignee t = Some member_name \<and> tt_status t \<in> {Planning, InProgress, InReview} \<and>
          tid \<noteq> exclude_task_id) (bd_tasks b))"

text \<open>One conditional update, and whether it matched the row.\<close>

definition cas :: "string \<Rightarrow> (team_task \<Rightarrow> bool) \<Rightarrow> (team_task \<Rightarrow> team_task) \<Rightarrow> board \<Rightarrow> bool \<times> board" where
  "cas task_id cond f b =
     (case task_at b task_id of
        None \<Rightarrow> (False, b)
      | Some t \<Rightarrow> if cond t then (True, put_task task_id (f t) b) else (False, b))"

definition start_task :: "string \<Rightarrow> string \<Rightarrow> task_status \<Rightarrow> int \<Rightarrow> board \<Rightarrow> bool \<times> board" where
  "start_task task_id member_name to_status now =
     cas task_id (\<lambda>t. tt_assignee t = Some member_name \<and> tt_status t = Pending) (\<lambda>t. t\<lparr>tt_status := to_status, tt_updated := now\<rparr>)"

definition claim_task :: "string \<Rightarrow> string \<Rightarrow> task_status \<Rightarrow> int \<Rightarrow> board \<Rightarrow> bool \<times> board" where
  "claim_task task_id member_name to_status now =
     cas task_id (\<lambda>t. tt_assignee t = None \<and> tt_status t = Pending)
       (\<lambda>t. t\<lparr>tt_status := to_status, tt_assignee := Some member_name, tt_updated := now\<rparr>)"

definition reassign_task :: "string \<Rightarrow> string \<Rightarrow> string \<Rightarrow> int \<Rightarrow> board \<Rightarrow> bool \<times> board" where
  "reassign_task task_id from_assignee to_assignee now =
     cas task_id (\<lambda>t. tt_assignee t = Some from_assignee \<and> tt_status t \<in> set task_reassignable)
       (\<lambda>t. t\<lparr>tt_assignee := Some to_assignee, tt_updated := now\<rparr>)"

definition resettable :: "task_status list" where
  "resettable = [Planning, InProgress, InReview]"

definition reset_task :: "string \<Rightarrow> int \<Rightarrow> board \<Rightarrow> team_task option \<times> board" where
  "reset_task task_id now b =
     (case task_at b task_id of
        None \<Rightarrow> (None, b)
      | Some t \<Rightarrow>
          if tt_status t \<notin> set resettable then (None, b)
          else if \<not> is_valid_transition (tt_status t) Pending task_transitions then (None, b)
          else (let t' = t\<lparr>tt_status := Pending, tt_assignee := None, tt_updated := now\<rparr> in (Some t', put_task task_id t' b)))"

definition submit_for_review :: "string \<Rightarrow> int \<Rightarrow> board \<Rightarrow> bool \<times> board" where
  "submit_for_review task_id now =
     cas task_id (\<lambda>t. tt_status t = InProgress) (\<lambda>t. t\<lparr>tt_status := InReview, tt_round := tt_round t + 1, tt_updated := now\<rparr>)"

definition revise_task :: "string \<Rightarrow> int \<Rightarrow> board \<Rightarrow> bool \<times> board" where
  "revise_task task_id now = cas task_id (\<lambda>t. tt_status t = InReview) (\<lambda>t. t\<lparr>tt_status := InProgress, tt_updated := now\<rparr>)"

definition set_reviewer :: "string \<Rightarrow> reviewer_entry list option \<Rightarrow> board \<Rightarrow> bool \<times> board" where
  "set_reviewer task_id reviewer = cas task_id (\<lambda>t. True) (\<lambda>t. t\<lparr>tt_reviewer := reviewer\<rparr>)"

definition set_max_review_rounds :: "string \<Rightarrow> int option \<Rightarrow> board \<Rightarrow> bool \<times> board" where
  "set_max_review_rounds task_id rounds = cas task_id (\<lambda>t. True) (\<lambda>t. t\<lparr>tt_max_rounds := rounds\<rparr>)"

definition insert_review_vote :: "review_vote \<Rightarrow> board \<Rightarrow> board" where
  "insert_review_vote vote b = b\<lparr>bd_votes := bd_votes b @ [vote]\<rparr>"

definition get_review_votes :: "string \<Rightarrow> int \<Rightarrow> board \<Rightarrow> review_vote list" where
  "get_review_votes task_id review_round b = filter (\<lambda>v. rv_task v = task_id \<and> rv_round v = review_round) (bd_votes b)"

definition approve_plan_task :: "string \<Rightarrow> int \<Rightarrow> board \<Rightarrow> team_task option \<times> board" where
  "approve_plan_task task_id now b =
     (case task_at b task_id of
        None \<Rightarrow> (None, b)
      | Some t \<Rightarrow>
          if \<not> is_valid_transition (tt_status t) InProgress task_transitions then (None, b)
          else (let t' = t\<lparr>tt_status := InProgress, tt_updated := now\<rparr> in (Some t', put_task task_id t' b)))"

definition update_task_status :: "string \<Rightarrow> task_status \<Rightarrow> int \<Rightarrow> board \<Rightarrow> bool \<times> board" where
  "update_task_status task_id status now b =
     (case task_at b task_id of
        None \<Rightarrow> (False, b)
      | Some t \<Rightarrow>
          if \<not> is_valid_transition (tt_status t) status task_transitions then (False, b)
          else
            (let b1 = put_task task_id (t\<lparr>tt_status := status, tt_updated := now\<rparr>) b
             in (True, if status = Completed then resolve_dependencies task_id b1 else b1)))"

definition update_task :: "file_env \<Rightarrow> string \<Rightarrow> string option \<Rightarrow> string option \<Rightarrow> board \<Rightarrow> bool \<times> board" where
  "update_task env task_id title content b =
     (case task_at b task_id of
        None \<Rightarrow> (False, b)
      | Some t \<Rightarrow>
          if tt_status t = InReview then (False, b)
          else
            (let t1 = (case title of None \<Rightarrow> t | Some s \<Rightarrow> t\<lparr>tt_title := s\<rparr>)
             in case content of
                  None \<Rightarrow> (True, put_task task_id t1 b)
                | Some body \<Rightarrow>
                    (let (stored, b1) = to_stored env (tt_team t) body task_id b
                     in (True, put_task task_id (t1\<lparr>tt_content := stored\<rparr>) b1))))"

definition get_task_dependencies :: "string \<Rightarrow> board \<Rightarrow> ((string \<times> string) \<times> task_dependency) list" where
  "get_task_dependencies task_id b = filter (\<lambda>((src, dst), d). src = task_id) (bd_deps b)"

definition get_team_dependencies :: "string \<Rightarrow> board \<Rightarrow> ((string \<times> string) \<times> task_dependency) list" where
  "get_team_dependencies team_name b = filter (\<lambda>(e, d). dp_team d = team_name) (bd_deps b)"

definition get_unresolved_dependencies_count :: "string \<Rightarrow> board \<Rightarrow> nat" where
  "get_unresolved_dependencies_count task_id b = length (filter (\<lambda>(e, d). \<not> dp_resolved d) (get_task_dependencies task_id b))"

definition get_dependent_task_ids :: "string \<Rightarrow> board \<Rightarrow> string list" where
  "get_dependent_task_ids depends_on_task_id b = pyset (map (fst \<circ> fst) (filter (\<lambda>((src, dst), d). dst = depends_on_task_id) (bd_deps b)))"

definition delete_task :: "string \<Rightarrow> board \<Rightarrow> bool \<times> board" where
  "delete_task task_id b =
     (if task_at b task_id = None then (False, b)
      else (True, b\<lparr>bd_tasks := ddel task_id (bd_tasks b),
                    bd_deps := filter (\<lambda>((src, dst), d). src \<noteq> task_id \<and> dst \<noteq> task_id) (bd_deps b)\<rparr>))"

definition cancel_task :: "string \<Rightarrow> int \<Rightarrow> board \<Rightarrow> (team_task \<times> task_row list) option res \<times> board" where
  "cancel_task task_id now = terminate_task task_id Cancelled now"

definition complete_task :: "string \<Rightarrow> int \<Rightarrow> board \<Rightarrow> (team_task \<times> task_row list) option res \<times> board" where
  "complete_task task_id now = terminate_task task_id Completed now"

fun cancel_loop :: "string list \<Rightarrow> int \<Rightarrow> task_row list \<Rightarrow> (string, team_task) pydict \<Rightarrow> board \<Rightarrow> (task_row list \<times> (string, team_task) pydict) res \<times> board" where
  "cancel_loop [] now cancelled unblocked b = (Inr (cancelled, unblocked), b)"
| "cancel_loop (tid # tids) now cancelled unblocked b =
     (case terminate_task tid Cancelled now b of
        (Inl e, b1) \<Rightarrow> (Inl e, b1)
      | (Inr None, b1) \<Rightarrow> cancel_loop tids now cancelled unblocked b1
      | (Inr (Some (t, refreshed)), b1) \<Rightarrow>
          cancel_loop tids now (cancelled @ [(tid, t)]) (fold (\<lambda>(rid, r). dset rid r) refreshed unblocked) b1)"

definition cancel_all_tasks :: "string \<Rightarrow> string list \<Rightarrow> int \<Rightarrow> board \<Rightarrow> (task_row list \<times> task_row list) res \<times> board" where
  "cancel_all_tasks team_name skip_assignees now b =
     (let candidates = map fst (filter (\<lambda>(tid, t). tt_team t = team_name \<and> tt_status t \<notin> {Cancelled, Completed} \<and>
            (case tt_assignee t of None \<Rightarrow> True | Some m \<Rightarrow> m \<notin> set skip_assignees)) (bd_tasks b));
          (r, b') = cancel_loop candidates now [] [] b
      in (map_sum id (\<lambda>(cancelled, unblocked). (cancelled, filter (\<lambda>(tid, t). tid \<notin> fst ` set cancelled) unblocked)) r, b'))"

definition verify_and_fix_task_consistency :: "string \<Rightarrow> int \<Rightarrow> board \<Rightarrow> task_row list \<times> board" where
  "verify_and_fix_task_consistency team_name now b =
     refresh_status (map fst (filter (\<lambda>(tid, t). tt_team t = team_name \<and> tt_status t = Blocked) (bd_tasks b))) now b"

end
