(* ===== verification/Team_Board_Inv.thy ===== *)
theory Team_Board_Inv
  imports Team_Board
begin

text \<open>
  What the task board of a team keeps under every sequence of the operations the manager uses, whoever calls
  them and however the calls interleave: the dependencies have no cycle, what has started waits for nothing, what
  is blocked waits for something; so the board never locks up.
\<close>

section \<open>Reading the tables\<close>

lemma dget_map_items: "dget (map (\<lambda>(k, v). (k, f k v)) d) k = map_option (f k) (dget d k)"
  by (induction d) auto

lemma keys_map_items: "map fst (map (\<lambda>(k, v). (k, f k v)) d) = map fst d"
  by (induction d) auto

definition board_edges :: "board \<Rightarrow> (string \<times> string) set" where
  "board_edges b = fst ` set (bd_deps b)"

abbreviation status_at :: "board \<Rightarrow> string \<Rightarrow> task_status option" where
  "status_at b tid \<equiv> map_option tt_status (task_at b tid)"

lemma edge_iff: "(a, c) \<in> board_edges b \<longleftrightarrow> dget (bd_deps b) (a, c) \<noteq> None"
  by (simp add: board_edges_def in_keys_iff)

lemma put_task_simps [simp]:
  "task_at (put_task tid t b) tid' = (if tid' = tid then Some t else task_at b tid')"
  "bd_deps (put_task tid t b) = bd_deps b" "bd_votes (put_task tid t b) = bd_votes b" "bd_files (put_task tid t b) = bd_files b"
  "fst ` set (bd_tasks (put_task tid t b)) = insert tid (fst ` set (bd_tasks b))"
  "dwf (bd_tasks b) \<Longrightarrow> dwf (bd_tasks (put_task tid t b))"
  by (simp_all add: put_task_def dkeys_dset)

lemma resolve_simps [simp]:
  "bd_tasks (resolve_dependencies tid b) = bd_tasks b"
  "dget (bd_deps (resolve_dependencies tid b)) e =
     map_option (\<lambda>d. if snd e = tid then d\<lparr>dp_resolved := True\<rparr> else d) (dget (bd_deps b) e)"
  "map fst (bd_deps (resolve_dependencies tid b)) = map fst (bd_deps b)"
proof -
  have eq: "bd_deps (resolve_dependencies tid b) = map (\<lambda>(e, d). (e, if snd e = tid then d\<lparr>dp_resolved := True\<rparr> else d)) (bd_deps b)"
    by (auto simp: resolve_dependencies_def)
  show "dget (bd_deps (resolve_dependencies tid b)) e = map_option (\<lambda>d. if snd e = tid then d\<lparr>dp_resolved := True\<rparr> else d) (dget (bd_deps b) e)"
    unfolding eq by (rule dget_map_items)
  show "map fst (bd_deps (resolve_dependencies tid b)) = map fst (bd_deps b)" unfolding eq by (rule keys_map_items)
qed (simp add: resolve_dependencies_def)

lemma refresh_task: "task_at (snd (refresh_status ids now b)) tid = map_option (\<lambda>t. case refresh_row ids now b tid t of None \<Rightarrow> t | Some t' \<Rightarrow> t') (task_at b tid)"
  by (simp add: refresh_status_def Let_def dget_map_items)

lemma refresh_simps [simp]:
  "bd_deps (snd (refresh_status ids now b)) = bd_deps b"
  "map fst (bd_tasks (snd (refresh_status ids now b))) = map fst (bd_tasks b)"
  by (simp_all add: refresh_status_def Let_def comp_def split_def)

text \<open>What a task still waits for.\<close>

definition waits :: "board \<Rightarrow> string \<Rightarrow> bool" where
  "waits b tid \<longleftrightarrow> (\<exists>c d. dget (bd_deps b) (tid, c) = Some d \<and> \<not> dp_resolved d)"

lemma unresolved_iff:
  assumes "dwf (bd_deps b)"
  shows "unresolved_count b tid > 0 \<longleftrightarrow> waits b tid"
proof
  assume "unresolved_count b tid > 0"
  then obtain e d where "(e, d) \<in> set (bd_deps b)" "fst e = tid" "\<not> dp_resolved d"
    by (auto simp: unresolved_count_def filter_empty_conv split: prod.splits)
  moreover then have "dget (bd_deps b) e = Some d" using dwf_mem_dget[OF assms] by blast
  ultimately show "waits b tid" unfolding waits_def by (metis prod.collapse)
next
  assume "waits b tid"
  then obtain c d where "dget (bd_deps b) (tid, c) = Some d" and r: "\<not> dp_resolved d" unfolding waits_def by blast
  then have "((tid, c), d) \<in> set (bd_deps b)" by (rule_tac map_of_SomeD)
  then have "((tid, c), d) \<in> set (filter (\<lambda>((src, dst), d). src = tid \<and> \<not> dp_resolved d) (bd_deps b))" using r by simp
  then show "unresolved_count b tid > 0" unfolding unresolved_count_def by (rule length_pos_if_in_set)
qed

section \<open>A sound board\<close>

definition finished_at :: "board \<Rightarrow> string \<Rightarrow> bool option" where
  "finished_at b tid = map_option (\<lambda>t. finished (tt_status t)) (task_at b tid)"

definition edges_sound :: "string \<Rightarrow> board \<Rightarrow> bool" where
  "edges_sound team b \<longleftrightarrow>
     acyclic (board_edges b) \<and>
     (\<forall>a c d. dget (bd_deps b) (a, c) = Some d \<longrightarrow>
        dp_team d = team \<and> finished_at b a \<noteq> None \<and> finished_at b c = Some (dp_resolved d))"

lemma edges_sound_cong:
  "bd_deps b' = bd_deps b \<Longrightarrow> (\<And>tid. finished_at b' tid = finished_at b tid) \<Longrightarrow> edges_sound team b' = edges_sound team b"
  by (simp add: edges_sound_def board_edges_def)

definition tables_sound :: "board \<Rightarrow> bool" where
  "tables_sound b \<longleftrightarrow> dwf (bd_tasks b) \<and> dwf (bd_deps b) \<and> task_at b [] = None"

text \<open>A task that may go on waits for nothing, a blocked one waits; \<open>ids\<close> are the tasks that are yet to be refreshed.\<close>

definition row_sound :: "board \<Rightarrow> string \<Rightarrow> team_task \<Rightarrow> bool" where
  "row_sound b tid t \<longleftrightarrow> (tt_status t \<notin> {Blocked, Cancelled} \<longrightarrow> \<not> waits b tid) \<and> (tt_status t = Blocked \<longrightarrow> waits b tid)"

definition board_ok_but :: "string list \<Rightarrow> string \<Rightarrow> board \<Rightarrow> bool" where
  "board_ok_but ids team b \<longleftrightarrow>
     tables_sound b \<and> edges_sound team b \<and>
     (\<forall>tid t. task_at b tid = Some t \<longrightarrow> row_sound b tid t \<or> (tid \<in> set ids \<and> (tt_status t \<in> {Pending, Blocked})))"

abbreviation board_ok :: "string \<Rightarrow> board \<Rightarrow> bool" where
  "board_ok \<equiv> board_ok_but []"

lemma board_init_ok: "board_ok team board_init"
  by (simp add: board_ok_but_def board_init_def tables_sound_def edges_sound_def board_edges_def acyclic_def)

text \<open>The bodies and the votes do not matter.\<close>

lemma same_tables:
  assumes "bd_tasks b' = bd_tasks b" and "bd_deps b' = bd_deps b"
  shows "board_ok_but ids team b' = board_ok_but ids team b"
  using assms by (simp add: board_ok_but_def tables_sound_def edges_sound_def board_edges_def row_sound_def waits_def finished_at_def)

lemma refresh_ok:
  assumes "board_ok_but ids team b"
  shows "board_ok team (snd (refresh_status ids now b))"
proof -
  let ?b = "snd (refresh_status ids now b)"
  have dwf: "dwf (bd_tasks b)" "dwf (bd_deps b)" and e: "task_at b [] = None"
    using assms by (simp_all add: board_ok_but_def tables_sound_def)
  have w: "waits ?b tid = waits b tid" for tid by (simp add: waits_def)
  have row: "tt_status (case refresh_row ids now b tid t of None \<Rightarrow> t | Some t' \<Rightarrow> t') =
      (if tid \<in> set ids \<and> tid \<noteq> [] \<and> tt_status t = Pending \<and> waits b tid then Blocked
       else if tid \<in> set ids \<and> tid \<noteq> [] \<and> tt_status t = Blocked \<and> \<not> waits b tid then Pending else tt_status t)" for tid t
    using unresolved_iff[OF dwf(2), of tid] by (auto simp: refresh_row_def refreshed_status_def)
  have "row_sound ?b tid t'" if look: "task_at ?b tid = Some t'" for tid t'
  proof -
    obtain t where t: "task_at b tid = Some t" "t' = (case refresh_row ids now b tid t of None \<Rightarrow> t | Some t' \<Rightarrow> t')"
      using look unfolding refresh_task by (cases "task_at b tid") auto
    have "tid \<noteq> []" using t(1) e by auto
    then show ?thesis using assms t row[of t tid] unfolding board_ok_but_def row_sound_def w by (auto split: if_splits)
  qed
  moreover have "finished_at ?b tid = finished_at b tid" for tid
  proof (cases "task_at b tid")
    case (Some t)
    have "finished (tt_status (case refresh_row ids now b tid t of None \<Rightarrow> t | Some t' \<Rightarrow> t')) = finished (tt_status t)"
      unfolding row by (auto simp: task_terminal_def)
    then show ?thesis by (simp add: finished_at_def refresh_task Some)
  qed (simp add: finished_at_def refresh_task)
  then have "edges_sound team ?b" using assms edges_sound_cong[of ?b b team] by (simp add: board_ok_but_def)
  moreover have "tables_sound ?b" using dwf e by (simp only: tables_sound_def refresh_simps) (simp add: refresh_task)
  ultimately show ?thesis by (simp add: board_ok_but_def)
qed

section \<open>The operations keep it\<close>

definition stays_open :: "team_task \<Rightarrow> team_task \<Rightarrow> bool" where
  "stays_open t t' \<longleftrightarrow>
     tt_status t' = tt_status t \<or>
     (tt_status t \<in> {Pending, Planning, InProgress, InReview} \<and> tt_status t' \<in> {Pending, Planning, InProgress, InReview})"

lemma put_ok:
  assumes ok: "board_ok team b" and t: "task_at b tid = Some t" and s: "stays_open t t'"
  shows "board_ok team (put_task tid t' b)"
proof -
  have f: "finished (tt_status t') = finished (tt_status t)" using s by (auto simp: stays_open_def task_terminal_def)
  have "finished_at (put_task tid t' b) k = finished_at b k" for k using t f by (simp add: finished_at_def)
  then have "edges_sound team (put_task tid t' b)"
    using ok edges_sound_cong[of "put_task tid t' b" b team] by (simp add: board_ok_but_def)
  moreover have "tables_sound (put_task tid t' b)" using ok t by (auto simp: board_ok_but_def tables_sound_def)
  moreover have "row_sound (put_task tid t' b) k u" if "task_at (put_task tid t' b) k = Some u" for k u
  proof -
    have w: "waits (put_task tid t' b) k = waits b k" by (simp add: waits_def)
    have "row_sound b tid t" using ok t by (simp add: board_ok_but_def)
    then show ?thesis using that ok s unfolding board_ok_but_def row_sound_def w stays_open_def by (auto split: if_splits)
  qed
  ultimately show ?thesis by (simp add: board_ok_but_def)
qed

lemma cas_ok:
  assumes "board_ok team b" and "\<And>t. cond t \<Longrightarrow> stays_open t (f t)"
  shows "board_ok team (snd (cas tid cond f b))"
  using put_ok[OF assms(1)] assms by (auto simp: cas_def split: option.splits)

lemma downstream_set: "set (downstream tid b) = {a. (a, tid) \<in> board_edges b}"
  by (force simp: downstream_def board_edges_def)

lemma terminate_ok:
  assumes ok: "board_ok team b" and fin: "finished s"
  shows "board_ok team (snd (terminate_task tid s now b))"
proof (cases "\<exists>t. task_at b tid = Some t \<and> tt_status t \<in> set (terminable_predecessors s)")
  case True
  then obtain t where t: "task_at b tid = Some t" "tt_status t \<in> set (terminable_predecessors s)" by blast
  let ?t = "t\<lparr>tt_status := s, tt_updated := now\<rparr>"
  let ?b = "resolve_dependencies tid (put_task tid ?t b)"
  have "dget (bd_deps ?b) (k, c) = Some d \<and> \<not> dp_resolved d \<longleftrightarrow> dget (bd_deps b) (k, c) = Some d \<and> \<not> dp_resolved d \<and> c \<noteq> tid" for k c d
    by (cases "dget (bd_deps b) (k, c)"; cases "c = tid") auto
  then have w: "waits ?b k \<longleftrightarrow> (\<exists>c d. dget (bd_deps b) (k, c) = Some d \<and> \<not> dp_resolved d \<and> c \<noteq> tid)" for k
    by (simp only: waits_def)
  have mono: "waits ?b k \<Longrightarrow> waits b k" for k unfolding w by (auto simp: waits_def)
  have keep: "waits ?b k = waits b k" if "k \<notin> set (downstream tid ?b)" for k
  proof -
    have "dget (bd_deps b) (k, tid) = None" using that unfolding downstream_set edge_iff by simp
    then show ?thesis unfolding w by (auto simp: waits_def) (metis option.distinct(1))
  qed
  have tables: "tables_sound ?b" using ok t by (auto simp: board_ok_but_def tables_sound_def)
  have edges: "edges_sound team ?b"
  proof -
    have "board_edges ?b = board_edges b" unfolding board_edges_def by (metis resolve_simps(3) put_task_simps(2) set_map)
    moreover have "finished_at ?b k = (if k = tid then Some True else finished_at b k)" for k
      using fin by (simp add: finished_at_def)
    ultimately show ?thesis using ok fin by (auto simp: board_ok_but_def edges_sound_def)
  qed
  have "row_sound ?b k u \<or> k \<in> set (downstream tid ?b) \<and> tt_status u \<in> {Pending, Blocked}" if look: "task_at ?b k = Some u" for k u
  proof (cases "k = tid")
    case True
    then have u: "u = ?t" using look by simp
    have "s = Completed \<Longrightarrow> \<not> waits b tid" using ok t by (auto simp: board_ok_but_def row_sound_def terminable_predecessors_def)
    then show ?thesis using mono[of tid] fin True unfolding u by (auto simp: row_sound_def task_terminal_def)
  next
    case False
    then have "row_sound b k u" using look ok by (simp add: board_ok_but_def)
    then show ?thesis using mono[of k] keep[of k] by (auto simp: row_sound_def)
  qed
  then have "board_ok_but (downstream tid ?b) team ?b" using tables edges by (simp add: board_ok_but_def)
  then have "board_ok team (snd (refresh_status (downstream tid ?b) now ?b))" by (rule refresh_ok)
  moreover have "snd (terminate_task tid s now b) = snd (refresh_status (downstream tid ?b) now ?b)"
    using t fin by (simp add: terminate_task_def Let_def split_beta)
  ultimately show ?thesis by simp
next
  case False
  then have "snd (terminate_task tid s now b) = b" by (auto simp: terminate_task_def split: option.splits)
  then show ?thesis using ok by simp
qed

lemma cancel_loop_ok: "board_ok team b \<Longrightarrow> board_ok team (snd (cancel_loop tids now cancelled unblocked b))"
proof (induction tids now cancelled unblocked b rule: cancel_loop.induct)
  case (2 tid tids now cancelled unblocked b)
  obtain r b1 where t: "terminate_task tid Cancelled now b = (r, b1)" by (cases "terminate_task tid Cancelled now b")
  have b1: "board_ok team b1" using terminate_ok[OF 2(3), of Cancelled tid now] by (simp add: t task_terminal_def)
  show ?case
  proof (cases r)
    case (Inr o')
    show ?thesis
    proof (cases o')
      case None
      then show ?thesis using 2(1)[OF t[symmetric] _ _ b1] by (simp add: t Inr)
    next
      case (Some tr)
      obtain u refreshed where "tr = (u, refreshed)" by (cases tr)
      then show ?thesis using 2(2)[OF t[symmetric] _ _ _ b1] by (simp add: t Inr Some)
    qed
  qed (use b1 in \<open>simp add: t\<close>)
qed simp

section \<open>Changing the graph keeps it\<close>

lemma put_new_ok:
  assumes ok: "board_ok team b" and new: "task_at b tid = None" and t: "tt_status t = Pending" and tid: "tid \<noteq> []"
  shows "board_ok team (put_task tid t b)"
proof -
  have e: "finished_at b a \<noteq> None" "finished_at b c \<noteq> None" if "dget (bd_deps b) (a, c) = Some d" for a c d
    using ok that by (auto simp: board_ok_but_def edges_sound_def)
  have tid_edge: "dget (bd_deps b) (tid, c) = None" "dget (bd_deps b) (a, tid) = None" for a c
    using e[of tid c] e[of a tid] new by (cases "dget (bd_deps b) (tid, c)"; cases "dget (bd_deps b) (a, tid)"; simp add: finished_at_def)+
  have "edges_sound team (put_task tid t b)"
    unfolding edges_sound_def
  proof (intro conjI allI impI)
    show "acyclic (board_edges (put_task tid t b))" using ok by (simp add: board_ok_but_def edges_sound_def board_edges_def)
    fix a c d
    assume d: "dget (bd_deps (put_task tid t b)) (a, c) = Some d"
    then have "a \<noteq> tid" "c \<noteq> tid" using tid_edge by auto
    then show "dp_team d = team" "finished_at (put_task tid t b) a \<noteq> None" "finished_at (put_task tid t b) c = Some (dp_resolved d)"
      using ok d by (auto simp: board_ok_but_def edges_sound_def finished_at_def)
  qed
  moreover have "tables_sound (put_task tid t b)" using ok tid by (auto simp: board_ok_but_def tables_sound_def)
  moreover have "row_sound (put_task tid t b) k u" if "task_at (put_task tid t b) k = Some u" for k u
  proof -
    have w: "waits (put_task tid t b) k = waits b k" by (simp add: waits_def)
    have "\<not> waits b tid" using tid_edge by (simp add: waits_def)
    then show ?thesis using that ok t unfolding board_ok_but_def row_sound_def w by (auto split: if_splits)
  qed
  ultimately show ?thesis by (simp add: board_ok_but_def)
qed

definition spec_ok :: "new_task_spec \<Rightarrow> bool" where
  "spec_ok spec \<longleftrightarrow> nt_status spec = Pending \<and> nt_id spec \<noteq> []"

lemma stage_rows_ok:
  assumes "stage_rows team now specs seen b = Inr b'" and "board_ok team b" and "list_all spec_ok specs"
    and "\<And>spec. spec \<in> set specs \<Longrightarrow> nt_id spec \<in> set seen \<or> task_at b (nt_id spec) = None"
  shows "board_ok team b' \<and> bd_deps b' = bd_deps b"
  using assms
proof (induction team now specs seen b rule: stage_rows.induct)
  case (2 team now spec specs seen b)
  have n: "nt_id spec \<notin> set seen" using 2(2) by (auto split: if_splits)
  then have new: "task_at b (nt_id spec) = None" using 2(5)[of spec] by auto
  let ?b = "put_task (nt_id spec) (row_of_spec team now spec) b"
  have "board_ok team ?b" by (rule put_new_ok[OF 2(3) new]) (use 2(4) in \<open>auto simp: spec_ok_def row_of_spec_def\<close>)
  moreover have "stage_rows team now specs (sadd (nt_id spec) seen) ?b = Inr b'" using 2(2) n by simp
  moreover have "nt_id s \<in> set (sadd (nt_id spec) seen) \<or> task_at ?b (nt_id s) = None" if "s \<in> set specs" for s
    using 2(5)[of s] that by auto
  ultimately show ?case using 2(1)[OF n] 2(4) by simp
qed simp

lemma stage_tasks_ok:
  assumes "stage_new_tasks team specs now b = Inr b'" and "board_ok team b" and "list_all spec_ok specs"
  shows "board_ok team b' \<and> bd_deps b' = bd_deps b"
proof -
  have e: "pyset (filter (\<lambda>tid. task_at b tid \<noteq> None) (map nt_id specs)) = []" and s: "stage_rows team now specs [] b = Inr b'"
    using assms(1) by (auto simp: stage_new_tasks_def Let_def split: if_splits)
  have "set (filter (\<lambda>tid. task_at b tid \<noteq> None) (map nt_id specs)) = {}" using e by (metis set_pyset set_empty)
  then have "task_at b (nt_id spec) = None" if "spec \<in> set specs" for spec using that by auto
  then show ?thesis by (intro stage_rows_ok[OF s assms(2,3)]) simp
qed

lemma validate_ok:
  "validate_edges edges b = Inr u \<Longrightarrow> (a, c) \<in> set edges \<Longrightarrow>
   (\<exists>t. task_at b a = Some t \<and> tt_status t \<in> {Pending, Blocked}) \<and> task_at b c \<noteq> None"
proof (induction edges b rule: validate_edges.induct)
  case (2 tid dep_id edges b)
  obtain t v where tv: "task_at b tid = Some t" "task_at b dep_id = Some v" using 2(2) by (auto split: option.splits)
  have s: "tt_status t \<notin> set task_dependency_reject" "validate_edges edges b = Inr u" using 2(2) tv by (auto split: if_splits)
  have "tt_status t \<in> {Pending, Blocked}" using s(1) by (cases "tt_status t") (auto simp: task_dependency_reject_def)
  then show ?case using 2(1)[OF refl tv s] 2(3) tv by auto
qed simp

lemma edges_of_add: "edges_of (add_adjacent e adj) = insert e (edges_of adj)"
  by (cases e) (auto simp: edges_of_def add_adjacent_def split: if_splits)

lemma edges_of_fold: "edges_of (fold add_adjacent es adj) = edges_of adj \<union> set es"
  by (induction es arbitrary: adj) (auto simp: edges_of_add)

lemma collect_ok:
  "collect_edges edges existing new adj = (new', adj') \<Longrightarrow> distinct new \<Longrightarrow> set new \<inter> set existing = {} \<Longrightarrow> set new \<subseteq> edges_of adj \<Longrightarrow>
   distinct new' \<and> set new' = set new \<union> (set edges - set existing) \<and> set new' \<inter> set existing = {} \<and> edges_of adj' = edges_of adj \<union> set new'"
proof (induction edges existing new adj rule: collect_edges.induct)
  case (2 e edges existing new adj)
  show ?case
  proof (cases "e \<in> set existing \<or> e \<in> set new")
    case True
    then have "collect_edges edges existing new adj = (new', adj')" using 2(3) by simp
    from 2(1)[OF True this 2(4-6)] show ?thesis using True by auto
  next
    case False
    then have c: "collect_edges edges existing (sadd e new) (add_adjacent e adj) = (new', adj')" using 2(3) by simp
    from 2(2)[OF False c] 2(4-6) False show ?thesis by (auto simp: edges_of_add)
  qed
qed auto

lemma check_ok:
  assumes "check_cycle_and_compute_new_edges order team edges b = Inr new" and "set_order order" and "edges_sound team b"
  shows "distinct new \<and> set new \<subseteq> set edges \<and> set new \<inter> board_edges b = {} \<and> acyclic (board_edges b \<union> set new)"
proof (cases "edges = []")
  case True
  then show ?thesis using assms by (simp add: check_cycle_and_compute_new_edges_def edges_sound_def)
next
  case False
  let ?ex = "pyset (team_edges team b)"
  have "set (team_edges team b) = board_edges b"
  proof
    show "board_edges b \<subseteq> set (team_edges team b)"
    proof
      fix e
      assume "e \<in> board_edges b"
      then obtain d where "(e, d) \<in> set (bd_deps b)" by (auto simp: board_edges_def)
      then obtain d' where d': "dget (bd_deps b) e = Some d'" by (metis in_keys_dget fst_conv image_eqI)
      then have "dp_team d' = team" using assms(3) by (cases e) (simp add: edges_sound_def)
      then show "e \<in> set (team_edges team b)" using map_of_SomeD[OF d'] by (force simp: team_edges_def)
    qed
  qed (auto simp: team_edges_def board_edges_def)
  then have ex: "set ?ex = board_edges b" by simp
  have ord: "set (order ?ex) = set ?ex" using set_orderD[OF assms(2), of ?ex] by simp
  obtain new' adj where c: "collect_edges edges ?ex [] (fold add_adjacent (order ?ex) []) = (new', adj)"
    by (cases "collect_edges edges ?ex [] (fold add_adjacent (order ?ex) [])")
  have n: "detect_cycle_in_adjacency adj = None" "new = new'"
    using assms(1) False c by (auto simp: check_cycle_and_compute_new_edges_def Let_def split: option.splits)
  have col: "distinct new' \<and> set new' = set [] \<union> (set edges - set ?ex) \<and> set new' \<inter> set ?ex = {} \<and> edges_of adj = edges_of (fold add_adjacent (order ?ex) []) \<union> set new'"
    by (rule collect_ok[OF c]) simp_all
  have "edges_of adj = board_edges b \<union> set new'" using col unfolding edges_of_fold ord ex by (auto simp: edges_of_def)
  then have "acyclic (board_edges b \<union> set new')" using detect_cycle_exact[of adj] n by simp
  then show ?thesis using col n ex by auto
qed

lemma apply_edges:
  "apply_new_edges team es b = Inr b' \<Longrightarrow>
   bd_tasks b' = bd_tasks b \<and> (dwf (bd_deps b) \<longrightarrow> dwf (bd_deps b')) \<and>
   (\<forall>e. dget (bd_deps b') e =
     (if e \<in> set es then Some \<lparr>dp_team = team, dp_resolved = (finished_at b (snd e) = Some True)\<rparr> else dget (bd_deps b) e))"
proof (induction team es b rule: apply_new_edges.induct)
  case (2 team e es b)
  let ?r = "case task_at b (snd e) of None \<Rightarrow> False | Some t \<Rightarrow> tt_status t \<in> set task_terminal"
  let ?b = "b\<lparr>bd_deps := dset e \<lparr>dp_team = team, dp_resolved = ?r\<rparr> (bd_deps b)\<rparr>"
  have n: "\<not> dget (bd_deps b) e \<noteq> None" and a: "apply_new_edges team es ?b = Inr b'" using 2(2) by (auto simp: Let_def split: if_splits)
  have r: "?r = (finished_at b (snd e) = Some True)" by (cases "task_at b (snd e)") (simp_all add: finished_at_def)
  have f: "finished_at ?b k = finished_at b k" for k by (simp add: finished_at_def)
  have d: "dget (bd_deps ?b) k = (if k = e then Some \<lparr>dp_team = team, dp_resolved = (finished_at b (snd e) = Some True)\<rparr> else dget (bd_deps b) k)" for k
    unfolding r by simp
  have w: "dwf (bd_deps b) \<Longrightarrow> dwf (bd_deps ?b)" and t: "bd_tasks ?b = bd_tasks b" by simp_all
  note ih = 2(1)[OF n refl a]
  have "dget (bd_deps b') k =
      (if k \<in> set (e # es) then Some \<lparr>dp_team = team, dp_resolved = (finished_at b (snd k) = Some True)\<rparr> else dget (bd_deps b) k)" for k
    using conjunct2[OF conjunct2[OF ih], THEN spec, of k] unfolding f d by auto
  then show ?case using ih w unfolding t by blast
qed simp

lemma mutate_tables_ok:
  assumes m: "mutate_tables order now team specs edges b = Inr (refreshed, b')" and ok: "board_ok team b" and s: "list_all spec_ok specs"
    and ord: "set_order order"
  shows "board_ok team b'"
proof -
  obtain b1 u new b2 where st: "stage_new_tasks team specs now b = Inr b1" "validate_edges edges b1 = Inr u"
    "check_cycle_and_compute_new_edges order team edges b1 = Inr new" "apply_new_edges team (order new) b1 = Inr b2"
    "b' = snd (refresh_status (pyset (map nt_id specs @ map fst new)) now b2)"
    using m by (auto simp: mutate_tables_def split: sum.splits)
  have ok1: "board_ok team b1" using stage_tasks_ok[OF st(1) ok s] by simp
  then have sound: "edges_sound team b1" "tables_sound b1" by (simp_all add: board_ok_but_def)
  have c: "distinct new" "set new \<subseteq> set edges" "set new \<inter> board_edges b1 = {}" "acyclic (board_edges b1 \<union> set new)"
    using check_ok[OF st(3) ord sound(1)] by simp_all
  have on: "set (order new) = set new" using set_orderD[OF ord c(1)] by simp
  have a: "bd_tasks b2 = bd_tasks b1" "dwf (bd_deps b2)"
    "\<And>e. dget (bd_deps b2) e = (if e \<in> set new then Some \<lparr>dp_team = team, dp_resolved = (finished_at b1 (snd e) = Some True)\<rparr> else dget (bd_deps b1) e)"
    using apply_edges[OF st(4)] sound(2) unfolding on tables_sound_def by blast+
  have f: "finished_at b2 = finished_at b1" by (rule ext) (simp add: finished_at_def a(1))
  have edges: "board_edges b2 = board_edges b1 \<union> set new" by (auto simp: edge_iff a(3) split: if_splits)
  have "finished_at b1 x \<noteq> None \<and> finished_at b1 y \<noteq> None" if "(x, y) \<in> set new" for x y
    using validate_ok[OF st(2)] c(2) that by (fastforce simp: finished_at_def)
  then have new_ends: "finished_at b1 x \<noteq> None \<and> finished_at b1 y = Some (finished_at b1 y = Some True)" if e: "(x, y) \<in> set new" for x y
    using e by (cases "finished_at b1 y") force+
  then have "edges_sound team b2" using sound(1) c(4) unfolding edges_sound_def edges f a(3) by (auto split: if_splits)
  moreover have "tables_sound b2" using sound(2) a(1,2) by (simp add: tables_sound_def)
  moreover have "row_sound b2 k t \<or> k \<in> set (map fst new) \<and> tt_status t \<in> {Pending, Blocked}" if "task_at b2 k = Some t" for k t
  proof (cases "k \<in> set (map fst new)")
    case True
    then show ?thesis using validate_ok[OF st(2)] c(2) that a(1) by fastforce
  next
    case False
    then have "dget (bd_deps b2) (k, y) = dget (bd_deps b1) (k, y)" for y unfolding a(3) by force
    then have "waits b2 k = waits b1 k" by (simp add: waits_def)
    then show ?thesis using ok1 that a(1) by (simp add: board_ok_but_def row_sound_def)
  qed
  ultimately have "board_ok_but (pyset (map nt_id specs @ map fst new)) team b2" by (auto simp: board_ok_but_def)
  then show ?thesis unfolding st(5) by (rule refresh_ok)
qed

end
