(* ===== verification/Team_Runs.thy ===== *)
theory Team_Runs
  imports Team_Board_Inv
begin

text \<open>
  Runs of the task board of a team: the calls of \<open>TaskDao\<close> by which the task manager of a team changes the tables, in
  any order, as many members interleave them. What holds of the board after every run, and how a run can go on.
\<close>

section \<open>The calls\<close>

datatype board_op =
    BMutate file_env "(string \<times> string) list \<Rightarrow> (string \<times> string) list" int "new_task_spec list" "(string \<times> string) list"
  | BClaim string string task_status int
  | BStart string string task_status int
  | BReassign string string string int
  | BReset string int
  | BSubmit string int
  | BRevise string int
  | BApprove string int
  | BReviewer string "reviewer_entry list option"
  | BMaxRounds string "int option"
  | BVote review_vote
  | BUpdate file_env string "string option" "string option"
  | BComplete string int
  | BCancel string int
  | BCancelAll "string list" int
  | BFix int

fun board_step :: "string \<Rightarrow> board_op \<Rightarrow> board \<Rightarrow> board" where
  "board_step team (BMutate env order now specs edges) b = snd (mutate_dependency_graph env order now team specs edges b)"
| "board_step team (BClaim tid m s now) b = snd (claim_task tid m s now b)"
| "board_step team (BStart tid m s now) b = snd (start_task tid m s now b)"
| "board_step team (BReassign tid m m' now) b = snd (reassign_task tid m m' now b)"
| "board_step team (BReset tid now) b = snd (reset_task tid now b)"
| "board_step team (BSubmit tid now) b = snd (submit_for_review tid now b)"
| "board_step team (BRevise tid now) b = snd (revise_task tid now b)"
| "board_step team (BApprove tid now) b = snd (approve_plan_task tid now b)"
| "board_step team (BReviewer tid r) b = snd (set_reviewer tid r b)"
| "board_step team (BMaxRounds tid n) b = snd (set_max_review_rounds tid n b)"
| "board_step team (BVote v) b = insert_review_vote v b"
| "board_step team (BUpdate env tid title content) b = snd (update_task env tid title content b)"
| "board_step team (BComplete tid now) b = snd (complete_task tid now b)"
| "board_step team (BCancel tid now) b = snd (cancel_task tid now b)"
| "board_step team (BCancelAll skip now) b = snd (cancel_all_tasks team skip now b)"
| "board_step team (BFix now) b = snd (verify_and_fix_task_consistency team now b)"

definition run_board :: "string \<Rightarrow> board_op list \<Rightarrow> board \<Rightarrow> board" where
  "run_board team ops b = fold (board_step team) ops b"

lemma run_board_simps [simp]:
  "run_board team [] b = b" "run_board team (op # ops) b = run_board team ops (board_step team op b)"
  "run_board team (ops @ ops') b = run_board team ops' (run_board team ops b)"
  by (simp_all add: run_board_def)

text \<open>What the manager sees to: new tasks are pending and named, and a member enters a task by one of its two gates.\<close>

fun op_ok :: "board_op \<Rightarrow> bool" where
  "op_ok (BMutate env order now specs edges) \<longleftrightarrow> set_order order \<and> list_all spec_ok specs"
| "op_ok (BClaim tid m s now) \<longleftrightarrow> s \<in> {InProgress, Planning}"
| "op_ok (BStart tid m s now) \<longleftrightarrow> s \<in> {InProgress, Planning}"
| "op_ok op \<longleftrightarrow> True"

section \<open>Every call keeps the board sound\<close>

lemma to_stored_tables [simp]:
  "bd_tasks (snd (to_stored env team content tid b)) = bd_tasks b"
  "bd_deps (snd (to_stored env team content tid b)) = bd_deps b"
  "bd_votes (snd (to_stored env team content tid b)) = bd_votes b"
  by (simp_all add: to_stored_def)

lemma spill_tables:
  "spill_specs env team specs b = (specs', b') \<Longrightarrow>
   bd_tasks b' = bd_tasks b \<and> bd_deps b' = bd_deps b \<and> map nt_id specs' = map nt_id specs \<and> map nt_status specs' = map nt_status specs"
proof (induction specs arbitrary: b specs')
  case (Cons spec specs)
  obtain content b1 where t: "to_stored env team (nt_content spec) (nt_id spec) b = (content, b1)"
    by (cases "to_stored env team (nt_content spec) (nt_id spec) b")
  obtain specs1 b2 where s: "spill_specs env team specs b1 = (specs1, b2)" by (cases "spill_specs env team specs b1")
  have "bd_tasks b1 = bd_tasks b" "bd_deps b1 = bd_deps b" using to_stored_tables[of env team "nt_content spec" "nt_id spec" b] by (simp_all add: t)
  then show ?case using Cons(2) Cons(1)[of b1 specs1] s t by (auto simp: Let_def)
qed simp

lemma spec_ok_spilled:
  assumes "map nt_id specs' = map nt_id specs" and "map nt_status specs' = map nt_status specs" and "list_all spec_ok specs"
  shows "list_all spec_ok specs'"
proof -
  have "list_all spec_ok xs \<longleftrightarrow> list_all (\<lambda>s. s = Pending) (map nt_status xs) \<and> list_all (\<lambda>i. i \<noteq> []) (map nt_id xs)" for xs
    by (auto simp: list_all_iff spec_ok_def)
  then show ?thesis using assms by metis
qed

lemma mutate_ok:
  assumes ok: "board_ok team b" and o: "set_order order" and s: "list_all spec_ok specs"
  shows "board_ok team (snd (mutate_dependency_graph env order now team specs edges b))"
proof (cases "specs = [] \<and> edges = []")
  case False
  obtain specs' b0 where sp: "spill_specs env team specs b = (specs', b0)" by (cases "spill_specs env team specs b")
  note t = spill_tables[OF sp]
  have ok0: "board_ok team b0" using ok t same_tables[of b0 b] by simp
  have s': "list_all spec_ok specs'" using spec_ok_spilled[OF _ _ s] t by blast
  show ?thesis
  proof (cases "mutate_tables order now team specs' edges b0")
    case (Inr r)
    obtain refreshed b' where "r = (refreshed, b')" by (cases r)
    then show ?thesis using mutate_tables_ok[OF _ ok0 s' o, of now edges] False sp Inr by (auto simp: mutate_dependency_graph_def)
  qed (use ok0 sp False in \<open>auto simp: mutate_dependency_graph_def\<close>)
qed (simp add: mutate_dependency_graph_def ok)

lemma update_task_ok:
  assumes ok: "board_ok team b"
  shows "board_ok team (snd (update_task env tid title content b))"
proof (cases "task_at b tid")
  case (Some t)
  have ti: "stays_open t (case title of None \<Rightarrow> t | Some s \<Rightarrow> t\<lparr>tt_title := s\<rparr>)" for t by (simp add: stays_open_def split: option.splits)
  show ?thesis
  proof (cases content)
    case None
    then show ?thesis using put_ok[OF ok Some ti] ok Some by (simp add: update_task_def Let_def)
  next
    case (Some body)
    obtain stored b1 where st: "to_stored env (tt_team t) body tid b = (stored, b1)" by (cases "to_stored env (tt_team t) body tid b")
    have tab: "bd_tasks b1 = bd_tasks b" "bd_deps b1 = bd_deps b" using to_stored_tables[of env "tt_team t" body tid b] by (simp_all add: st)
    then have "board_ok team b1" using ok same_tables[of b1 b] by simp
    moreover have "stays_open t ((case title of None \<Rightarrow> t | Some s \<Rightarrow> t\<lparr>tt_title := s\<rparr>)\<lparr>tt_content := stored\<rparr>)"
      by (simp add: stays_open_def split: option.splits)
    moreover have "task_at b1 tid = Some t" using \<open>task_at b tid = Some t\<close> tab by simp
    ultimately have "board_ok team (put_task tid ((case title of None \<Rightarrow> t | Some s \<Rightarrow> t\<lparr>tt_title := s\<rparr>)\<lparr>tt_content := stored\<rparr>) b1)"
      by (intro put_ok)
    then show ?thesis using ok \<open>task_at b tid = Some t\<close> Some st by (simp add: update_task_def Let_def)
  qed
qed (simp add: update_task_def ok)

lemma board_step_ok:
  assumes ok: "board_ok team b" and op: "op_ok op"
  shows "board_ok team (board_step team op b)"
proof (cases op)
  case (BMutate env order now specs edges)
  then show ?thesis using mutate_ok[OF ok] op by simp
next
  case (BClaim tid m s now)
  then show ?thesis using op by (auto simp: claim_task_def stays_open_def intro!: cas_ok[OF ok])
next
  case (BStart tid m s now)
  then show ?thesis using op by (auto simp: start_task_def stays_open_def intro!: cas_ok[OF ok])
next
  case (BReset tid now)
  show ?thesis using put_ok[OF ok, of tid] ok
    by (auto simp: BReset reset_task_def Let_def resettable_def stays_open_def split: option.splits)
next
  case (BApprove tid now)
  have "stays_open t (t\<lparr>tt_status := InProgress, tt_updated := now\<rparr>)" if "is_valid_transition (tt_status t) InProgress task_transitions" for t
    using that by (cases "tt_status t") (simp_all add: is_valid_transition_def task_transitions_def stays_open_def)
  then show ?thesis using put_ok[OF ok, of tid] ok by (auto simp: BApprove approve_plan_task_def Let_def split: option.splits)
next
  case (BUpdate env tid title content)
  then show ?thesis using update_task_ok[OF ok] by simp
next
  case (BComplete tid now)
  then show ?thesis using terminate_ok[OF ok, of Completed] by (simp add: complete_task_def task_terminal_def)
next
  case (BCancel tid now)
  then show ?thesis using terminate_ok[OF ok, of Cancelled] by (simp add: cancel_task_def task_terminal_def)
next
  case (BCancelAll skip now)
  then show ?thesis using cancel_loop_ok[OF ok] by (simp add: cancel_all_tasks_def Let_def split_beta)
next
  case (BFix now)
  have "board_ok_but ids team b" for ids using ok by (simp add: board_ok_but_def)
  then show ?thesis using refresh_ok by (simp add: BFix verify_and_fix_task_consistency_def)
next
  case (BVote v)
  then show ?thesis using ok same_tables[of "insert_review_vote v b" b] by (simp add: insert_review_vote_def)
qed (auto simp: reassign_task_def submit_for_review_def revise_task_def set_reviewer_def set_max_review_rounds_def stays_open_def
      intro!: cas_ok[OF ok])

lemma run_board_ok: "list_all op_ok ops \<Longrightarrow> board_ok team b \<Longrightarrow> board_ok team (run_board team ops b)"
  by (induction ops arbitrary: b) (auto intro: board_step_ok)


section \<open>How one call moves a task\<close>

text \<open>One task before and after: the row stays, its status moves along the transitions or not at all.\<close>

definition moves :: "team_task \<Rightarrow> team_task \<Rightarrow> bool" where
  "moves t t' \<longleftrightarrow>
     tt_team t' = tt_team t \<and> (tt_status t' = tt_status t \<or> is_valid_transition (tt_status t) (tt_status t') task_transitions)"

definition keeps_owner :: "team_task \<Rightarrow> team_task \<Rightarrow> bool" where
  "keeps_owner t t' \<longleftrightarrow> tt_assignee t' = tt_assignee t"

definition all_rows :: "(team_task \<Rightarrow> team_task \<Rightarrow> bool) \<Rightarrow> board \<Rightarrow> board \<Rightarrow> bool" where
  "all_rows R b b' \<longleftrightarrow> (\<forall>tid t. task_at b tid = Some t \<longrightarrow> (\<exists>t'. task_at b' tid = Some t' \<and> R t t'))"

lemma all_rows_refl: "(\<And>t. R t t) \<Longrightarrow> bd_tasks b' = bd_tasks b \<Longrightarrow> all_rows R b b'"
  by (simp add: all_rows_def)

lemma all_rows_trans: "all_rows R b b' \<Longrightarrow> all_rows S b' b'' \<Longrightarrow> (\<And>t t' t''. R t t' \<Longrightarrow> S t' t'' \<Longrightarrow> T t t'') \<Longrightarrow> all_rows T b b''"
  unfolding all_rows_def by meson

lemma all_rows_put: "(\<And>t. R t t) \<Longrightarrow> (\<And>t. task_at b tid = Some t \<Longrightarrow> R t t') \<Longrightarrow> all_rows R b (put_task tid t' b)"
  by (auto simp: all_rows_def)

lemma all_rows_cas: "(\<And>t. R t t) \<Longrightarrow> (\<And>t. cond t \<Longrightarrow> R t (f t)) \<Longrightarrow> all_rows R b (snd (cas tid cond f b))"
  by (auto simp: cas_def all_rows_def split: option.splits)

text \<open>What a refresh and a cancellation do to a task.\<close>

definition refreshes :: "team_task \<Rightarrow> team_task \<Rightarrow> bool" where
  "refreshes t t' \<longleftrightarrow> tt_team t' = tt_team t \<and> keeps_owner t t' \<and>
     (tt_status t' = tt_status t \<or> {tt_status t, tt_status t'} = {Pending, Blocked})"

definition cancels :: "team_task \<Rightarrow> team_task \<Rightarrow> bool" where
  "cancels t t' \<longleftrightarrow> refreshes t t' \<or> (tt_team t' = tt_team t \<and> keeps_owner t t' \<and> \<not> finished (tt_status t) \<and> tt_status t' = Cancelled)"

lemma refreshes_moves: "refreshes t t' \<Longrightarrow> moves t t'"
  by (auto simp: refreshes_def moves_def is_valid_transition_def task_transitions_def doubleton_eq_iff)

lemma cancels_moves: "cancels t t' \<Longrightarrow> moves t t'"
  unfolding cancels_def
proof (elim disjE)
  assume a: "tt_team t' = tt_team t \<and> keeps_owner t t' \<and> \<not> finished (tt_status t) \<and> tt_status t' = Cancelled"
  then show "moves t t'"
    by (cases "tt_status t") (simp_all add: moves_def is_valid_transition_def task_transitions_def task_terminal_def)
qed (rule refreshes_moves)

lemma cancels_trans: "cancels t t' \<Longrightarrow> cancels t' t'' \<Longrightarrow> cancels t t''"
  by (auto simp: cancels_def refreshes_def keeps_owner_def task_terminal_def doubleton_eq_iff)

lemma refresh_rows: "all_rows refreshes b (snd (refresh_status ids now b))"
  by (auto simp: all_rows_def refresh_task refresh_row_def refreshed_status_def refreshes_def keeps_owner_def split: option.splits)

lemma terminate_rows:
  "all_rows (\<lambda>t t'. refreshes t t' \<or> (tt_team t' = tt_team t \<and> keeps_owner t t' \<and> tt_status t \<in> set (terminable_predecessors s) \<and> tt_status t' = s))
     b (snd (terminate_task tid s now b))" (is "all_rows ?R b _")
proof -
  have refl: "?R t t" for t by (simp add: refreshes_def keeps_owner_def)
  show ?thesis
  proof (cases "\<exists>t. task_at b tid = Some t \<and> tt_status t \<in> set (terminable_predecessors s) \<and> s \<in> set task_terminal")
    case True
    then obtain t where t: "task_at b tid = Some t" "tt_status t \<in> set (terminable_predecessors s)" "s \<in> set task_terminal" by blast
    let ?t = "t\<lparr>tt_status := s, tt_updated := now\<rparr>"
    let ?b = "resolve_dependencies tid (put_task tid ?t b)"
    have "all_rows (\<lambda>u u'. u' = u \<or> (tt_team u' = tt_team u \<and> keeps_owner u u' \<and> tt_status u \<in> set (terminable_predecessors s) \<and> tt_status u' = s)) b ?b"
      using t by (auto simp: all_rows_def keeps_owner_def)
    moreover have "all_rows refreshes ?b (snd (refresh_status (downstream tid ?b) now ?b))" by (rule refresh_rows)
    ultimately have "all_rows ?R b (snd (refresh_status (downstream tid ?b) now ?b))"
      by (rule all_rows_trans) (use t(3) in \<open>auto simp: refreshes_def keeps_owner_def task_terminal_def doubleton_eq_iff\<close>)
    moreover have "snd (terminate_task tid s now b) = snd (refresh_status (downstream tid ?b) now ?b)"
      using t by (simp add: terminate_task_def Let_def split_beta)
    ultimately show ?thesis by simp
  next
    case False
    then have "snd (terminate_task tid s now b) = b" by (auto simp: terminate_task_def split: option.splits)
    then show ?thesis using all_rows_refl[of ?R b b] refl by simp
  qed
qed

lemma cancel_rows: "all_rows cancels b (snd (terminate_task tid Cancelled now b))"
  using terminate_rows[of Cancelled b tid now]
  by (fastforce simp: all_rows_def cancels_def terminable_predecessors_def task_terminal_def)

lemma cancel_loop_rows: "all_rows cancels b (snd (cancel_loop tids now cancelled unblocked b))"
proof (induction tids now cancelled unblocked b rule: cancel_loop.induct)
  case (1 now cancelled unblocked b)
  then show ?case by (simp add: all_rows_def cancels_def refreshes_def keeps_owner_def)
next
  case (2 tid tids now cancelled unblocked b)
  obtain r b1 where t: "terminate_task tid Cancelled now b = (r, b1)" by (cases "terminate_task tid Cancelled now b")
  have b1: "all_rows cancels b b1" using cancel_rows[of b tid now] by (simp add: t)
  note trans = all_rows_trans[OF b1 _ cancels_trans]
  show ?case
  proof (cases r)
    case (Inr o')
    show ?thesis
    proof (cases o')
      case None
      then show ?thesis using trans[OF 2(1)[OF t[symmetric]]] by (simp add: t Inr)
    next
      case (Some tr)
      obtain u refreshed where "tr = (u, refreshed)" by (cases tr)
      then show ?thesis using trans[OF 2(2)[OF t[symmetric]]] by (simp add: t Inr Some)
    qed
  qed (use b1 in \<open>simp add: t\<close>)
qed

lemma stage_rows_rows:
  "stage_rows team now specs seen b = Inr b' \<Longrightarrow> (\<And>spec. spec \<in> set specs \<Longrightarrow> nt_id spec \<in> set seen \<or> task_at b (nt_id spec) = None) \<Longrightarrow>
   task_at b tid = Some t \<Longrightarrow> tid \<notin> set seen \<Longrightarrow> task_at b' tid = Some t"
proof (induction team now specs seen b rule: stage_rows.induct)
  case (2 team now spec specs seen b)
  have n: "nt_id spec \<notin> set seen" using 2(2) by (auto split: if_splits)
  then have ne: "nt_id spec \<noteq> tid" using 2(3)[of spec] 2(4) by auto
  have "nt_id s \<in> set (sadd (nt_id spec) seen) \<or> task_at (put_task (nt_id spec) (row_of_spec team now spec) b) (nt_id s) = None"
    if "s \<in> set specs" for s using 2(3)[of s] that by auto
  then show ?case using 2(1)[OF n] 2(2,4,5) n ne by simp
qed simp

lemma mutate_rows: "all_rows refreshes b (snd (mutate_dependency_graph env order now team specs edges b))"
proof -
  have refl: "refreshes t t" for t by (simp add: refreshes_def keeps_owner_def)
  show ?thesis
  proof (cases "specs = [] \<and> edges = []")
    case False
    obtain specs' b0 where sp: "spill_specs env team specs b = (specs', b0)" by (cases "spill_specs env team specs b")
    have b0: "bd_tasks b0 = bd_tasks b" using spill_tables[OF sp] by simp
    show ?thesis
    proof (cases "mutate_tables order now team specs' edges b0")
      case (Inl f)
      then show ?thesis using False sp b0 refl by (auto simp: mutate_dependency_graph_def all_rows_def)
    next
      case (Inr r)
      obtain refreshed b' where r: "r = (refreshed, b')" by (cases r)
      obtain b1 u new b2 where st: "stage_new_tasks team specs' now b0 = Inr b1" "apply_new_edges team (order new) b1 = Inr b2"
        "b' = snd (refresh_status (pyset (map nt_id specs' @ map fst new)) now b2)"
        using Inr r by (auto simp: mutate_tables_def split: sum.splits)
      have e: "pyset (filter (\<lambda>tid. task_at b0 tid \<noteq> None) (map nt_id specs')) = []" and s: "stage_rows team now specs' [] b0 = Inr b1"
        using st(1) by (auto simp: stage_new_tasks_def Let_def split: if_splits)
      have "set (filter (\<lambda>tid. task_at b0 tid \<noteq> None) (map nt_id specs')) = {}" using e by (metis set_pyset set_empty)
      then have "task_at b0 (nt_id spec) = None" if "spec \<in> set specs'" for spec using that by auto
      then have "task_at b0 tid = Some t \<Longrightarrow> task_at b1 tid = Some t" for tid t using stage_rows_rows[OF s, of tid t] by simp
      moreover have "bd_tasks b2 = bd_tasks b1" using apply_edges[OF st(2)] by simp
      ultimately have "all_rows (\<lambda>t t'. t' = t) b b2" using b0 by (simp add: all_rows_def)
      moreover have "all_rows refreshes b2 b'" unfolding st(3) by (rule refresh_rows)
      ultimately have "all_rows refreshes b b'" by (rule all_rows_trans) simp
      then show ?thesis using False sp Inr r by (auto simp: mutate_dependency_graph_def)
    qed
  qed (use refl in \<open>simp add: mutate_dependency_graph_def all_rows_def\<close>)
qed


fun gives_away :: "board_op \<Rightarrow> string list" where
  "gives_away (BClaim tid m s now) = [tid]"
| "gives_away (BReassign tid m m' now) = [tid]"
| "gives_away (BReset tid now) = [tid]"
| "gives_away op = []"

definition step_row :: "bool \<Rightarrow> team_task \<Rightarrow> team_task \<Rightarrow> bool" where
  "step_row keep t t' \<longleftrightarrow> moves t t' \<and> (keep \<longrightarrow> keeps_owner t t')"

lemma step_row_refl: "step_row keep t t"
  by (simp add: step_row_def moves_def keeps_owner_def)

lemma step_rowI: "refreshes t t' \<Longrightarrow> step_row keep t t'" "cancels t t' \<Longrightarrow> step_row keep t t'"
  using refreshes_moves[of t t'] cancels_moves[of t t'] by (auto simp: step_row_def refreshes_def cancels_def)

lemma all_rows_mono: "all_rows R b b' \<Longrightarrow> (\<And>t t'. R t t' \<Longrightarrow> S t t') \<Longrightarrow> all_rows S b b'"
  unfolding all_rows_def by meson

lemma update_task_row:
  assumes "task_at b tid = Some t"
  shows "all_rows (\<lambda>t t'. tt_team t' = tt_team t \<and> tt_status t' = tt_status t \<and> tt_assignee t' = tt_assignee t) b (snd (update_task env tid title content b))"
proof -
  obtain stored b1 where st: "to_stored env (tt_team t) body tid b = (stored body, b1 body)" for body
    using surj_pair[of "to_stored env (tt_team t) body tid b" for body] by metis
  have "bd_tasks (b1 body) = bd_tasks b" for body using to_stored_tables[of env "tt_team t" body tid b] by (simp add: st)
  then show ?thesis using assms st
    by (cases content; cases title) (auto simp: update_task_def all_rows_def Let_def split: if_splits)
qed

lemmas step_row_defs = step_row_def moves_def keeps_owner_def is_valid_transition_def task_transitions_def

lemma board_step_rows:
  assumes op: "op_ok op"
  shows "all_rows (step_row (gives_away op = [])) b (board_step team op b)"
proof (cases op)
  case (BMutate env order now specs edges)
  then show ?thesis using all_rows_mono[OF mutate_rows step_rowI(1)] by simp
next
  case (BComplete tid now)
  have "step_row True t t'" if "refreshes t t' \<or> (tt_team t' = tt_team t \<and> keeps_owner t t' \<and> tt_status t \<in> set (terminable_predecessors Completed) \<and> tt_status t' = Completed)" for t t'
    using that
  proof
    assume "tt_team t' = tt_team t \<and> keeps_owner t t' \<and> tt_status t \<in> set (terminable_predecessors Completed) \<and> tt_status t' = Completed"
    then show ?thesis by (auto simp: step_row_defs terminable_predecessors_def)
  qed (rule step_rowI(1))
  then have "all_rows (step_row True) b (snd (terminate_task tid Completed now b))" by (rule all_rows_mono[OF terminate_rows])
  then show ?thesis by (simp add: BComplete complete_task_def)
next
  case (BCancel tid now)
  then show ?thesis using all_rows_mono[OF cancel_rows step_rowI(2)] by (simp add: cancel_task_def)
next
  case (BCancelAll skip now)
  then show ?thesis using all_rows_mono[OF cancel_loop_rows step_rowI(2)] by (simp add: cancel_all_tasks_def Let_def split_beta)
next
  case (BFix now)
  then show ?thesis using all_rows_mono[OF refresh_rows step_rowI(1)] by (simp add: verify_and_fix_task_consistency_def)
next
  case (BVote v)
  then show ?thesis by (simp add: insert_review_vote_def all_rows_refl step_row_refl)
next
  case (BUpdate env tid title content)
  show ?thesis
  proof (cases "task_at b tid")
    case None
    then show ?thesis by (simp add: BUpdate update_task_def all_rows_refl step_row_refl)
  next
    case (Some t)
    show ?thesis using all_rows_mono[OF update_task_row[OF Some, of env title content], of "step_row True"]
      by (simp add: BUpdate step_row_def moves_def keeps_owner_def)
  qed
next
  case (BApprove tid now)
  have "all_rows (step_row True) b (snd (approve_plan_task tid now b))"
  proof (cases "snd (approve_plan_task tid now b) = b")
    case False
    then obtain t where t: "task_at b tid = Some t" "is_valid_transition (tt_status t) InProgress task_transitions"
      "snd (approve_plan_task tid now b) = put_task tid (t\<lparr>tt_status := InProgress, tt_updated := now\<rparr>) b"
      by (auto simp: approve_plan_task_def Let_def split: option.splits if_splits)
    show ?thesis unfolding t(3) by (rule all_rows_put[OF step_row_refl]) (use t(1,2) in \<open>auto simp: step_row_def moves_def keeps_owner_def\<close>)
  qed (simp add: all_rows_refl step_row_refl)
  then show ?thesis by (simp add: BApprove)
next
  case (BReset tid now)
  have "all_rows (step_row False) b (snd (reset_task tid now b))"
  proof (cases "snd (reset_task tid now b) = b")
    case False
    then obtain t where t: "task_at b tid = Some t" "is_valid_transition (tt_status t) Pending task_transitions"
      "snd (reset_task tid now b) = put_task tid (t\<lparr>tt_status := Pending, tt_assignee := None, tt_updated := now\<rparr>) b"
      by (auto simp: reset_task_def Let_def split: option.splits if_splits)
    show ?thesis unfolding t(3) by (rule all_rows_put[OF step_row_refl]) (use t(1,2) in \<open>auto simp: step_row_def moves_def\<close>)
  qed (simp add: all_rows_refl step_row_refl)
  then show ?thesis by (simp add: BReset)
next
  case (BClaim tid m s now)
  then show ?thesis using op by (auto simp: claim_task_def step_row_defs intro!: all_rows_cas)
next
  case (BStart tid m s now)
  then show ?thesis using op by (auto simp: start_task_def step_row_defs intro!: all_rows_cas)
qed (auto simp: reassign_task_def submit_for_review_def revise_task_def set_reviewer_def set_max_review_rounds_def step_row_defs
      intro!: all_rows_cas)

text \<open>The other calls, and these calls on other tasks, leave the assignee.\<close>

lemma cas_other: "tid' \<noteq> tid \<Longrightarrow> task_at (snd (cas tid cond f b)) tid' = task_at b tid'"
  by (auto simp: cas_def split: option.splits)

lemma gives_away_only:
  assumes "gives_away op \<noteq> []" and "tid \<notin> set (gives_away op)"
  shows "task_at (board_step team op b) tid = task_at b tid"
  using assms
  by (cases op) (auto simp: claim_task_def reassign_task_def cas_other reset_task_def Let_def split: option.splits)

lemma board_step_row:
  assumes "op_ok op" and "task_at b tid = Some t"
  obtains t' where "task_at (board_step team op b) tid = Some t'" "step_row (tid \<notin> set (gives_away op)) t t'"
proof (cases "gives_away op \<noteq> [] \<and> tid \<notin> set (gives_away op)")
  case True
  then show ?thesis using that gives_away_only[of op tid team b] assms(2) step_row_refl by simp
next
  case False
  obtain t' where t': "task_at (board_step team op b) tid = Some t'" "step_row (gives_away op = []) t t'"
    using board_step_rows[OF assms(1), of b team] assms(2) unfolding all_rows_def by blast
  show ?thesis by (rule that[OF t'(1)]) (use t'(2) False in \<open>auto simp: step_row_def\<close>)
qed


section \<open>Who holds a task\<close>

fun resets :: "board_op \<Rightarrow> string list" where
  "resets (BReset tid now) = [tid]"
| "resets op = []"

definition held :: "board \<Rightarrow> string \<Rightarrow> bool" where
  "held b tid \<longleftrightarrow> (\<exists>t. task_at b tid = Some t \<and> tt_assignee t \<noteq> None)"

lemma held_step:
  assumes "held b tid" and "op_ok op" and "tid \<notin> set (resets op)"
  shows "held (board_step team op b) tid"
proof -
  obtain t where t: "task_at b tid = Some t" "tt_assignee t \<noteq> None" using assms(1) by (auto simp: held_def)
  show ?thesis
  proof (cases "tid \<in> set (gives_away op)")
    case True
    then show ?thesis using t assms(3) by (cases op) (auto simp: held_def claim_task_def reassign_task_def cas_def)
  next
    case False
    obtain t' where "task_at (board_step team op b) tid = Some t'" "step_row (tid \<notin> set (gives_away op)) t t'"
      by (rule board_step_row[OF assms(2) t(1)])
    then show ?thesis using False t(2) by (auto simp: held_def step_row_def keeps_owner_def)
  qed
qed

lemma held_run:
  "list_all op_ok ops \<Longrightarrow> held b tid \<Longrightarrow> tid \<notin> set (concat (map resets ops)) \<Longrightarrow> held (run_board team ops b) tid"
  by (induction ops arbitrary: b) (auto intro: held_step)

section \<open>Going on to the end\<close>

text \<open>What has become of a task: the end it has come to, if it has.\<close>

definition outcome :: "task_status \<Rightarrow> task_status option" where
  "outcome s = (if finished s then Some s else None)"

definition outcome_at :: "board \<Rightarrow> string \<Rightarrow> task_status option option" where
  "outcome_at b tid = map_option outcome (status_at b tid)"

definition open_tasks :: "board \<Rightarrow> string set" where
  "open_tasks b = {tid. outcome_at b tid = Some None}"

lemma open_iff: "tid \<in> open_tasks b \<longleftrightarrow> finished_at b tid = Some False"
  by (auto simp: open_tasks_def outcome_at_def outcome_def finished_at_def)

lemma finite_open: "finite (open_tasks b)"
proof (rule finite_subset)
  show "open_tasks b \<subseteq> fst ` set (bd_tasks b)"
  proof
    fix tid
    assume "tid \<in> open_tasks b"
    then have "task_at b tid \<noteq> None" by (auto simp: open_tasks_def outcome_at_def)
    then show "tid \<in> fst ` set (bd_tasks b)" by (simp add: in_keys_iff)
  qed
qed simp

lemma outcome_put: "outcome_at (put_task tid t b) k = (if k = tid then Some (outcome (tt_status t)) else outcome_at b k)"
  by (simp add: outcome_at_def)

lemma outcome_refresh: "outcome_at (snd (refresh_status ids now b)) k = outcome_at b k"
proof (cases "task_at b k")
  case (Some t)
  obtain t' where "task_at (snd (refresh_status ids now b)) k = Some t'" "refreshes t t'"
    using refresh_rows[of b ids now] Some unfolding all_rows_def by blast
  then show ?thesis using Some by (auto simp: outcome_at_def outcome_def refreshes_def task_terminal_def doubleton_eq_iff)
qed (simp add: outcome_at_def refresh_task)

lemma outcome_complete:
  assumes "task_at b tid = Some t" and "tt_status t \<in> {InProgress, InReview}"
  shows "outcome_at (snd (complete_task tid now b)) k = (if k = tid then Some (Some Completed) else outcome_at b k)"
proof -
  let ?b = "resolve_dependencies tid (put_task tid (t\<lparr>tt_status := Completed, tt_updated := now\<rparr>) b)"
  have "snd (complete_task tid now b) = snd (refresh_status (downstream tid ?b) now ?b)"
    using assms by (auto simp: complete_task_def terminate_task_def Let_def split_beta task_terminal_def terminable_predecessors_def)
  moreover have "outcome_at ?b k = (if k = tid then Some (Some Completed) else outcome_at b k)"
    by (simp add: outcome_at_def outcome_def task_terminal_def)
  ultimately show ?thesis by (simp add: outcome_refresh)
qed

text \<open>Some open task waits for nothing.\<close>

lemma some_open_ready:
  assumes ok: "board_ok team b" and ne: "open_tasks b \<noteq> {}"
  obtains tid t where "task_at b tid = Some t" "tt_status t \<in> {Pending, Planning, InProgress, InReview}"
proof -
  have e: "acyclic (board_edges b)" and
    d: "\<And>a c d. dget (bd_deps b) (a, c) = Some d \<Longrightarrow> finished_at b c = Some (dp_resolved d)"
    using ok by (auto simp: board_ok_but_def edges_sound_def)
  have "wf ((board_edges b)\<inverse>)" by (rule finite_acyclic_wf_converse[OF _ e]) (simp add: board_edges_def)
  then obtain tid where tid: "tid \<in> open_tasks b" "\<And>c. (c, tid) \<in> (board_edges b)\<inverse> \<Longrightarrow> c \<notin> open_tasks b"
    using ne by (metis wfE_min ex_in_conv)
  obtain t where t: "task_at b tid = Some t" "\<not> finished (tt_status t)" using tid(1) by (auto simp: open_iff finished_at_def)
  have "tt_status t \<noteq> Blocked"
  proof
    assume "tt_status t = Blocked"
    then have "waits b tid" using ok t(1) by (auto simp: board_ok_but_def row_sound_def)
    then obtain c v where c: "dget (bd_deps b) (tid, c) = Some v" "\<not> dp_resolved v" by (auto simp: waits_def)
    then have "c \<in> open_tasks b" using d[OF c(1)] by (simp add: open_iff)
    moreover have "(tid, c) \<in> board_edges b" using c(1) by (simp add: edge_iff)
    ultimately show False using tid(2)[of c] by simp
  qed
  then show ?thesis using that[OF t(1)] t(2) by (cases "tt_status t") (auto simp: task_terminal_def)
qed

lemma drive_ready:
  assumes t: "task_at b tid = Some t" and s: "tt_status t \<in> {Pending, Planning, InProgress, InReview}"
  obtains ops t' where "list_all op_ok ops" "run_board team ops b = b \<or> run_board team ops b = put_task tid t' b"
    "task_at (run_board team ops b) tid = Some t'" "tt_status t' \<in> {InProgress, InReview}"
proof -
  have go: thesis if "op_ok op" "board_step team op b = put_task tid t' b" "tt_status t' = InProgress" for op t'
    using that by (intro \<open>\<And>ops t'. \<lbrakk>list_all op_ok ops; run_board team ops b = b \<or> run_board team ops b = put_task tid t' b;
      task_at (run_board team ops b) tid = Some t'; tt_status t' \<in> {InProgress, InReview}\<rbrakk> \<Longrightarrow> thesis\<close>[of "[op]" t']) auto
  consider "tt_status t = Pending" "tt_assignee t = None" | m where "tt_status t = Pending" "tt_assignee t = Some m"
    | "tt_status t = Planning" | "tt_status t \<in> {InProgress, InReview}" using s by (cases "tt_assignee t") auto
  then show thesis
  proof cases
    case 1
    then show thesis using t by (intro go[of "BClaim tid [] InProgress 0"]) (auto simp: claim_task_def cas_def)
  next
    case (2 m)
    then show thesis using t by (intro go[of "BStart tid m InProgress 0"]) (auto simp: start_task_def cas_def)
  next
    case 3
    then show thesis using t
      by (intro go[of "BApprove tid 0"]) (auto simp: approve_plan_task_def is_valid_transition_def task_transitions_def Let_def)
  next
    case 4
    then show thesis using t that[of "[]" t] by simp
  qed
qed

lemma finish_one:
  assumes ok: "board_ok team b" and ne: "open_tasks b \<noteq> {}"
  obtains ops tid where "list_all op_ok ops" "tid \<in> open_tasks b"
    "\<forall>k. outcome_at (run_board team ops b) k = (if k = tid then Some (Some Completed) else outcome_at b k)"
proof -
  obtain tid t where t: "task_at b tid = Some t" "tt_status t \<in> {Pending, Planning, InProgress, InReview}" by (rule some_open_ready[OF ok ne])
  obtain ops t' where o: "list_all op_ok ops" "run_board team ops b = b \<or> run_board team ops b = put_task tid t' b"
    "task_at (run_board team ops b) tid = Some t'" "tt_status t' \<in> {InProgress, InReview}"
    by (rule drive_ready[OF t])
  have "outcome_at (run_board team ops b) k = outcome_at b k" if "k \<noteq> tid" for k using o(2) that by (auto simp: outcome_put)
  then have "outcome_at (run_board team (ops @ [BComplete tid 0]) b) k = (if k = tid then Some (Some Completed) else outcome_at b k)" for k
    using outcome_complete[OF o(3,4)] by simp
  moreover have "tid \<in> open_tasks b" using t by (auto simp: open_tasks_def outcome_at_def outcome_def task_terminal_def)
  ultimately show ?thesis using that[of "ops @ [BComplete tid 0]" tid] o(1) by simp
qed

definition completed_rest :: "task_status option option \<Rightarrow> task_status option option" where
  "completed_rest = map_option (\<lambda>r. case r of None \<Rightarrow> Some Completed | Some s \<Rightarrow> Some s)"

lemma finish_all:
  "board_ok team b \<Longrightarrow> \<exists>ops. list_all op_ok ops \<and> (\<forall>k. outcome_at (run_board team ops b) k = completed_rest (outcome_at b k))"
proof (induction "card (open_tasks b)" arbitrary: b rule: less_induct)
  case less
  show ?case
  proof (cases "open_tasks b = {}")
    case True
    then have "outcome_at b k \<noteq> Some None" for k by (auto simp: open_tasks_def)
    then have "outcome_at b k = completed_rest (outcome_at b k)" for k
    proof (cases "outcome_at b k")
      case (Some r)
      then show ?thesis using \<open>\<And>k. outcome_at b k \<noteq> Some None\<close>[of k] by (cases r) (simp_all add: completed_rest_def)
    qed (simp add: completed_rest_def)
    then have "list_all op_ok [] \<and> (\<forall>k. outcome_at (run_board team [] b) k = completed_rest (outcome_at b k))" by simp
    then show ?thesis by blast
  next
    case False
    obtain ops tid where o: "list_all op_ok ops" "tid \<in> open_tasks b"
      "\<forall>k. outcome_at (run_board team ops b) k = (if k = tid then Some (Some Completed) else outcome_at b k)"
      by (rule finish_one[OF less(2) False])
    have "open_tasks (run_board team ops b) \<subset> open_tasks b" using o(2,3) by (auto simp: open_tasks_def)
    then have "card (open_tasks (run_board team ops b)) < card (open_tasks b)" by (rule psubset_card_mono[OF finite_open])
    from less(1)[OF this run_board_ok[OF o(1) less(2)]]
    obtain ops' where "list_all op_ok ops'" "\<And>k. outcome_at (run_board team ops' (run_board team ops b)) k = completed_rest (outcome_at (run_board team ops b) k)"
      by blast
    moreover have "completed_rest (outcome_at (run_board team ops b) k) = completed_rest (outcome_at b k)" for k
      using o(2) by (simp add: o(3) open_tasks_def completed_rest_def)
    ultimately have "list_all op_ok (ops @ ops') \<and> (\<forall>k. outcome_at (run_board team (ops @ ops') b) k = completed_rest (outcome_at b k))"
      using o(1) by simp
    then show ?thesis by blast
  qed
qed

lemma outcome_status: "outcome_at b k = completed_rest r \<Longrightarrow> status_at b k = (case completed_rest r of None \<Rightarrow> None | Some o' \<Rightarrow> o')"
  by (cases "task_at b k"; cases r) (auto simp: outcome_at_def outcome_def completed_rest_def split: option.splits if_splits)


section \<open>Properties\<close>

text \<open>C6: whatever calls have been made in whatever order, the board of a team is sound: the dependencies have no cycle;
  the dependencies of a task that is pending, planned, worked on, reviewed or completed are all finished; and a
  blocked task has a dependency that is not.
\<close>

theorem board_is_sound:
  assumes "list_all op_ok ops"
  shows "acyclic (board_edges (run_board team ops board_init)) \<and>
    (\<forall>tid. case status_at (run_board team ops board_init) tid of
       None \<Rightarrow> True
     | Some s \<Rightarrow>
         (s = Blocked \<longrightarrow> (\<exists>c. (tid, c) \<in> board_edges (run_board team ops board_init) \<and> finished_at (run_board team ops board_init) c = Some False)) \<and>
         (s \<notin> {Blocked, Cancelled} \<longrightarrow>
           (\<forall>c. (tid, c) \<in> board_edges (run_board team ops board_init) \<longrightarrow> finished_at (run_board team ops board_init) c = Some True)))"
proof -
  define b where "b = run_board team ops board_init"
  have ok: "board_ok team b" unfolding b_def by (rule run_board_ok[OF assms board_init_ok])
  have e: "acyclic (board_edges b)" and d: "\<And>a c d. dget (bd_deps b) (a, c) = Some d \<Longrightarrow> finished_at b c = Some (dp_resolved d)"
    using ok by (auto simp: board_ok_but_def edges_sound_def)
  have w: "waits b tid \<longleftrightarrow> (\<exists>c. (tid, c) \<in> board_edges b \<and> finished_at b c = Some False)" for tid
    using d by (fastforce simp: waits_def edge_iff)
  have nw: "\<not> waits b tid \<longleftrightarrow> (\<forall>c. (tid, c) \<in> board_edges b \<longrightarrow> finished_at b c = Some True)" for tid
    using d by (fastforce simp: waits_def edge_iff)
  have "row_sound b tid t" if "task_at b tid = Some t" for tid t using ok that by (simp add: board_ok_but_def)
  then have "case status_at b tid of None \<Rightarrow> True | Some s \<Rightarrow> (s = Blocked \<longrightarrow> waits b tid) \<and> (s \<notin> {Blocked, Cancelled} \<longrightarrow> \<not> waits b tid)" for tid
    by (cases "task_at b tid") (auto simp: row_sound_def)
  then show ?thesis using e unfolding nw unfolding w unfolding b_def by blast
qed

definition demo_env :: file_env where
  "demo_env = \<lparr>fe_store = True, fe_session = True, fe_put = (\<lambda>t. True), fe_get = (\<lambda>t. True)\<rparr>"

definition demo_spec :: "string \<Rightarrow> new_task_spec" where
  "demo_spec tid = \<lparr>nt_id = tid, nt_title = ''t'', nt_content = ''c'', nt_status = Pending, nt_assignee = None, nt_reviewer = None, nt_max_rounds = None\<rparr>"

text \<open>Three tasks in a chain; the last is done, the middle one is being planned.\<close>

definition demo_ops :: "board_op list" where
  "demo_ops =
     [BMutate demo_env id 1 [demo_spec ''a'', demo_spec ''b'', demo_spec ''c''] [(''a'', ''b''), (''b'', ''c'')],
      BClaim ''c'' ''m'' InProgress 2, BComplete ''c'' 3, BClaim ''b'' ''n'' Planning 4,
      BMutate demo_env id 5 [] [(''c'', ''a'')], BClaim ''b'' ''m'' InProgress 6]"

lemma demo_ops_ok: "list_all op_ok demo_ops"
  by (simp add: demo_ops_def demo_spec_def spec_ok_def set_order_def)

lemma board_is_sound_witness:
  "acyclic (board_edges (run_board ''team'' demo_ops board_init)) \<and>
   map (\<lambda>tid. status_at (run_board ''team'' demo_ops board_init) tid) [''a'', ''b'', ''c'', ''d''] = [Some Blocked, Some Planning, Some Completed, None] \<and>
   finished_at (run_board ''team'' demo_ops board_init) ''b'' = Some False"
proof (intro conjI)
  show "acyclic (board_edges (run_board ''team'' demo_ops board_init))" using board_is_sound[OF demo_ops_ok, of "''team''"] by simp
qed code_simp+

text \<open>C7: the board never locks up: from every board that can be reached there are calls after which every task that was
  open is completed, and every finished task is as it was.
\<close>

theorem board_can_be_finished:
  assumes "list_all op_ok ops"
  shows "\<exists>more. list_all op_ok more \<and>
    (\<forall>tid. status_at (run_board team (ops @ more) board_init) tid =
      map_option (\<lambda>s. if finished s then s else Completed) (status_at (run_board team ops board_init) tid))"
proof -
  obtain more where m: "list_all op_ok more"
    "\<And>k. outcome_at (run_board team more (run_board team ops board_init)) k = completed_rest (outcome_at (run_board team ops board_init) k)"
    using finish_all[OF run_board_ok[OF assms board_init_ok]] by blast
  have "status_at (run_board team (ops @ more) board_init) tid =
      map_option (\<lambda>s. if finished s then s else Completed) (status_at (run_board team ops board_init) tid)" for tid
    using outcome_status[OF m(2), of tid] unfolding run_board_simps(3)
    by (cases "task_at (run_board team ops board_init) tid") (simp_all add: outcome_at_def outcome_def completed_rest_def)
  then show ?thesis using m(1) by blast
qed

lemma board_can_be_finished_witness:
  "\<exists>more. list_all op_ok more \<and>
     status_at (run_board ''team'' (demo_ops @ more) board_init) ''a'' = Some Completed \<and>
     status_at (run_board ''team'' (demo_ops @ more) board_init) ''b'' = Some Completed \<and>
     status_at (run_board ''team'' (demo_ops @ more) board_init) ''c'' = Some Completed \<and>
     status_at (run_board ''team'' (demo_ops @ more) board_init) ''d'' = None"
proof -
  have s: "status_at (run_board ''team'' demo_ops board_init) ''a'' = Some Blocked" "status_at (run_board ''team'' demo_ops board_init) ''b'' = Some Planning"
    "status_at (run_board ''team'' demo_ops board_init) ''c'' = Some Completed" "status_at (run_board ''team'' demo_ops board_init) ''d'' = None"
    by code_simp+
  obtain more where more: "list_all op_ok more" and m: "\<forall>tid. status_at (run_board ''team'' (demo_ops @ more) board_init) tid =
      map_option (\<lambda>s. if finished s then s else Completed) (status_at (run_board ''team'' demo_ops board_init) tid)"
    using board_can_be_finished[OF demo_ops_ok, of "''team''"] by (elim exE conjE)
  have e: "status_at (run_board ''team'' (demo_ops @ more) board_init) ''a'' = Some Completed"
    "status_at (run_board ''team'' (demo_ops @ more) board_init) ''b'' = Some Completed"
    "status_at (run_board ''team'' (demo_ops @ more) board_init) ''c'' = Some Completed"
    "status_at (run_board ''team'' (demo_ops @ more) board_init) ''d'' = None"
    unfolding m[THEN spec, of "''a''"] m[THEN spec, of "''b''"] m[THEN spec, of "''c''"] m[THEN spec, of "''d''"] s
    by (simp_all add: task_terminal_def)
  show ?thesis by (rule exI[of _ more]) (intro conjI more e)
qed




end
