(* ===== verification/Py_Float.thy ===== *)
theory Py_Float
  imports Complex_Main Decimal "HOL-Library.Log_Nat"
begin

text \<open>
  Python's floats as far as review scores need them: the double nearest to a rational number, \<open>float(s)\<close> for the
  numerals of 8-bit characters, \<open>f"{x:.2f}"\<close>, and \<open>sum(xs) / len(xs)\<close>. A finite float is the rational number it
  stands for; the sign of a zero is kept where it is printed. Magnitudes that overflow are beyond the range asked for.
\<close>

section \<open>The nearest double\<close>

definition half_even :: "rat \<Rightarrow> int" where
  "half_even x = (let q = \<lfloor>x\<rfloor>; r = x - of_int q in if r < 1 / 2 \<or> (r = 1 / 2 \<and> even q) then q else q + 1)"

definition pow2 :: "int \<Rightarrow> rat" where
  "pow2 k = (if k \<ge> 0 then 2 ^ nat k else 1 / 2 ^ nat (- k))"

text \<open>The bits after the point for a mantissa of 53 bits, at most those of the smallest double.\<close>

definition scale_of :: "rat \<Rightarrow> int" where
  "scale_of x =
     (let (n, d) = quotient_of x;
          k = 53 - (bitlen n - bitlen d)
      in min 1074 (if x * pow2 k \<ge> 2 ^ 53 then k - 1 else k))"

definition fl :: "rat \<Rightarrow> rat" where
  "fl x = (if x \<le> 0 then 0 else (let k = scale_of x in of_int (half_even (x * pow2 k)) / pow2 k))"

text \<open>\<open>sum\<close> adds from the left, each sum rounded (Python 3.11).\<close>

definition fl_sum :: "rat list \<Rightarrow> rat" where
  "fl_sum xs = fold (\<lambda>x acc. fl (acc + x)) xs 0"

definition fl_avg :: "rat list \<Rightarrow> rat" where
  "fl_avg xs = fl (fl_sum xs / of_nat (length xs))"

section \<open>Reading and writing\<close>

text \<open>\<open>str.lower\<close> on 8-bit characters.\<close>

definition lower_char :: "char \<Rightarrow> char" where
  "lower_char c =
     (let n = of_char c :: nat
      in if (65 \<le> n \<and> n \<le> 90) \<or> (192 \<le> n \<and> n \<le> 222 \<and> n \<noteq> 215) then char_of (n + 32) else c)"

definition lower :: "string \<Rightarrow> string" where
  "lower s = map lower_char s"

text \<open>An underscore stands between two digits.\<close>

fun drop_underscores :: "char option \<Rightarrow> string \<Rightarrow> string option" where
  "drop_underscores prev [] = (if prev = Some CHR ''_'' then None else Some [])"
| "drop_underscores prev (c # s) =
     (if c = CHR ''_''
      then (case prev of Some p \<Rightarrow> if is_decimal p then drop_underscores (Some c) s else None | None \<Rightarrow> None)
      else if prev = Some CHR ''_'' \<and> \<not> is_decimal c then None
      else map_option (\<lambda>r. c # r) (drop_underscores (Some c) s))"

definition split_sign :: "string \<Rightarrow> bool \<times> string" where
  "split_sign s = (case s of c # r \<Rightarrow> if c = CHR ''-'' then (True, r) else if c = CHR ''+'' then (False, r) else (False, s) | [] \<Rightarrow> (False, s))"

definition exponent_of :: "string \<Rightarrow> int option" where
  "exponent_of s =
     (case s of
        [] \<Rightarrow> Some 0
      | c # r \<Rightarrow>
          if c \<in> {CHR ''e'', CHR ''E''}
          then (let (neg, ds) = split_sign r
                in if ds \<noteq> [] \<and> list_all is_decimal ds then Some (if neg then - int (digits_val ds) else int (digits_val ds)) else None)
          else None)"

definition magnitude_of :: "string \<Rightarrow> rat option" where
  "magnitude_of s =
     (let whole = takeWhile is_decimal s;
          rest = dropWhile is_decimal s;
          (frac, tail) = (case rest of c # r \<Rightarrow> if c = CHR ''.'' then (takeWhile is_decimal r, dropWhile is_decimal r) else ([], rest) | [] \<Rightarrow> ([], []))
      in if whole @ frac = [] then None
         else map_option (\<lambda>e. let p = e - int (length frac); n = of_nat (digits_val (whole @ frac)) in if p \<ge> 0 then n * 10 ^ nat p else n / 10 ^ nat (- p))
                (exponent_of tail))"

datatype float_value = NotANumber | Infinite bool | Finite bool rat

text \<open>None is a ValueError.\<close>

definition float_of_str :: "string \<Rightarrow> float_value option" where
  "float_of_str s0 =
     (case drop_underscores None (strip s0) of
        None \<Rightarrow> None
      | Some s \<Rightarrow>
          (let (neg, body) = split_sign s
           in if lower body \<in> {''inf'', ''infinity''} then Some (Infinite neg)
              else if lower body = ''nan'' then Some NotANumber
              else map_option (\<lambda>x. Finite neg (fl x)) (magnitude_of body)))"

definition format2 :: "bool \<Rightarrow> rat \<Rightarrow> string" where
  "format2 neg x =
     (let n = nat (half_even (x * 100))
      in (if neg then ''-'' else []) @ nat_str (n div 100) @ ''.'' @ zero_pad 2 (n mod 100))"

end
