(* ===== verification/Team_Manager.thy ===== *)
theory Team_Manager
  imports Team_Runs Py_Float
begin

text \<open>
  The calls a member makes on the task board: \<open>TeamTaskManager\<close> (\<open>agent_teams/tools/task_manager.py\<close>) and the verdict on
  a review (\<open>agent_teams/agent/scheduling/verdict.py\<close>). A call reads and writes the board through \<open>TaskDao\<close> and
  publishes events; here a call runs from its first to its last statement, and \<open>Team_Runs\<close> has what holds however the
  single writes of the calls interleave. The members of the team, the clock, the ids drawn and whether a message can be
  published are the manager's surroundings, as are the file system's resolution of paths and the mailbox of the leader;
  files can be written. A failure carries what its message names; an exception is of \<open>py_error\<close>.
\<close>

section \<open>The surroundings and the state\<close>

record member_row =
  mr_mode :: member_mode
  mr_human :: bool
  mr_status :: member_status

datatype task_event =
    EvCreated string task_status
  | EvClaimed string string
  | EvStarted string string
  | EvCompleted string "string option"
  | EvSubmitted string "string option" "string list"
  | EvVote string "string option" string string int nat nat nat
  | EvVerified string "string option"
  | EvRevision string "string option" string
  | EvCancelled string "string option"
  | EvUnblocked string
  | EvReleased string
  | EvRevoked string string
  | EvUpdated string "string option"
  | EvDrained nat
  | EvPlanRequest string string task_status string string string
  | EvPlanResponse string "string option" bool task_status string string string

text \<open>The index of plans: what is known of a task's plans and of a plan; and the files there are, by their paths.\<close>

datatype plan_value = PText string | PNames "string list"

type_synonym plan_record = "(string, plan_value) pydict"

record plan_state =
  ps_tasks :: "(string, plan_record) pydict"
  ps_plans :: "(string, plan_record) pydict"
  ps_files :: "(string, string) pydict"

record manager =
  mg_team :: string
  mg_self :: string
  mg_leader :: string
  mg_scheduled :: bool
  mg_members :: "(string, member_row) pydict"
  mg_files :: file_env
  mg_order :: "(string \<times> string) list \<Rightarrow> (string \<times> string) list"
  mg_time :: "nat \<Rightarrow> int"
  mg_uuid :: "nat \<Rightarrow> string"
  mg_publish :: "task_event \<Rightarrow> bool"
  mg_plans_dir :: string
  mg_plan_id :: string
  mg_resolve :: "string \<Rightarrow> string"
  mg_iso :: "nat \<Rightarrow> string"
  mg_mail :: "string \<Rightarrow> string option"

record team_state =
  st_board :: board
  st_ticks :: nat
  st_ids :: nat
  st_events :: "task_event list"
  st_plans :: plan_state

datatype op_failure =
    OwnerIsLeader string
  | MemberMissing string
  | TaskMissing string
  | HeldBy string
  | Rejected task_status
  | PlanModeMember
  | NotStarted
  | NotClaimable task_status
  | LostRace
  | NotHolder "string option"
  | NotCompletable task_status
  | NotSubmittable task_status
  | NotUnderReview task_status
  | NotAReviewer
  | OwnTask
  | BadScore
  | ScoreOutOfRange
  | BadDecision
  | NotCompletedFromReview
  | NotRevised
  | NotEditable task_status
  | ReviewerNotSet
  | RoundsNotSet
  | NotResettable task_status
  | NoAssignee
  | MemberBusy string
  | NotStartable task_status
  | NotReassignable task_status
  | MutationRejected mutation_failure
  | NotPlanMode
  | NotPlannable task_status
  | PlanExists string
  | BadPlanPath
  | NotReserved
  | PlanIdMissing
  | PlanUnknown string
  | PlanWithoutTask string
  | NotPlanning task_status
  | PlanStale string
  | PlanDecided string
  | PlanFileMissing string
  | NotApproved

type_synonym 'a outcome = "(op_failure + 'a) res"
type_synonym 'a call = "team_state \<Rightarrow> 'a outcome \<times> team_state"

section \<open>Calls\<close>

definition succeed :: "'a \<Rightarrow> 'a call" where
  "succeed x st = (Inr (Inr x), st)"

definition failed :: "op_failure \<Rightarrow> 'a call" where
  "failed f st = (Inr (Inl f), st)"

definition raised :: "py_error \<Rightarrow> 'a call" where
  "raised e st = (Inl e, st)"

definition andthen :: "'a call \<Rightarrow> ('a \<Rightarrow> 'b call) \<Rightarrow> 'b call" where
  "andthen m f st =
     (case m st of
        (Inl e, st') \<Rightarrow> (Inl e, st')
      | (Inr (Inl r), st') \<Rightarrow> (Inr (Inl r), st')
      | (Inr (Inr x), st') \<Rightarrow> f x st')"

text \<open>Whether a call succeeds.\<close>

definition attempt :: "'a call \<Rightarrow> bool call" where
  "attempt m st = (case m st of (Inl e, st') \<Rightarrow> (Inl e, st') | (Inr r, st') \<Rightarrow> (Inr (Inr (case r of Inl f \<Rightarrow> False | Inr x \<Rightarrow> True)), st'))"

fun for_each :: "('a \<Rightarrow> 'b call) \<Rightarrow> 'a list \<Rightarrow> unit call" where
  "for_each f [] = succeed ()"
| "for_each f (x # xs) = andthen (f x) (\<lambda>_. for_each f xs)"

definition of_res :: "'a res \<Rightarrow> 'a call" where
  "of_res r = (case r of Inl e \<Rightarrow> raised e | Inr x \<Rightarrow> succeed x)"

definition reading :: "(board \<Rightarrow> 'a call) \<Rightarrow> 'a call" where
  "reading f st = f (st_board st) st"

definition on_board :: "manager \<Rightarrow> (int \<Rightarrow> board \<Rightarrow> 'a \<times> board) \<Rightarrow> 'a call" where
  "on_board mg f st =
     (let (r, b) = f (mg_time mg (st_ticks st)) (st_board st) in (Inr (Inr r), st\<lparr>st_board := b, st_ticks := st_ticks st + 1\<rparr>))"

text \<open>Publishing logs a failure and goes on; \<open>assign\<close> lets it through.\<close>

definition publish_task_event :: "manager \<Rightarrow> task_event \<Rightarrow> unit call" where
  "publish_task_event mg ev st = (Inr (Inr ()), if mg_publish mg ev then st\<lparr>st_events := st_events st @ [ev]\<rparr> else st)"

definition publish_or_raise :: "manager \<Rightarrow> task_event \<Rightarrow> unit call" where
  "publish_or_raise mg ev st =
     (if mg_publish mg ev then (Inr (Inr ()), st\<lparr>st_events := st_events st @ [ev]\<rparr>) else (Inl (BaseError ''publish''), st))"

definition fresh_id :: "manager \<Rightarrow> string option \<Rightarrow> string call" where
  "fresh_id mg given st =
     (case given of
        Some (c # cs) \<Rightarrow> (Inr (Inr (c # cs)), st)
      | _ \<Rightarrow> (Inr (Inr (mg_uuid mg (st_ids st))), st\<lparr>st_ids := st_ids st + 1\<rparr>))"

text \<open>A string that counts as true.\<close>

definition named :: "string option \<Rightarrow> string option" where
  "named s = (case s of Some (c # cs) \<Rightarrow> Some (c # cs) | _ \<Rightarrow> None)"

definition get_call :: "manager \<Rightarrow> string \<Rightarrow> team_task option call" where
  "get_call mg tid = reading (\<lambda>b. of_res (get_task (mg_files mg) tid b))"

definition get_or_fail :: "manager \<Rightarrow> string \<Rightarrow> team_task call" where
  "get_or_fail mg tid = andthen (get_call mg tid) (\<lambda>r. case r of None \<Rightarrow> failed (TaskMissing tid) | Some t \<Rightarrow> succeed t)"

definition list_tasks :: "manager \<Rightarrow> task_status option \<Rightarrow> task_row list call" where
  "list_tasks mg status = reading (\<lambda>b. of_res (get_team_tasks (mg_files mg) (mg_team mg) status b))"

definition assert_ok :: "op_failure option \<Rightarrow> unit call" where
  "assert_ok r = (case r of Some f \<Rightarrow> failed f | None \<Rightarrow> succeed ())"

section \<open>Members\<close>

definition validate_task_owner :: "manager \<Rightarrow> string \<Rightarrow> op_failure option" where
  "validate_task_owner mg member_name =
     (let owner = strip member_name
      in if owner = [] then None
         else if mg_leader mg \<noteq> [] \<and> owner = mg_leader mg then Some (OwnerIsLeader owner)
         else if dget (mg_members mg) owner = None then Some (MemberMissing owner)
         else None)"

definition plan_mode :: "manager \<Rightarrow> string \<Rightarrow> bool" where
  "plan_mode mg m = (case dget (mg_members mg) m of None \<Rightarrow> False | Some row \<Rightarrow> mr_mode row = PlanMode)"

definition entry_status :: "manager \<Rightarrow> string \<Rightarrow> task_status" where
  "entry_status mg m = (if plan_mode mg m then Planning else InProgress)"

definition is_live_human_agent :: "manager \<Rightarrow> string \<Rightarrow> bool" where
  "is_live_human_agent mg m =
     (case dget (mg_members mg) m of None \<Rightarrow> False | Some row \<Rightarrow> mr_human row \<and> mr_status row \<notin> set member_departed)"

section \<open>Starting\<close>

definition start_task_call :: "manager \<Rightarrow> string \<Rightarrow> unit call" where
  "start_task_call mg tid =
     andthen (get_or_fail mg tid) (\<lambda>t.
       case named (tt_assignee t) of
         None \<Rightarrow> failed NoAssignee
       | Some m \<Rightarrow>
           andthen (assert_ok (validate_task_owner mg m)) (\<lambda>_.
             if tt_status t = entry_status mg m then succeed ()
             else reading (\<lambda>b.
               case named (get_other_active_task_id (mg_team mg) m tid b) of
                 Some busy \<Rightarrow> failed (MemberBusy busy)
               | None \<Rightarrow>
                   andthen (on_board mg (\<lambda>now. start_task tid m (entry_status mg m) now)) (\<lambda>started.
                     if \<not> started then failed (NotStartable (tt_status t))
                     else publish_task_event mg (EvStarted tid m)))))"

definition start_human_assigned_task_if_ready :: "manager \<Rightarrow> string \<Rightarrow> task_status \<Rightarrow> string option \<Rightarrow> bool call" where
  "start_human_assigned_task_if_ready mg tid status assignee =
     (case named assignee of
        None \<Rightarrow> succeed False
      | Some m \<Rightarrow> if status \<noteq> Pending \<or> \<not> is_live_human_agent mg m then succeed False else attempt (start_task_call mg tid))"

definition handle_unblocked_tasks :: "manager \<Rightarrow> task_row list \<Rightarrow> unit call" where
  "handle_unblocked_tasks mg rows =
     andthen (for_each (\<lambda>(tid, t). start_human_assigned_task_if_ready mg tid (tt_status t) (tt_assignee t)) rows) (\<lambda>_.
       for_each (\<lambda>(tid, t). publish_task_event mg (EvUnblocked tid)) rows)"

definition maybe_publish_task_list_drained :: "manager \<Rightarrow> unit call" where
  "maybe_publish_task_list_drained mg =
     reading (\<lambda>b. let (total, non_terminal) = count_tasks_terminality (mg_team mg) b
        in if total = 0 \<or> non_terminal > 0 then succeed () else publish_task_event mg (EvDrained total))"

section \<open>Creating\<close>

record graph_spec =
  gs_title :: string
  gs_content :: string
  gs_id :: "string option"
  gs_depends_on :: "string list"
  gs_depended_by :: "string list"
  gs_assignee :: "string option"
  gs_reviewer :: "reviewer_entry list"
  gs_max_rounds :: "int option"

record created_task =
  ct_id :: string
  ct_title :: string
  ct_content :: string
  ct_status :: task_status
  ct_assignee :: "string option"

definition new_spec_of :: "string \<Rightarrow> graph_spec \<Rightarrow> new_task_spec" where
  "new_spec_of tid g =
     \<lparr>nt_id = tid, nt_title = gs_title g, nt_content = gs_content g, nt_status = Pending, nt_assignee = gs_assignee g,
      nt_reviewer = (if gs_reviewer g = [] then None else Some (gs_reviewer g)), nt_max_rounds = gs_max_rounds g\<rparr>"

definition spec_edges :: "string \<Rightarrow> graph_spec \<Rightarrow> (string \<times> string) list" where
  "spec_edges tid g = map (Pair tid) (gs_depends_on g) @ map (\<lambda>d. (d, tid)) (gs_depended_by g)"

fun build_specs :: "manager \<Rightarrow> graph_spec list \<Rightarrow> (new_task_spec list \<times> (string \<times> string) list) call" where
  "build_specs mg [] = succeed ([], [])"
| "build_specs mg (g # gs) =
     andthen (assert_ok (case named (gs_assignee g) of None \<Rightarrow> None | Some m \<Rightarrow> validate_task_owner mg m)) (\<lambda>_.
     andthen (fresh_id mg (gs_id g)) (\<lambda>tid.
     andthen (build_specs mg gs) (\<lambda>(specs, edges). succeed (new_spec_of tid g # specs, spec_edges tid g @ edges))))"

definition mutate_call :: "manager \<Rightarrow> new_task_spec list \<Rightarrow> (string \<times> string) list \<Rightarrow> task_row list call" where
  "mutate_call mg specs edges =
     andthen (on_board mg (\<lambda>now. mutate_dependency_graph (mg_files mg) (mg_order mg) now (mg_team mg) specs edges)) (\<lambda>r.
       case r of Inl f \<Rightarrow> failed (MutationRejected f) | Inr refreshed \<Rightarrow> succeed refreshed)"

fun report_created :: "manager \<Rightarrow> (string, team_task) pydict \<Rightarrow> new_task_spec list \<Rightarrow> created_task list call" where
  "report_created mg refreshed [] = succeed []"
| "report_created mg refreshed (n # ns) =
     (let status = (case dget refreshed (nt_id n) of None \<Rightarrow> nt_status n | Some t \<Rightarrow> tt_status t);
          view = \<lparr>ct_id = nt_id n, ct_title = nt_title n, ct_content = nt_content n, ct_status = status, ct_assignee = nt_assignee n\<rparr>
      in andthen (publish_task_event mg (EvCreated (nt_id n) status)) (\<lambda>_.
         andthen (start_human_assigned_task_if_ready mg (nt_id n) status (nt_assignee n)) (\<lambda>started.
         andthen (if started then get_call mg (nt_id n) else succeed None) (\<lambda>again.
         andthen (report_created mg refreshed ns) (\<lambda>views.
           succeed
             ((case again of
                 None \<Rightarrow> view
               | Some t \<Rightarrow> \<lparr>ct_id = nt_id n, ct_title = tt_title t, ct_content = tt_content t, ct_status = tt_status t, ct_assignee = tt_assignee t\<rparr>)
              # views))))))"

definition add_graph :: "manager \<Rightarrow> graph_spec list \<Rightarrow> created_task list call" where
  "add_graph mg specs =
     andthen (build_specs mg specs) (\<lambda>(new_tasks, edges).
     andthen (mutate_call mg new_tasks edges) (\<lambda>refreshed.
       report_created mg (fold (\<lambda>(tid, t). dset tid t) refreshed []) new_tasks))"

definition add_single :: "manager \<Rightarrow> string \<Rightarrow> string \<Rightarrow> string option \<Rightarrow> string list \<Rightarrow> created_task call" where
  "add_single mg title content task_id dependencies =
     andthen (add_graph mg
        [\<lparr>gs_title = title, gs_content = content, gs_id = task_id, gs_depends_on = dependencies, gs_depended_by = [], gs_assignee = None,
          gs_reviewer = [], gs_max_rounds = None\<rparr>])
       (\<lambda>created. succeed (hd created))"

definition add_dependencies :: "manager \<Rightarrow> string \<Rightarrow> string list \<Rightarrow> unit call" where
  "add_dependencies mg tid depends_on_ids =
     (if depends_on_ids = [] then succeed ()
      else andthen (mutate_call mg [] (map (Pair tid) depends_on_ids)) (\<lambda>_. succeed ()))"

section \<open>Owning\<close>

definition assign :: "manager \<Rightarrow> string \<Rightarrow> string \<Rightarrow> unit call" where
  "assign mg tid assignee =
     andthen (get_or_fail mg tid) (\<lambda>t.
     andthen (assert_ok (validate_task_owner mg assignee)) (\<lambda>_.
       if dget (mg_members mg) assignee = None then failed (MemberMissing assignee)
       else if tt_assignee t = Some assignee \<and> tt_status t = entry_status mg assignee then succeed ()
       else
         andthen (assert_ok (case named (tt_assignee t) of None \<Rightarrow> None | Some holder \<Rightarrow> if holder \<noteq> assignee then Some (HeldBy holder) else None)) (\<lambda>_.
         andthen (on_board mg (\<lambda>now. claim_task tid assignee (entry_status mg assignee) now)) (\<lambda>success.
           if \<not> success then failed (Rejected (tt_status t)) else publish_or_raise mg (EvClaimed tid assignee)))))"


definition claim :: "manager \<Rightarrow> string \<Rightarrow> unit call" where
  "claim mg tid =
     (let m = mg_self mg
      in andthen (get_or_fail mg tid) (\<lambda>t.
           if dget (mg_members mg) m = None then failed (MemberMissing m)
           else if plan_mode mg m then failed PlanModeMember
           else if tt_assignee t = Some m \<and> tt_status t = InProgress then succeed ()
           else if tt_assignee t = Some m \<and> tt_status t = Pending
           then andthen (on_board mg (\<lambda>now. start_task tid m InProgress now)) (\<lambda>started.
                  if \<not> started then failed NotStarted else publish_task_event mg (EvClaimed tid m))
           else
             (case named (tt_assignee t) of
                Some holder \<Rightarrow> failed (HeldBy holder)
              | None \<Rightarrow>
                  if \<not> is_valid_transition (tt_status t) InProgress task_transitions then failed (NotClaimable (tt_status t))
                  else andthen (on_board mg (\<lambda>now. claim_task tid m InProgress now)) (\<lambda>success.
                         if \<not> success then failed LostRace else publish_task_event mg (EvClaimed tid m)))))"

definition reset :: "manager \<Rightarrow> string \<Rightarrow> unit call" where
  "reset mg tid =
     andthen (get_or_fail mg tid) (\<lambda>t.
     andthen (on_board mg (\<lambda>now. reset_task tid now)) (\<lambda>result.
       if result = None then failed (NotResettable (tt_status t)) else publish_task_event mg (EvReleased tid)))"

definition reassign :: "manager \<Rightarrow> string \<Rightarrow> string \<Rightarrow> unit call" where
  "reassign mg tid new_assignee =
     andthen (get_or_fail mg tid) (\<lambda>t.
     andthen (assert_ok (validate_task_owner mg new_assignee)) (\<lambda>_.
       case named (tt_assignee t) of
         None \<Rightarrow> failed NoAssignee
       | Some old \<Rightarrow>
           andthen (on_board mg (\<lambda>now. reassign_task tid old new_assignee now)) (\<lambda>swapped.
             if \<not> swapped then failed (NotReassignable (tt_status t))
             else andthen (publish_task_event mg (EvRevoked tid old)) (\<lambda>_. publish_task_event mg (EvClaimed tid new_assignee)))))"

section \<open>Plans\<close>

text \<open>A token that can be part of a path.\<close>

definition token_char :: "char \<Rightarrow> bool" where
  "token_char c \<longleftrightarrow>
     (let n = of_char c :: nat in (48 \<le> n \<and> n \<le> 57) \<or> (65 \<le> n \<and> n \<le> 90) \<or> (97 \<le> n \<and> n \<le> 122) \<or> c \<in> set ''_.-'')"

fun squeeze :: "bool \<Rightarrow> string \<Rightarrow> string" where
  "squeeze bad [] = []"
| "squeeze bad (c # s) = (if token_char c then c # squeeze False s else if bad then squeeze True s else CHR ''_'' # squeeze True s)"

definition safe_token :: "string \<Rightarrow> string \<Rightarrow> string" where
  "safe_token value fallback =
     (let edge = (\<lambda>c. c \<in> set ''._-'');
          s = take 96 (rev (dropWhile edge (rev (dropWhile edge (squeeze False (strip value))))))
      in if s = [] then fallback else s)"

definition configure_plan_storage :: "manager \<Rightarrow> string option \<Rightarrow> string option \<Rightarrow> manager" where
  "configure_plan_storage mg plans_dir team_plan_id =
     mg\<lparr>mg_plans_dir := (case plans_dir of None \<Rightarrow> mg_plans_dir mg | Some d \<Rightarrow> d),
        mg_plan_id := (case team_plan_id of None \<Rightarrow> mg_plan_id mg | Some p \<Rightarrow> safe_token p ''team_plan'')\<rparr>"

definition on_plans :: "(plan_state \<Rightarrow> plan_state) \<Rightarrow> unit call" where
  "on_plans f st = (Inr (Inr ()), st\<lparr>st_plans := f (st_plans st)\<rparr>)"

definition reading_plans :: "(plan_state \<Rightarrow> 'a call) \<Rightarrow> 'a call" where
  "reading_plans f st = f (st_plans st) st"

definition now_iso :: "manager \<Rightarrow> string call" where
  "now_iso mg st = (Inr (Inr (mg_iso mg (st_ticks st))), st\<lparr>st_ticks := st_ticks st + 1\<rparr>)"

text \<open>\<open>str(record.get(key) or "")\<close>, and one record over another.\<close>

definition text_of :: "plan_record \<Rightarrow> string \<Rightarrow> string" where
  "text_of r k = (case dget r k of Some (PText s) \<Rightarrow> s | _ \<Rightarrow> [])"

definition over :: "plan_record \<Rightarrow> plan_record \<Rightarrow> plan_record" where
  "over r update = fold (\<lambda>(k, v). dset k v) update r"

definition write_task_plan_index :: "string \<Rightarrow> plan_record \<Rightarrow> plan_state \<Rightarrow> plan_state" where
  "write_task_plan_index tid update ps =
     (let current = dget_default [] (ps_tasks ps) tid;
          plan_id = strip (text_of update ''plan_id'');
          known = (case dget current ''plan_ids'' of Some (PNames ns) \<Rightarrow> ns | _ \<Rightarrow> []);
          current' = (if plan_id = [] then current else dset ''plan_ids'' (PNames (if plan_id \<in> set known then known else known @ [plan_id])) current);
          ps' = ps\<lparr>ps_tasks := dset tid (over current' update) (ps_tasks ps)\<rparr>
      in if plan_id = [] then ps'
         else ps'\<lparr>ps_plans := dset plan_id (dset ''task_id'' (PText tid) (over (dget_default [] (ps_plans ps) plan_id) update)) (ps_plans ps)\<rparr>)"

definition get_plan_record :: "string \<Rightarrow> plan_record call" where
  "get_plan_record plan_id = reading_plans (\<lambda>ps. succeed (dget_default [] (ps_plans ps) plan_id))"

definition task_plan_path :: "manager \<Rightarrow> string \<Rightarrow> string \<Rightarrow> string" where
  "task_plan_path mg tid plan_id =
     mg_plans_dir mg @ ''/'' @ mg_plan_id mg @ ''/tasks/'' @ safe_token tid ''task'' @ ''/plans/'' @ safe_token plan_id ''plan'' @ ''.md''"

definition resolve_submitted_plan_path :: "manager \<Rightarrow> string \<Rightarrow> plan_state \<Rightarrow> string option" where
  "resolve_submitted_plan_path mg plan_path ps =
     (let raw = strip plan_path
      in if raw = [] \<or> dget (ps_files ps) (mg_resolve mg raw) = None then None else Some (mg_resolve mg raw))"

text \<open>The mailbox answers with the id of the message, if it was sent.\<close>

definition notify_leader_of_plan :: "manager \<Rightarrow> string option" where
  "notify_leader_of_plan mg = (if mg_leader mg = [] \<or> mg_leader mg = mg_self mg then None else named (mg_mail mg (mg_leader mg)))"

definition reserve_for_planning :: "manager \<Rightarrow> string \<Rightarrow> team_task \<Rightarrow> task_status call" where
  "reserve_for_planning mg tid t =
     (if tt_status t = Pending
      then andthen (on_board mg (\<lambda>now. claim_task tid (mg_self mg) Planning now)) (\<lambda>claimed.
             if \<not> claimed then failed NotReserved else succeed Planning)
      else if tt_assignee t \<noteq> Some (mg_self mg) then failed (NotHolder (tt_assignee t))
      else succeed (tt_status t))"

definition submitted_record :: "manager \<Rightarrow> string \<Rightarrow> string \<Rightarrow> task_status \<Rightarrow> string \<Rightarrow> string \<Rightarrow> string \<Rightarrow> string \<Rightarrow> plan_record" where
  "submitted_record mg tid plan_id active source tool_call_id submitted_at updated_at =
     [(''task_id'', PText tid), (''plan_id'', PText plan_id), (''team_plan_id'', PText (mg_plan_id mg)), (''latest_plan_id'', PText plan_id),
      (''member_name'', PText (mg_self mg)), (''status'', PText (status_value active)), (''member_plan_md'', PText (task_plan_path mg tid plan_id)),
      (''source_plan_path'', PText source), (''tool_call_id'', PText tool_call_id), (''decision'', PText ''pending''),
      (''submitted_at'', PText submitted_at), (''updated_at'', PText updated_at)]"

definition copy_plan :: "manager \<Rightarrow> string \<Rightarrow> string \<Rightarrow> plan_state \<Rightarrow> plan_state" where
  "copy_plan mg source target ps =
     (case dget (ps_files ps) source of
        Some body \<Rightarrow> if source = mg_resolve mg target then ps else ps\<lparr>ps_files := dset target body (ps_files ps)\<rparr>
      | None \<Rightarrow> ps)"

definition submit_plan :: "manager \<Rightarrow> string \<Rightarrow> string \<Rightarrow> string option \<Rightarrow> string \<Rightarrow> (string \<times> task_status \<times> string option) call" where
  "submit_plan mg tid plan_path given tool_call_id =
     (if dget (mg_members mg) (mg_self mg) = None then failed (MemberMissing (mg_self mg))
      else if \<not> plan_mode mg (mg_self mg) then failed NotPlanMode
      else
        andthen (get_or_fail mg tid) (\<lambda>t.
          if named (tt_assignee t) \<noteq> None \<and> tt_assignee t \<noteq> Some (mg_self mg) then failed (NotHolder (tt_assignee t))
          else if tt_status t \<notin> {Pending, Planning, InProgress} then failed (NotPlannable (tt_status t))
          else
            andthen (fresh_id mg given) (\<lambda>drawn. let plan_id = safe_token drawn ''plan'' in
            reading_plans (\<lambda>ps.
              if dget_default [] (ps_plans ps) plan_id \<noteq> [] then failed (PlanExists plan_id)
              else
                (case resolve_submitted_plan_path mg plan_path ps of
                   None \<Rightarrow> failed BadPlanPath
                 | Some source \<Rightarrow>
                     andthen (reserve_for_planning mg tid t) (\<lambda>active.
                     andthen (on_plans (copy_plan mg source (task_plan_path mg tid plan_id))) (\<lambda>_.
                     andthen (now_iso mg) (\<lambda>submitted_at.
                     andthen (now_iso mg) (\<lambda>updated_at.
                     andthen (on_plans (write_task_plan_index tid (submitted_record mg tid plan_id active source tool_call_id submitted_at updated_at))) (\<lambda>_.
                     andthen (publish_task_event mg (EvPlanRequest tid (mg_self mg) active plan_id (task_plan_path mg tid plan_id) tool_call_id)) (\<lambda>_.
                       case notify_leader_of_plan mg of
                         None \<Rightarrow> succeed (plan_id, active, None)
                       | Some message_id \<Rightarrow>
                           andthen (now_iso mg) (\<lambda>noted_at.
                           andthen (on_plans (write_task_plan_index tid
                               [(''plan_id'', PText plan_id), (''leader_message_id'', PText message_id), (''updated_at'', PText noted_at)])) (\<lambda>_.
                             succeed (plan_id, active, Some message_id))))))))))))))"

definition approval_record ::
  "manager \<Rightarrow> string \<Rightarrow> string \<Rightarrow> bool \<Rightarrow> task_status \<Rightarrow> string \<Rightarrow> string option \<Rightarrow> string \<Rightarrow> string \<Rightarrow> string \<Rightarrow> string \<Rightarrow> string \<Rightarrow> plan_record" where
  "approval_record mg tid plan_id approved next_status feedback leader_name holder path decided_at tool_call_id updated_at =
     [(''task_id'', PText tid), (''plan_id'', PText plan_id), (''team_plan_id'', PText (mg_plan_id mg)), (''latest_plan_id'', PText plan_id),
      (''decision'', PText (if approved then ''approve'' else ''reject'')), (''status'', PText (status_value next_status)), (''feedback'', PText feedback),
      (''leader_name'', PText (case named leader_name of Some l \<Rightarrow> l | None \<Rightarrow> if mg_self mg \<noteq> [] then mg_self mg else ''leader'')),
      (''member_name'', PText holder), (''member_plan_md'', PText path), (''decided_at'', PText decided_at), (''tool_call_id'', PText tool_call_id),
      (''updated_at'', PText updated_at)]"

definition decide_plan :: "manager \<Rightarrow> string \<Rightarrow> bool \<Rightarrow> string \<Rightarrow> string option \<Rightarrow> plan_state \<Rightarrow> unit call" where
  "decide_plan mg plan_id approved feedback leader_name ps =
     (let plan = dget_default [] (ps_plans ps) plan_id; tid = strip (text_of plan ''task_id'')
      in if plan = [] then failed (PlanUnknown plan_id)
         else if tid = [] then failed (PlanWithoutTask plan_id)
         else
           andthen (get_or_fail mg tid) (\<lambda>t.
             if tt_status t \<noteq> Planning then failed (NotPlanning (tt_status t))
             else
               (case named (tt_assignee t) of
                  None \<Rightarrow> failed NoAssignee
                | Some holder \<Rightarrow>
                    let latest = text_of (dget_default [] (ps_tasks ps) tid) ''latest_plan_id'';
                        raw = strip (text_of plan ''member_plan_md'');
                        path = (if raw = [] then task_plan_path mg tid plan_id else raw);
                        record_at = (\<lambda>decided_at updated_at. approval_record mg tid plan_id approved (if approved then InProgress else tt_status t)
                          feedback leader_name holder path decided_at (text_of plan ''tool_call_id'') updated_at)
                    in if latest \<noteq> [] \<and> plan_id \<noteq> latest then failed (PlanStale latest)
                       else if dget plan ''decision'' \<noteq> Some (PText ''pending'') then failed (PlanDecided (text_of plan ''decision''))
                       else if dget (ps_files ps) path = None then failed (PlanFileMissing plan_id)
                       else
                         andthen (now_iso mg) (\<lambda>decided_at.
                           if \<not> approved
                           then
                             andthen (now_iso mg) (\<lambda>updated_at.
                             andthen (on_plans (write_task_plan_index tid (record_at decided_at updated_at))) (\<lambda>_.
                               publish_task_event mg (EvPlanResponse tid (Some holder) False (tt_status t) plan_id feedback (text_of plan ''tool_call_id''))))
                           else
                             andthen (on_board mg (\<lambda>now. approve_plan_task tid now)) (\<lambda>task.
                               case task of
                                 None \<Rightarrow> failed NotApproved
                               | Some t' \<Rightarrow>
                                   andthen (now_iso mg) (\<lambda>updated_at.
                                   andthen (on_plans (write_task_plan_index tid (record_at decided_at updated_at))) (\<lambda>_.
                                     publish_task_event mg (EvPlanResponse tid (tt_assignee t') True InProgress plan_id feedback (text_of plan ''tool_call_id'')))))))))"

definition approve_plan :: "manager \<Rightarrow> string \<Rightarrow> bool \<Rightarrow> string \<Rightarrow> string option \<Rightarrow> unit call" where
  "approve_plan mg plan_id approved feedback leader_name =
     (if plan_id = [] then failed PlanIdMissing else reading_plans (decide_plan mg plan_id approved feedback leader_name))"

definition note_completed_plan :: "manager \<Rightarrow> string \<Rightarrow> string option \<Rightarrow> unit call" where
  "note_completed_plan mg tid holder =
     (if plan_mode mg (mg_self mg)
      then
        reading_plans (\<lambda>ps.
        andthen (now_iso mg) (\<lambda>completed_at.
        andthen (now_iso mg) (\<lambda>updated_at.
          on_plans (write_task_plan_index tid
            ([(''task_id'', PText tid), (''plan_id'', PText (text_of (dget_default [] (ps_tasks ps) tid) ''latest_plan_id'')),
              (''team_plan_id'', PText (mg_plan_id mg))] @
             (case holder of Some m \<Rightarrow> [(''member_name'', PText m)] | None \<Rightarrow> []) @
             [(''status'', PText (status_value Completed)), (''completed_at'', PText completed_at), (''updated_at'', PText updated_at)])))))
      else succeed ())"

section \<open>Ending\<close>

definition submit_for_review_call :: "manager \<Rightarrow> string \<Rightarrow> team_task \<Rightarrow> unit call" where
  "submit_for_review_call mg tid t =
     andthen (on_board mg (\<lambda>now. submit_for_review tid now)) (\<lambda>submitted.
       if \<not> submitted then failed (NotSubmittable (tt_status t))
       else publish_task_event mg (EvSubmitted tid (tt_assignee t) (reviewers t)))"

text \<open>The events and the follow-up of a completion, by the author or by a verdict.\<close>

definition after_completion :: "manager \<Rightarrow> task_event \<Rightarrow> unit call \<Rightarrow> task_row list \<Rightarrow> unit call" where
  "after_completion mg ev note unblocked =
     andthen (publish_task_event mg ev) (\<lambda>_.
     andthen note (\<lambda>_.
     andthen (handle_unblocked_tasks mg unblocked) (\<lambda>_. maybe_publish_task_list_drained mg)))"

definition complete_call :: "manager \<Rightarrow> string \<Rightarrow> (team_task \<times> task_row list) option call" where
  "complete_call mg tid = andthen (on_board mg (\<lambda>now. complete_task tid now)) of_res"

definition complete :: "manager \<Rightarrow> string \<Rightarrow> unit call" where
  "complete mg tid =
     (if dget (mg_members mg) (mg_self mg) = None then failed (MemberMissing (mg_self mg))
      else
        andthen (get_call mg tid) (\<lambda>task.
          case task of
            Some t \<Rightarrow>
              if tt_assignee t \<noteq> Some (mg_self mg) then failed (NotHolder (tt_assignee t))
              else if reviewers t \<noteq> [] then submit_for_review_call mg tid t
              else
                andthen (complete_call mg tid) (\<lambda>result.
                  case result of
                    None \<Rightarrow> andthen (get_or_fail mg tid) (\<lambda>current. failed (NotCompletable (tt_status current)))
                  | Some (t', unblocked) \<Rightarrow> after_completion mg (EvCompleted tid (tt_assignee t')) (note_completed_plan mg tid (tt_assignee t')) unblocked)
          | None \<Rightarrow>
              andthen (complete_call mg tid) (\<lambda>result.
                case result of
                  None \<Rightarrow> andthen (get_or_fail mg tid) (\<lambda>current. failed (NotCompletable (tt_status current)))
                | Some (t', unblocked) \<Rightarrow> after_completion mg (EvCompleted tid (tt_assignee t')) (note_completed_plan mg tid (tt_assignee t')) unblocked)))"

definition cancel :: "manager \<Rightarrow> string \<Rightarrow> team_task option call" where
  "cancel mg tid =
     andthen (andthen (on_board mg (\<lambda>now. cancel_task tid now)) of_res) (\<lambda>result.
       case result of
         None \<Rightarrow> succeed None
       | Some (t, unblocked) \<Rightarrow>
           andthen (after_completion mg (EvCancelled tid (tt_assignee t)) (succeed ()) unblocked) (\<lambda>_. succeed (Some t)))"

definition cancel_all_call :: "manager \<Rightarrow> string list \<Rightarrow> task_row list call" where
  "cancel_all_call mg skip_assignees =
     andthen (andthen (on_board mg (\<lambda>now. cancel_all_tasks (mg_team mg) skip_assignees now)) of_res) (\<lambda>(cancelled, unblocked).
       if cancelled = [] then succeed []
       else
         andthen (for_each (\<lambda>(tid, t). publish_task_event mg (EvCancelled tid (tt_assignee t))) cancelled) (\<lambda>_.
         andthen (handle_unblocked_tasks mg unblocked) (\<lambda>_.
         andthen (maybe_publish_task_list_drained mg) (\<lambda>_. succeed cancelled))))"

section \<open>Editing\<close>

definition update_task_call :: "manager \<Rightarrow> string \<Rightarrow> string option \<Rightarrow> string option \<Rightarrow> unit call" where
  "update_task_call mg tid title content =
     andthen (get_or_fail mg tid) (\<lambda>t.
     andthen (on_board mg (\<lambda>now. update_task (mg_files mg) tid title content)) (\<lambda>success.
       if \<not> success then failed (NotEditable (tt_status t)) else publish_task_event mg (EvUpdated tid (tt_assignee t))))"

definition set_reviewer_call :: "manager \<Rightarrow> string \<Rightarrow> reviewer_entry list \<Rightarrow> unit call" where
  "set_reviewer_call mg tid entries =
     andthen (get_or_fail mg tid) (\<lambda>t.
     andthen (on_board mg (\<lambda>now. set_reviewer tid (if entries = [] then None else Some entries))) (\<lambda>ok.
       if \<not> ok then failed ReviewerNotSet else succeed ()))"

definition set_max_review_rounds_call :: "manager \<Rightarrow> string \<Rightarrow> int \<Rightarrow> unit call" where
  "set_max_review_rounds_call mg tid n =
     andthen (get_or_fail mg tid) (\<lambda>t.
     andthen (on_board mg (\<lambda>now. set_max_review_rounds tid (Some n))) (\<lambda>ok.
       if \<not> ok then failed RoundsNotSet else succeed ()))"

section \<open>Looking\<close>

record task_summary =
  sm_id :: string
  sm_title :: string
  sm_status :: task_status
  sm_assignee :: "string option"
  sm_blocked_by :: "string list"
  sm_updated :: int

definition summary_of :: "string list \<Rightarrow> task_row \<Rightarrow> task_summary" where
  "summary_of blocked_by row =
     \<lparr>sm_id = fst row, sm_title = tt_title (snd row), sm_status = tt_status (snd row), sm_assignee = tt_assignee (snd row),
      sm_blocked_by = blocked_by, sm_updated = tt_updated (snd row)\<rparr>"

definition list_tasks_with_deps :: "manager \<Rightarrow> task_status option \<Rightarrow> task_summary list call" where
  "list_tasks_with_deps mg status =
     andthen (list_tasks mg status) (\<lambda>tasks.
       reading (\<lambda>b. let open_deps = filter (\<lambda>(e, d). \<not> dp_resolved d) (get_team_dependencies (mg_team mg) b)
         in succeed (map (\<lambda>row. summary_of (map (snd \<circ> fst) (filter (\<lambda>((src, dst), d). src = fst row) open_deps)) row) tasks)))"

record task_detail =
  td_task :: team_task
  td_reviewers :: "string list"
  td_blocked_by :: "string list"
  td_blocks :: "string list"

definition get_task_detail :: "manager \<Rightarrow> string \<Rightarrow> task_detail option call" where
  "get_task_detail mg tid =
     andthen (get_call mg tid) (\<lambda>r.
       case r of
         None \<Rightarrow> succeed None
       | Some t \<Rightarrow> reading (\<lambda>b. succeed (Some
           \<lparr>td_task = t, td_reviewers = reviewers t,
            td_blocked_by = map (snd \<circ> fst) (filter (\<lambda>(e, d). \<not> dp_resolved d) (get_task_dependencies tid b)),
            td_blocks = get_dependent_task_ids tid b\<rparr>)))"

definition get_claimable_tasks :: "manager \<Rightarrow> task_row list call" where
  "get_claimable_tasks mg = list_tasks mg (Some Pending)"

definition get_tasks_by_assignee_call :: "manager \<Rightarrow> string \<Rightarrow> task_status option \<Rightarrow> task_row list call" where
  "get_tasks_by_assignee_call mg m status = reading (\<lambda>b. of_res (get_tasks_by_assignee (mg_files mg) (mg_team mg) m status b))"

definition get_review_tasks :: "manager \<Rightarrow> string \<Rightarrow> task_row list call" where
  "get_review_tasks mg reviewer_name =
     andthen (list_tasks mg (Some InReview)) (\<lambda>tasks.
       succeed (filter (\<lambda>(tid, t). reviewer_name \<in> set (reviewers t) \<and> tt_assignee t \<noteq> Some reviewer_name) tasks))"

definition list_review_tasks :: "manager \<Rightarrow> string \<Rightarrow> task_summary list call" where
  "list_review_tasks mg reviewer_name = andthen (get_review_tasks mg reviewer_name) (\<lambda>tasks. succeed (map (summary_of []) tasks))"

section \<open>Reviewing\<close>

record review_tally =
  tl_pass :: nat
  tl_fail :: nat
  tl_reviewers :: nat
  tl_voted :: "string list"
  tl_fail_feedback :: "(string, string) pydict"
  tl_total :: nat
  tl_verdict_voted :: nat
  tl_inspectors :: nat
  tl_inspector_voted :: nat
  tl_scores :: "(string, rat) pydict"
  tl_avg :: "rat option"

definition type_map :: "team_task \<Rightarrow> (string, string) pydict" where
  "type_map t = fold (\<lambda>(rid, ty) d. if rid = [] then d else dset rid ty d) (reviewer_details t) []"

definition resolve_reviewer_type :: "team_task \<Rightarrow> string \<Rightarrow> string" where
  "resolve_reviewer_type t name = (case find (\<lambda>(rid, ty). rid = name) (reviewer_details t) of None \<Rightarrow> ''verifier'' | Some d \<Rightarrow> snd d)"

text \<open>The latest vote of each reviewer that is still one.\<close>

definition latest_votes :: "string list \<Rightarrow> review_vote list \<Rightarrow> (string, review_vote) pydict" where
  "latest_votes names votes = fold (\<lambda>v d. if rv_reviewer v \<in> set names then dset (rv_reviewer v) v d else d) votes []"

text \<open>What \<open>verify_task\<close> lets be written is finite, so a score is a number or is skipped.\<close>

definition score_of :: "string \<Rightarrow> rat option" where
  "score_of decision = (case float_of_str decision of Some (Finite neg x) \<Rightarrow> Some (if neg then - x else x) | _ \<Rightarrow> None)"

definition count_vote :: "(string, string) pydict \<Rightarrow> (string, review_vote) pydict \<Rightarrow> string \<Rightarrow> review_tally \<Rightarrow> review_tally" where
  "count_vote types latest name tally =
     (if (case dget types name of None \<Rightarrow> ''verifier'' | Some ty \<Rightarrow> ty) = ''inspector''
      then
        (let tally' = tally\<lparr>tl_inspectors := tl_inspectors tally + 1\<rparr>
         in case dget latest name of
              None \<Rightarrow> tally'
            | Some v \<Rightarrow>
                tally'\<lparr>tl_inspector_voted := tl_inspector_voted tally + 1,
                    tl_scores := (case score_of (rv_decision v) of None \<Rightarrow> tl_scores tally | Some x \<Rightarrow> dset name x (tl_scores tally))\<rparr>)
      else
        (let tally' = tally\<lparr>tl_total := tl_total tally + 1\<rparr>
         in case dget latest name of
              None \<Rightarrow> tally'
            | Some v \<Rightarrow>
                (let tally2 = tally'\<lparr>tl_verdict_voted := tl_verdict_voted tally + 1\<rparr>
                 in if rv_decision v = ''pass'' then tally2\<lparr>tl_pass := tl_pass tally + 1\<rparr>
                    else if rv_decision v = ''fail''
                    then tally2\<lparr>tl_fail := tl_fail tally + 1,
                             tl_fail_feedback := (case named (rv_feedback v) of None \<Rightarrow> tl_fail_feedback tally | Some f \<Rightarrow> dset name f (tl_fail_feedback tally))\<rparr>
                    else tally2)))"

definition get_review_tally :: "string \<Rightarrow> team_task \<Rightarrow> board \<Rightarrow> review_tally" where
  "get_review_tally tid t b =
     (let names = reviewers t;
          latest = latest_votes names (get_review_votes tid (tt_round t) b);
          tally = fold (count_vote (type_map t) latest) names
            \<lparr>tl_pass = 0, tl_fail = 0, tl_reviewers = length names, tl_voted = sort (dkeys latest), tl_fail_feedback = [], tl_total = 0,
             tl_verdict_voted = 0, tl_inspectors = 0, tl_inspector_voted = 0, tl_scores = [], tl_avg = None\<rparr>
      in tally\<lparr>tl_avg := (if tl_scores tally = [] then None else Some (fl_avg (map snd (tl_scores tally))))\<rparr>)"

datatype verdict = VerdictPass | VerdictFail | VerdictUndecided

definition inspector_threshold :: rat where
  "inspector_threshold = fl (85 / 100)"

definition settle_review_tally :: "rat \<Rightarrow> review_tally \<Rightarrow> verdict" where
  "settle_review_tally threshold tally =
     (if tl_total tally > 0 \<and> tl_verdict_voted tally < tl_total tally then VerdictUndecided
      else if tl_total tally > 0 \<and> tl_fail tally > 0 then VerdictFail
      else if tl_inspectors tally > 0
      then (if tl_inspector_voted tally < tl_inspectors tally then VerdictUndecided
            else case tl_avg tally of None \<Rightarrow> VerdictFail | Some avg \<Rightarrow> if avg < threshold then VerdictFail else VerdictPass)
      else VerdictPass)"

definition verify_pass :: "manager \<Rightarrow> string \<Rightarrow> unit call" where
  "verify_pass mg tid =
     andthen (complete_call mg tid) (\<lambda>result.
       case result of
         None \<Rightarrow> failed NotCompletedFromReview
       | Some (t', unblocked) \<Rightarrow> after_completion mg (EvVerified tid (tt_assignee t')) (succeed ()) unblocked)"

definition verify_fail :: "manager \<Rightarrow> string \<Rightarrow> team_task \<Rightarrow> string \<Rightarrow> unit call" where
  "verify_fail mg tid t feedback =
     andthen (on_board mg (\<lambda>now. revise_task tid now)) (\<lambda>revised.
       if \<not> revised then failed NotRevised else publish_task_event mg (EvRevision tid (tt_assignee t) feedback))"

definition record_review_vote :: "manager \<Rightarrow> string \<Rightarrow> team_task \<Rightarrow> string \<Rightarrow> string \<Rightarrow> review_tally option call" where
  "record_review_vote mg tid t decision feedback =
     andthen (on_board mg (\<lambda>now b. ((), insert_review_vote
        \<lparr>rv_team = mg_team mg, rv_task = tid, rv_round = tt_round t, rv_reviewer = mg_self mg, rv_decision = decision,
         rv_feedback = named (Some feedback), rv_created = now\<rparr> b))) (\<lambda>_.
     reading (\<lambda>b. let tally = get_review_tally tid t b
       in andthen (publish_task_event mg (EvVote tid (tt_assignee t) (mg_self mg) decision (tt_round t) (tl_pass tally) (tl_fail tally) (tl_reviewers tally)))
            (\<lambda>_. succeed (Some tally))))"

text \<open>The decision as it is counted, by the kind of the reviewer.\<close>

definition normalize_decision :: "string \<Rightarrow> string \<Rightarrow> op_failure + string" where
  "normalize_decision ty decision =
     (let normalized = lower (strip decision)
      in if ty = ''inspector''
         then (case float_of_str normalized of
                 None \<Rightarrow> Inl BadScore
               | Some (Finite neg x) \<Rightarrow> if (neg \<and> x \<noteq> 0) \<or> x > 1 then Inl ScoreOutOfRange else Inr (format2 neg x)
               | Some _ \<Rightarrow> Inl ScoreOutOfRange)
         else if normalized \<in> {''pass'', ''fail''} then Inr normalized else Inl BadDecision)"

definition verify_task :: "manager \<Rightarrow> string \<Rightarrow> string \<Rightarrow> string \<Rightarrow> review_tally option call" where
  "verify_task mg tid decision feedback =
     andthen (get_or_fail mg tid) (\<lambda>t.
       if tt_status t \<noteq> InReview then failed (NotUnderReview (tt_status t))
       else if mg_self mg \<notin> set (reviewers t) then failed NotAReviewer
       else if tt_assignee t = Some (mg_self mg) then failed OwnTask
       else
         (case normalize_decision (resolve_reviewer_type t (mg_self mg)) decision of
            Inl f \<Rightarrow> failed f
          | Inr normalized \<Rightarrow>
              if mg_scheduled mg then record_review_vote mg tid t normalized feedback
              else if normalized = ''pass'' then andthen (verify_pass mg tid) (\<lambda>_. succeed None)
              else andthen (verify_fail mg tid t feedback) (\<lambda>_. succeed None)))"

definition settle_review :: "manager \<Rightarrow> string \<Rightarrow> string \<Rightarrow> string \<Rightarrow> unit call" where
  "settle_review mg tid decision feedback =
     (let normalized = lower (strip decision)
      in if normalized \<notin> {''pass'', ''fail''} then failed BadDecision
         else
           andthen (get_or_fail mg tid) (\<lambda>t.
             if tt_status t \<noteq> InReview then failed (NotUnderReview (tt_status t))
             else if normalized = ''pass'' then verify_pass mg tid
             else verify_fail mg tid t feedback))"

end
