(* ===== verification/Team_Manager_Runs.thy ===== *)
theory Team_Manager_Runs
  imports Team_Manager
begin

text \<open>
  What the calls of the members do to the board: each is a run of the single writes of \<open>Team_Runs\<close>, so the board
  stays sound whatever is called; looking changes nothing; and what the verdict on a review says of the votes.
\<close>

section \<open>The calls of the members\<close>

text \<open>What the surroundings of a member must be like.\<close>

definition manager_ok :: "string \<Rightarrow> manager \<Rightarrow> bool" where
  "manager_ok team mg \<longleftrightarrow> mg_team mg = team \<and> set_order (mg_order mg) \<and> (\<forall>n. mg_uuid mg n \<noteq> [])"

text \<open>The calls of the members.\<close>

datatype manager_call =
    CAddGraph "graph_spec list"
  | CAdd string string "string option" "string list"
  | CDepend string "string list"
  | CAssign string string
  | CClaim string
  | CStart string
  | CReset string
  | CReassign string string
  | CComplete string
  | CCancel string
  | CCancelAll "string list"
  | CUpdate string "string option" "string option"
  | CReviewer string "reviewer_entry list"
  | CMaxRounds string int
  | CVerify string string string
  | CSettle string string string
  | CSubmitPlan string string "string option" string
  | CApprovePlan string bool string "string option"

fun make_call :: "manager \<Rightarrow> manager_call \<Rightarrow> team_state \<Rightarrow> team_state" where
  "make_call mg (CAddGraph specs) st = snd (add_graph mg specs st)"
| "make_call mg (CAdd title content tid deps) st = snd (add_single mg title content tid deps st)"
| "make_call mg (CDepend tid deps) st = snd (add_dependencies mg tid deps st)"
| "make_call mg (CAssign tid m) st = snd (assign mg tid m st)"
| "make_call mg (CClaim tid) st = snd (claim mg tid st)"
| "make_call mg (CStart tid) st = snd (start_task_call mg tid st)"
| "make_call mg (CReset tid) st = snd (reset mg tid st)"
| "make_call mg (CReassign tid m) st = snd (reassign mg tid m st)"
| "make_call mg (CComplete tid) st = snd (complete mg tid st)"
| "make_call mg (CCancel tid) st = snd (cancel mg tid st)"
| "make_call mg (CCancelAll skip) st = snd (cancel_all_call mg skip st)"
| "make_call mg (CUpdate tid title content) st = snd (update_task_call mg tid title content st)"
| "make_call mg (CReviewer tid entries) st = snd (set_reviewer_call mg tid entries st)"
| "make_call mg (CMaxRounds tid n) st = snd (set_max_review_rounds_call mg tid n st)"
| "make_call mg (CVerify tid decision feedback) st = snd (verify_task mg tid decision feedback st)"
| "make_call mg (CSettle tid decision feedback) st = snd (settle_review mg tid decision feedback st)"
| "make_call mg (CSubmitPlan tid path given tool) st = snd (submit_plan mg tid path given tool st)"
| "make_call mg (CApprovePlan plan_id approved feedback leader) st = snd (approve_plan mg plan_id approved feedback leader st)"

definition run_calls :: "(manager \<times> manager_call) list \<Rightarrow> team_state \<Rightarrow> team_state" where
  "run_calls calls st = fold (\<lambda>(mg, c) s. make_call mg c s) calls st"

lemma fresh_id_named:
  assumes "manager_ok team mg" and "fst (fresh_id mg given st) = Inr (Inr tid)"
  shows "tid \<noteq> []"
  using assms by (auto simp: fresh_id_def manager_ok_def split: option.splits list.splits)

lemma andthen_result:
  assumes "fst (andthen m f st) = Inr (Inr y)"
  obtains x st1 where "m st = (Inr (Inr x), st1)" "fst (f x st1) = Inr (Inr y)"
  using assms by (auto simp: andthen_def split: prod.splits sum.splits)

lemma build_specs_ok:
  assumes ok: "manager_ok team mg"
  shows "fst (build_specs mg gs st) = Inr (Inr (specs, edges)) \<Longrightarrow> list_all spec_ok specs"
proof (induction gs arbitrary: st specs edges)
  case Nil
  then show ?case by (simp add: succeed_def)
next
  case (Cons g gs)
  obtain u st1 where a: "fst (andthen (fresh_id mg (gs_id g)) (\<lambda>tid. andthen (build_specs mg gs) (\<lambda>(specs, edges).
       succeed (new_spec_of tid g # specs, spec_edges tid g @ edges))) st1) = Inr (Inr (specs, edges))"
    using Cons.prems by (auto elim: andthen_result)
  obtain tid st2 where t: "fresh_id mg (gs_id g) st1 = (Inr (Inr tid), st2)"
    and b: "fst (andthen (build_specs mg gs) (\<lambda>(specs, edges). succeed (new_spec_of tid g # specs, spec_edges tid g @ edges)) st2) = Inr (Inr (specs, edges))"
    by (rule andthen_result[OF a])
  obtain r st3 where r: "build_specs mg gs st2 = (Inr (Inr r), st3)"
    "fst ((\<lambda>(specs, edges). succeed (new_spec_of tid g # specs, spec_edges tid g @ edges)) r st3) = Inr (Inr (specs, edges))"
    by (rule andthen_result[OF b])
  obtain specs' edges' where r': "r = (specs', edges')" by (cases r)
  have "tid \<noteq> []" using fresh_id_named[OF ok, of "gs_id g" st1] t by simp
  then have "spec_ok (new_spec_of tid g)" by (simp add: spec_ok_def new_spec_of_def)
  moreover have "list_all spec_ok specs'" using Cons.IH[of st2 specs' edges'] r(1) r' by simp
  ultimately show ?case using r(2) by (auto simp: r' succeed_def)
qed

text \<open>A token has no white space.\<close>

lemma squeeze_tokens: "list_all token_char (squeeze bad s)"
  by (induction bad s rule: squeeze.induct) (auto simp: token_char_def)

lemma strip_id:
  assumes "\<forall>c\<in>set s. \<not> is_space c"
  shows "strip s = s"
proof -
  have d: "dropWhile is_space xs = xs" if "\<forall>c\<in>set xs. \<not> is_space c" for xs using that by (cases xs) auto
  show ?thesis using assms by (simp add: strip_def d)
qed

lemma token_not_space: "token_char c \<Longrightarrow> \<not> is_space c"
  by (auto simp: token_char_def is_space_def Let_def)

lemma strip_safe_token:
  assumes "strip fallback = fallback"
  shows "strip (safe_token value fallback) = safe_token value fallback"
proof -
  let ?edge = "\<lambda>c. c \<in> set ''._-''"
  let ?q = "squeeze False (strip value)"
  let ?s = "take 96 (rev (dropWhile ?edge (rev (dropWhile ?edge ?q))))"
  have "c \<in> set ?q" if "c \<in> set ?s" for c
    using that by (metis in_set_takeD set_dropWhileD set_rev)
  then have "\<forall>c\<in>set ?s. \<not> is_space c" using squeeze_tokens[of False "strip value"] token_not_space by (auto simp: list_all_iff)
  then have "strip ?s = ?s" by (rule strip_id)
  then show ?thesis using assms by (simp add: safe_token_def Let_def)
qed

section \<open>Relations that calls keep\<close>

definition keeps :: "(team_state \<Rightarrow> team_state \<Rightarrow> bool) \<Rightarrow> 'a call \<Rightarrow> bool" where
  "keeps R m \<longleftrightarrow> (\<forall>st. R st (snd (m st)))"

text \<open>The same from states whose plans have a property.\<close>

definition keeps_from :: "(plan_state \<Rightarrow> bool) \<Rightarrow> (team_state \<Rightarrow> team_state \<Rightarrow> bool) \<Rightarrow> 'a call \<Rightarrow> bool" where
  "keeps_from Q R m \<longleftrightarrow> (\<forall>st. Q (st_plans st) \<longrightarrow> R st (snd (m st)))"

definition preserves :: "(plan_state \<Rightarrow> bool) \<Rightarrow> 'a call \<Rightarrow> bool" where
  "preserves Q m \<longleftrightarrow> (\<forall>st. Q (st_plans st) \<longrightarrow> Q (st_plans (snd (m st))))"

lemma andthen_state:
  "snd (andthen m f st) = snd (m st) \<or> (\<exists>x. snd (andthen m f st) = snd (f x (snd (m st))))"
  by (cases "m st") (auto simp: andthen_def split: sum.splits)

locale call_relation =
  fixes R :: "team_state \<Rightarrow> team_state \<Rightarrow> bool"
  assumes refl: "R st st" and trans: "R st st1 \<Longrightarrow> R st1 st2 \<Longrightarrow> R st st2"
    and frame: "st_board st' = st_board st \<Longrightarrow> st_plans st' = st_plans st \<Longrightarrow> R st st'"
begin

lemma succeed: "keeps R (succeed x)"
  by (simp add: keeps_def succeed_def refl)

lemma failed: "keeps R (failed f)"
  by (simp add: keeps_def failed_def refl)

lemma of_res: "keeps R (of_res r)"
  by (cases r) (simp_all add: keeps_def of_res_def raised_def Team_Manager.succeed_def refl)

lemma andthen:
  assumes m: "keeps R m" and f: "\<And>x. keeps R (f x)"
  shows "keeps R (andthen m f)"
  unfolding keeps_def
proof
  fix st :: team_state
  have m': "R st (snd (m st))" using m by (simp add: keeps_def)
  show "R st (snd (andthen m f st))"
    using andthen_state[of m f st]
  proof (elim disjE exE)
    assume "snd (andthen m f st) = snd (m st)"
    then show ?thesis using m' by simp
  next
    fix x
    assume "snd (andthen m f st) = snd (f x (snd (m st)))"
    then show ?thesis using trans[OF m'] f by (simp add: keeps_def)
  qed
qed

lemma andthen_from:
  assumes m: "keeps_from Q R m" "preserves Q m" and f: "\<And>x. keeps_from Q R (f x)"
  shows "keeps_from Q R (andthen m f)"
  unfolding keeps_from_def
proof (intro allI impI)
  fix st :: team_state
  assume q: "Q (st_plans st)"
  then have m': "R st (snd (m st))" "Q (st_plans (snd (m st)))" using m by (simp_all add: keeps_from_def preserves_def)
  show "R st (snd (andthen m f st))"
    using andthen_state[of m f st]
  proof (elim disjE exE)
    assume "snd (andthen m f st) = snd (m st)"
    then show ?thesis using m'(1) by simp
  next
    fix x
    assume "snd (andthen m f st) = snd (f x (snd (m st)))"
    then show ?thesis using trans[OF m'(1)] f m'(2) by (simp add: keeps_from_def)
  qed
qed

lemma attempt: "keeps R m \<Longrightarrow> keeps R (attempt m)"
  unfolding keeps_def
proof
  fix st
  assume m: "\<forall>st. R st (snd (m st))"
  show "R st (snd (attempt m st))" using m[THEN spec, of st] by (cases "m st") (simp add: attempt_def split: sum.splits)
qed

lemma for_each: "(\<And>x. keeps R (f x)) \<Longrightarrow> keeps R (for_each f xs)"
  by (induction xs) (simp_all add: succeed andthen)

lemma reading: "(\<And>b. keeps R (f b)) \<Longrightarrow> keeps R (reading f)"
  by (simp add: keeps_def reading_def)

lemma reading_plans: "(\<And>ps. keeps R (h ps)) \<Longrightarrow> keeps R (reading_plans h)"
  by (simp add: keeps_def reading_plans_def)

lemma publish: "keeps R (publish_task_event mg ev)" "keeps R (publish_or_raise mg ev)"
  by (simp_all add: keeps_def publish_task_event_def publish_or_raise_def refl frame)

lemma fresh_id: "keeps R (fresh_id mg given)"
  by (simp add: keeps_def fresh_id_def refl frame split: option.splits list.splits)

lemma now_iso: "keeps R (now_iso mg)"
  by (simp add: keeps_def now_iso_def frame)

lemma assert_ok: "keeps R (assert_ok r)"
  by (cases r) (simp_all add: assert_ok_def succeed failed)

lemma get_call: "keeps R (get_call mg tid)"
  by (simp add: get_call_def reading of_res)

lemma get_or_fail: "keeps R (get_or_fail mg tid)"
  unfolding get_or_fail_def by (rule andthen[OF get_call]) (simp add: failed succeed split: option.splits)

lemma list_tasks: "keeps R (list_tasks mg status)"
  by (simp add: list_tasks_def reading of_res)

lemma drained: "keeps R (maybe_publish_task_list_drained mg)"
  unfolding maybe_publish_task_list_drained_def by (rule reading) (simp add: succeed publish split: prod.splits)

lemmas rules = succeed failed of_res andthen attempt for_each reading reading_plans publish fresh_id now_iso assert_ok get_call get_or_fail list_tasks drained

end

text \<open>Looking at the board changes neither it nor the plans.\<close>

interpretation look: call_relation "\<lambda>st st'. st_board st' = st_board st \<and> st_plans st' = st_plans st"
  by unfold_locales simp_all

lemma looking_changes_nothing:
  "st_board (snd (list_tasks_with_deps mg status st)) = st_board st \<and> st_board (snd (get_task_detail mg tid st)) = st_board st \<and>
   st_board (snd (list_review_tasks mg name st)) = st_board st"
proof -
  let ?R = "\<lambda>st st'. st_board st' = st_board st \<and> st_plans st' = st_plans st"
  have "keeps ?R (list_tasks_with_deps mg status)"
    unfolding list_tasks_with_deps_def Let_def by (intro look.rules)
  moreover have "keeps ?R (get_task_detail mg tid)"
    unfolding get_task_detail_def by (rule look.andthen[OF look.get_call]) (auto split: option.splits intro!: look.rules)
  moreover have "keeps ?R (list_review_tasks mg name)"
    unfolding list_review_tasks_def get_review_tasks_def by (intro look.rules)
  ultimately show ?thesis by (simp add: keeps_def)
qed

section \<open>What every call keeps\<close>

text \<open>How the plans change: a file, the record of a new plan, the decision on a plan, or a note that leaves the decision.\<close>

inductive plan_step :: "plan_state \<Rightarrow> plan_state \<Rightarrow> bool" where
  filed: "ps_tasks ps' = ps_tasks ps \<Longrightarrow> ps_plans ps' = ps_plans ps \<Longrightarrow> plan_step ps ps'"
| submitted: "strip plan_id = plan_id \<Longrightarrow> dget_default [] (ps_plans ps) plan_id = [] \<Longrightarrow>
    plan_step ps (write_task_plan_index tid (submitted_record mg tid plan_id active source tool_call_id at1 at2) ps)"
| decided: "plan_step ps (write_task_plan_index tid
    (approval_record mg tid plan_id approved s feedback leader_name holder path at1 tool_call_id at2) ps)"
| noted: "''decision'' \<notin> fst ` set update \<Longrightarrow> plan_step ps (write_task_plan_index tid update ps)"

locale manager_relation = call_relation +
  fixes team :: string
  assumes board_write: "op_ok op \<Longrightarrow> R st (st\<lparr>st_board := board_step team op (st_board st)\<rparr>)"
    and plan_write: "plan_step (st_plans st) ps \<Longrightarrow> R st (st\<lparr>st_plans := ps\<rparr>)"
begin

lemma on_board:
  assumes "\<And>now. op_ok (op now)" and "\<And>now b. snd (f now b) = board_step team (op now) b"
  shows "keeps R (on_board mg f)"
  unfolding keeps_def
proof
  fix st :: team_state
  let ?now = "mg_time mg (st_ticks st)"
  have "R st (st\<lparr>st_board := board_step team (op ?now) (st_board st)\<rparr>)" by (rule board_write) (rule assms(1))
  then show "R st (snd (on_board mg f st))" by (rule trans) (simp add: on_board_def split_beta frame assms(2))
qed

lemma noted: "''decision'' \<notin> fst ` set update \<Longrightarrow> keeps R (on_plans (write_task_plan_index tid update))"
  by (simp add: keeps_def on_plans_def plan_write plan_step.noted)

lemma decided:
  "keeps R (on_plans (write_task_plan_index tid (approval_record mg tid plan_id approved s feedback leader_name holder path at1 tool_call_id at2)))"
  by (simp add: keeps_def on_plans_def plan_write plan_step.decided)

lemma copied: "keeps R (on_plans (copy_plan mg source target))"
  unfolding keeps_def on_plans_def
  by (auto simp: copy_plan_def refl split: option.splits intro!: plan_write plan_step.filed)

lemma write_calls:
  "s \<in> {InProgress, Planning} \<Longrightarrow> keeps R (on_board mg (\<lambda>now. claim_task tid m s now))"
  "s \<in> {InProgress, Planning} \<Longrightarrow> keeps R (on_board mg (\<lambda>now. start_task tid m s now))"
  "keeps R (on_board mg (\<lambda>now. reassign_task tid m m' now))"
  "keeps R (on_board mg (\<lambda>now. reset_task tid now))"
  "keeps R (on_board mg (\<lambda>now. submit_for_review tid now))"
  "keeps R (on_board mg (\<lambda>now. revise_task tid now))"
  "keeps R (on_board mg (\<lambda>now. approve_plan_task tid now))"
  "keeps R (on_board mg (\<lambda>now. complete_task tid now))"
  "keeps R (on_board mg (\<lambda>now. cancel_task tid now))"
  "keeps R (on_board mg (\<lambda>now. cancel_all_tasks team skip now))"
  "keeps R (on_board mg (\<lambda>now. update_task env tid title content))"
  "keeps R (on_board mg (\<lambda>now. set_reviewer tid r))"
  "keeps R (on_board mg (\<lambda>now. set_max_review_rounds tid n))"
  "keeps R (on_board mg (\<lambda>now b. ((), insert_review_vote (v now) b)))"
  by (rule on_board[where op = "\<lambda>now. BClaim tid m s now"] on_board[where op = "\<lambda>now. BStart tid m s now"]
      on_board[where op = "\<lambda>now. BReassign tid m m' now"] on_board[where op = "\<lambda>now. BReset tid now"] on_board[where op = "\<lambda>now. BSubmit tid now"]
      on_board[where op = "\<lambda>now. BRevise tid now"] on_board[where op = "\<lambda>now. BApprove tid now"] on_board[where op = "\<lambda>now. BComplete tid now"]
      on_board[where op = "\<lambda>now. BCancel tid now"] on_board[where op = "\<lambda>now. BCancelAll skip now"]
      on_board[where op = "\<lambda>now. BUpdate env tid title content"] on_board[where op = "\<lambda>now. BReviewer tid r"]
      on_board[where op = "\<lambda>now. BMaxRounds tid n"] on_board[where op = "\<lambda>now. BVote (v now)"]; simp; fail)+

lemma entry_ok: "entry_status mg m \<in> {InProgress, Planning}"
  by (simp add: entry_status_def)

lemma start_task: "keeps R (start_task_call mg tid)"
  unfolding start_task_call_def
  by (auto split: option.splits intro!: rules write_calls(2) entry_ok simp del: insert_iff)

lemma start_human: "keeps R (start_human_assigned_task_if_ready mg tid status assignee)"
  unfolding start_human_assigned_task_if_ready_def by (auto split: option.splits intro!: rules start_task)

lemma unblocked: "keeps R (handle_unblocked_tasks mg rows)"
  unfolding handle_unblocked_tasks_def by (auto intro!: rules start_human)

lemma note_completed: "keeps R (note_completed_plan mg tid holder)"
  unfolding note_completed_plan_def by (auto intro!: rules noted split: option.splits)

lemma after: "keeps R note \<Longrightarrow> keeps R (after_completion mg ev note rows)"
  unfolding after_completion_def by (intro rules unblocked)

lemma complete_call: "keeps R (complete_call mg tid)"
  unfolding complete_call_def by (intro andthen write_calls of_res)

lemma build: "keeps R (build_specs mg gs)"
  by (induction gs) (auto intro!: rules)

lemma report: "keeps R (report_created mg refreshed ns)"
  by (induction ns) (auto simp: Let_def intro!: rules start_human)

lemma verdicts:
  "keeps R (verify_pass mg tid)" "keeps R (verify_fail mg tid t feedback)" "keeps R (record_review_vote mg tid t decision feedback)"
  unfolding verify_pass_def verify_fail_def record_review_vote_def Let_def
  by (auto split: option.splits intro!: rules complete_call after write_calls)

lemma reserve: "keeps R (reserve_for_planning mg tid t)"
  unfolding reserve_for_planning_def by (auto intro!: rules write_calls)

lemma reserve_plans: "st_plans (snd (reserve_for_planning mg tid t st)) = st_plans st"
  by (auto simp: reserve_for_planning_def andthen_def on_board_def Team_Manager.failed_def Team_Manager.succeed_def split: prod.splits sum.splits)

text \<open>The rest of a submission, while there is no record of the plan.\<close>

lemma submit_rest:
  assumes rest: "\<And>x. keeps R (g x)" and pid: "strip plan_id = plan_id"
  shows "keeps_from (\<lambda>ps. dget_default [] (ps_plans ps) plan_id = []) R
    (andthen (reserve_for_planning mg tid t) (\<lambda>active.
     andthen (on_plans (copy_plan mg source target)) (\<lambda>_.
     andthen (now_iso mg) (\<lambda>at1.
     andthen (now_iso mg) (\<lambda>at2.
     andthen (on_plans (write_task_plan_index tid (submitted_record mg tid plan_id active source tool_call_id at1 at2))) (\<lambda>_. g active))))))"
    (is "keeps_from ?Q R _")
proof -
  have weak: "keeps R m \<Longrightarrow> keeps_from ?Q R m" for m :: "'x call" by (simp add: keeps_def keeps_from_def)
  have iso: "keeps_from ?Q R (now_iso mg)" "preserves ?Q (now_iso mg)" using now_iso[of mg]
    by (simp_all add: keeps_def keeps_from_def preserves_def now_iso_def)
  have res: "keeps_from ?Q R (reserve_for_planning mg tid t)" "preserves ?Q (reserve_for_planning mg tid t)"
    using reserve[of mg tid t] by (simp_all add: keeps_def keeps_from_def preserves_def reserve_plans)
  have copy: "keeps_from ?Q R (on_plans (copy_plan mg source target))" "preserves ?Q (on_plans (copy_plan mg source target))"
    using copied[of mg source target] by (auto simp: keeps_def keeps_from_def preserves_def on_plans_def copy_plan_def split: option.splits)
  have last: "keeps_from ?Q R (andthen (on_plans (write_task_plan_index tid (submitted_record mg tid plan_id active source tool_call_id at1 at2))) (\<lambda>_. g active))"
    for active at1 at2
    unfolding keeps_from_def
  proof (intro allI impI)
    fix st :: team_state
    assume "?Q (st_plans st)"
    then have "R st (st\<lparr>st_plans := write_task_plan_index tid (submitted_record mg tid plan_id active source tool_call_id at1 at2) (st_plans st)\<rparr>)"
      by (intro plan_write plan_step.submitted pid)
    then show "R st (snd (andthen (on_plans (write_task_plan_index tid (submitted_record mg tid plan_id active source tool_call_id at1 at2))) (\<lambda>_. g active) st))"
      using trans rest by (auto simp: andthen_def on_plans_def keeps_def)
  qed
  show ?thesis by (rule andthen_from[OF res], rule andthen_from[OF copy], rule andthen_from[OF iso], rule andthen_from[OF iso], rule last)
qed

lemma submit_plan: "keeps R (submit_plan mg tid path given tool_call_id)"
proof -
  have read: "keeps R (reading_plans h)" if "\<And>st. R st (snd (h (st_plans st) st))" for h :: "plan_state \<Rightarrow> 'x call"
    using that by (simp add: keeps_def reading_plans_def)
  show ?thesis
    unfolding submit_plan_def Let_def
  proof (intro if_split[where P = "keeps R", THEN iffD2] conjI impI failed andthen get_or_fail fresh_id read)
    fix t :: team_task and drawn :: string and st :: team_state
    let ?pid = "safe_token drawn ''plan''"
    let ?body = "\<lambda>source. andthen (reserve_for_planning mg tid t) (\<lambda>active.
       andthen (on_plans (copy_plan mg source (task_plan_path mg tid ?pid))) (\<lambda>_.
       andthen (now_iso mg) (\<lambda>submitted_at.
       andthen (now_iso mg) (\<lambda>updated_at.
       andthen (on_plans (write_task_plan_index tid (submitted_record mg tid ?pid active source tool_call_id submitted_at updated_at))) (\<lambda>_.
       andthen (publish_task_event mg (EvPlanRequest tid (mg_self mg) active ?pid (task_plan_path mg tid ?pid) tool_call_id)) (\<lambda>_.
         case notify_leader_of_plan mg of
           None \<Rightarrow> Team_Manager.succeed (?pid, active, None)
         | Some message_id \<Rightarrow>
             andthen (now_iso mg) (\<lambda>noted_at.
             andthen (on_plans (write_task_plan_index tid
                 [(''plan_id'', PText ?pid), (''leader_message_id'', PText message_id), (''updated_at'', PText noted_at)])) (\<lambda>_.
               Team_Manager.succeed (?pid, active, Some message_id)))))))))"
    have body: "keeps_from (\<lambda>ps. dget_default [] (ps_plans ps) ?pid = []) R (?body source)" for source
    proof (rule submit_rest)
      have "strip ''plan'' = ''plan''" by code_simp
      then show "strip ?pid = ?pid" by (rule strip_safe_token)
    qed (auto split: option.splits intro!: rules noted)
    show "R st (snd ((if dget_default [] (ps_plans (st_plans st)) ?pid \<noteq> [] then Team_Manager.failed (PlanExists ?pid)
        else (case resolve_submitted_plan_path mg path (st_plans st) of None \<Rightarrow> Team_Manager.failed BadPlanPath | Some source \<Rightarrow> ?body source)) st))"
      using body refl by (auto simp: keeps_from_def Team_Manager.failed_def split: option.splits)
  qed
qed

lemma approve_plan: "keeps R (approve_plan mg plan_id approved feedback leader)"
  unfolding approve_plan_def decide_plan_def Let_def by (auto split: option.splits intro!: rules write_calls decided)

lemma mutate:
  assumes "manager_ok team mg" and "list_all spec_ok specs"
  shows "keeps R (mutate_call mg specs edges)"
  unfolding mutate_call_def
proof (rule andthen)
  show "keeps R (on_board mg (\<lambda>now. mutate_dependency_graph (mg_files mg) (mg_order mg) now (mg_team mg) specs edges))"
    by (rule on_board[where op = "\<lambda>now. BMutate (mg_files mg) (mg_order mg) now specs edges"])
      (use assms in \<open>simp_all add: manager_ok_def\<close>)
qed (auto split: sum.splits intro!: rules)

lemma add_graph:
  assumes ok: "manager_ok team mg"
  shows "keeps R (add_graph mg gs)"
  unfolding keeps_def
proof
  fix st :: team_state
  obtain r st1 where b: "build_specs mg gs st = (r, st1)" by (cases "build_specs mg gs st")
  have b1: "R st st1" using build[of mg gs] by (auto simp: keeps_def b dest: spec[of _ st])
  show "R st (snd (add_graph mg gs st))"
  proof (cases "\<exists>specs edges. r = Inr (Inr (specs, edges))")
    case True
    then obtain specs edges where r: "r = Inr (Inr (specs, edges))" by blast
    then have "list_all spec_ok specs" using build_specs_ok[OF ok, of gs st specs edges] b by simp
    then have "keeps R (andthen (mutate_call mg specs edges) (\<lambda>refreshed. report_created mg (fold (\<lambda>(tid, t). dset tid t) refreshed []) specs))"
      by (intro andthen mutate[OF ok] report)
    then show ?thesis using trans[OF b1] by (simp add: add_graph_def andthen_def[of "build_specs mg gs"] b r keeps_def)
  next
    case False
    then show ?thesis using b1 by (auto simp: add_graph_def andthen_def[of "build_specs mg gs"] b split: sum.splits)
  qed
qed

lemma every_call:
  assumes ok: "manager_ok team mg"
  shows "R st (make_call mg c st)"
proof -
  have team: "mg_team mg = team" using ok by (simp add: manager_ok_def)
  have "keeps R (add_single mg title content tid deps)" for title content tid deps
    unfolding add_single_def by (intro rules add_graph[OF ok])
  moreover have "keeps R (add_dependencies mg tid deps)" for tid deps
    unfolding add_dependencies_def by (auto intro!: rules mutate[OF ok])
  moreover have "keeps R (assign mg tid m)" for tid m
    unfolding assign_def by (auto intro!: rules write_calls entry_ok simp del: insert_iff)
  moreover have "keeps R (claim mg tid)" for tid
    unfolding claim_def Let_def by (auto split: option.splits intro!: rules write_calls)
  moreover have "keeps R (reset mg tid)" for tid
    unfolding reset_def by (auto intro!: rules write_calls)
  moreover have "keeps R (reassign mg tid m)" for tid m
    unfolding reassign_def by (auto split: option.splits intro!: rules write_calls)
  moreover have "keeps R (complete mg tid)" for tid
    unfolding complete_def submit_for_review_call_def
    by (auto split: option.splits intro!: rules write_calls complete_call after note_completed)
  moreover have "keeps R (cancel mg tid)" for tid
    unfolding cancel_def by (auto split: option.splits intro!: rules write_calls after)
  moreover have "keeps R (cancel_all_call mg skip)" for skip
    unfolding cancel_all_call_def team by (auto intro!: rules write_calls unblocked)
  moreover have "keeps R (update_task_call mg tid title content)" for tid title content
    unfolding update_task_call_def by (auto intro!: rules write_calls)
  moreover have "keeps R (set_reviewer_call mg tid entries)" for tid entries
    unfolding set_reviewer_call_def by (auto intro!: rules write_calls)
  moreover have "keeps R (set_max_review_rounds_call mg tid n)" for tid n
    unfolding set_max_review_rounds_call_def by (auto intro!: rules write_calls)
  moreover have "keeps R (verify_task mg tid decision feedback)" for tid decision feedback
    unfolding verify_task_def by (auto split: sum.splits intro!: rules verdicts)
  moreover have "keeps R (settle_review mg tid decision feedback)" for tid decision feedback
    unfolding settle_review_def Let_def by (auto intro!: rules verdicts)
  ultimately show ?thesis using add_graph[OF ok] start_task submit_plan approve_plan by (cases c) (simp_all add: keeps_def)
qed

lemma every_run: "list_all (\<lambda>(mg, c). manager_ok team mg) calls \<Longrightarrow> R st (run_calls calls st)"
proof (induction calls arbitrary: st)
  case (Cons mc calls)
  obtain mg c where mc: "mc = (mg, c)" by (cases mc)
  have "R st (make_call mg c st)" using every_call Cons.prems by (simp add: mc)
  moreover have "R (make_call mg c st) (run_calls calls (make_call mg c st))" using Cons by (simp add: mc)
  ultimately show ?case using trans by (simp add: run_calls_def mc)
qed (simp add: run_calls_def refl)

end

section \<open>Every call is a run of writes\<close>

definition reaches :: "string \<Rightarrow> board \<Rightarrow> board \<Rightarrow> bool" where
  "reaches team b c \<longleftrightarrow> (\<exists>ops. list_all op_ok ops \<and> c = run_board team ops b)"

lemma reaches_refl: "reaches team b b"
  unfolding reaches_def by (rule exI[of _ "[]"]) simp

lemma reaches_trans: "reaches team b c \<Longrightarrow> reaches team c d \<Longrightarrow> reaches team b d"
  unfolding reaches_def
proof (elim exE conjE)
  fix ops ops'
  assume "list_all op_ok ops" "list_all op_ok ops'" "c = run_board team ops b" "d = run_board team ops' c"
  then have "list_all op_ok (ops @ ops') \<and> d = run_board team (ops @ ops') b" by simp
  then show "\<exists>ops. list_all op_ok ops \<and> d = run_board team ops b" by blast
qed

lemma reaches_step: "op_ok op \<Longrightarrow> reaches team b (board_step team op b)"
  unfolding reaches_def by (rule exI[of _ "[op]"]) simp

interpretation run: manager_relation "\<lambda>st st'. reaches team (st_board st) (st_board st')" team for team
  by unfold_locales (auto intro: reaches_refl reaches_trans reaches_step)

text \<open>A decision on a plan is not taken back.\<close>

definition plan_decided :: "string \<Rightarrow> plan_state \<Rightarrow> bool" where
  "plan_decided plan_id ps \<longleftrightarrow>
     (case dget (dget_default [] (ps_plans ps) plan_id) ''decision'' of None \<Rightarrow> False | Some v \<Rightarrow> v \<noteq> PText ''pending'')"

lemma over_get: "dget (over r update) k = (case dget (rev update) k of None \<Rightarrow> dget r k | Some v \<Rightarrow> Some v)"
  unfolding over_def
proof (induction update arbitrary: r)
  case (Cons kv update)
  then show ?case by (cases kv) (auto simp: map_add_def split: option.splits)
qed simp

lemma written_decision:
  "dget (dget_default [] (ps_plans (write_task_plan_index tid update ps)) plan_id) ''decision'' =
     (if strip (text_of update ''plan_id'') = plan_id \<and> plan_id \<noteq> [] \<and> dget (rev update) ''decision'' \<noteq> None then dget (rev update) ''decision''
      else dget (dget_default [] (ps_plans ps) plan_id) ''decision'')"
  by (auto simp: write_task_plan_index_def Let_def over_get split: option.splits)

lemma plan_step_decided:
  assumes "plan_step ps ps'" and "plan_decided plan_id ps"
  shows "plan_decided plan_id ps'"
  using assms
proof cases
  case filed
  then show ?thesis using assms(2) by (simp add: plan_decided_def)
next
  case (submitted pid tid mg active source tool_call_id at1 at2)
  have "strip (text_of (submitted_record mg tid pid active source tool_call_id at1 at2) ''plan_id'') = pid"
    using submitted by (simp add: submitted_record_def text_of_def)
  moreover have "pid \<noteq> plan_id" using submitted assms(2) by (auto simp: plan_decided_def)
  ultimately show ?thesis using assms(2) unfolding plan_decided_def submitted(1) written_decision by simp
next
  case (decided tid mg pid approved s feedback leader_name holder path at1 tool_call_id at2)
  have "dget (rev (approval_record mg tid pid approved s feedback leader_name holder path at1 tool_call_id at2)) ''decision'' =
      Some (PText (if approved then ''approve'' else ''reject''))"
    by (simp add: approval_record_def)
  then show ?thesis using assms(2) unfolding plan_decided_def decided(1) written_decision by simp
next
  case (noted update tid)
  have "dget (rev update) ''decision'' = None" using noted(2) by (simp add: dget_None_iff)
  then show ?thesis using assms(2) unfolding plan_decided_def noted(1) written_decision by simp
qed

interpretation decision: manager_relation "\<lambda>st st'. plan_decided plan_id (st_plans st) \<longrightarrow> plan_decided plan_id (st_plans st')" team for plan_id team
  by unfold_locales (auto intro: plan_step_decided)

text \<open>C3: whatever the members call, with whatever results, the board they leave is one that single writes of the data
  access object lead to; so what holds of every run of writes holds of the calls, and the board they began with sound
  is sound.
\<close>

theorem calls_are_runs_of_writes:
  assumes "list_all (\<lambda>(mg, c). manager_ok team mg) calls"
  shows "(\<exists>ops. list_all op_ok ops \<and> st_board (run_calls calls st) = run_board team ops (st_board st)) \<and>
    (board_ok team (st_board st) \<longrightarrow> board_ok team (st_board (run_calls calls st)))"
  using run.every_run[OF assms, of st] run_board_ok unfolding reaches_def by metis

definition demo_manager :: "string \<Rightarrow> bool \<Rightarrow> manager" where
  "demo_manager self scheduled =
     \<lparr>mg_team = ''team'', mg_self = self, mg_leader = ''boss'', mg_scheduled = scheduled,
      mg_members =
        [(''boss'', \<lparr>mr_mode = BuildMode, mr_human = False, mr_status = MReady\<rparr>),
         (''m'', \<lparr>mr_mode = BuildMode, mr_human = False, mr_status = MReady\<rparr>),
         (''n'', \<lparr>mr_mode = PlanMode, mr_human = False, mr_status = MReady\<rparr>),
         (''h'', \<lparr>mr_mode = BuildMode, mr_human = True, mr_status = MBusy\<rparr>)],
      mg_files = demo_env, mg_order = id, mg_time = (\<lambda>n. int n), mg_uuid = (\<lambda>n. replicate (n + 1) CHR ''x''), mg_publish = (\<lambda>ev. True), mg_plans_dir = ''d'', mg_plan_id = ''s'', mg_resolve = (\<lambda>p. p), mg_iso = (\<lambda>n. []),
      mg_mail = (\<lambda>m. Some ''i'')\<rparr>"

definition demo_state :: team_state where
  "demo_state = \<lparr>st_board = board_init, st_ticks = 0, st_ids = 0, st_events = [],
     st_plans = \<lparr>ps_tasks = [], ps_plans = [], ps_files = [(''f'', ''x'')]\<rparr>\<rparr>"

definition demo_graph_spec :: "string \<Rightarrow> string list \<Rightarrow> string option \<Rightarrow> reviewer_entry list \<Rightarrow> graph_spec" where
  "demo_graph_spec tid deps assignee rs =
     \<lparr>gs_title = ''t'', gs_content = ''c'', gs_id = Some tid, gs_depends_on = deps, gs_depended_by = [], gs_assignee = assignee,
      gs_reviewer = rs, gs_max_rounds = None\<rparr>"

text \<open>Two tasks; the first is completed by its holder, which starts the human's one.\<close>

definition demo_calls :: "(manager \<times> manager_call) list" where
  "demo_calls =
     [(demo_manager ''boss'' False, CAddGraph [demo_graph_spec ''a'' [] None [], demo_graph_spec ''b'' [''a''] (Some ''h'') []]),
      (demo_manager ''m'' False, CClaim ''a''), (demo_manager ''n'' False, CClaim ''b''), (demo_manager ''m'' False, CComplete ''a'')]"

lemma demo_manager_ok: "manager_ok ''team'' (demo_manager self scheduled)"
  by (simp add: manager_ok_def demo_manager_def set_order_def)

lemma demo_calls_ok: "list_all (\<lambda>(mg, c). manager_ok ''team'' mg) demo_calls"
  by (simp add: demo_calls_def demo_manager_ok)

lemma calls_are_runs_of_writes_witness:
  "(\<exists>ops. list_all op_ok ops \<and> st_board (run_calls demo_calls demo_state) = run_board ''team'' ops (st_board demo_state)) \<and>
   map (status_at (st_board (run_calls demo_calls demo_state))) [''a'', ''b''] = [Some Completed, Some InProgress] \<and>
   st_events (run_calls demo_calls demo_state) =
     [EvCreated ''a'' Pending, EvCreated ''b'' Blocked, EvClaimed ''a'' ''m'', EvCompleted ''a'' (Some ''m''), EvStarted ''b'' ''h'', EvUnblocked ''b'']"
proof (intro conjI)
  show "\<exists>ops. list_all op_ok ops \<and> st_board (run_calls demo_calls demo_state) = run_board ''team'' ops (st_board demo_state)"
    by (rule calls_are_runs_of_writes[OF demo_calls_ok, THEN conjunct1])
qed code_simp+

section \<open>Plans are decided once\<close>

text \<open>What holds of the plans whenever a call succeeds.\<close>

definition ensures :: "(plan_state \<Rightarrow> bool) \<Rightarrow> 'a call \<Rightarrow> bool" where
  "ensures Q m \<longleftrightarrow> (\<forall>st x. fst (m st) = Inr (Inr x) \<longrightarrow> Q (st_plans (snd (m st))))"

lemma ensures_failed: "ensures Q (failed f)"
  by (simp add: ensures_def failed_def)

lemma ensures_andthen: "(\<And>x. ensures Q (f x)) \<Longrightarrow> ensures Q (andthen m f)"
  unfolding ensures_def by (auto simp: andthen_def split: prod.splits sum.splits)

lemma ensures_written:
  "(\<And>ps. Q (w ps)) \<Longrightarrow> ensures Q (andthen (on_plans w) (\<lambda>_. publish_task_event mg ev))"
  by (simp add: ensures_def andthen_def on_plans_def publish_task_event_def)

lemma ensures_reading_plans: "(\<And>ps. ensures Q (h ps)) \<Longrightarrow> ensures Q (reading_plans h)"
  by (simp add: ensures_def reading_plans_def)

lemma approval_decides:
  assumes "strip plan_id = plan_id" and "plan_id \<noteq> []"
  shows "plan_decided plan_id (write_task_plan_index tid (approval_record mg tid plan_id approved s feedback leader holder path at1 tool at2) ps)"
proof -
  let ?r = "approval_record mg tid plan_id approved s feedback leader holder path at1 tool at2"
  have "strip (text_of ?r ''plan_id'') = plan_id" using assms(1) by (simp add: approval_record_def text_of_def)
  moreover have "dget (rev ?r) ''decision'' = Some (PText (if approved then ''approve'' else ''reject''))" by (simp add: approval_record_def)
  ultimately show ?thesis using assms(2) unfolding plan_decided_def written_decision by simp
qed

lemma approved_is_decided:
  assumes "strip plan_id = plan_id"
  shows "ensures (plan_decided plan_id) (approve_plan mg plan_id approved feedback leader)"
proof (cases "plan_id = []")
  case False
  show ?thesis
    using False unfolding approve_plan_def decide_plan_def Let_def
    by (auto split: option.splits intro!: ensures_reading_plans ensures_failed ensures_andthen ensures_written approval_decides[OF assms])
qed (simp add: approve_plan_def ensures_failed)

lemma decided_is_refused:
  assumes "plan_decided plan_id (st_plans st)"
  shows "fst (approve_plan mg plan_id approved feedback leader st) \<noteq> Inr (Inr ())"
proof -
  have d: "dget (dget_default [] (ps_plans (st_plans st)) plan_id) ''decision'' \<noteq> Some (PText ''pending'')"
    using assms by (auto simp: plan_decided_def)
  then have "ensures (\<lambda>_. False) (decide_plan mg plan_id approved feedback leader (st_plans st))"
    unfolding decide_plan_def Let_def by (auto split: option.splits intro!: ensures_failed ensures_andthen)
  then show ?thesis by (auto simp: approve_plan_def reading_plans_def failed_def ensures_def)
qed

text \<open>C5: a plan is decided once: when a call has approved or rejected a plan, no call decides it again, whatever the
  members of the team do in between, submitting plans under the same id included.\<close>

theorem plan_decided_once:
  assumes "strip plan_id = plan_id" and "fst (approve_plan mg plan_id approved feedback leader st) = Inr (Inr ())"
    and "list_all (\<lambda>(mg, c). manager_ok team mg) calls"
  shows "fst (approve_plan mg' plan_id approved' feedback' leader'
      (run_calls calls (snd (approve_plan mg plan_id approved feedback leader st)))) \<noteq> Inr (Inr ())"
proof (rule decided_is_refused)
  have "plan_decided plan_id (st_plans (snd (approve_plan mg plan_id approved feedback leader st)))"
    using approved_is_decided[OF assms(1)] assms(2) by (simp add: ensures_def)
  then show "plan_decided plan_id (st_plans (run_calls calls (snd (approve_plan mg plan_id approved feedback leader st))))"
    using decision.every_run[OF assms(3)] by blast
qed

text \<open>A plan of the plan mode member is rejected; the member submits under the same id and under another.\<close>

definition demo_task :: "task_status \<Rightarrow> string option \<Rightarrow> team_task" where
  "demo_task status assignee =
     \<lparr>tt_team = ''team'', tt_title = [], tt_content = [], tt_status = status, tt_assignee = assignee, tt_reviewer = None, tt_round = 0,
      tt_max_rounds = None, tt_updated = 0\<rparr>"

definition demo_planned :: team_state where
  "demo_planned =
     make_call (demo_manager ''n'' False) (CSubmitPlan ''a'' ''f'' (Some ''p'') [])
       (demo_state\<lparr>st_board := put_task ''a'' (demo_task Pending None) board_init\<rparr>)"

definition demo_replan :: "(manager \<times> manager_call) list" where
  "demo_replan =
     [(demo_manager ''n'' False, CSubmitPlan ''a'' ''f'' (Some ''p'') []), (demo_manager ''n'' False, CSubmitPlan ''a'' ''f'' (Some ''q'') [])]"

lemma demo_replan_ok: "list_all (\<lambda>(mg, c). manager_ok ''team'' mg) demo_replan"
  by (simp add: demo_replan_def demo_manager_ok)

lemma demo_plan_rejected: "fst (approve_plan (demo_manager ''boss'' False) ''p'' False ''no'' None demo_planned) = Inr (Inr ())"
  by code_simp

lemma plan_decided_once_witness:
  "fst (approve_plan (demo_manager ''boss'' False) ''p'' True [] None
      (run_calls demo_replan (snd (approve_plan (demo_manager ''boss'' False) ''p'' False ''no'' None demo_planned)))) \<noteq> Inr (Inr ())"
proof -
  have "strip ''p'' = ''p''" by code_simp
  then show ?thesis by (rule plan_decided_once[OF _ demo_plan_rejected demo_replan_ok])
qed

section \<open>The verdict on a review\<close>

text \<open>What the votes of the round say: the latest of each reviewer, and the scores of the inspectors in their order.\<close>

definition latest_vote :: "string \<Rightarrow> team_task \<Rightarrow> board \<Rightarrow> string \<Rightarrow> string option" where
  "latest_vote tid t b name =
     map_option rv_decision (find (\<lambda>v. rv_task v = tid \<and> rv_round v = tt_round t \<and> rv_reviewer v = name) (rev (bd_votes b)))"

definition is_inspector :: "team_task \<Rightarrow> string \<Rightarrow> bool" where
  "is_inspector t name \<longleftrightarrow> dget (type_map t) name = Some ''inspector''"

definition inspector_scores :: "string \<Rightarrow> team_task \<Rightarrow> board \<Rightarrow> rat list" where
  "inspector_scores tid t b =
     List.map_filter (\<lambda>name. Option.bind (latest_vote tid t b name) score_of) (pyset (filter (is_inspector t) (reviewers t)))"

lemma latest_votes_get:
  "dget (fold (\<lambda>v d. if rv_reviewer v \<in> set names then dset (rv_reviewer v) v d else d) votes d0) name =
     (case find (\<lambda>v. rv_reviewer v = name) (rev votes) of
        Some v \<Rightarrow> if name \<in> set names then Some v else dget d0 name
      | None \<Rightarrow> dget d0 name)"
proof (induction votes rule: rev_induct)
  case (snoc v votes)
  then show ?case by (auto split: option.splits)
qed simp

lemma find_filter: "find P (filter Q xs) = find (\<lambda>x. Q x \<and> P x) xs"
  by (induction xs) auto

lemma latest_decision:
  assumes "name \<in> set (reviewers t)"
  shows "map_option rv_decision (dget (latest_votes (reviewers t) (get_review_votes tid (tt_round t) b)) name) = latest_vote tid t b name"
  using assms by (simp add: latest_votes_def latest_votes_get get_review_votes_def rev_filter find_filter latest_vote_def conj_assoc split: option.splits)


lemma pyset_snoc: "pyset (xs @ [x]) = sadd x (pyset xs)"
  by (simp add: pyset_def sunion_def)

lemma dset_same: "dget d k = Some v \<Longrightarrow> dset k v d = d"
  by (induction d) (auto split: if_splits)

lemma dget_filter_keyed: "dget (List.map_filter (\<lambda>n. map_option (Pair n) (g n)) ns) k = (if k \<in> set ns then g k else None)"
  by (induction ns) (auto simp: map_filter_simps split: option.splits)

lemma keyed_fold:
  "fold (\<lambda>n d. case g n of None \<Rightarrow> d | Some x \<Rightarrow> dset n x d) ns [] = List.map_filter (\<lambda>n. map_option (Pair n) (g n)) (pyset ns)"
proof (induction ns rule: rev_induct)
  case (snoc n ns)
  let ?l = "List.map_filter (\<lambda>n. map_option (Pair n) (g n)) (pyset ns)"
  have look: "dget ?l n = (if n \<in> set ns then g n else None)" using dget_filter_keyed[of g "pyset ns" n] by simp
  show ?case
  proof (cases "g n")
    case None
    then show ?thesis using snoc by (simp add: pyset_snoc sadd_def map_filter_def)
  next
    case (Some x)
    show ?thesis
    proof (cases "n \<in> set ns")
      case True
      then have "dset n x ?l = ?l" using look Some by (intro dset_same) simp
      then show ?thesis using snoc True Some by (simp add: pyset_snoc sadd_def)
    next
      case False
      then have "dset n x ?l = ?l @ [(n, x)]" using look by (intro dset_new) (simp add: in_keys_iff)
      then show ?thesis using snoc False Some by (simp add: pyset_snoc sadd_def map_filter_def)
    qed
  qed
qed (simp add: pyset_def sunion_def map_filter_def)

lemma count_one:
  assumes "insp \<longleftrightarrow> dget types name = Some ''inspector''"
  shows "tl_total (count_vote types latest name ta) = tl_total ta + (if insp then 0 else 1)"
    "tl_verdict_voted (count_vote types latest name ta) = tl_verdict_voted ta + (if \<not> insp \<and> dget latest name \<noteq> None then 1 else 0)"
    "tl_fail (count_vote types latest name ta) = tl_fail ta + (if \<not> insp \<and> map_option rv_decision (dget latest name) = Some ''fail'' then 1 else 0)"
    "tl_inspectors (count_vote types latest name ta) = tl_inspectors ta + (if insp then 1 else 0)"
    "tl_inspector_voted (count_vote types latest name ta) = tl_inspector_voted ta + (if insp \<and> dget latest name \<noteq> None then 1 else 0)"
    "tl_scores (count_vote types latest name ta) =
       (case (if insp then Option.bind (map_option rv_decision (dget latest name)) score_of else None) of
          None \<Rightarrow> tl_scores ta | Some x \<Rightarrow> dset name x (tl_scores ta))"
proof -
  have "insp \<longleftrightarrow> (case dget types name of None \<Rightarrow> ''verifier'' | Some ty \<Rightarrow> ty) = ''inspector''"
    using assms by (cases "dget types name") auto
  then show "tl_total (count_vote types latest name ta) = tl_total ta + (if insp then 0 else 1)"
    "tl_verdict_voted (count_vote types latest name ta) = tl_verdict_voted ta + (if \<not> insp \<and> dget latest name \<noteq> None then 1 else 0)"
    "tl_fail (count_vote types latest name ta) = tl_fail ta + (if \<not> insp \<and> map_option rv_decision (dget latest name) = Some ''fail'' then 1 else 0)"
    "tl_inspectors (count_vote types latest name ta) = tl_inspectors ta + (if insp then 1 else 0)"
    "tl_inspector_voted (count_vote types latest name ta) = tl_inspector_voted ta + (if insp \<and> dget latest name \<noteq> None then 1 else 0)"
    "tl_scores (count_vote types latest name ta) =
       (case (if insp then Option.bind (map_option rv_decision (dget latest name)) score_of else None) of
          None \<Rightarrow> tl_scores ta | Some x \<Rightarrow> dset name x (tl_scores ta))"
    unfolding count_vote_def Let_def by (cases insp; cases "dget latest name"; simp split: option.split)+
qed

lemma count_all:
  fixes types latest
  defines "insp \<equiv> \<lambda>n. dget types n = Some ''inspector''" and "dec \<equiv> \<lambda>n. map_option rv_decision (dget latest n)"
  shows "tl_total (fold (count_vote types latest) ns ta) = tl_total ta + length (filter (\<lambda>n. \<not> insp n) ns) \<and>
    tl_verdict_voted (fold (count_vote types latest) ns ta) = tl_verdict_voted ta + length (filter (\<lambda>n. \<not> insp n \<and> dec n \<noteq> None) ns) \<and>
    tl_fail (fold (count_vote types latest) ns ta) = tl_fail ta + length (filter (\<lambda>n. \<not> insp n \<and> dec n = Some ''fail'') ns) \<and>
    tl_inspectors (fold (count_vote types latest) ns ta) = tl_inspectors ta + length (filter insp ns) \<and>
    tl_inspector_voted (fold (count_vote types latest) ns ta) = tl_inspector_voted ta + length (filter (\<lambda>n. insp n \<and> dec n \<noteq> None) ns) \<and>
    tl_scores (fold (count_vote types latest) ns ta) =
      fold (\<lambda>n d. case Option.bind (dec n) score_of of None \<Rightarrow> d | Some x \<Rightarrow> dset n x d) (filter insp ns) (tl_scores ta)"
proof (induction ns arbitrary: ta)
  case (Cons n ns)
  note one = count_one[of "insp n" types n latest ta]
  show ?case using Cons[of "count_vote types latest n ta"] one unfolding insp_def dec_def
    by (cases "dget types n = Some ''inspector''"; cases "dget latest n") simp_all
qed simp

lemma length_filter_less: "length (filter (\<lambda>n. P n \<and> Q n) ns) < length (filter P ns) \<longleftrightarrow> (\<exists>n\<in>set ns. P n \<and> \<not> Q n)"
proof -
  have "length (filter P ns) = length (filter (\<lambda>n. P n \<and> Q n) ns) + length (filter (\<lambda>n. P n \<and> \<not> Q n) ns)"
    by (induction ns) auto
  then have "length (filter (\<lambda>n. P n \<and> Q n) ns) < length (filter P ns) \<longleftrightarrow> filter (\<lambda>n. P n \<and> \<not> Q n) ns \<noteq> []" by auto
  then show ?thesis by (auto simp: filter_empty_conv)
qed

lemma tally_facts:
  fixes tid t b
  defines "tally \<equiv> get_review_tally tid t b" and "vote \<equiv> latest_vote tid t b"
  shows "tl_total tally > 0 \<and> tl_verdict_voted tally < tl_total tally \<longleftrightarrow> (\<exists>n\<in>set (reviewers t). \<not> is_inspector t n \<and> vote n = None)"
    and "tl_total tally > 0 \<and> tl_fail tally > 0 \<longleftrightarrow> (\<exists>n\<in>set (reviewers t). \<not> is_inspector t n \<and> vote n = Some ''fail'')"
    and "tl_inspectors tally > 0 \<longleftrightarrow> (\<exists>n\<in>set (reviewers t). is_inspector t n)"
    and "tl_inspector_voted tally < tl_inspectors tally \<longleftrightarrow> (\<exists>n\<in>set (reviewers t). is_inspector t n \<and> vote n = None)"
    and "tl_avg tally = (if inspector_scores tid t b = [] then None else Some (fl_avg (inspector_scores tid t b)))"
proof -
  let ?ns = "reviewers t" and ?L = "latest_votes (reviewers t) (get_review_votes tid (tt_round t) b)"
  let ?z = "\<lparr>tl_pass = 0, tl_fail = 0, tl_reviewers = length ?ns, tl_voted = sort (dkeys ?L), tl_fail_feedback = [], tl_total = 0,
             tl_verdict_voted = 0, tl_inspectors = 0, tl_inspector_voted = 0, tl_scores = [], tl_avg = None\<rparr> :: review_tally"
  define f where "f = fold (count_vote (type_map t) ?L) ?ns ?z"
  have d: "map_option rv_decision (dget ?L n) = vote n" if "n \<in> set ?ns" for n
    unfolding vote_def by (rule latest_decision[OF that])
  have cong: "filter (\<lambda>n. P n (map_option rv_decision (dget ?L n))) ?ns = filter (\<lambda>n. P n (vote n)) ?ns" for P
    by (rule filter_cong) (simp_all add: d)
  note all = count_all[of "type_map t" ?L ?ns ?z, folded f_def is_inspector_def]
  have f: "tl_total f = length (filter (\<lambda>n. \<not> is_inspector t n) ?ns)"
    "tl_verdict_voted f = length (filter (\<lambda>n. \<not> is_inspector t n \<and> vote n \<noteq> None) ?ns)"
    "tl_fail f = length (filter (\<lambda>n. \<not> is_inspector t n \<and> vote n = Some ''fail'') ?ns)"
    "tl_inspectors f = length (filter (is_inspector t) ?ns)"
    "tl_inspector_voted f = length (filter (\<lambda>n. is_inspector t n \<and> vote n \<noteq> None) ?ns)"
    using all cong[of "\<lambda>n v. \<not> is_inspector t n \<and> v \<noteq> None"] cong[of "\<lambda>n v. \<not> is_inspector t n \<and> v = Some ''fail''"]
      cong[of "\<lambda>n v. is_inspector t n \<and> v \<noteq> None"] by simp_all
  have tally: "tally = f\<lparr>tl_avg := (if tl_scores f = [] then None else Some (fl_avg (map snd (tl_scores f))))\<rparr>"
    by (simp add: tally_def get_review_tally_def Let_def f_def)
  show "tl_total tally > 0 \<and> tl_verdict_voted tally < tl_total tally \<longleftrightarrow> (\<exists>n\<in>set (reviewers t). \<not> is_inspector t n \<and> vote n = None)"
    using length_filter_less[of "\<lambda>n. \<not> is_inspector t n" "\<lambda>n. vote n \<noteq> None" ?ns] by (auto simp: tally f filter_empty_conv)
  show "tl_total tally > 0 \<and> tl_fail tally > 0 \<longleftrightarrow> (\<exists>n\<in>set (reviewers t). \<not> is_inspector t n \<and> vote n = Some ''fail'')"
    by (auto simp: tally f filter_empty_conv)
  show "tl_inspectors tally > 0 \<longleftrightarrow> (\<exists>n\<in>set (reviewers t). is_inspector t n)"
    by (auto simp: tally f filter_empty_conv)
  show "tl_inspector_voted tally < tl_inspectors tally \<longleftrightarrow> (\<exists>n\<in>set (reviewers t). is_inspector t n \<and> vote n = None)"
    using length_filter_less[of "is_inspector t" "\<lambda>n. vote n \<noteq> None" ?ns] by (auto simp: tally f)
  have "tl_scores f = fold (\<lambda>n d. case Option.bind (vote n) score_of of None \<Rightarrow> d | Some x \<Rightarrow> dset n x d) (filter (is_inspector t) ?ns) []"
  proof -
    have "tl_scores f = fold (\<lambda>n d. case Option.bind (map_option rv_decision (dget ?L n)) score_of of None \<Rightarrow> d | Some x \<Rightarrow> dset n x d)
        (filter (is_inspector t) ?ns) []" using all by simp
    also have "\<dots> = fold (\<lambda>n d. case Option.bind (vote n) score_of of None \<Rightarrow> d | Some x \<Rightarrow> dset n x d) (filter (is_inspector t) ?ns) []"
      by (rule fold_cong) (auto simp: d)
    finally show ?thesis .
  qed
  then have "tl_scores f = List.map_filter (\<lambda>n. map_option (Pair n) (Option.bind (vote n) score_of)) (pyset (filter (is_inspector t) ?ns))"
    by (simp only: keyed_fold)
  then have "map snd (tl_scores f) = inspector_scores tid t b"
    by (auto simp: inspector_scores_def vote_def map_filter_def comp_def map_option_case split: option.splits
        intro!: map_cong filter_cong)
  moreover from this have "tl_scores f = [] \<longleftrightarrow> inspector_scores tid t b = []" by (metis list.map_disc_iff)
  ultimately show "tl_avg tally = (if inspector_scores tid t b = [] then None else Some (fl_avg (inspector_scores tid t b)))"
    by (simp add: tally)
qed


text \<open>Two verifiers and an inspector; a fail of the first round and one that was taken back do not count.\<close>

definition demo_review_task :: team_task where
  "demo_review_task =
     \<lparr>tt_team = ''team'', tt_title = ''t'', tt_content = ''c'', tt_status = InReview, tt_assignee = Some ''m'',
      tt_reviewer = Some [ReviewerName ''v'', ReviewerObject (Some ''challenger'') ''w'' [], ReviewerObject (Some ''inspector'') ''i'' []],
      tt_round = 2, tt_max_rounds = None, tt_updated = 0\<rparr>"

definition demo_vote :: "int \<Rightarrow> string \<Rightarrow> string \<Rightarrow> review_vote" where
  "demo_vote r name decision =
     \<lparr>rv_team = ''team'', rv_task = ''a'', rv_round = r, rv_reviewer = name, rv_decision = decision, rv_feedback = None, rv_created = 0\<rparr>"

definition demo_votes :: board where
  "demo_votes = fold insert_review_vote
     [demo_vote 1 ''v'' ''fail'', demo_vote 2 ''v'' ''pass'', demo_vote 2 ''w'' ''fail'', demo_vote 2 ''i'' ''0.85'', demo_vote 2 ''w'' ''pass''] board_init"


section \<open>Behaviour worth knowing\<close>

text \<open>Seven inspectors who all give the threshold do not reach it: the sum is rounded at every step.\<close>

lemma unanimous_threshold_fails:
  "fl_avg (replicate 7 inspector_threshold) < inspector_threshold"
  by code_simp

text \<open>A score is rounded to two digits before it is compared.\<close>

lemma score_is_rounded_up:
  "normalize_decision ''inspector'' ''0.846'' = Inr ''0.85'' \<and> score_of ''0.85'' = Some inspector_threshold"
  by code_simp

text \<open>Without a scheduler the score of an inspector, however good, sends the task back.\<close>

definition demo_review_state :: team_state where
  "demo_review_state = demo_state\<lparr>st_board := put_task ''a'' demo_review_task board_init\<rparr>"

lemma perfect_score_sends_back:
  "status_at (st_board (snd (verify_task (demo_manager ''i'' False) ''a'' ''1.0'' [] demo_review_state))) ''a'' = Some InProgress"
  by code_simp

text \<open>A task that was assigned before it could start cannot be assigned again to the same member, and a plan mode member cannot reserve it.\<close>

lemma assigned_pending_not_assignable:
  "fst (assign (demo_manager ''boss'' False) ''a'' ''h''
      (demo_state\<lparr>st_board := put_task ''a'' (demo_review_task\<lparr>tt_status := Pending, tt_assignee := Some ''h''\<rparr>) board_init\<rparr>)) =
   Inr (Inl (Rejected Pending))"
  by code_simp

text \<open>A batch that is refused has overwritten the body of the task whose id it reused.\<close>

lemma refused_batch_overwrites_body:
  "(let b = snd (mutate_dependency_graph demo_env id 1 ''team'' [demo_spec ''a''] [] board_init);
        (r, b') = mutate_dependency_graph demo_env id 2 ''team'' [(demo_spec ''a'')\<lparr>nt_content := ''other''\<rparr>] [] b
    in (r, get_task demo_env ''a'' b, get_task demo_env ''a'' b')) =
   (let t = (row_of_spec ''team'' 1 (demo_spec ''a'')) in (Inl (TaskExists [''a'']), Inr (Some t), Inr (Some (t\<lparr>tt_content := ''other''\<rparr>))))"
  by code_simp

text \<open>The plan of a task that is already in progress is recorded and can never be decided.\<close>

lemma plan_in_progress_undecidable:
  "(let st = demo_state\<lparr>st_board := put_task ''a'' (demo_task InProgress (Some ''n'')) board_init\<rparr>;
        (r, st') = submit_plan (demo_manager ''n'' False) ''a'' ''f'' (Some ''p'') [] st
    in (r, fst (approve_plan (demo_manager ''boss'' False) ''p'' True [] None st'))) =
   (Inr (Inr (''p'', InProgress, Some ''i'')), Inr (Inl (NotPlanning InProgress)))"
  by code_simp

end
