(* ===== verification/Spec2Isabelle.thy ===== *)
theory Spec2Isabelle
  imports Tag_Manager KV_Store VCS_Manager Graph_Compile Task_Manager Callback_Contract RW_Lock Session_Log Team_Manager_Runs
begin

text \<open>
  A verification library for \<open>src/openjiuwen/core\<close>, the runtime that the agents of this repository
  are built on, and for the task board of its agent teams (\<open>src/openjiuwen/agent_teams\<close>). Paths are relative to
  \<open>core\<close> unless they begin with \<open>agent_teams\<close>.

  \<^bold>\<open>Parts and how they interact.\<close> A workflow is written as a graph of components (\<open>graph/graph.py\<close>),
  compiled into nodes and channels (\<open>graph/pregel/builder.py\<close>) and run in super-steps
  (\<open>graph/pregel/engine.py\<close>) that pass messages through channels (\<open>graph/pregel/channels.py\<close>) and save
  their state in a store (\<open>graph/store/inmemory.py\<close>) when a node fails or interrupts. The runner keeps
  tags of its resources (\<open>runner/resources_manager/tag_manager.py\<close>). A session's state is versioned as a
  log of deltas with commits (\<open>session/vcs\<close>), over a file or a key-value backend, of which the
  in-memory store (\<open>foundation/store/kv/in_memory_kv_store.py\<close>) is one. The controller keeps the tasks it
  schedules in an indexed manager (\<open>controller/modules/task_manager.py\<close>). The parts announce what they do as
  events of a callback framework (\<open>runner/callback\<close>), whose registry calls the callbacks of an event one by one
  through filters, rate limits and circuit breakers, or as a chain that can be rolled back. The components of a
  workflow write their inputs and outputs into the shared states of a session (\<open>session/state\<close>), under paths that
  other components read them from. Local files are guarded by reader-writer locks (\<open>sys_operation/local\<close>).
  The members of an agent team share a board of tasks that depend on each other: tables in a database
  (\<open>agent_teams/tools/database/task_dao.py\<close>) that each member's task manager (\<open>agent_teams/tools/task_manager.py\<close>)
  writes to and announces by events; finished work can be put to reviewers, whose votes give a verdict
  (\<open>agent_teams/agent/scheduling/verdict.py\<close>).

  \<^bold>\<open>Theories.\<close>
  \<^item> \<open>Prelude\<close>: dictionaries in insertion order, sets as lists with their iteration order, results, errors.
    Where Python iterates over a set, the order is an argument \<open>order\<close> of the model, and
    \<open>set_order\<close> says it is a permutation of the set.
  \<^item> \<open>Pyval\<close>, \<open>Decimal\<close>: the values a session's state holds; the printing and parsing of numbers in ids.
  \<^item> \<open>Tag_Manager\<close>: \<open>TagMgr\<close>; each operation of the class is a definition of its name. a run
    refines the run of one relation between resources and tags (C1), the two indexes stay inverse to each
    other (C2), what \<open>find_resources_by_tags\<close> returns.
  \<^item> \<open>KV_Store\<close>: \<open>InMemoryKVStore\<close> with expiry and pipelines, the clock a field of its state: locks, batch deletion.
  \<^item> \<open>VCS_Delta\<close>, \<open>VCS_Backend\<close>, \<open>VCS_Manager\<close>: the version control of a session: \<open>delta.py\<close> (C4: applying a
    difference to the old state gives the new one), the backends (a locale of backends, interpreted on
    the file and on the key-value store, each refining one abstract log), \<open>manager.py\<close>: what is
    restored or rewound to is what was recorded (C8, C9).
  \<^item> \<open>Pregel_Channels\<close>: trigger and barrier channels and their manager: when a barrier is ready (C10), what
    a flush delivers (C11), snapshots (C12).
  \<^item> \<open>Graph_Store\<close>: the store of saved graph states: a locale of stores, interpreted on the in-memory one; what deleting removes.
  \<^item> \<open>Pregel_Engine\<close>: \<open>PregelLoop\<close>, \<open>TaskExecutor\<close>, the routers. What the nodes do and how the event loop
    schedules them in one super-step is an argument of that step (\<open>step_env\<close>). A run ends (C14); a failed
    step accounts for its nodes (C15); an interrupted step that is resumed equals the uninterrupted one (C16).
  \<^item> \<open>Pregel_Builder\<close>: \<open>PregelBuilder\<close>: whatever was built can be started (C17), join edges (C18).
  \<^item> \<open>Graph_Compile\<close>: \<open>PregelGraph\<close> and the analysis of exclusive branches before a join (C19 to C21).
  \<^item> \<open>Task_Manager\<close>: \<open>Task\<close>, \<open>TaskFilter\<close>, \<open>TaskManager\<close>: the four indexes agree with the tasks after any run (C22);
    what a query selects (C23), descendants and parent cycles (C24), what popping removes (C25).
  \<^item> \<open>Callback_Filters\<close>: \<open>filters.py\<close>: a rate limit is a sliding window without bursts (C26), what a circuit
    breaker rejects (C28).
  \<^item> \<open>Callback_Chain\<close>: \<open>CallbackChain\<close>: retries, error handlers and rollback (C29), the chain as a pipeline (C30).
  \<^item> \<open>Callback_Framework\<close>, \<open>Callback_Trigger\<close>: \<open>AsyncCallbackFramework\<close>, its registry and its ways to trigger. What
    callbacks do and what the clock shows is an argument (\<open>fw_env\<close>); what was called is kept in a trace.
  \<^item> \<open>Callback_Runs\<close>: runs of all operations: \<open>trigger_steps\<close> is the interface of a relation that the steps of a
    trigger keep, with the lemma that every trigger keeps it, interpreted by the invariants. References are
    valid (C31), the order of callbacks (C32), once-only callbacks (C33), metrics (C34).
  \<^item> \<open>Callback_Contract\<close>: what one trigger calls and returns (C35), an open circuit blocks.
  \<^item> \<open>RW_Lock\<close>: \<open>HybridAsyncReadWriteLock\<close>: the tasks of several processes as a step relation between their await
    points, the file lock a parameter state; timeouts and cancellations may strike at every wait. Mutual
    exclusion (C37); when the lock is given back (C38).
  \<^item> \<open>Session_Path\<close>, \<open>Session_State\<close>: \<open>session/utils.py\<close> and \<open>session/state\<close>: nested paths into a value, updates by
    path, the states of a workflow with what its nodes have staged. A container that the code hands out is
    the steps that lead to it. \<open>Session_Props\<close>: reading what was written (C39); \<open>Session_Log\<close>: the states of
    a workflow are logs of committed updates (C40).
  \<^item> \<open>Team_Status\<close>, \<open>Team_Cycle\<close>, \<open>Team_Board\<close>: the statuses of members and tasks (\<open>agent_teams/schema/status.py\<close>), the
    search for cycles (\<open>tools/database/graph.py\<close>), which is exact (C13), and \<open>TaskDao\<close>: a record of the tables and one
    definition per operation, a transaction a step. \<open>Team_Board_Inv\<close>: a sound board, kept by every operation;
    \<open>Team_Runs\<close>: after any interleaving of the writes the board is sound (C6) and can be finished (C7), claims are
    exclusive and statuses move along their table (C27).
  \<^item> \<open>Py_Float\<close>: doubles, their reading and printing, and averages, for the scores of reviewers. \<open>Team_Manager\<close>:
    \<open>TeamTaskManager\<close> as calls from a state (board and events) to a result and a state, the tally of votes and the
    verdict. \<open>Team_Manager_Runs\<close>: \<open>call_relation\<close> is the interface of a relation between states that calls keep, with
    the lemmas that composed calls keep it, interpreted on looking; \<open>manager_relation\<close>
    extends it by what one write and one change of the plans keep, with the lemma that then every run of calls keeps it:
    every call is a run of writes (C3), a plan is decided once (C5); what the verdict on a review says of the votes (C36).

  \<^bold>\<open>Conventions.\<close> A class is a record of its fields, a method a function from the state to the state and a
  result; a raise is \<open>Inl\<close> of an error, with what the method had changed before it in the state that is
  returned. Dictionaries are association lists, so their order is the insertion order. Methods that
  hold an \<open>asyncio.Lock\<close> throughout are one step.

  \<^bold>\<open>Bounds and fuel.\<close> The main loop of a graph run takes the number of calls of \<open>run_step\<close> it may make;
  \<open>effective_limit + 3\<close> of them are enough whatever the nodes do (C14). Loops that may not end are
  \<open>partial_function\<close>s: the climb to the root of a branch (C21), the recursion over child tasks (C24).

  \<^bold>\<open>Not modelled.\<close> Everything that is a call of a model, a network client or a third-party store; tracing,
  streaming, logging; the applications under \<open>harness\<close>, \<open>rsi\<close> and the other packages beside \<open>core\<close>, whose
  behaviour is that of the models and services they drive. Of \<open>agent_teams\<close> all but the task board and its manager:
  member runtimes, messages and processes.
\<close>

end
